(* ===== verification/Hlc.thy ===== *)
theory Hlc
  imports Prelude
begin

text \<open>
  The hybrid logical clock of \<open>src/core/hlc.rs\<close>: a 64-bit word with the physical
  milliseconds in the high 48 bits and a counter in the low 16.

  \<open>now\<close> is modelled twice.  \<open>hlc_now\<close> is one uninterrupted call, a function of the wall
  clock and of the watermark \<open>LAST\<close>.  \<open>now_step\<close> is the loop of the source at the
  granularity of its atomic accesses (load, weak compare-exchange, fetch-add), for any
  number of threads in any interleaving, with every wall-clock reading at most \<open>clock_max\<close>;
  the addition wraps at 64 bits.  The theorems show that the values issued are
  strictly increasing in the order of issue, whatever the clock and the scheduler do.
\<close>

section \<open>Definitions\<close>

definition COUNTER_MASK :: u64 where
  "COUNTER_MASK = 0xFFFF"

definition PHYS_SHIFT :: nat where
  "PHYS_SHIFT = 16"

text \<open>The tuple struct \<open>Hlc(u64)\<close> is its word.\<close>

type_synonym hlc = u64

definition ms :: "hlc \<Rightarrow> u64" where
  "ms h = drop_bit PHYS_SHIFT h"

definition counter :: "hlc \<Rightarrow> u16" where
  "counter h = ucast (h AND COUNTER_MASK)"

definition observed :: "hlc \<Rightarrow> hlc \<Rightarrow> hlc" where
  "observed self other =
     (let prev_phys = drop_bit PHYS_SHIFT self;
          m = max self other
      in if drop_bit PHYS_SHIFT m = prev_phys then
           (let c = (m AND COUNTER_MASK) + 1
            in if c > COUNTER_MASK then push_bit PHYS_SHIFT (prev_phys + 1)
               else (m AND NOT COUNTER_MASK) OR c)
         else m)"

text \<open>One call of \<open>Hlc::now\<close> that is not interrupted: the value returned and the new
  watermark, for the wall-clock milliseconds \<open>wall\<close> and the watermark \<open>cur\<close>.\<close>

definition hlc_now :: "u64 \<Rightarrow> u64 \<Rightarrow> hlc \<times> u64" where
  "hlc_now wall cur =
     (let base = push_bit PHYS_SHIFT wall
      in if base > cur then (base, base) else (cur + 1, cur + 1))"

fun hlc_now_seq :: "u64 list \<Rightarrow> u64 \<Rightarrow> hlc list \<times> u64" where
  "hlc_now_seq [] cur = ([], cur)"
| "hlc_now_seq (w # ws) cur =
     (let (h, cur') = hlc_now w cur; (hs, cur'') = hlc_now_seq ws cur' in (h # hs, cur''))"

text \<open>Where a thread is in the body of \<open>now\<close>: outside it, at the head of the loop with
  its \<open>base\<close>, or past the load with the value it read.\<close>

datatype now_pc = Idle | AtLoop u64 | Loaded u64 u64

record now_state =
  LAST :: u64
  pcs :: "nat \<Rightarrow> now_pc"
  issued :: "hlc list"

definition now_init :: now_state where
  "now_init = \<lparr>LAST = 0, pcs = (\<lambda>_. Idle), issued = []\<rparr>"

inductive now_step :: "u64 \<Rightarrow> now_state \<Rightarrow> now_state \<Rightarrow> bool" for clock_max :: u64 where
  call: "pcs s t = Idle \<Longrightarrow> wall \<le> clock_max \<Longrightarrow>
    now_step clock_max s (s\<lparr>pcs := (pcs s)(t := AtLoop (push_bit PHYS_SHIFT wall))\<rparr>)"
| load: "pcs s t = AtLoop base \<Longrightarrow>
    now_step clock_max s (s\<lparr>pcs := (pcs s)(t := Loaded base (LAST s))\<rparr>)"
| cas_ok: "pcs s t = Loaded base cur \<Longrightarrow> base > cur \<Longrightarrow> LAST s = cur \<Longrightarrow>
    now_step clock_max s
      (s\<lparr>LAST := base, pcs := (pcs s)(t := Idle), issued := issued s @ [base]\<rparr>)"
| cas_fail: "pcs s t = Loaded base cur \<Longrightarrow> base > cur \<Longrightarrow>
    now_step clock_max s (s\<lparr>pcs := (pcs s)(t := AtLoop base)\<rparr>)"
| bump: "pcs s t = Loaded base cur \<Longrightarrow> \<not> base > cur \<Longrightarrow>
    now_step clock_max s
      (s\<lparr>LAST := LAST s + 1, pcs := (pcs s)(t := Idle), issued := issued s @ [LAST s + 1]\<rparr>)"

text \<open>The \<open>base\<close> a thread carries comes from a clock reading.\<close>

fun pc_ok :: "u64 \<Rightarrow> now_pc \<Rightarrow> bool" where
  "pc_ok clock_max Idle = True"
| "pc_ok clock_max (AtLoop base) = (unat base \<le> unat clock_max * 65536)"
| "pc_ok clock_max (Loaded base cur) = (unat base \<le> unat clock_max * 65536)"

text \<open>The watermark dominates everything issued so far, and one millisecond past the
  largest clock reading is the most it can reach per \<open>65536\<close> values issued.\<close>

definition now_inv :: "u64 \<Rightarrow> now_state \<Rightarrow> bool" where
  "now_inv clock_max s =
     (sorted_wrt (<) (issued s) \<and> (\<forall>h \<in> set (issued s). h \<le> LAST s) \<and>
      unat (LAST s) \<le> unat clock_max * 65536 + length (issued s) \<and>
      (\<forall>t. pc_ok clock_max (pcs s t)))"

section \<open>Auxiliary lemmas\<close>

lemma COUNTER_MASK_mask: "COUNTER_MASK = mask 16"
  by (simp add: COUNTER_MASK_def mask_eq_exp_minus_1)

lemma unat_ms: "unat (ms h) = unat h div 65536"
  by (simp add: ms_def PHYS_SHIFT_def unat_drop_bit)

lemma unat_and_COUNTER_MASK: "unat (h AND COUNTER_MASK) = unat h mod 65536"
  by (simp add: COUNTER_MASK_mask unat_and_mask)

lemma unat_counter: "unat (counter h) = unat h mod 65536"
proof -
  have "unat (h AND COUNTER_MASK) < 2 ^ 16"
    by (simp add: unat_and_COUNTER_MASK)
  then show ?thesis
    unfolding counter_def by (simp add: unsigned_ucast_eq take_bit_nat_eq_self unat_and_COUNTER_MASK)
qed

lemma and_not_mask_plus: "(m AND NOT COUNTER_MASK) + (m AND COUNTER_MASK) = (m :: u64)"
proof -
  have "(m AND NOT COUNTER_MASK) AND (m AND COUNTER_MASK) = 0"
    by (rule bit_eqI) (auto simp: bit_simps)
  then have "(m AND NOT COUNTER_MASK) + (m AND COUNTER_MASK) =
      (m AND NOT COUNTER_MASK) OR (m AND COUNTER_MASK)"
    by (rule disjunctive_add_eq_or)
  also have "\<dots> = m" by (rule bit_eqI) (auto simp: bit_simps)
  finally show ?thesis .
qed

lemma or_low_is_plus:
  assumes "c \<le> COUNTER_MASK"
  shows "(m AND NOT COUNTER_MASK) OR c = (m AND NOT COUNTER_MASK) + (c :: u64)"
proof -
  have "unat c < 2 ^ 16" using assms by (simp add: word_le_unat COUNTER_MASK_def)
  then have "unat (c AND COUNTER_MASK) = unat c" by (simp add: unat_and_COUNTER_MASK)
  then have c: "c = c AND COUNTER_MASK" by (simp add: word_unat_eq_iff)
  have "(m AND NOT COUNTER_MASK) AND (c AND COUNTER_MASK) = 0"
    by (rule bit_eqI) (auto simp: bit_simps)
  then show ?thesis using c by (metis disjunctive_add_eq_or)
qed

lemma observed_carry:
  assumes "(m AND COUNTER_MASK) + 1 > COUNTER_MASK"
  shows "push_bit PHYS_SHIFT (drop_bit PHYS_SHIFT m + 1) = (m :: u64) + 1"
proof -
  have "unat (m AND COUNTER_MASK) < 65536" by (simp add: unat_and_COUNTER_MASK)
  moreover have "unat ((m AND COUNTER_MASK) + 1) = Suc (unat (m AND COUNTER_MASK))"
  proof (rule unat_Suc_no_wrap)
    show "m AND COUNTER_MASK \<noteq> - 1"
      using calculation by (auto simp: unsigned_minus_1_eq_mask mask_eq_exp_minus_1)
  qed
  ultimately have low: "m AND COUNTER_MASK = 0xFFFF"
    using assms by (simp add: word_less_unat COUNTER_MASK_def word_unat_eq_iff)
  have "push_bit 16 (drop_bit 16 m) = m AND NOT COUNTER_MASK"
    by (rule bit_eqI) (auto simp: bit_simps COUNTER_MASK_mask)
  then have "push_bit 16 (drop_bit 16 m + 1) = (m AND NOT COUNTER_MASK) + 0x10000"
    by (simp add: push_bit_add)
  also have "\<dots> = (m AND NOT COUNTER_MASK) + (m AND COUNTER_MASK) + 1" by (simp add: low)
  finally show ?thesis by (simp add: and_not_mask_plus PHYS_SHIFT_def)
qed

lemma observed_alt:
  "observed self other =
     (let m = max self other in if ms m = ms self then m + 1 else m)"
proof -
  let ?m = "max self other"
  have "(?m AND NOT COUNTER_MASK) OR ((?m AND COUNTER_MASK) + 1) = ?m + 1"
    if "\<not> (?m AND COUNTER_MASK) + 1 > COUNTER_MASK"
    using that and_not_mask_plus [of ?m] or_low_is_plus [of "(?m AND COUNTER_MASK) + 1" ?m]
    by (simp add: add.assoc [symmetric] not_less)
  moreover have "push_bit PHYS_SHIFT (drop_bit PHYS_SHIFT self + 1) = ?m + 1"
    if "(?m AND COUNTER_MASK) + 1 > COUNTER_MASK" "drop_bit PHYS_SHIFT ?m = drop_bit PHYS_SHIFT self"
    using observed_carry [OF that(1)] that(2) by simp
  ultimately show ?thesis
    unfolding observed_def Let_def ms_def by auto
qed

lemma hlc_now_cases:
  assumes "cur \<noteq> - 1"
  shows "cur < fst (hlc_now wall cur)" "snd (hlc_now wall cur) = fst (hlc_now wall cur)"
  using unat_Suc_no_wrap [OF assms] by (auto simp: hlc_now_def Let_def word_less_unat)

lemma now_inv_init: "now_inv clock_max now_init"
  by (simp add: now_inv_def now_init_def)

lemma now_inv_issue:
  assumes "now_inv clock_max s" "LAST s < h"
    and "unat h \<le> unat clock_max * 65536 + Suc (length (issued s))"
  shows "now_inv clock_max
           (s\<lparr>LAST := h, pcs := (pcs s)(t := Idle), issued := issued s @ [h]\<rparr>)"
  using assms by (auto simp: now_inv_def sorted_wrt_append)

lemma unat_push_phys:
  assumes "(wall :: u64) \<le> clock_max"
  shows "unat (push_bit PHYS_SHIFT wall) \<le> unat clock_max * 65536"
proof -
  have "unat (push_bit PHYS_SHIFT wall) \<le> unat wall * 65536"
    by (simp add: PHYS_SHIFT_def push_bit_eq_mult unat_word_ariths)
  then show ?thesis using assms by (simp add: word_le_unat)
qed

lemma now_inv_step:
  assumes "now_step clock_max s s'" "now_inv clock_max s"
    and "unat clock_max * 65536 + length (issued s') < 2 ^ 64"
  shows "now_inv clock_max s'"
  using assms(1)
proof (cases rule: now_step.cases)
  case (call t wall)
  then show ?thesis using assms(2) unat_push_phys by (auto simp: now_inv_def)
next
  case (load t base)
  then have "pc_ok clock_max (AtLoop base)" using assms(2) by (metis now_inv_def)
  then show ?thesis using assms(2) load by (auto simp: now_inv_def)
next
  case (cas_ok t base cur)
  then have "pc_ok clock_max (Loaded base cur)" using assms(2) by (metis now_inv_def)
  then show ?thesis using cas_ok now_inv_issue [OF assms(2)] by simp
next
  case (cas_fail t base cur)
  then have "pc_ok clock_max (Loaded base cur)" using assms(2) by (metis now_inv_def)
  then show ?thesis using assms(2) cas_fail by (auto simp: now_inv_def)
next
  case (bump t base cur)
  have top: "unat (LAST s) < 2 ^ 64 - 1" using assms(2,3) bump(1) by (simp add: now_inv_def)
  then have "unat (LAST s + 1) = Suc (unat (LAST s))"
    by (intro unat_Suc_no_wrap) (auto simp: unsigned_minus_1_eq_mask mask_eq_exp_minus_1)
  moreover have "unat (LAST s) \<le> unat clock_max * 65536 + length (issued s)"
    using assms(2) by (simp add: now_inv_def)
  ultimately show ?thesis
    using now_inv_issue [OF assms(2), of "LAST s + 1"] bump(1) by (simp add: word_less_unat)
qed

lemma issued_step: "now_step clock_max s s' \<Longrightarrow> length (issued s) \<le> length (issued s')"
  by (cases rule: now_step.cases) auto

lemma now_inv_reachable:
  assumes "(now_step clock_max)\<^sup>*\<^sup>* now_init s"
    and "unat clock_max * 65536 + length (issued s) < 2 ^ 64"
  shows "now_inv clock_max s"
  using assms
proof (induction rule: rtranclp_induct)
  case base
  then show ?case by (simp add: now_inv_init)
next
  case (step s s')
  then have "unat clock_max * 65536 + length (issued s) < 2 ^ 64"
    using issued_step [OF step(2)] by linarith
  then show ?case using step by (auto intro: now_inv_step)
qed

text \<open>Two threads race in millisecond 1: the first claims \<open>1 << 16\<close>, the second loses the
  exchange, reloads and bumps the counter.\<close>

lemma race_reachable: "\<exists>s. (now_step 1)\<^sup>*\<^sup>* now_init s \<and> issued s = [65536, 65537]"
proof -
  let ?b = "push_bit PHYS_SHIFT 1 :: u64"
  define s1 where "s1 = now_init\<lparr>pcs := (pcs now_init)(0 := AtLoop ?b)\<rparr>"
  define s2 where "s2 = s1\<lparr>pcs := (pcs s1)(1 := AtLoop ?b)\<rparr>"
  define s3 where "s3 = s2\<lparr>pcs := (pcs s2)(0 := Loaded ?b (LAST s2))\<rparr>"
  define s4 where "s4 = s3\<lparr>pcs := (pcs s3)(1 := Loaded ?b (LAST s3))\<rparr>"
  define s5 where "s5 = s4\<lparr>LAST := ?b, pcs := (pcs s4)(0 := Idle), issued := issued s4 @ [?b]\<rparr>"
  define s6 where "s6 = s5\<lparr>pcs := (pcs s5)(1 := AtLoop ?b)\<rparr>"
  define s7 where "s7 = s6\<lparr>pcs := (pcs s6)(1 := Loaded ?b (LAST s6))\<rparr>"
  define s8 where "s8 = s7\<lparr>LAST := LAST s7 + 1, pcs := (pcs s7)(1 := Idle),
    issued := issued s7 @ [LAST s7 + 1]\<rparr>"
  note defs = s1_def s2_def s3_def s4_def s5_def s6_def s7_def s8_def now_init_def PHYS_SHIFT_def
  have "now_step 1 now_init s1" unfolding s1_def by (rule call) (simp_all add: defs)
  moreover have "now_step 1 s1 s2" unfolding s2_def by (rule call) (simp_all add: defs)
  moreover have "now_step 1 s2 s3" unfolding s3_def by (rule load) (simp add: defs)
  moreover have "now_step 1 s3 s4" unfolding s4_def by (rule load) (simp add: defs)
  moreover have "now_step 1 s4 s5"
    unfolding s5_def by (rule cas_ok [where cur = 0]) (simp_all add: defs)
  moreover have "now_step 1 s5 s6"
    unfolding s6_def by (rule cas_fail [where cur = 0]) (simp_all add: defs)
  moreover have "now_step 1 s6 s7" unfolding s7_def by (rule load) (simp add: defs)
  moreover have "now_step 1 s7 s8"
    unfolding s8_def by (rule bump [where base = ?b and cur = "LAST s6"]) (simp_all add: defs)
  ultimately have "(now_step 1)\<^sup>*\<^sup>* now_init s8"
    by (meson converse_rtranclp_into_rtranclp rtranclp.rtrancl_refl)
  moreover have "issued s8 = [65536, 65537]" by (simp add: defs)
  ultimately show ?thesis by blast
qed

section \<open>Properties\<close>

text \<open>C17.  However the threads calling \<open>Hlc::now\<close> interleave, whatever the wall clock reads
  (up to \<open>clock_max\<close>, steps backward included) and however often the weak
  compare-exchange fails, the values issued are strictly increasing in the order of
  issue, hence pairwise distinct, as long as the 64-bit watermark cannot wrap.\<close>

theorem now_strictly_increasing:
  assumes "(now_step clock_max)\<^sup>*\<^sup>* now_init s"
    and "unat clock_max * 65536 + length (issued s) < 2 ^ 64"
  shows "sorted_wrt (<) (issued s) \<and> distinct (issued s) \<and>
         (\<forall>h \<in> set (issued s). h \<le> LAST s)"
proof -
  have "sorted_wrt (<) (issued s)" "\<forall>h \<in> set (issued s). h \<le> LAST s"
    using now_inv_reachable [OF assms] by (auto simp: now_inv_def)
  then show ?thesis by (simp add: strict_sorted_iff)
qed

theorem now_strictly_increasing_witness:
  "\<exists>s. (now_step 1)\<^sup>*\<^sup>* now_init s \<and> issued s = [65536, 65537] \<and> distinct (issued s)"
proof -
  obtain s where s: "(now_step 1)\<^sup>*\<^sup>* now_init s" "issued s = [65536, 65537]"
    using race_reachable by blast
  then have "unat (1 :: u64) * 65536 + length (issued s) < 2 ^ 64" by simp
  from now_strictly_increasing [OF s(1) this] s show ?thesis by blast
qed

text \<open>\<open>observed\<close> is the larger of the two clocks, advanced by one tick when its
  millisecond is the one already held; so, short of the last 64-bit value, it is never
  below either clock and strictly above the own one.\<close>

theorem observed_merges:
  assumes "max self other \<noteq> - 1"
  shows "observed self other = (if ms (max self other) = ms self then max self other + 1
                                else max self other) \<and>
         self < observed self other \<and> other \<le> observed self other"
proof -
  let ?m = "max self other"
  have up: "?m < ?m + 1" using unat_Suc_no_wrap [OF assms] by (simp add: word_less_unat)
  have "self < ?m" if "ms ?m \<noteq> ms self"
    using that by (cases "self < other") (auto simp: max_def not_less order.strict_iff_order)
  then show ?thesis
    using up by (auto simp: observed_alt Let_def intro: le_less_trans less_imp_le)
qed

theorem observed_merges_witness:
  "observed 0x1FFFF 0x10005 = 0x20000 \<and> (0x1FFFF :: u64) < observed 0x1FFFF 0x10005"
proof -
  have "max 0x1FFFF 0x10005 \<noteq> (- 1 :: u64)" by simp
  from observed_merges [OF this] show ?thesis
    by (simp add: ms_def PHYS_SHIFT_def)
qed

end
