(* ===== verification/Crc32.thy ===== *)
theory Crc32
  imports Prelude
begin

text \<open>
  The hand-rolled CRC-32 of \<open>src/storage/log.rs\<close>: the table built at first use and the
  table-driven loop over two byte slices.  The lemmas show that the table-driven update
  equals eight steps of the bitwise definition, and that the update is injective in the
  register and in the byte, so that a message with one corrupted byte never keeps its
  checksum.
\<close>

section \<open>Definitions\<close>

definition crc_bit :: "u32 \<Rightarrow> u32" where
  "crc_bit c = (if c AND 1 \<noteq> 0 then 0xEDB88320 XOR drop_bit 1 c else drop_bit 1 c)"

definition crc_entry :: "nat \<Rightarrow> u32" where
  "crc_entry i = (crc_bit ^^ 8) (of_nat i)"

definition CRC_TABLE :: "u32 list" where
  "CRC_TABLE = map crc_entry [0..<256]"

definition crc_update :: "u32 \<Rightarrow> byte \<Rightarrow> u32" where
  "crc_update c b = CRC_TABLE ! unat ((c XOR ucast b) AND 0xFF) XOR drop_bit 8 c"

definition crc32_parts :: "bytes \<Rightarrow> bytes \<Rightarrow> u32" where
  "crc32_parts a b = foldl crc_update 0xFFFFFFFF (a @ b) XOR 0xFFFFFFFF"

definition crc32 :: "bytes \<Rightarrow> u32" where
  "crc32 data = crc32_parts data []"

text \<open>The bitwise definition of the checksum: one shift of the register per message bit.\<close>

definition crc_update_bitwise :: "u32 \<Rightarrow> byte \<Rightarrow> u32" where
  "crc_update_bitwise c b = (crc_bit ^^ 8) (c XOR ucast b)"

definition crc32_bitwise :: "bytes \<Rightarrow> u32" where
  "crc32_bitwise data = foldl crc_update_bitwise 0xFFFFFFFF data XOR 0xFFFFFFFF"

section \<open>The register update is linear\<close>

lemma and_1_bit: "(c :: u32) AND 1 \<noteq> 0 \<longleftrightarrow> bit c 0"
  by (simp add: and_one_eq odd_iff_mod_2_eq_one [symmetric] bit_0 mod_2_eq_odd)

lemma crc_bit_alt: "crc_bit c = (if bit c 0 then 0xEDB88320 else 0) XOR drop_bit 1 c"
  by (simp add: crc_bit_def and_1_bit)

lemma crc_bit_xor: "crc_bit (a XOR b) = crc_bit a XOR crc_bit b"
  by (rule bit_word_eqI) (auto simp: crc_bit_alt bit_simps)

lemma crc_bits_xor: "(crc_bit ^^ n) (a XOR b) = (crc_bit ^^ n) a XOR (crc_bit ^^ n) b"
  by (induction n) (auto simp: crc_bit_xor)

lemma crc_bits_high:
  assumes "\<And>i. i < n \<Longrightarrow> \<not> bit c i"
  shows "(crc_bit ^^ n) c = drop_bit n c"
  using assms
proof (induction n arbitrary: c)
  case 0
  then show ?case by simp
next
  case (Suc n)
  have "crc_bit c = drop_bit 1 c" using Suc(2) [of 0] by (simp add: crc_bit_alt)
  moreover have "(crc_bit ^^ n) (drop_bit 1 c) = drop_bit n (drop_bit 1 c)"
    by (rule Suc(1)) (use Suc(2) in \<open>auto simp: bit_simps\<close>)
  ultimately show ?case by (simp add: funpow_swap1 [symmetric] funpow_Suc_right del: funpow.simps)
qed

lemma crc_bit_top: "bit (crc_bit c) 31 = bit c 0"
proof -
  have "bit (0xEDB88320 :: u32) 31" by code_simp
  moreover have "\<not> bit (drop_bit 1 c) 31" by (auto simp: bit_simps dest: bit_imp_le_length)
  ultimately show ?thesis by (simp add: crc_bit_alt bit_simps)
qed

lemma inj_crc_bit: "inj crc_bit"
proof (rule injI)
  fix a b assume eq: "crc_bit a = crc_bit b"
  then have low: "bit a 0 = bit b 0" by (metis crc_bit_top)
  then have "drop_bit 1 a = drop_bit 1 b"
    using eq by (auto simp: crc_bit_alt xor_left_cancel_word split: if_splits)
  then have "bit a (Suc i) = bit b (Suc i)" for i
    by (metis bit_drop_bit_eq comp_apply plus_1_eq_Suc)
  then show "a = b" using low by (intro bit_word_eqI) (metis not0_implies_Suc)
qed

lemma inj_crc_bits: "inj (crc_bit ^^ n)"
  by (induction n) (auto intro: inj_compose [OF inj_crc_bit, unfolded comp_def] simp: comp_def)

section \<open>The table-driven update\<close>

lemma CRC_TABLE_nth: "i < 256 \<Longrightarrow> CRC_TABLE ! i = (crc_bit ^^ 8) (of_nat i)"
  by (simp add: CRC_TABLE_def crc_entry_def)

lemma crc_update_eq_bitwise: "crc_update c b = crc_update_bitwise c b"
proof -
  let ?x = "c XOR ucast b :: u32"
  let ?lo = "?x AND 0xFF" and ?hi = "?x AND NOT 0xFF"
  have m: "(0xFF :: u32) = mask 8" by (simp add: mask_eq_exp_minus_1)
  have split: "?x = ?lo XOR ?hi" by (rule bit_word_eqI) (auto simp: bit_simps)
  have "unat ?lo < 256" by (simp add: m unat_and_mask)
  then have lo: "CRC_TABLE ! unat ?lo = (crc_bit ^^ 8) ?lo" by (simp add: CRC_TABLE_nth)
  have "(crc_bit ^^ 8) ?hi = drop_bit 8 ?hi"
    by (rule crc_bits_high) (simp add: m bit_simps)
  also have "\<dots> = drop_bit 8 c"
    by (rule bit_word_eqI) (auto simp: m bit_simps dest: bit_imp_le_length)
  finally have "(crc_bit ^^ 8) ?x = (crc_bit ^^ 8) ?lo XOR drop_bit 8 c"
    by (subst split) (simp only: crc_bits_xor)
  then show ?thesis by (simp add: crc_update_def crc_update_bitwise_def lo)
qed

lemma crc_update_inj_reg: "crc_update c b = crc_update d b \<longleftrightarrow> c = d"
proof
  assume "crc_update c b = crc_update d b"
  then have "c XOR ucast b = d XOR ucast b"
    using inj_crc_bits [of 8] by (simp add: crc_update_eq_bitwise crc_update_bitwise_def inj_eq)
  then show "c = d" by (simp only: xor_right_cancel_word)
qed simp

lemma crc_update_inj_byte: "crc_update c a = crc_update c b \<longleftrightarrow> a = b"
proof
  assume "crc_update c a = crc_update c b"
  then have "c XOR ucast a = c XOR ucast b"
    using inj_crc_bits [of 8] by (simp add: crc_update_eq_bitwise crc_update_bitwise_def inj_eq)
  then have "(ucast a :: u32) = ucast b" by (simp only: xor_left_cancel_word)
  then have "unat (ucast a :: u32) = unat (ucast b :: u32)" by simp
  moreover have "unat (ucast x :: u32) = unat x" for x :: byte
    using unsigned_less [of x, where ?'a = nat]
    by (simp add: unsigned_ucast_eq take_bit_nat_eq_self_iff)
  ultimately show "a = b" by (simp add: word_unat_eq_iff)
qed simp

lemma foldl_crc_inj: "foldl crc_update c xs = foldl crc_update d xs \<longleftrightarrow> c = d"
  by (induction xs arbitrary: c d) (auto simp: crc_update_inj_reg)

lemma crc32_parts_one_byte:
  "crc32_parts a (xs @ u # ys) = crc32_parts a (xs @ v # ys) \<longleftrightarrow> u = v"
  by (simp add: crc32_parts_def xor_right_cancel_word foldl_crc_inj crc_update_inj_byte)

lemma crc32_parts_first_byte:
  "crc32_parts [u] ys = crc32_parts [v] ys \<longleftrightarrow> u = v"
  by (simp add: crc32_parts_def xor_right_cancel_word foldl_crc_inj crc_update_inj_byte)

section \<open>Properties\<close>

text \<open>The table-driven checksum of two slices is the bitwise CRC-32 of their
  concatenation.\<close>

theorem crc32_parts_eq_bitwise: "crc32_parts a b = crc32_bitwise (a @ b)"
proof -
  have "crc_update = crc_update_bitwise" by (intro ext) (rule crc_update_eq_bitwise)
  then show ?thesis by (simp add: crc32_parts_def crc32_bitwise_def)
qed

end
