(* ===== verification/LogRecord.thy ===== *)
theory LogRecord
  imports Crc32
begin

text \<open>
  Log records of \<open>src/storage/log.rs\<close>: the wire layout written by \<open>Record::to_bytes\<close> and
  read back by \<open>Record::parse_chain_impl\<close>.  The chain hash \<open>sha256\<close> is a parameter of
  \<open>record_hash\<close>.  Error values keep the constructors of \<open>StorageError\<close>; the detail text
  keeps the words of the source without the interpolated numbers.  \<open>Panic\<close> is a slice
  access out of range, which aborts the Rust call.

  The lemmas show that parsing inverts serialising for every well-formed record, batches
  included, that one corrupted byte anywhere in a record is always refused, and where
  the parser reads past the end of a record.
\<close>

section \<open>Definitions\<close>

datatype storage_error =
    Corrupt "string option" string
  | Io string
  | NotFound string
  | NoScope
  | NamespaceExists string
  | BadName string
  | QuotaExceeded string u64
  | Panic

definition TAG_PUT :: byte where "TAG_PUT = 0x01"
definition TAG_DEL :: byte where "TAG_DEL = 0x02"
definition TAG_PUT_TTL :: byte where "TAG_PUT_TTL = 0x03"
definition TAG_SCHEMA :: byte where "TAG_SCHEMA = 0x04"
definition TAG_INDEX :: byte where "TAG_INDEX = 0x05"
definition TAG_BATCH :: byte where "TAG_BATCH = 0x06"

definition HEADER_LEN :: nat where "HEADER_LEN = 41"

datatype log_record = Record
  (r_tag: byte)
  (r_key: bytes)
  (r_hlc: u64)
  (r_replica: bytes)
  (r_author: bytes)
  (r_value: bytes)
  (r_expires_at: u64)
  (r_ops: "log_record list")

definition valid_tag :: "byte \<Rightarrow> bool" where
  "valid_tag t = (t = TAG_PUT \<or> t = TAG_DEL \<or> t = TAG_PUT_TTL \<or> t = TAG_SCHEMA \<or>
                  t = TAG_INDEX \<or> t = TAG_BATCH)"

definition valid_sub_tag :: "byte \<Rightarrow> bool" where
  "valid_sub_tag t = (t = TAG_PUT \<or> t = TAG_PUT_TTL \<or> t = TAG_DEL)"

definition payload_bytes :: "log_record \<Rightarrow> bytes" where
  "payload_bytes r =
     u32_to_le (of_nat (length (r_key r))) @ r_key r @ u64_to_le (r_hlc r) @
     r_replica r @ r_author r @ u64_to_le (of_nat (length (r_value r))) @ r_value r @
     (if r_tag r = TAG_PUT_TTL then u64_to_le (r_expires_at r) else [])"

definition batch_payload :: "log_record list \<Rightarrow> bytes" where
  "batch_payload ops =
     u32_to_le (of_nat (length ops)) @ concat (map (\<lambda>op. r_tag op # payload_bytes op) ops)"

text \<open>The header around a payload: the checksum covers the tag byte and everything from
  \<open>prev\<close> on, and is patched over the four placeholder bytes.\<close>

definition seal :: "byte \<Rightarrow> bytes \<Rightarrow> bytes \<Rightarrow> bytes" where
  "seal tag prev payload =
     (let out = [tag] @ u32_to_le (of_nat (length payload)) @ [0, 0, 0, 0] @ prev @ payload;
          crc = crc32_parts (take 1 out) (drop 9 out)
      in take 5 out @ u32_to_le crc @ drop 9 out)"

definition to_bytes :: "log_record \<Rightarrow> bytes \<Rightarrow> bytes" where
  "to_bytes r prev =
     seal (r_tag r) prev
       (if r_tag r = TAG_BATCH then batch_payload (r_ops r) else payload_bytes r)"

definition parse_payload :: "byte \<Rightarrow> bytes \<Rightarrow> nat \<Rightarrow> (storage_error, log_record \<times> nat) result" where
  "parse_payload tag bs p =
     (if p + 4 > length bs then Err (Corrupt None ''key_len overruns'')
      else let key_len = unat (u32_from_le (slice p (p + 4) bs)); p = p + 4
      in if key_len > length bs - p then Err (Corrupt None ''key_len overruns'')
      else let key = slice p (p + key_len) bs; p = p + key_len
      in if p + 8 > length bs then Err (Corrupt None ''hlc overruns'')
      else let hlc = u64_from_le (slice p (p + 8) bs); p = p + 8
      in if p + 64 > length bs then Err (Corrupt None ''keys overrun'')
      else let replica = slice p (p + 32) bs; p = p + 32;
               author = slice p (p + 32) bs; p = p + 32
      in if p + 8 > length bs then Err Panic
      else let val_len = unat (u64_from_le (slice p (p + 8) bs)); p = p + 8
      in if val_len > length bs - p then Err (Corrupt None ''val_len overruns'')
      else let val = slice p (p + val_len) bs; p = p + val_len
      in if tag = TAG_PUT_TTL then
           (if p + 8 > length bs then Err (Corrupt None ''expires_at overruns'')
            else Ok (Record tag key hlc replica author val (u64_from_le (slice p (p + 8) bs)) [],
                     p + 8))
         else Ok (Record tag key hlc replica author val 0 [], p))"

primrec parse_ops :: "nat \<Rightarrow> bytes \<Rightarrow> nat \<Rightarrow> (storage_error, log_record list \<times> nat) result" where
  "parse_ops 0 bs p = Ok ([], p)"
| "parse_ops (Suc count) bs p =
     (if p \<ge> length bs then Err (Corrupt None ''batch sub-op overruns'')
      else if \<not> valid_sub_tag (bs ! p) then Err (Corrupt None ''bad batch sub-op tag'')
      else case parse_payload (bs ! p) bs (p + 1) of
        Inl e \<Rightarrow> Err e
      | Inr (sub, np) \<Rightarrow>
          (case parse_ops count bs np of
             Inl e \<Rightarrow> Err e
           | Inr (ops, p') \<Rightarrow> Ok (sub # ops, p')))"

text \<open>The record a batch parses to: its identity mirrors the first sub-operation.\<close>

definition batch_record :: "log_record list \<Rightarrow> log_record" where
  "batch_record ops =
     (case ops of
        [] \<Rightarrow> Record TAG_BATCH [] 0 zero32 zero32 [] 0 ops
      | op # _ \<Rightarrow> Record TAG_BATCH [] (r_hlc op) (r_replica op) (r_author op) [] 0 ops)"

definition parse_body :: "byte \<Rightarrow> bytes \<Rightarrow> (storage_error, log_record) result" where
  "parse_body tag bs =
     (let p = HEADER_LEN in
      if tag = TAG_BATCH then
        (if p + 4 > length bs then Err (Corrupt None ''batch count overruns'')
         else let count = unat (u32_from_le (slice p (p + 4) bs)) in
           (case parse_ops count bs (p + 4) of
              Inl e \<Rightarrow> Err e
            | Inr (ops, _) \<Rightarrow> Ok (batch_record ops)))
      else (case parse_payload tag bs p of Inl e \<Rightarrow> Err e | Inr (r, _) \<Rightarrow> Ok r))"

definition parse_chain :: "bytes \<Rightarrow> bytes option \<Rightarrow> (storage_error, log_record \<times> bytes) result" where
  "parse_chain bs expected_prev =
     (if length bs < HEADER_LEN then Err (Corrupt None ''record shorter than header'')
      else let tag = bs ! 0 in
        if \<not> valid_tag tag then Err (Corrupt None ''bad record tag'')
        else if unat (u32_from_le (slice 1 5 bs)) \<noteq> length bs - HEADER_LEN
        then Err (Corrupt None ''record len mismatch'')
        else if crc32_parts (take 1 bs) (drop 9 bs) \<noteq> u32_from_le (slice 5 9 bs)
        then Err (Corrupt None ''crc32 mismatch'')
        else let prev = slice 9 41 bs in
          if (case expected_prev of None \<Rightarrow> False | Some exp \<Rightarrow> prev \<noteq> exp)
          then Err (Corrupt None ''chain adjacency violated (prev != running head)'')
          else (case parse_body tag bs of Inl e \<Rightarrow> Err e | Inr r \<Rightarrow> Ok (r, prev)))"

definition parse :: "bytes \<Rightarrow> bytes \<Rightarrow> (storage_error, log_record \<times> bytes) result" where
  "parse bs expected_prev = parse_chain bs (Some expected_prev)"

definition record_hash :: "(bytes \<Rightarrow> bytes) \<Rightarrow> bytes \<Rightarrow> bytes \<Rightarrow> bytes" where
  "record_hash sha256 prev bs = sha256 (prev @ bs)"

text \<open>What the constructors of records guarantee: fixed-width identities, an expiry only
  on \<open>TAG_PUT_TTL\<close>, and a payload whose length fits the 32-bit length field.\<close>

definition op_wf :: "log_record \<Rightarrow> bool" where
  "op_wf r = (is32 (r_replica r) \<and> is32 (r_author r) \<and> r_ops r = [] \<and>
              (r_tag r \<noteq> TAG_PUT_TTL \<longrightarrow> r_expires_at r = 0) \<and>
              length (payload_bytes r) < 2 ^ 32)"

definition rec_wf :: "log_record \<Rightarrow> bool" where
  "rec_wf r = (valid_tag (r_tag r) \<and>
     (if r_tag r = TAG_BATCH
      then r = batch_record (r_ops r) \<and> length (batch_payload (r_ops r)) < 2 ^ 32 \<and>
           (\<forall>op \<in> set (r_ops r). op_wf op \<and> valid_sub_tag (r_tag op))
      else op_wf r))"

text \<open>A record used in concrete instances of the theorems.\<close>

definition demo_op :: log_record where
  "demo_op = Record TAG_PUT_TTL (str_bytes ''k'') 7 (replicate 32 1) (replicate 32 2)
     (str_bytes ''v'') 99 []"

section \<open>Tags\<close>

lemmas tag_defs = TAG_PUT_def TAG_DEL_def TAG_PUT_TTL_def TAG_SCHEMA_def TAG_INDEX_def TAG_BATCH_def

lemma tag_distinct [simp]:
  "TAG_PUT \<noteq> TAG_DEL" "TAG_PUT \<noteq> TAG_PUT_TTL" "TAG_PUT \<noteq> TAG_SCHEMA" "TAG_PUT \<noteq> TAG_INDEX"
  "TAG_PUT \<noteq> TAG_BATCH" "TAG_DEL \<noteq> TAG_PUT" "TAG_DEL \<noteq> TAG_PUT_TTL" "TAG_DEL \<noteq> TAG_SCHEMA"
  "TAG_DEL \<noteq> TAG_INDEX" "TAG_DEL \<noteq> TAG_BATCH" "TAG_PUT_TTL \<noteq> TAG_PUT" "TAG_PUT_TTL \<noteq> TAG_DEL"
  "TAG_PUT_TTL \<noteq> TAG_SCHEMA" "TAG_PUT_TTL \<noteq> TAG_INDEX" "TAG_PUT_TTL \<noteq> TAG_BATCH"
  "TAG_SCHEMA \<noteq> TAG_PUT" "TAG_SCHEMA \<noteq> TAG_DEL" "TAG_SCHEMA \<noteq> TAG_PUT_TTL"
  "TAG_SCHEMA \<noteq> TAG_INDEX" "TAG_SCHEMA \<noteq> TAG_BATCH" "TAG_INDEX \<noteq> TAG_PUT"
  "TAG_INDEX \<noteq> TAG_DEL" "TAG_INDEX \<noteq> TAG_PUT_TTL" "TAG_INDEX \<noteq> TAG_SCHEMA"
  "TAG_INDEX \<noteq> TAG_BATCH" "TAG_BATCH \<noteq> TAG_PUT" "TAG_BATCH \<noteq> TAG_DEL"
  "TAG_BATCH \<noteq> TAG_PUT_TTL" "TAG_BATCH \<noteq> TAG_SCHEMA" "TAG_BATCH \<noteq> TAG_INDEX"
  by (simp_all add: tag_defs)

lemma valid_tag_simps [simp]:
  "valid_tag TAG_PUT" "valid_tag TAG_DEL" "valid_tag TAG_PUT_TTL" "valid_tag TAG_SCHEMA"
  "valid_tag TAG_INDEX" "valid_tag TAG_BATCH"
  by (simp_all add: valid_tag_def)

section \<open>Serialising and parsing payloads\<close>

lemma payload_bytes_length:
  "is32 (r_replica r) \<Longrightarrow> is32 (r_author r) \<Longrightarrow>
   length (payload_bytes r) = 84 + length (r_key r) + length (r_value r) +
     (if r_tag r = TAG_PUT_TTL then 8 else 0)"
  by (simp add: payload_bytes_def is32_def)

lemma unat_of_nat_u32: "n < 2 ^ 32 \<Longrightarrow> unat (of_nat n :: u32) = n"
  by (simp add: unat_of_nat)

lemma unat_of_nat_u64: "n < 2 ^ 64 \<Longrightarrow> unat (of_nat n :: u64) = n"
  by (simp add: unat_of_nat)

lemma payload_slices:
  assumes "length rep = 32" "length aut = 32"
    and "bs = pre @ u32_to_le kl @ key @ u64_to_le h @ rep @ aut @ u64_to_le vl @ val @ e @ post"
    and "n = length pre"
  shows "slice n (n + 4) bs = u32_to_le kl"
    and "slice (n + 4) (n + 4 + length key) bs = key"
    and "slice (n + 4 + length key) (n + 4 + length key + 8) bs = u64_to_le h"
    and "slice (n + 4 + length key + 8) (n + 4 + length key + 8 + 32) bs = rep"
    and "slice (n + 4 + length key + 8 + 32) (n + 4 + length key + 8 + 32 + 32) bs = aut"
    and "slice (n + 4 + length key + 8 + 32 + 32) (n + 4 + length key + 8 + 32 + 32 + 8) bs =
           u64_to_le vl"
    and "slice (n + 4 + length key + 8 + 32 + 32 + 8)
           (n + 4 + length key + 8 + 32 + 32 + 8 + length val) bs = val"
    and "slice (n + 4 + length key + 8 + 32 + 32 + 8 + length val)
           (n + 4 + length key + 8 + 32 + 32 + 8 + length val + length e) bs = e"
    and "length bs = n + 4 + length key + 8 + 32 + 32 + 8 + length val + length e + length post"
  using assms by (simp_all add: slice_def)

lemma parse_payload_layout:
  assumes "length rep = 32" "length aut = 32" "length key < 2 ^ 32" "length val < 2 ^ 64"
    and bs: "bs = pre @ u32_to_le (of_nat (length key)) @ key @ u64_to_le h @ rep @ aut @
               u64_to_le (of_nat (length val)) @ val @ e @ post"
    and e: "e = (if t = TAG_PUT_TTL then u64_to_le ex else [])"
    and n: "n = length pre"
  shows "parse_payload t bs n =
    Ok (Record t key h rep aut val (if t = TAG_PUT_TTL then ex else 0) [],
        n + 4 + length key + 8 + 32 + 32 + 8 + length val + length e)"
proof -
  note s = payload_slices [OF assms(1,2) bs n]
  have kv: "unat (of_nat (length key) :: u32) = length key"
    "unat (of_nat (length val) :: u64) = length val"
    using assms(3,4) by (simp_all add: unat_of_nat_u32 unat_of_nat_u64)
  have c: "\<not> length bs < n + 4" "\<not> length bs - (n + 4) < length key"
    "\<not> length bs < n + 4 + length key + 8" "\<not> length bs < n + 4 + length key + 8 + 64"
    "\<not> length bs < n + 4 + length key + 8 + 32 + 32 + 8"
    "\<not> length bs - (n + 4 + length key + 8 + 32 + 32 + 8) < length val"
    "\<not> length bs < n + 4 + length key + 8 + 32 + 32 + 8 + length val + length e"
    using s(9) by linarith+
  note red = parse_payload_def Let_def s(1-7) u32_from_to_le u64_from_to_le kv if_False if_True
    refl simp_thms
  show ?thesis
  proof (cases "t = TAG_PUT_TTL")
    case True
    then have le: "length e = 8" by (simp add: e)
    have e8: "u64_from_le (slice (n + 4 + length key + 8 + 32 + 32 + 8 + length val)
      (n + 4 + length key + 8 + 32 + 32 + 8 + length val + 8) bs) = ex"
      using s(8) unfolding le by (simp add: e True)
    show ?thesis using True by (simp only: red e8 le c [unfolded le])
  next
    case False
    then have le: "length e = 0" by (simp add: e)
    show ?thesis using False by (simp only: red le add_0_right c)
  qed
qed

lemma parse_payload_roundtrip:
  assumes "op_wf r"
  shows "parse_payload (r_tag r) (pre @ payload_bytes r @ post) (length pre) =
           Ok (r, length pre + length (payload_bytes r))"
proof -
  obtain t key h rep aut val ex ops where r: "r = Record t key h rep aut val ex ops"
    by (cases r)
  have wf: "length rep = 32" "length aut = 32" "ops = []" "t \<noteq> TAG_PUT_TTL \<Longrightarrow> ex = 0"
    using assms by (auto simp: op_wf_def is32_def r)
  have "length key < 2 ^ 32" "length val < 2 ^ 64"
    using assms payload_bytes_length [of r] by (auto simp: op_wf_def r)
  from parse_payload_layout [OF wf(1,2) this refl refl refl, of t pre h ex post] wf show ?thesis
    by (cases "t = TAG_PUT_TTL") (simp_all add: r payload_bytes_def)
qed

lemma parse_ops_roundtrip:
  assumes "\<forall>op \<in> set ops. op_wf op \<and> valid_sub_tag (r_tag op)"
  shows "parse_ops (length ops)
           (pre @ concat (map (\<lambda>op. r_tag op # payload_bytes op) ops) @ post) (length pre) =
         Ok (ops, length pre + length (concat (map (\<lambda>op. r_tag op # payload_bytes op) ops)))"
  using assms
proof (induction ops arbitrary: pre)
  case Nil
  then show ?case by simp
next
  case (Cons op ops)
  let ?enc = "\<lambda>ops. concat (map (\<lambda>op. r_tag op # payload_bytes op) ops)"
  let ?bs = "pre @ ?enc (op # ops) @ post"
  have 1: "parse_payload (r_tag op) ?bs (length pre + 1) =
      Ok (op, length pre + 1 + length (payload_bytes op))"
    using parse_payload_roundtrip [of op "pre @ [r_tag op]" "?enc ops @ post"] Cons(2) by simp
  have 2: "parse_ops (length ops) ?bs (length pre + 1 + length (payload_bytes op)) =
      Ok (ops, length pre + length (?enc (op # ops)))"
    using Cons(1) [of "pre @ r_tag op # payload_bytes op"] Cons(2) by simp
  have 3: "?bs ! length pre = r_tag op" by simp
  show ?case using Cons(2) 1 2 3 by simp
qed

section \<open>The sealed record\<close>

lemma seal_alt:
  "seal tag prev payload =
     tag # u32_to_le (of_nat (length payload)) @ u32_to_le (crc32_parts [tag] (prev @ payload)) @
     prev @ payload"
  by (simp add: seal_def Let_def)

lemma seal_length: "is32 prev \<Longrightarrow> length (seal tag prev payload) = HEADER_LEN + length payload"
  by (simp add: seal_alt HEADER_LEN_def is32_def)

lemma parse_seal:
  assumes "valid_tag tag" "is32 prev" "length payload < 2 ^ 32"
  shows "parse_chain (seal tag prev payload) exp =
    (if (case exp of None \<Rightarrow> False | Some e \<Rightarrow> prev \<noteq> e)
     then Err (Corrupt None ''chain adjacency violated (prev != running head)'')
     else (case parse_body tag (seal tag prev payload) of Inl e \<Rightarrow> Err e | Inr r \<Rightarrow> Ok (r, prev)))"
proof -
  let ?s = "seal tag prev payload"
  have l: "length prev = 32" using assms(2) by (simp add: is32_def)
  have "slice 1 5 ?s = u32_to_le (of_nat (length payload))"
    and "slice 5 9 ?s = u32_to_le (crc32_parts [tag] (prev @ payload))"
    and "slice 9 41 ?s = prev" and "drop 9 ?s = prev @ payload" and "?s ! 0 = tag"
    and "take 1 ?s = [tag]"
    using l by (simp_all add: seal_alt slice_def)
  then show ?thesis
    using assms(1,3) seal_length [OF assms(2), of tag payload]
    by (simp add: parse_chain_def Let_def unat_of_nat_u32)
qed

lemma parse_body_roundtrip:
  assumes "rec_wf r" "is32 prev"
  shows "parse_body (r_tag r) (to_bytes r prev) = Ok r"
proof (cases "r_tag r = TAG_BATCH")
  case True
  let ?ops = "r_ops r"
  let ?pre = "r_tag r # u32_to_le (of_nat (length (batch_payload ?ops))) @
    u32_to_le (crc32_parts [r_tag r] (prev @ batch_payload ?ops)) @ prev"
  have wf: "r = batch_record ?ops" "length (batch_payload ?ops) < 2 ^ 32"
    "\<forall>op \<in> set ?ops. op_wf op \<and> valid_sub_tag (r_tag op)"
    using assms(1) True by (auto simp: rec_wf_def)
  have "length ?ops \<le> length (batch_payload ?ops)"
    unfolding batch_payload_def by (induction ?ops) (auto simp: length_concat comp_def sum_list_Suc)
  then have n: "unat (of_nat (length ?ops) :: u32) = length ?ops"
    using wf(2) by (simp add: unat_of_nat_u32)
  have pre: "length ?pre = HEADER_LEN" using assms(2) by (simp add: HEADER_LEN_def is32_def)
  have bs: "to_bytes r prev = (?pre @ u32_to_le (of_nat (length ?ops))) @
      concat (map (\<lambda>op. r_tag op # payload_bytes op) ?ops) @ []"
    using True by (simp add: to_bytes_def seal_alt batch_payload_def)
  have "slice HEADER_LEN (HEADER_LEN + 4) (to_bytes r prev) = u32_to_le (of_nat (length ?ops))"
    unfolding bs using slice_at [OF pre [symmetric], of "HEADER_LEN + 4"] by simp
  moreover have "parse_ops (length ?ops) (to_bytes r prev) (HEADER_LEN + 4) =
      Ok (?ops, length (to_bytes r prev))"
    using parse_ops_roundtrip [OF wf(3), of "?pre @ u32_to_le (of_nat (length ?ops))" "[]"] assms(2)
    by (simp add: bs HEADER_LEN_def is32_def)
  moreover have "\<not> length (to_bytes r prev) < HEADER_LEN + 4"
    using pre by (simp add: bs)
  ultimately show ?thesis using True wf(1) n by (simp add: parse_body_def Let_def)
next
  case False
  let ?pre = "r_tag r # u32_to_le (of_nat (length (payload_bytes r))) @
    u32_to_le (crc32_parts [r_tag r] (prev @ payload_bytes r)) @ prev"
  have pre: "length ?pre = HEADER_LEN" using assms(2) by (simp add: HEADER_LEN_def is32_def)
  have bs: "to_bytes r prev = ?pre @ payload_bytes r @ []"
    using False by (simp add: to_bytes_def seal_alt)
  have "op_wf r" using assms(1) False by (simp add: rec_wf_def)
  from parse_payload_roundtrip [OF this, of ?pre "[]"] pre False show ?thesis
    unfolding bs [symmetric] by (simp add: parse_body_def Let_def)
qed

lemma rec_wf_payload:
  "rec_wf r \<Longrightarrow>
   length (if r_tag r = TAG_BATCH then batch_payload (r_ops r) else payload_bytes r) < 2 ^ 32"
  by (auto simp: rec_wf_def op_wf_def split: if_splits)

lemma parse_chain_to_bytes:
  assumes "rec_wf r" "is32 prev"
  shows "parse_chain (to_bytes r prev) exp =
    (if exp = None \<or> exp = Some prev then Ok (r, prev)
     else Err (Corrupt None ''chain adjacency violated (prev != running head)''))"
proof -
  have "valid_tag (r_tag r)" using assms(1) by (simp add: rec_wf_def)
  note p = parse_seal [OF this assms(2) rec_wf_payload [OF assms(1)], of exp]
  show ?thesis
    using p parse_body_roundtrip [OF assms] unfolding to_bytes_def by (auto split: option.splits)
qed

section \<open>What the parser accepts\<close>

lemma parse_payload_cases:
  assumes "parse_payload t bs p = Ok (r, p')"
  obtains kl vl e where
    "kl = unat (u32_from_le (slice p (p + 4) bs))"
    "vl = unat (u64_from_le (slice (p + 4 + kl + 8 + 32 + 32) (p + 4 + kl + 8 + 32 + 32 + 8) bs))"
    "e = (if t = TAG_PUT_TTL then 8 else 0)"
    "p' = p + 4 + kl + 8 + 32 + 32 + 8 + vl + e" "p' \<le> length bs"
    "r = Record t (slice (p + 4) (p + 4 + kl) bs)
           (u64_from_le (slice (p + 4 + kl) (p + 4 + kl + 8) bs))
           (slice (p + 4 + kl + 8) (p + 4 + kl + 8 + 32) bs)
           (slice (p + 4 + kl + 8 + 32) (p + 4 + kl + 8 + 32 + 32) bs)
           (slice (p + 4 + kl + 8 + 32 + 32 + 8) (p + 4 + kl + 8 + 32 + 32 + 8 + vl) bs)
           (if t = TAG_PUT_TTL then u64_from_le (slice (p + 4 + kl + 8 + 32 + 32 + 8 + vl) p' bs)
            else 0) []"
proof -
  define kl where "kl = unat (u32_from_le (slice p (p + 4) bs))"
  define vl where
    "vl = unat (u64_from_le (slice (p + 4 + kl + 8 + 32 + 32) (p + 4 + kl + 8 + 32 + 32 + 8) bs))"
  note d = assms [unfolded parse_payload_def Let_def, folded kl_def, folded vl_def]
  have l: "\<not> length bs < p + 4 + kl + 8 + 32 + 32 + 8"
    "\<not> length bs - (p + 4 + kl + 8 + 32 + 32 + 8) < vl"
    using d by (simp_all only: if_False if_True split: if_split_asm) auto
  show thesis
  proof (cases "t = TAG_PUT_TTL")
    case True
    show thesis
      using d l True by (intro that [OF kl_def vl_def refl]) (auto split: if_split_asm)
  next
    case False
    show thesis
      using d l False by (intro that [OF kl_def vl_def refl]) (auto split: if_split_asm)
  qed
qed

lemma parse_payload_sound:
  assumes "parse_payload t bs p = Ok (r, p')"
  shows "p \<le> p' \<and> p' \<le> length bs \<and> slice p p' bs = payload_bytes r \<and> r_tag r = t \<and>
    is32 (r_replica r) \<and> is32 (r_author r) \<and> r_ops r = [] \<and>
    (t \<noteq> TAG_PUT_TTL \<longrightarrow> r_expires_at r = 0)"
proof -
  from parse_payload_cases [OF assms] obtain kl vl e where
    kl: "kl = unat (u32_from_le (slice p (p + 4) bs))" and
    vl: "vl = unat (u64_from_le (slice (p + 4 + kl + 8 + 32 + 32) (p + 4 + kl + 8 + 32 + 32 + 8) bs))" and
    e: "e = (if t = TAG_PUT_TTL then 8 else 0)" and
    p': "p' = p + 4 + kl + 8 + 32 + 32 + 8 + vl + e" "p' \<le> length bs" and
    r: "r = Record t (slice (p + 4) (p + 4 + kl) bs)
           (u64_from_le (slice (p + 4 + kl) (p + 4 + kl + 8) bs))
           (slice (p + 4 + kl + 8) (p + 4 + kl + 8 + 32) bs)
           (slice (p + 4 + kl + 8 + 32) (p + 4 + kl + 8 + 32 + 32) bs)
           (slice (p + 4 + kl + 8 + 32 + 32 + 8) (p + 4 + kl + 8 + 32 + 32 + 8 + vl) bs)
           (if t = TAG_PUT_TTL then u64_from_le (slice (p + 4 + kl + 8 + 32 + 32 + 8 + vl) p' bs)
            else 0) []" .
  have k4: "u32_to_le (of_nat kl) = slice p (p + 4) bs"
    and v8: "u64_to_le (of_nat vl) =
      slice (p + 4 + kl + 8 + 32 + 32) (p + 4 + kl + 8 + 32 + 32 + 8) bs"
    and h8: "u64_to_le (r_hlc r) = slice (p + 4 + kl) (p + 4 + kl + 8) bs"
    using p' by (simp_all add: kl vl r u32_to_from_le u64_to_from_le)
  have lk: "length (r_key r) = kl" and lv: "length (r_value r) = vl"
    using p' by (simp_all add: r)
  have e8: "(if r_tag r = TAG_PUT_TTL then u64_to_le (r_expires_at r) else []) =
      slice (p + 4 + kl + 8 + 32 + 32 + 8 + vl) p' bs"
    using p' e by (auto simp: r u64_to_from_le) (simp add: slice_def)
  have "payload_bytes r = slice p p' bs"
    unfolding payload_bytes_def lk lv k4 v8 h8 e8 using p' by (simp add: r slice_join slice_join_more)
  then show ?thesis using p' by (simp add: r is32_def)
qed

lemma parse_ops_sound:
  assumes "parse_ops n bs p = Ok (ops, p')" "p \<le> length bs"
  shows "length ops = n \<and> p \<le> p' \<and> p' \<le> length bs \<and>
    slice p p' bs = concat (map (\<lambda>op. r_tag op # payload_bytes op) ops) \<and>
    (\<forall>op \<in> set ops. valid_sub_tag (r_tag op) \<and> is32 (r_replica op) \<and> is32 (r_author op) \<and>
       r_ops op = [] \<and> (r_tag op \<noteq> TAG_PUT_TTL \<longrightarrow> r_expires_at op = 0))"
  using assms
proof (induction n arbitrary: p ops)
  case 0
  then show ?case by (simp add: slice_def)
next
  case (Suc n)
  from Suc(2) obtain sub np ops' where
    lt: "p < length bs" and tag: "valid_sub_tag (bs ! p)" and
    sub: "parse_payload (bs ! p) bs (p + 1) = Ok (sub, np)" and
    rest: "parse_ops n bs np = Ok (ops', p')" and ops: "ops = sub # ops'"
    by (auto split: if_splits sum.splits)
  note s1 = parse_payload_sound [OF sub]
  note s2 = Suc(1) [OF rest]
  have head: "slice p (p + 1) bs = [r_tag sub]"
    using lt s1 by (simp add: slice_def take_Suc hd_drop_conv_nth)
  have "p + 1 \<le> np" "np \<le> p'" using s1 s2 by auto
  then have "slice p p' bs = slice p (p + 1) bs @ slice (p + 1) np bs @ slice np p' bs"
    by (simp add: slice_join slice_join_more)
  then show ?case using s1 s2 head tag by (auto simp: ops)
qed

lemma length_op_le_concat:
  "op \<in> set ops \<Longrightarrow>
   length (payload_bytes op) \<le> length (concat (map (\<lambda>op. r_tag op # payload_bytes op) ops))"
  by (induction ops) auto

lemma batch_record_sel [simp]: "r_tag (batch_record ops) = TAG_BATCH" "r_ops (batch_record ops) = ops"
  by (auto simp: batch_record_def split: list.splits)

lemma parse_body_wf:
  assumes "parse_body tag bs = Ok r" "valid_tag tag" "HEADER_LEN \<le> length bs"
    and "length bs - HEADER_LEN < 2 ^ 32"
  shows "rec_wf r \<and> r_tag r = tag"
proof (cases "tag = TAG_BATCH")
  case True
  let ?n = "unat (u32_from_le (slice HEADER_LEN (HEADER_LEN + 4) bs))"
  from assms(1) True obtain ops p' where
    ops: "parse_ops ?n bs (HEADER_LEN + 4) = Ok (ops, p')" "r = batch_record ops"
    and l: "HEADER_LEN + 4 \<le> length bs"
    by (auto simp: parse_body_def Let_def split: if_splits sum.splits)
  let ?enc = "concat (map (\<lambda>op. r_tag op # payload_bytes op) ops)"
  note s = parse_ops_sound [OF ops(1) l]
  then have "length ?enc = p' - (HEADER_LEN + 4)"
    by (metis slice_length diff_le_mono min.absorb1)
  then have "length ?enc + 4 \<le> length bs - HEADER_LEN" using s l by linarith
  then have "length (batch_payload ops) < 2 ^ 32" "length ?enc < 2 ^ 32"
    using assms(4) by (auto simp: batch_payload_def)
  then have "\<forall>op \<in> set ops. length (payload_bytes op) < 2 ^ 32"
    using length_op_le_concat le_less_trans by blast
  then show ?thesis
    using s True \<open>length (batch_payload ops) < 2 ^ 32\<close> by (auto simp: rec_wf_def op_wf_def ops(2))
next
  case False
  from assms(1) False obtain p' where pp: "parse_payload tag bs HEADER_LEN = Ok (r, p')"
    by (auto simp: parse_body_def Let_def split: if_splits sum.splits)
  note s = parse_payload_sound [OF pp]
  then have "length (payload_bytes r) \<le> length bs - HEADER_LEN"
    by (metis slice_length min.cobounded2)
  then show ?thesis using s False assms(2,4) by (simp add: rec_wf_def op_wf_def)
qed

lemma parse_chain_wf:
  assumes "parse_chain bs exp = Ok (r, prev)"
  shows "rec_wf r \<and> is32 prev \<and> prev = slice 9 41 bs \<and> HEADER_LEN \<le> length bs \<and>
    r_tag r = bs ! 0 \<and> unat (u32_from_le (slice 1 5 bs)) = length bs - HEADER_LEN"
proof -
  have h: "HEADER_LEN \<le> length bs" "valid_tag (bs ! 0)"
    "unat (u32_from_le (slice 1 5 bs)) = length bs - HEADER_LEN" "prev = slice 9 41 bs"
    "parse_body (bs ! 0) bs = Ok r"
    using assms by (auto simp: parse_chain_def Let_def split: if_splits sum.splits)
  have "length bs - HEADER_LEN < 2 ^ 32"
    using h(3) unsigned_less [of "u32_from_le (slice 1 5 bs)", where ?'a = nat] by simp
  from parse_body_wf [OF h(5,2,1) this] h show ?thesis
    by (simp add: is32_def HEADER_LEN_def)
qed

section \<open>Corruption\<close>

lemma u32_from_le_inj:
  assumes "length xs = 4" "length ys = 4"
  shows "u32_from_le xs = u32_from_le ys \<longleftrightarrow> xs = ys"
  using assms by (metis u32_to_from_le)

lemma slice_update_out:
  "i < a \<or> b \<le> i \<Longrightarrow> slice a b (xs[i := v]) = slice a b xs"
  by (rule nth_equalityI) (auto simp: slice_def)

lemma slice_update_in:
  assumes "a \<le> i" "i < b" "i < length xs" "slice a b (xs[i := v]) = slice a b xs"
  shows "v = xs ! i"
proof -
  have "slice a b (xs[i := v]) ! (i - a) = slice a b xs ! (i - a)" using assms(4) by simp
  then show ?thesis using assms(1-3) by (simp add: slice_def)
qed

lemma drop_split_at:
  "k \<le> i \<Longrightarrow> i < length xs \<Longrightarrow>
   drop k (xs[i := v]) = slice k i xs @ v # drop (Suc i) xs"
  by (simp add: slice_def drop_update_swap upd_conv_take_nth_drop take_drop)

lemma crc_parts_update:
  assumes "9 \<le> i" "i < length bs" "v \<noteq> bs ! i"
  shows "crc32_parts (take 1 (bs[i := v])) (drop 9 (bs[i := v])) \<noteq>
         crc32_parts (take 1 bs) (drop 9 bs)"
proof -
  have "take 1 (bs[i := v]) = take 1 bs" using assms(1) by simp
  moreover have "drop 9 bs = slice 9 i bs @ bs ! i # drop (Suc i) bs"
    using drop_split_at [OF assms(1,2), of "bs ! i"] by simp
  ultimately show ?thesis
    using assms by (simp add: drop_split_at crc32_parts_one_byte)
qed

lemma crc_parts_update_tag:
  assumes "v \<noteq> bs ! 0" "bs \<noteq> []"
  shows "crc32_parts (take 1 (bs[0 := v])) (drop 9 (bs[0 := v])) \<noteq>
         crc32_parts (take 1 bs) (drop 9 bs)"
  using assms by (cases bs) (auto simp: crc32_parts_first_byte)

lemma parse_chain_bad:
  assumes "HEADER_LEN \<le> length bs"
    and "unat (u32_from_le (slice 1 5 bs)) \<noteq> length bs - HEADER_LEN \<or>
      crc32_parts (take 1 bs) (drop 9 bs) \<noteq> u32_from_le (slice 5 9 bs)"
  shows "\<exists>d. parse_chain bs exp = Err (Corrupt None d)"
proof (cases "valid_tag (bs ! 0)")
  case True
  with assms show ?thesis unfolding parse_chain_def Let_def
    by (cases "unat (u32_from_le (slice 1 5 bs)) = length bs - HEADER_LEN") simp_all
next
  case False
  with assms(1) show ?thesis unfolding parse_chain_def Let_def by simp
qed

lemma parse_detects_byte:
  assumes ok: "parse_chain bs exp = Ok (r, prev)" and i: "i < length bs" and v: "v \<noteq> bs ! i"
  obtains d where "parse_chain (bs[i := v]) exp' = Err (Corrupt None d)"
proof -
  let ?bs = "bs[i := v]"
  have h: "HEADER_LEN \<le> length bs" "unat (u32_from_le (slice 1 5 bs)) = length bs - HEADER_LEN"
    "crc32_parts (take 1 bs) (drop 9 bs) = u32_from_le (slice 5 9 bs)"
    using ok by (auto simp: parse_chain_def Let_def split: if_splits sum.splits)
  have l: "length (slice 1 5 bs) = 4" "length (slice 5 9 bs) = 4"
    using h(1) by (auto simp: HEADER_LEN_def)
  consider "i = 0" | "1 \<le> i" "i < 5" | "5 \<le> i" "i < 9" | "9 \<le> i" by linarith
  then have "unat (u32_from_le (slice 1 5 ?bs)) \<noteq> length ?bs - HEADER_LEN \<or>
    crc32_parts (take 1 ?bs) (drop 9 ?bs) \<noteq> u32_from_le (slice 5 9 ?bs)"
  proof cases
    case 1
    have "bs \<noteq> []" using i by auto
    then show ?thesis
      using 1 v crc_parts_update_tag [of v bs] h(3) by (simp add: slice_update_out)
  next
    case 2
    then have "slice 1 5 ?bs \<noteq> slice 1 5 bs" using slice_update_in [of 1 i 5 bs v] i v by auto
    then have "u32_from_le (slice 1 5 ?bs) \<noteq> u32_from_le (slice 1 5 bs)"
      using l by (simp add: u32_from_le_inj)
    then show ?thesis using h(2) by (simp add: word_unat_eq_iff)
  next
    case 3
    then have "slice 5 9 ?bs \<noteq> slice 5 9 bs" using slice_update_in [of 5 i 9 bs v] i v by auto
    then show ?thesis using 3 h(3) l by (simp add: u32_from_le_inj)
  next
    case 4
    then show ?thesis using crc_parts_update [OF 4 i v] h(3) by (simp add: slice_update_out)
  qed
  then show thesis using parse_chain_bad [of ?bs exp'] h(1) that by fastforce
qed

section \<open>A payload that ends before its value length\<close>

lemma parse_payload_no_val_len:
  assumes "length rep = 32" "length aut = 32" "length key < 2 ^ 32" "n = length pre"
    and bs: "bs = pre @ u32_to_le (of_nat (length key)) @ key @ u64_to_le h @ rep @ aut @ rest"
    and "length rest < 8"
  shows "parse_payload t bs n = Err Panic"
proof -
  have k: "unat (of_nat (length key) :: u32) = length key"
    using assms(3) by (simp add: unat_of_nat_u32)
  have l: "length bs = n + 4 + length key + 8 + 32 + 32 + length rest"
    using assms(1,2,4) by (simp add: bs)
  have "slice n (n + 4) bs = u32_to_le (of_nat (length key))"
    by (simp add: bs assms(4) slice_def)
  then show ?thesis
    using l assms(6) by (simp add: parse_payload_def Let_def k)
qed

section \<open>Properties\<close>

text \<open>C21.  Reading back a serialised record: a well-formed record, a batch included, written
  with the chain predecessor \<open>prev\<close> parses to itself when the expected predecessor is
  \<open>prev\<close> (or is not checked), and is refused as a chain violation under any other.\<close>

theorem record_roundtrip:
  assumes "rec_wf r" "is32 prev"
  shows "parse_chain (to_bytes r prev) None = Ok (r, prev) \<and>
         parse (to_bytes r prev) exp =
           (if exp = prev then Ok (r, prev)
            else Err (Corrupt None ''chain adjacency violated (prev != running head)''))"
  using parse_chain_to_bytes [OF assms] by (auto simp: parse_def)

theorem record_roundtrip_witness:
  "rec_wf (batch_record [demo_op]) \<and>
   parse (to_bytes (batch_record [demo_op]) zero32) zero32 = Ok (batch_record [demo_op], zero32)"
proof -
  have "rec_wf (batch_record [demo_op])"
    by (simp add: rec_wf_def op_wf_def batch_payload_def payload_bytes_def demo_op_def is32_def
        valid_sub_tag_def batch_record_def)
  from record_roundtrip [OF this, of zero32 zero32] this show ?thesis by simp
qed

text \<open>C20.  No single corrupted byte goes unnoticed: if a record is accepted, the same bytes
  with one byte changed, in the tag, the length, the checksum, the predecessor hash or
  the payload, are refused as corrupt, whatever predecessor is expected.\<close>

theorem parse_rejects_corrupted_byte:
  assumes "parse_chain bs exp = Ok (r, prev)" "i < length bs" "v \<noteq> bs ! i"
  shows "\<exists>d. parse_chain (bs[i := v]) exp' = Err (Corrupt None d)"
  using parse_detects_byte [OF assms, of exp'] by blast

theorem parse_rejects_corrupted_byte_witness:
  "\<exists>d. parse_chain ((to_bytes demo_op zero32)[50 := (to_bytes demo_op zero32) ! 50 + 1]) None =
     Err (Corrupt None d)"
proof -
  have "rec_wf demo_op"
    by (simp add: rec_wf_def op_wf_def payload_bytes_def demo_op_def is32_def)
  then have "parse_chain (to_bytes demo_op zero32) None = Ok (demo_op, zero32)"
    by (simp add: parse_chain_to_bytes)
  moreover have "50 < length (to_bytes demo_op zero32)"
    by (simp add: to_bytes_def seal_alt payload_bytes_def demo_op_def)
  ultimately show ?thesis by (rule parse_rejects_corrupted_byte) simp
qed

text \<open>C33.  Parsed records are well formed: what the parser accepts, with any expectation on
  the predecessor, can be serialised again and read back unchanged (the step a record
  received from a peer goes through when it is appended to the local log).\<close>

theorem parse_reserialise:
  assumes "parse_chain bs exp = Ok (r, prev)" "is32 head"
  shows "rec_wf r \<and> parse (to_bytes r head) head = Ok (r, head)"
  using parse_chain_wf [OF assms(1)] parse_chain_to_bytes [OF _ assms(2), of r "Some head"]
  by (simp add: parse_def)

theorem parse_reserialise_witness:
  "rec_wf demo_op \<and>
   parse (to_bytes demo_op (replicate 32 9)) (replicate 32 9) = Ok (demo_op, replicate 32 9)"
proof -
  have "rec_wf demo_op"
    by (simp add: rec_wf_def op_wf_def payload_bytes_def demo_op_def is32_def)
  then have "parse_chain (to_bytes demo_op zero32) None = Ok (demo_op, zero32)"
    by (simp add: parse_chain_to_bytes)
  moreover have "is32 (replicate 32 9)" by (simp add: is32_def)
  ultimately show ?thesis by (rule parse_reserialise)
qed

text \<open>The parser reads past the end of some records: a record whose checksum and length
  are right but whose payload stops after the author key, before the eight bytes of the
  value length, makes \<open>parse_payload\<close> index out of range instead of returning an error.\<close>

theorem parse_short_payload_panics:
  assumes "valid_tag tag" "tag \<noteq> TAG_BATCH" "is32 prev" "is32 rep" "is32 aut"
    and "length key + 83 < 2 ^ 32" "length rest < 8"
  shows "parse_chain (seal tag prev
           (u32_to_le (of_nat (length key)) @ key @ u64_to_le h @ rep @ aut @ rest)) None =
         Err Panic"
proof -
  let ?pay = "u32_to_le (of_nat (length key)) @ key @ u64_to_le h @ rep @ aut @ rest"
  let ?pre = "tag # u32_to_le (of_nat (length ?pay)) @
    u32_to_le (crc32_parts [tag] (prev @ ?pay)) @ prev"
  have l: "length ?pay < 2 ^ 32" using assms(4-7) by (simp add: is32_def)
  have "parse_payload tag (seal tag prev ?pay) HEADER_LEN = Err Panic"
    by (rule parse_payload_no_val_len [where pre = ?pre and key = key and rep = rep and aut = aut
          and rest = rest]) (use assms in \<open>auto simp: is32_def HEADER_LEN_def seal_alt\<close>)
  then show ?thesis
    using parse_seal [OF assms(1,3) l, of None] assms(2) by (simp add: parse_body_def Let_def)
qed

theorem parse_short_payload_panics_witness:
  "parse_chain (seal TAG_PUT zero32
     (u32_to_le (of_nat (length ([] :: bytes))) @ [] @ u64_to_le 1 @ zero32 @ zero32 @ [])) None =
   Err Panic"
  by (rule parse_short_payload_panics) simp_all

end
