(* ===== verification/LogFile.thy ===== *)
theory LogFile
  imports LogRecord "HOL-Library.AList"
begin

text \<open>
  The append-only log of one namespace, \<open>Log\<close> of \<open>src/storage/log.rs\<close>: segment files,
  appends with the roll at 64 MiB, bounded reads, recovery with truncation of a torn
  tail, and the rewrite used by compaction.

  The files \<open>log.0.seg\<close>, \<open>log.1.seg\<close>, \<dots> of the namespace directory are an association list
  from segment numbers to contents; a write at a file position replaces the bytes there
  and extends the file.  Lengths, offsets and sequence numbers (\<open>u64\<close>, \<open>u32\<close> and \<open>usize\<close> in
  the source) are natural numbers.  \<open>sha256\<close> is a parameter.  An I/O failure other than a
  missing or short file is outside the model.
\<close>

section \<open>Definitions\<close>

definition SEGMENT_BYTES :: nat where
  "SEGMENT_BYTES = 64 * 1024 * 1024"

datatype recover_warning = TruncatedTail (records_dropped: nat)

type_synonym seg_files = "(nat \<times> bytes) list"

record log =
  cur_seg :: nat
  cur_len :: nat
  seg_lens :: "(nat \<times> nat) list"
  log_seq :: nat
  log_head :: bytes
  offsets :: "nat list"
  log_durable :: bool

text \<open>\<open>write_all\<close> at position \<open>pos\<close> of a file.\<close>

definition write_at :: "nat \<Rightarrow> bytes \<Rightarrow> bytes \<Rightarrow> bytes" where
  "write_at pos bs file = take pos file @ bs @ drop (pos + length bs) file"

definition file_of :: "seg_files \<Rightarrow> nat \<Rightarrow> bytes" where
  "file_of files n = (case map_of files n of None \<Rightarrow> [] | Some b \<Rightarrow> b)"

text \<open>Segment discovery: \<open>log.0\<close>, \<open>log.1\<close>, \<dots> up to the first missing number.\<close>

function discover :: "seg_files \<Rightarrow> nat \<Rightarrow> (nat \<times> bytes) list" where
  "discover files i =
     (case map_of files i of
        None \<Rightarrow> []
      | Some b \<Rightarrow> (i, b) # discover files (Suc i))"
  by pat_completeness auto
termination
proof (relation "measure (\<lambda>(files, i). card {j \<in> fst ` set files. i \<le> j})", goal_cases)
  case 1
  then show ?case by simp
next
  case (2 files i b)
  have "i \<in> {j \<in> fst ` set files. i \<le> j}"
    using 2 by (auto dest!: map_of_SomeD intro: rev_image_eqI)
  moreover have "{j \<in> fst ` set files. Suc i \<le> j} \<subseteq> {j \<in> fst ` set files. i \<le> j}" by auto
  moreover have "i \<notin> {j \<in> fst ` set files. Suc i \<le> j}" by simp
  ultimately have "{j \<in> fst ` set files. Suc i \<le> j} \<subset> {j \<in> fst ` set files. i \<le> j}" by blast
  then show ?case by (simp add: psubset_card_mono)
qed

declare discover.simps [simp del]

text \<open>What the recovery loop accumulates.\<close>

record rstate =
  rs_seq :: nat
  rs_head :: bytes
  rs_offsets :: "nat list"

definition st0 :: rstate where
  "st0 = \<lparr>rs_seq = 0, rs_head = zero32, rs_offsets = []\<rparr>"

text \<open>The \<open>while\<close> loop over one segment: the state and, when the tail is torn, the offset to
  cut at.\<close>

function recover_seg ::
  "(bytes \<Rightarrow> bytes) \<Rightarrow> string \<Rightarrow> bool \<Rightarrow> nat \<Rightarrow> bytes \<Rightarrow> nat \<Rightarrow> rstate \<Rightarrow>
   (storage_error, rstate \<times> nat option) result" where
  "recover_seg sha256 nsdir is_last seg_base buf pos st =
     (if pos < length buf then
        let remaining = length buf - pos in
        if remaining < HEADER_LEN then
          (if \<not> is_last then Err (Corrupt (Some nsdir) ''partial record header in non-final segment'')
           else Ok (st, Some pos))
        else if \<not> valid_tag (buf ! pos) then Err (Corrupt (Some nsdir) ''bad record tag'')
        else
          let declared = unat (u32_from_le (slice (pos + 1) (pos + 5) buf));
              rec_len = HEADER_LEN + declared in
          if rec_len > remaining then
            (if \<not> is_last then Err (Corrupt (Some nsdir) ''record length exceeds non-final segment'')
             else Ok (st, Some pos))
          else
            let bs = slice pos (pos + rec_len) buf in
            (case parse bs (rs_head st) of
               Inr (_, prev) \<Rightarrow>
                 recover_seg sha256 nsdir is_last seg_base buf (pos + rec_len)
                   \<lparr>rs_seq = rs_seq st + 1, rs_head = record_hash sha256 prev bs,
                    rs_offsets = rs_offsets st @ [seg_base + pos]\<rparr>
             | Inl Panic \<Rightarrow> Err Panic
             | Inl e \<Rightarrow>
                 (if is_last \<and> rec_len \<ge> remaining then Ok (st, Some pos)
                  else Err (Corrupt (Some nsdir) ''record'')))
      else Ok (st, None))"
  by pat_completeness auto
termination
  by (relation "measure (\<lambda>(sha256, nsdir, is_last, seg_base, buf, pos, st). length buf - pos)")
     (auto simp: HEADER_LEN_def)

declare recover_seg.simps [simp del]

text \<open>The \<open>'segments\<close> loop: the state and the deferred truncation, if any.\<close>

fun recover_segs ::
  "(bytes \<Rightarrow> bytes) \<Rightarrow> string \<Rightarrow> (nat \<times> bytes) list \<Rightarrow> nat \<Rightarrow> rstate \<Rightarrow>
   (storage_error, rstate \<times> (nat \<times> nat) option) result" where
  "recover_segs sha256 nsdir [] tot st = Ok (st, None)"
| "recover_segs sha256 nsdir ((seg_no, buf) # rest) tot st =
     (case recover_seg sha256 nsdir (rest = []) tot buf 0 st of
        Inl e \<Rightarrow> Err e
      | Inr (st', Some keep) \<Rightarrow> Ok (st', Some (seg_no, keep))
      | Inr (st', None) \<Rightarrow> recover_segs sha256 nsdir rest (tot + length buf) st')"

definition recover_durable ::
  "(bytes \<Rightarrow> bytes) \<Rightarrow> string \<Rightarrow> seg_files \<Rightarrow> bool \<Rightarrow>
   (storage_error, log \<times> recover_warning option \<times> seg_files) result" where
  "recover_durable sha256 nsdir files durable =
     (let segs = discover files 0 in
      case recover_segs sha256 nsdir segs 0 st0 of
        Inl e \<Rightarrow> Err e
      | Inr (st, trunc) \<Rightarrow>
          let files = (case trunc of
                 None \<Rightarrow> files
               | Some (seg_no, keep) \<Rightarrow> AList.update seg_no (take keep (file_of files seg_no)) files);
              lens = map (\<lambda>(n, b). (n, length b)) segs;
              lens = (case trunc of
                 None \<Rightarrow> lens
               | Some (seg_no, keep) \<Rightarrow>
                   (if lens = [] then [] else butlast lens @ [(fst (List.last lens), keep)]));
              final_seg = (if lens = [] then 0 else fst (List.last lens));
              final_len = (if lens = [] then 0 else snd (List.last lens));
              lens = (if lens = [] then [(final_seg, 0)] else lens);
              files = AList.update final_seg (file_of files final_seg) files
          in Ok (\<lparr>cur_seg = final_seg, cur_len = final_len, seg_lens = lens,
                  log_seq = rs_seq st, log_head = rs_head st, offsets = rs_offsets st,
                  log_durable = durable\<rparr>,
                 map_option (\<lambda>_. TruncatedTail 1) trunc,
                 files))"

definition log_append :: "(bytes \<Rightarrow> bytes) \<Rightarrow> bytes \<Rightarrow> log \<times> seg_files \<Rightarrow> (log \<times> seg_files) \<times> nat" where
  "log_append sha256 bs lf =
     (let (l, files) = lf;
          l = (if cur_len l > 0 \<and> cur_len l + length bs > SEGMENT_BYTES
               then l\<lparr>cur_seg := cur_seg l + 1, cur_len := 0,
                      seg_lens := seg_lens l @ [(cur_seg l + 1, 0)]\<rparr>
               else l);
          off = sum_list (map snd (seg_lens l));
          files = AList.update (cur_seg l) (write_at (cur_len l) bs (file_of files (cur_seg l))) files;
          new_len = cur_len l + length bs;
          l = l\<lparr>cur_len := new_len,
                seg_lens := (if seg_lens l = [] then []
                             else butlast (seg_lens l) @ [(fst (List.last (seg_lens l)), new_len)]),
                log_seq := log_seq l + 1,
                offsets := offsets l @ [off],
                log_head := record_hash sha256 (slice 9 41 bs) bs\<rparr>
      in ((l, files), log_seq l))"

fun segment_at :: "(nat \<times> nat) list \<Rightarrow> nat \<Rightarrow> nat \<Rightarrow> (storage_error, nat \<times> nat) result" where
  "segment_at [] acc off = Err (Corrupt None ''offset beyond log end'')"
| "segment_at ((seg_no, len) # rest) acc off =
     (if off < acc + len then Ok (seg_no, acc) else segment_at rest (acc + len) off)"

text \<open>\<open>read_exact\<close> of \<open>n\<close> bytes at a position; a short file is an I/O error.\<close>

definition read_exact :: "bytes \<Rightarrow> nat \<Rightarrow> nat \<Rightarrow> (storage_error, bytes) result" where
  "read_exact file pos n =
     (if pos + n \<le> length file then Ok (slice pos (pos + n) file)
      else Err (Io ''failed to fill whole buffer''))"

definition read_one :: "log \<times> seg_files \<Rightarrow> nat \<Rightarrow> (storage_error, nat \<times> bytes) result" where
  "read_one lf idx =
     (let (l, files) = lf; off = offsets l ! idx in
      case segment_at (seg_lens l) 0 off of
        Inl e \<Rightarrow> Err e
      | Inr (seg_no, seg_start) \<Rightarrow>
          (let file = file_of files seg_no in
           case read_exact file (off - seg_start) HEADER_LEN of
             Inl e \<Rightarrow> Err e
           | Inr hdr \<Rightarrow>
               (case read_exact file (off - seg_start + HEADER_LEN)
                       (unat (u32_from_le (slice 1 5 hdr))) of
                  Inl e \<Rightarrow> Err e
                | Inr rest \<Rightarrow> Ok (idx + 1, hdr @ rest))))"

definition read_records ::
  "log \<times> seg_files \<Rightarrow> nat \<Rightarrow> nat \<Rightarrow> (storage_error, (nat \<times> bytes) list) result" where
  "read_records lf from_seq max_n =
     (let l = fst lf in
      if from_seq = 0 \<or> from_seq > log_seq l then Ok []
      else let start = from_seq - 1;
               end' = (if max_n = 0 then length (offsets l)
                       else min (start + max_n) (length (offsets l)))
           in collect_result (read_one lf) [start..<end'])"

text \<open>Removal of the old segments and the rewrite of \<open>log.0.seg\<close> with a fresh chain.\<close>

definition remove_segs :: "seg_files \<Rightarrow> seg_files" where
  "remove_segs files = filter (\<lambda>(n, _). n \<notin> fst ` set (discover files 0)) files"

fun rechain :: "(bytes \<Rightarrow> bytes) \<Rightarrow> bytes \<Rightarrow> log_record list \<Rightarrow> bytes list" where
  "rechain sha256 head [] = []"
| "rechain sha256 head (r # rs) =
     (let bs = to_bytes r head in bs # rechain sha256 (record_hash sha256 head bs) rs)"

definition write_fresh :: "(bytes \<Rightarrow> bytes) \<Rightarrow> seg_files \<Rightarrow> log_record list \<Rightarrow> seg_files" where
  "write_fresh sha256 files records =
     AList.update 0 (concat (rechain sha256 zero32 records)) (remove_segs files)"

subsection \<open>The abstract log\<close>

text \<open>A log is abstractly the list of its records' bytes, grouped by segment: each record
  parses against the running head, and the bookkeeping of \<open>Log\<close> is a function of the
  list.\<close>

fun chain_from :: "(bytes \<Rightarrow> bytes) \<Rightarrow> bytes \<Rightarrow> bytes list \<Rightarrow> bool" where
  "chain_from sha256 h [] = True"
| "chain_from sha256 h (b # bs) = (is_ok (parse b h) \<and> chain_from sha256 (record_hash sha256 h b) bs)"

definition chain_head :: "(bytes \<Rightarrow> bytes) \<Rightarrow> bytes \<Rightarrow> bytes list \<Rightarrow> bytes" where
  "chain_head sha256 h bs = foldl (record_hash sha256) h bs"

fun starts :: "nat \<Rightarrow> bytes list \<Rightarrow> nat list" where
  "starts base [] = []"
| "starts base (b # bs) = base # starts (base + length b) bs"

fun lens_from :: "nat \<Rightarrow> bytes list list \<Rightarrow> (nat \<times> nat) list" where
  "lens_from k [] = []"
| "lens_from k (s # ss) = (k, length (concat s)) # lens_from (Suc k) ss"

definition adv :: "(bytes \<Rightarrow> bytes) \<Rightarrow> nat \<Rightarrow> bytes list \<Rightarrow> rstate \<Rightarrow> rstate" where
  "adv sha256 base recs st =
     \<lparr>rs_seq = rs_seq st + length recs, rs_head = chain_head sha256 (rs_head st) recs,
      rs_offsets = rs_offsets st @ starts base recs\<rparr>"

definition log_repr :: "(bytes \<Rightarrow> bytes) \<Rightarrow> log \<times> seg_files \<Rightarrow> bytes list list \<Rightarrow> bool" where
  "log_repr sha256 lf segs =
     (let (l, files) = lf; recs = concat segs in
      segs \<noteq> [] \<and> Suc (cur_seg l) = length segs \<and>
      (\<forall>i. map_of files i = (if i < length segs then Some (concat (segs ! i)) else None)) \<and>
      cur_len l = length (concat (List.last segs)) \<and>
      seg_lens l = lens_from 0 segs \<and>
      log_seq l = length recs \<and> log_head l = chain_head sha256 zero32 recs \<and>
      offsets l = starts 0 recs \<and> chain_from sha256 zero32 recs)"

definition log_of :: "(bytes \<Rightarrow> bytes) \<Rightarrow> bool \<Rightarrow> bytes list list \<Rightarrow> log" where
  "log_of sha256 durable segs =
     \<lparr>cur_seg = length segs - 1, cur_len = length (concat (List.last segs)),
      seg_lens = lens_from 0 segs, log_seq = length (concat segs),
      log_head = chain_head sha256 zero32 (concat segs), offsets = starts 0 (concat segs),
      log_durable = durable\<rparr>"

text \<open>The records of a log.\<close>

definition log_holds :: "(bytes \<Rightarrow> bytes) \<Rightarrow> log \<times> seg_files \<Rightarrow> bytes list \<Rightarrow> bool" where
  "log_holds sha256 lf recs = (\<exists>segs. log_repr sha256 lf segs \<and> recs = concat segs)"

text \<open>SHA-256 digests have 32 bytes.\<close>

definition hash32 :: "(bytes \<Rightarrow> bytes) \<Rightarrow> bool" where
  "hash32 sha256 = (\<forall>x. is32 (sha256 x))"

text \<open>Closing and reopening a log: recovery over the files it left.\<close>

definition reopen ::
  "(bytes \<Rightarrow> bytes) \<Rightarrow> string \<Rightarrow> log \<times> seg_files \<Rightarrow> (storage_error, log \<times> seg_files) result" where
  "reopen sha256 nsdir lf =
     (case recover_durable sha256 nsdir (snd lf) (log_durable (fst lf)) of
        Inl e \<Rightarrow> Err e
      | Inr (l, _, files) \<Rightarrow> Ok (l, files))"

text \<open>The files left by a crash after only the first \<open>k\<close> bytes of an append reached the disk.\<close>

definition torn_append :: "nat \<Rightarrow> bytes \<Rightarrow> log \<times> seg_files \<Rightarrow> seg_files" where
  "torn_append k bs lf =
     (let (l, files) = lf;
          roll = (cur_len l > 0 \<and> cur_len l + length bs > SEGMENT_BYTES);
          n = (if roll then cur_seg l + 1 else cur_seg l);
          pos = (if roll then 0 else cur_len l)
      in AList.update n (write_at pos (take k bs) (file_of files n)) files)"

text \<open>The window \<open>[from_seq, from_seq + max)\<close> of a list of records, numbered from 1.\<close>

definition log_window :: "nat \<Rightarrow> nat \<Rightarrow> bytes list \<Rightarrow> (nat \<times> bytes) list" where
  "log_window from_seq max_n recs =
     (if from_seq = 0 then []
      else let n = (if max_n = 0 then length recs else min (from_seq - 1 + max_n) (length recs))
           in map (\<lambda>i. (i + 1, recs ! i)) [from_seq - 1..<n])"

text \<open>Writing records one after the other, each chained to the current head.\<close>

fun write_recs :: "(bytes \<Rightarrow> 's \<Rightarrow> 's \<times> nat) \<Rightarrow> ('s \<Rightarrow> bytes) \<Rightarrow> log_record list \<Rightarrow> 's \<Rightarrow> 's" where
  "write_recs app hd_of [] s = s"
| "write_recs app hd_of (r # rs) s = write_recs app hd_of rs (fst (app (to_bytes r (hd_of s)) s))"

definition decodes :: "bytes list \<Rightarrow> log_record list \<Rightarrow> bool" where
  "decodes bs rs = list_all2 (\<lambda>b r. \<exists>prev. parse_chain b None = Ok (r, prev)) bs rs"

definition contiguous :: "seg_files \<Rightarrow> bool" where
  "contiguous files = (\<forall>i. map_of files i = None \<longrightarrow> map_of files (Suc i) = None)"

section \<open>Chains\<close>

lemma chain_from_append [simp]:
  "chain_from sha256 h (xs @ ys) \<longleftrightarrow>
   chain_from sha256 h xs \<and> chain_from sha256 (chain_head sha256 h xs) ys"
  by (induction xs arbitrary: h) (auto simp: chain_head_def)

lemma chain_head_simps [simp]:
  "chain_head sha256 h [] = h"
  "chain_head sha256 h (b # bs) = chain_head sha256 (record_hash sha256 h b) bs"
  "chain_head sha256 h (xs @ ys) = chain_head sha256 (chain_head sha256 h xs) ys"
  by (simp_all add: chain_head_def)

lemma starts_length [simp]: "length (starts base bs) = length bs"
  by (induction bs arbitrary: base) auto

lemma starts_append [simp]:
  "starts base (xs @ ys) = starts base xs @ starts (base + length (concat xs)) ys"
  by (induction xs arbitrary: base) (auto simp: add.assoc)

lemma adv_simps [simp]:
  "adv sha256 base [] st = st"
  "adv sha256 base (b # bs) st =
     adv sha256 (base + length b) bs
       \<lparr>rs_seq = rs_seq st + 1, rs_head = record_hash sha256 (rs_head st) b,
        rs_offsets = rs_offsets st @ [base]\<rparr>"
  by (simp_all add: adv_def)

lemma adv_append:
  "adv sha256 base (xs @ ys) st =
   adv sha256 (base + length (concat xs)) ys (adv sha256 base xs st)"
  by (induction xs arbitrary: base st) (auto simp: add.assoc)

lemma rs_head_adv [simp]: "rs_head (adv sha256 base recs st) = chain_head sha256 (rs_head st) recs"
  by (simp add: adv_def)

lemma lens_from_eq:
  "lens_from k segs = map (\<lambda>i. (k + i, length (concat (segs ! i)))) [0..<length segs]"
proof (induction segs arbitrary: k)
  case Nil
  then show ?case by simp
next
  case (Cons s ss)
  have "[0..<length (s # ss)] = 0 # map Suc [0..<length ss]"
    by (simp add: map_Suc_upt upt_conv_Cons del: upt_Suc)
  then show ?case by (simp add: Cons comp_def)
qed

lemma lens_from_append [simp]:
  "lens_from k (xs @ ys) = lens_from k xs @ lens_from (k + length xs) ys"
  by (induction xs arbitrary: k) auto

lemma lens_from_Nil_iff [simp]: "lens_from k segs = [] \<longleftrightarrow> segs = []"
  by (cases segs) auto

lemma sum_lens_from: "sum_list (map snd (lens_from k segs)) = length (concat (concat segs))"
  by (induction segs arbitrary: k) auto

lemma last_lens_from:
  "segs \<noteq> [] \<Longrightarrow>
   List.last (lens_from k segs) = (k + length segs - 1, length (concat (List.last segs)))"
  by (induction segs rule: rev_induct) auto

lemma parse_okE:
  assumes "is_ok (parse b h)"
  obtains r where "parse b h = Ok (r, h)" "HEADER_LEN \<le> length b" "valid_tag (b ! 0)"
    "unat (u32_from_le (slice 1 5 b)) = length b - HEADER_LEN" "slice 9 41 b = h" "rec_wf r"
proof -
  from assms obtain r prev where p: "parse_chain b (Some h) = Ok (r, prev)"
    by (auto simp: is_ok_iff parse_def)
  have "prev = h" "valid_tag (b ! 0)"
    using p by (auto simp: parse_chain_def Let_def split: if_splits sum.splits)
  then show thesis using parse_chain_wf [OF p] p that [of r] by (simp add: parse_def)
qed

lemma parse_ok_nonempty: "is_ok (parse b h) \<Longrightarrow> 0 < length b"
  by (erule parse_okE) (auto simp: HEADER_LEN_def)

section \<open>The recovery loop\<close>

lemma recover_seg_end: "length buf \<le> pos \<Longrightarrow> recover_seg sha256 nsdir l base buf pos st = Ok (st, None)"
  by (subst recover_seg.simps) simp

lemma recover_seg_record:
  assumes "is_ok (parse b (rs_head st))"
  shows "recover_seg sha256 nsdir l base (pre @ b @ post) (length pre) st =
    recover_seg sha256 nsdir l base (pre @ b @ post) (length pre + length b)
      (adv sha256 (base + length pre) [b] st)"
proof -
  from assms obtain r where p: "parse b (rs_head st) = Ok (r, rs_head st)"
    and l: "HEADER_LEN \<le> length b" and t: "valid_tag (b ! 0)"
    and d: "unat (u32_from_le (slice 1 5 b)) = length b - HEADER_LEN"
    by (rule parse_okE)
  have "(pre @ b @ post) ! length pre = b ! 0"
    using l by (cases b) (simp_all add: HEADER_LEN_def)
  moreover have "slice (length pre + 1) (length pre + 5) (pre @ b @ post) = slice 1 5 b"
    using l by (simp add: slice_def HEADER_LEN_def)
  moreover have "slice (length pre) (length pre + length b) (pre @ b @ post) = b"
    by (simp add: slice_def)
  ultimately show ?thesis
    using p l t d parse_ok_nonempty [OF assms]
    by (subst recover_seg.simps) (simp add: Let_def HEADER_LEN_def)
qed

lemma recover_seg_chain:
  assumes "chain_from sha256 (rs_head st) recs"
  shows "recover_seg sha256 nsdir l base (pre @ concat recs @ post) (length pre) st =
    recover_seg sha256 nsdir l base (pre @ concat recs @ post) (length pre + length (concat recs))
      (adv sha256 (base + length pre) recs st)"
  using assms
proof (induction recs arbitrary: pre st)
  case Nil
  then show ?case by simp
next
  case (Cons b recs)
  let ?st = "adv sha256 (base + length pre) [b] st"
  have "chain_from sha256 (rs_head ?st) recs" using Cons(2) by simp
  from Cons(1) [OF this, of "pre @ b"] recover_seg_record [of b st sha256 nsdir l base pre "concat recs @ post"]
  show ?case using Cons(2) by (simp add: add.assoc)
qed

lemma recover_seg_all:
  assumes "chain_from sha256 (rs_head st) recs"
  shows "recover_seg sha256 nsdir l base (concat recs) 0 st = Ok (adv sha256 base recs st, None)"
  using recover_seg_chain [OF assms, of nsdir l base "[]" "[]"] by (simp add: recover_seg_end)

lemma recover_seg_torn:
  assumes "chain_from sha256 (rs_head st) recs"
    and "is_ok (parse (t @ t') h)" "t \<noteq> []" "t' \<noteq> []"
  shows "recover_seg sha256 nsdir True base (concat recs @ t) 0 st =
    Ok (adv sha256 base recs st, Some (length (concat recs)))"
proof -
  let ?b = "t @ t'" and ?n = "length (concat recs)"
  let ?buf = "concat recs @ t"
  from assms(2) obtain r where l: "HEADER_LEN \<le> length ?b" and tag: "valid_tag (?b ! 0)"
    and d: "unat (u32_from_le (slice 1 5 ?b)) = length ?b - HEADER_LEN"
    by (rule parse_okE)
  have "recover_seg sha256 nsdir True base ?buf ?n st' = Ok (st', Some ?n)" for st'
  proof (cases "length t < HEADER_LEN")
    case True
    then show ?thesis using assms(3) by (subst recover_seg.simps) (simp add: Let_def)
  next
    case False
    then have "?buf ! ?n = ?b ! 0" "slice (?n + 1) (?n + 5) ?buf = slice 1 5 ?b"
      by (auto simp: slice_def HEADER_LEN_def nth_append)
    moreover have "length t < HEADER_LEN + (length ?b - HEADER_LEN)"
      using assms(4) l by simp
    ultimately show ?thesis
      using False tag d assms(3) by (subst recover_seg.simps) (simp add: Let_def)
  qed
  then show ?thesis using recover_seg_chain [OF assms(1), of nsdir True base "[]" t] by simp
qed

lemma recover_segs_chain:
  assumes "chain_from sha256 (rs_head st) (concat segs)" "map snd xs = map concat segs"
  shows "recover_segs sha256 nsdir xs tot st = Ok (adv sha256 tot (concat segs) st, None)"
  using assms
proof (induction segs arbitrary: xs tot st)
  case Nil
  then show ?case by simp
next
  case (Cons seg segs)
  then obtain n ys where xs: "xs = (n, concat seg) # ys" "map snd ys = map concat segs"
    by (cases xs) auto
  have "recover_seg sha256 nsdir (ys = []) tot (concat seg) 0 st = Ok (adv sha256 tot seg st, None)"
    using Cons(2) by (simp add: recover_seg_all)
  then show ?case
    using Cons(1) [of "adv sha256 tot seg st" ys "tot + length (concat seg)"] Cons(2) xs
    by (simp add: adv_append)
qed

lemma recover_segs_torn:
  assumes "chain_from sha256 (rs_head st) (concat segs @ recs)"
    and "map snd xs = map concat segs"
    and "is_ok (parse (t @ t') h)" "t \<noteq> []" "t' \<noteq> []"
  shows "recover_segs sha256 nsdir (xs @ [(n, concat recs @ t)]) tot st =
    Ok (adv sha256 tot (concat segs @ recs) st, Some (n, length (concat recs)))"
  using assms(1,2)
proof (induction segs arbitrary: xs tot st)
  case Nil
  then show ?case using assms(3-5) by (simp add: recover_seg_torn)
next
  case (Cons seg segs)
  then obtain m ys where xs: "xs = (m, concat seg) # ys" "map snd ys = map concat segs"
    by (cases xs) auto
  have "recover_seg sha256 nsdir False tot (concat seg) 0 st = Ok (adv sha256 tot seg st, None)"
    using Cons(2) by (simp add: recover_seg_all)
  then show ?case
    using Cons(1) [of "adv sha256 tot seg st" ys "tot + length (concat seg)"] Cons(2) xs
    by (simp add: adv_append add.assoc)
qed

section \<open>Segment discovery and reopening\<close>

lemma discover_upto:
  assumes "k \<le> n" "\<And>i. k \<le> i \<Longrightarrow> i < n \<Longrightarrow> map_of files i = Some (f i)" "map_of files n = None"
  shows "discover files k = map (\<lambda>i. (i, f i)) [k..<n]"
  using assms(1,2)
proof (induction "n - k" arbitrary: k)
  case 0
  then show ?case using assms(3) by (subst discover.simps) simp
next
  case (Suc m)
  then have "discover files (Suc k) = map (\<lambda>i. (i, f i)) [Suc k..<n]" by simp
  then show ?case using Suc by (subst discover.simps) (simp add: upt_rec [of k])
qed

lemma map_of_file_of: "map_of files i = Some b \<Longrightarrow> file_of files i = b"
  by (simp add: file_of_def)

lemma log_reprD:
  assumes "log_repr sha256 (l, files) segs"
  shows "segs \<noteq> []" "Suc (cur_seg l) = length segs" "cur_len l = length (concat (List.last segs))"
    "\<And>i. map_of files i = (if i < length segs then Some (concat (segs ! i)) else None)"
    "seg_lens l = lens_from 0 segs"
    "log_seq l = length (concat segs)" "log_head l = chain_head sha256 zero32 (concat segs)"
    "offsets l = starts 0 (concat segs)" "chain_from sha256 zero32 (concat segs)"
  using assms by (auto simp: log_repr_def Let_def)

lemma discover_repr:
  assumes "segs \<noteq> []"
    and "\<And>i. map_of files i = (if i < length segs then Some (concat (segs ! i)) else None)"
  shows "discover files 0 = map (\<lambda>i. (i, concat (segs ! i))) [0..<length segs]"
  by (rule discover_upto) (use assms in auto)

lemma map_nth_upt: "map (\<lambda>i. f (xs ! i)) [0..<length xs] = map f xs"
  by (rule nth_equalityI) auto

text \<open>Updating a file with its own content changes nothing a lookup sees.\<close>

lemma map_of_update_same:
  "map_of files n = Some b \<Longrightarrow> map_of (AList.update n b files) = map_of files"
  by (auto simp: update_conv')

lemma recover_repr:
  assumes "log_repr sha256 (l, files) segs"
  shows "\<exists>files'. recover_durable sha256 nsdir files (log_durable l) = Ok (l, None, files') \<and>
                  map_of files' = map_of files"
proof -
  note d = log_reprD [OF assms]
  let ?n = "length segs"
  have segs: "discover files 0 = map (\<lambda>i. (i, concat (segs ! i))) [0..<?n]"
    by (rule discover_repr [OF d(1,4)])
  have r: "recover_segs sha256 nsdir (discover files 0) 0 st0 =
      Ok (adv sha256 0 (concat segs) st0, None)"
    by (rule recover_segs_chain) (use d(9) in \<open>auto simp: segs comp_def map_nth_upt st0_def\<close>)
  have n: "0 < ?n" using d(1) by simp
  have last: "List.last segs = segs ! (?n - 1)" using d(1) by (simp add: last_conv_nth)
  have cs: "cur_seg l = ?n - 1" using d(2) by simp
  have f: "map_of files (?n - 1) = Some (concat (segs ! (?n - 1)))" using d(4) n by simp
  have lens: "map (\<lambda>(m, b). (m, length b)) (discover files 0) = seg_lens l"
    by (simp add: segs d(5) lens_from_eq)
  have ll: "List.last (seg_lens l) = (?n - 1, length (concat (segs ! (?n - 1))))"
    using d(1) by (simp add: d(5) last_lens_from last)
  have ne: "seg_lens l \<noteq> []" using n by (simp add: d(5))
  show ?thesis
    unfolding recover_durable_def Let_def r lens
    using d(3,6,7,8) last ll ne cs f map_of_update_same [OF f]
    by (auto simp: adv_def st0_def map_of_file_of)
qed

section \<open>Appending\<close>

lemma log_repr_append_same:
  assumes "log_repr sha256 (l, files) segs" "is_ok (parse b (log_head l))"
    and "\<not> (cur_len l > 0 \<and> cur_len l + length b > SEGMENT_BYTES)"
  shows "log_repr sha256 (fst (log_append sha256 b (l, files))) (butlast segs @ [List.last segs @ [b]])"
proof -
  note d = log_reprD [OF assms(1)]
  obtain xs x where segs: "segs = xs @ [x]" using d(1) by (metis rev_exhaust)
  have cs: "cur_seg l = length xs" and cl: "cur_len l = length (concat x)"
    using d(2,3) by (simp_all add: segs)
  have off: "sum_list (map snd (seg_lens l)) = length (concat (concat segs))"
    by (simp only: d(5) sum_lens_from)
  have prev: "slice 9 41 b = log_head l" using assms(2) by (rule parse_okE)
  have "file_of files (length xs) = concat x" using d(4) [of "length xs"] by (simp add: map_of_file_of segs)
  then have w: "write_at (length (concat x)) b (file_of files (length xs)) = concat (x @ [b])"
    by (simp add: write_at_def)
  have "map_of (AList.update (length xs) (concat (x @ [b])) files) i =
      (if i < length (xs @ [x @ [b]]) then Some (concat ((xs @ [x @ [b]]) ! i)) else None)" for i
    using d(4) [of i] by (auto simp: update_conv' segs nth_append)
  then show ?thesis
    using assms(2,3) d(6-9) off prev
    by (auto simp: log_repr_def log_append_def Let_def segs d(5) cs cl w)
qed

lemma log_repr_append_roll:
  assumes "log_repr sha256 (l, files) segs" "is_ok (parse b (log_head l))"
    and "cur_len l > 0 \<and> cur_len l + length b > SEGMENT_BYTES"
  shows "log_repr sha256 (fst (log_append sha256 b (l, files))) (segs @ [[b]])"
proof -
  note d = log_reprD [OF assms(1)]
  have cs: "cur_seg l + 1 = length segs" using d(2) by simp
  have off: "sum_list (map snd (seg_lens l)) = length (concat (concat segs))"
    by (simp only: d(5) sum_lens_from)
  have prev: "slice 9 41 b = log_head l" using assms(2) by (rule parse_okE)
  have "file_of files (length segs) = []" using d(4) by (simp add: file_of_def)
  then have w: "write_at 0 b (file_of files (length segs)) = b" by (simp add: write_at_def)
  have "map_of (AList.update (length segs) b files) i =
      (if i < length (segs @ [[b]]) then Some (concat ((segs @ [[b]]) ! i)) else None)" for i
    using d(4) [of i] by (auto simp: update_conv' nth_append)
  then show ?thesis
    using assms(2,3) d(6-9) off prev cs
    by (auto simp: log_repr_def log_append_def Let_def d(5) w)
qed

lemma log_holds_append:
  assumes "log_holds sha256 (l, files) recs" "is_ok (parse b (log_head l))"
  shows "log_holds sha256 (fst (log_append sha256 b (l, files))) (recs @ [b]) \<and>
         snd (log_append sha256 b (l, files)) = length recs + 1"
proof -
  from assms(1) obtain segs where segs: "log_repr sha256 (l, files) segs" "recs = concat segs"
    by (auto simp: log_holds_def)
  have ne: "segs \<noteq> []" using log_reprD(1) [OF segs(1)] .
  have "concat (butlast segs @ [List.last segs @ [b]]) = concat segs @ [b]"
    using ne by (induction segs rule: rev_induct) auto
  then have "log_holds sha256 (fst (log_append sha256 b (l, files))) (recs @ [b])"
    using log_repr_append_same [OF segs(1) assms(2)] log_repr_append_roll [OF segs(1) assms(2)]
    unfolding log_holds_def segs(2)
    by (metis append_self_conv2 concat.simps concat_append self_append_conv)
  moreover have "snd (log_append sha256 b (l, files)) = log_seq l + 1"
    by (simp add: log_append_def Let_def)
  ultimately show ?thesis using log_reprD(6) [OF segs(1)] segs(2) by simp
qed

section \<open>Reading\<close>

lemma starts_nth: "i < length bs \<Longrightarrow> starts base bs ! i = base + length (concat (take i bs))"
  by (induction bs arbitrary: base i) (auto simp: nth_Cons split: nat.splits)

lemma segment_at_finds:
  assumes "idx < length (concat segs)" "\<forall>b \<in> set (concat segs). 0 < length b"
  shows "\<exists>j pre post acc'. j < length segs \<and>
    segment_at (lens_from k segs) acc (acc + length (concat (take idx (concat segs)))) = Ok (k + j, acc') \<and>
    concat (segs ! j) = pre @ (concat segs ! idx) @ post \<and>
    acc + length (concat (take idx (concat segs))) = acc' + length pre"
  using assms
proof (induction segs arbitrary: idx k acc)
  case Nil
  then show ?case by simp
next
  case (Cons s ss)
  show ?case
  proof (cases "idx < length s")
    case True
    have b: "concat s = concat (take idx s) @ s ! idx @ concat (drop (Suc idx) s)"
      by (metis True concat.simps(2) concat_append id_take_nth_drop)
    have "0 < length (s ! idx)" using Cons(3) True by simp
    then have "length (concat (take idx s)) < length (concat s)" by (subst b) simp
    then show ?thesis
      using True b
      by (intro exI [of _ 0] exI [of _ "concat (take idx s)"] exI [of _ "concat (drop (Suc idx) s)"]
          exI [of _ acc]) (simp add: nth_append)
  next
    case False
    let ?i = "idx - length s"
    have "?i < length (concat ss)" "\<forall>b \<in> set (concat ss). 0 < length b"
      using False Cons(2,3) by auto
    from Cons(1) [OF this, of "Suc k" "acc + length (concat s)"] obtain j pre post acc' where
      j: "j < length ss" "segment_at (lens_from (Suc k) ss) (acc + length (concat s))
        (acc + length (concat s) + length (concat (take ?i (concat ss)))) = Ok (Suc k + j, acc')"
      "concat (ss ! j) = pre @ (concat ss ! ?i) @ post"
      "acc + length (concat s) + length (concat (take ?i (concat ss))) = acc' + length pre"
      by blast
    then show ?thesis
      using False by (intro exI [of _ "Suc j"] exI [of _ pre] exI [of _ post] exI [of _ acc'])
        (auto simp: nth_append add.assoc)
  qed
qed

lemma chain_nonempty: "chain_from sha256 h recs \<Longrightarrow> b \<in> set recs \<Longrightarrow> 0 < length b"
  by (induction recs arbitrary: h) (auto dest: parse_ok_nonempty)

lemma chain_framed:
  assumes "chain_from sha256 h recs" "b \<in> set recs"
  shows "HEADER_LEN \<le> length b \<and> unat (u32_from_le (slice 1 5 b)) = length b - HEADER_LEN"
  using assms by (induction recs arbitrary: h) (auto elim: parse_okE)

lemma read_one_repr:
  assumes "log_repr sha256 (l, files) segs" "idx < length (concat segs)"
  shows "read_one (l, files) idx = Ok (idx + 1, concat segs ! idx)"
proof -
  note d = log_reprD [OF assms(1)]
  let ?b = "concat segs ! idx"
  have ne: "\<forall>b \<in> set (concat segs). 0 < length b" using chain_nonempty [OF d(9)] by blast
  have fr: "HEADER_LEN \<le> length ?b" "unat (u32_from_le (slice 1 5 ?b)) = length ?b - HEADER_LEN"
    using chain_framed [OF d(9), of ?b] assms(2) nth_mem by blast+
  from segment_at_finds [OF assms(2) ne, of 0 0] obtain j pre post acc' where
    j: "j < length segs"
      "segment_at (lens_from 0 segs) 0 (length (concat (take idx (concat segs)))) = Ok (j, acc')"
      "concat (segs ! j) = pre @ ?b @ post" "length (concat (take idx (concat segs))) = acc' + length pre"
    by auto
  have off: "offsets l ! idx = acc' + length pre"
    using j(4) assms(2) by (simp add: d(8) starts_nth)
  have f: "file_of files j = pre @ ?b @ post" using d(4) [of j] j(1,3) by (simp add: map_of_file_of)
  have seg: "segment_at (seg_lens l) 0 (acc' + length pre) = Ok (j, acc')"
    using j(2,4) by (simp add: d(5))
  have h: "read_exact (pre @ ?b @ post) (length pre) HEADER_LEN = Ok (take HEADER_LEN ?b)"
    using fr(1) by (simp add: read_exact_def slice_def)
  have t: "read_exact (pre @ ?b @ post) (length pre + HEADER_LEN) (length ?b - HEADER_LEN) =
      Ok (drop HEADER_LEN ?b)"
    using fr(1) by (simp add: read_exact_def slice_def)
  have s: "slice 1 5 (take HEADER_LEN ?b) = slice 1 5 ?b"
    by (simp add: slice_def HEADER_LEN_def take_drop)
  show ?thesis by (simp add: read_one_def Let_def off seg f h s fr(2) t del: One_nat_def)
qed

lemma read_records_repr:
  assumes "log_repr sha256 (l, files) segs"
  shows "read_records (l, files) from_seq max_n =
    Ok (log_window from_seq max_n (concat segs))"
proof -
  note d = log_reprD [OF assms]
  have "collect_result (read_one (l, files)) [a..<b] = Ok (map (\<lambda>i. (i + 1, concat segs ! i)) [a..<b])"
    if "b \<le> length (concat segs)" for a b
    by (rule collect_result_Ok) (use that read_one_repr [OF assms] in auto)
  then show ?thesis
    by (auto simp: read_records_def log_window_def Let_def d(6,8) min_def)
qed

section \<open>Recovery of arbitrary files\<close>

lemma recover_seg_stop:
  assumes "recover_seg sha256 nsdir l base buf pos st = Ok (st', c)"
    and "n = HEADER_LEN + unat (u32_from_le (slice (pos + 1) (pos + 5) buf))"
    and "\<not> (pos < length buf \<and> HEADER_LEN \<le> length buf - pos \<and> valid_tag (buf ! pos) \<and>
      n \<le> length buf - pos \<and> is_ok (parse (slice pos (pos + n) buf) (rs_head st)))"
  shows "st' = st \<and> (case c of None \<Rightarrow> \<not> pos < length buf | Some k \<Rightarrow> l \<and> k = pos \<and> pos < length buf)"
proof -
  note u = assms(1) [unfolded recover_seg.simps [of sha256 nsdir l base buf pos st] Let_def,
      folded assms(2)]
  consider "\<not> pos < length buf" | "pos < length buf" "length buf - pos < HEADER_LEN"
    | "pos < length buf" "\<not> length buf - pos < HEADER_LEN" "\<not> valid_tag (buf ! pos)"
    | "pos < length buf" "\<not> length buf - pos < HEADER_LEN" "valid_tag (buf ! pos)" "length buf - pos < n"
    | e where "pos < length buf" "\<not> length buf - pos < HEADER_LEN" "valid_tag (buf ! pos)"
      "\<not> length buf - pos < n" "parse (slice pos (pos + n) buf) (rs_head st) = Inl e"
    using assms(3) by (cases "parse (slice pos (pos + n) buf) (rs_head st)") fastforce+
  then show ?thesis
  proof cases
    case (5 e)
    then show ?thesis using u by (cases e) (auto split: if_splits)
  qed (use u in \<open>auto split: if_splits\<close>)
qed

lemma recover_seg_go:
  assumes "pos < length buf" "HEADER_LEN \<le> length buf - pos" "valid_tag (buf ! pos)"
    and "n = HEADER_LEN + unat (u32_from_le (slice (pos + 1) (pos + 5) buf))"
    and "n \<le> length buf - pos" "is_ok (parse (slice pos (pos + n) buf) (rs_head st))"
  shows "recover_seg sha256 nsdir l base buf pos st =
    recover_seg sha256 nsdir l base buf (pos + n)
      (adv sha256 (base + pos) [slice pos (pos + n) buf] st)"
proof -
  obtain r where "parse (slice pos (pos + n) buf) (rs_head st) = Ok (r, rs_head st)"
    using assms(6) by (rule parse_okE)
  then show ?thesis
    unfolding recover_seg.simps [of sha256 nsdir l base buf pos st] Let_def assms(4) [symmetric]
    using assms(1-3,5) by simp
qed

lemma recover_seg_sound:
  assumes "recover_seg sha256 nsdir l base buf pos st = Ok (st', c)" "pos \<le> length buf"
  shows "\<exists>recs. chain_from sha256 (rs_head st) recs \<and> st' = adv sha256 (base + pos) recs st \<and>
    (case c of None \<Rightarrow> slice pos (length buf) buf = concat recs
     | Some k \<Rightarrow> l \<and> pos \<le> k \<and> k < length buf \<and> slice pos k buf = concat recs)"
  using assms
proof (induction "length buf - pos" arbitrary: pos st rule: less_induct)
  case (less pos st)
  define n where "n = HEADER_LEN + unat (u32_from_le (slice (pos + 1) (pos + 5) buf))"
  let ?b = "slice pos (pos + n) buf"
  show ?case
  proof (cases "pos < length buf \<and> HEADER_LEN \<le> length buf - pos \<and> valid_tag (buf ! pos) \<and>
      n \<le> length buf - pos \<and> is_ok (parse ?b (rs_head st))")
    case True
    let ?st = "adv sha256 (base + pos) [?b] st"
    have t: "pos < length buf" "HEADER_LEN \<le> length buf - pos" "valid_tag (buf ! pos)"
      "n \<le> length buf - pos" "is_ok (parse ?b (rs_head st))"
      using True by blast+
    have "recover_seg sha256 nsdir l base buf (pos + n) ?st = Ok (st', c)"
      using less(2) recover_seg_go [OF t(1-3) n_def t(4,5), of sha256 nsdir l base] by simp
    moreover have "length buf - (pos + n) < length buf - pos" "pos + n \<le> length buf"
      using True by (auto simp: HEADER_LEN_def n_def)
    ultimately obtain recs where r: "chain_from sha256 (rs_head ?st) recs"
      "st' = adv sha256 (base + (pos + n)) recs ?st"
      "case c of None \<Rightarrow> slice (pos + n) (length buf) buf = concat recs
        | Some k \<Rightarrow> l \<and> pos + n \<le> k \<and> k < length buf \<and> slice (pos + n) k buf = concat recs"
      using less(1) [of "pos + n" ?st] by blast
    have "length ?b = n" using True by simp
    then have "st' = adv sha256 (base + pos) (?b # recs) st" using r(2) by (simp add: add.assoc)
    moreover have "case c of None \<Rightarrow> slice pos (length buf) buf = concat (?b # recs)
        | Some k \<Rightarrow> l \<and> pos \<le> k \<and> k < length buf \<and> slice pos k buf = concat (?b # recs)"
    proof (cases c)
      case None
      then show ?thesis
        using r(3) slice_join [of pos "pos + n" "length buf" buf] \<open>pos + n \<le> length buf\<close> by simp
    next
      case (Some k)
      then show ?thesis using r(3) slice_join [of pos "pos + n" k buf] by simp
    qed
    moreover have "chain_from sha256 (rs_head st) (?b # recs)" using r(1) t(5) by simp
    ultimately show ?thesis by blast
  next
    case False
    from recover_seg_stop [OF less(2) n_def False] less(3) show ?thesis
      by (intro exI [of _ "[]"]) (cases c; simp add: slice_def)
  qed
qed

lemma recover_segs_sound:
  assumes "recover_segs sha256 nsdir xs tot st = Ok (st', tr)"
  shows "\<exists>segs. length segs = length xs \<and> chain_from sha256 (rs_head st) (concat segs) \<and>
    st' = adv sha256 tot (concat segs) st \<and>
    (case tr of None \<Rightarrow> map concat segs = map snd xs
     | Some (n, k) \<Rightarrow> xs \<noteq> [] \<and> n = fst (List.last xs) \<and> k \<le> length (snd (List.last xs)) \<and>
         map concat segs = map snd (butlast xs) @ [take k (snd (List.last xs))])"
  using assms
proof (induction xs arbitrary: tot st)
  case Nil
  then show ?case by (intro exI [of _ "[]"]) auto
next
  case (Cons x xs)
  obtain n buf where x: "x = (n, buf)" by (cases x)
  from Cons(2) obtain st1 c where s: "recover_seg sha256 nsdir (xs = []) tot buf 0 st = Ok (st1, c)"
    by (auto simp: x split: sum.splits)
  from recover_seg_sound [OF s] obtain recs where r: "chain_from sha256 (rs_head st) recs"
    "st1 = adv sha256 tot recs st"
    "case c of None \<Rightarrow> buf = concat recs
     | Some k \<Rightarrow> xs = [] \<and> k < length buf \<and> take k buf = concat recs"
    by (auto simp: slice_def split: option.splits)
  show ?case
  proof (cases c)
    case None
    with Cons(2) s have "recover_segs sha256 nsdir xs (tot + length buf) st1 = Ok (st', tr)"
      by (simp add: x)
    from Cons(1) [OF this] obtain segs where g: "length segs = length xs"
      "chain_from sha256 (rs_head st1) (concat segs)"
      "st' = adv sha256 (tot + length buf) (concat segs) st1"
      "case tr of None \<Rightarrow> map concat segs = map snd xs
       | Some (n, k) \<Rightarrow> xs \<noteq> [] \<and> n = fst (List.last xs) \<and> k \<le> length (snd (List.last xs)) \<and>
           map concat segs = map snd (butlast xs) @ [take k (snd (List.last xs))]"
      by blast
    then show ?thesis
      using None r by (intro exI [of _ "recs # segs"]) (auto simp: x adv_append split: option.splits)
  next
    case (Some k)
    with Cons(2) s have "st' = st1" "tr = Some (n, k)" by (simp_all add: x)
    then show ?thesis using Some r by (intro exI [of _ "[recs]"]) (auto simp: x)
  qed
qed

lemma contiguous_discover:
  assumes "contiguous files"
  obtains n where "discover files 0 = map (\<lambda>i. (i, file_of files i)) [0..<n]"
    "\<forall>i. map_of files i = (if i < n then Some (file_of files i) else None)"
proof -
  have "finite (dom (map_of files))" by (rule finite_dom_map_of)
  then obtain m where "m \<notin> dom (map_of files)" using ex_new_if_finite infinite_UNIV_nat by blast
  define n where "n = (LEAST i. map_of files i = None)"
  have n: "map_of files n = None"
    unfolding n_def by (rule LeastI_ex) (use \<open>m \<notin> dom (map_of files)\<close> in auto)
  have lt: "map_of files i \<noteq> None" if "i < n" for i
    using that not_less_Least n_def by blast
  have ge: "map_of files i = None" if "n \<le> i" for i
    using that n assms by (induction rule: dec_induct) (auto simp: contiguous_def)
  have eq: "map_of files i = (if i < n then Some (file_of files i) else None)" for i
    using lt [of i] ge [of i] by (auto simp: file_of_def)
  have "discover files 0 = map (\<lambda>i. (i, file_of files i)) [0..<n]"
    by (rule discover_upto) (use eq in auto)
  with eq show thesis using that by blast
qed

lemma log_repr_iff:
  "log_repr sha256 (l, files) segs \<longleftrightarrow>
   segs \<noteq> [] \<and> l = log_of sha256 (log_durable l) segs \<and> chain_from sha256 zero32 (concat segs) \<and>
   (\<forall>i. map_of files i = (if i < length segs then Some (concat (segs ! i)) else None))"
  by (cases l) (auto simp: log_repr_def Let_def log_of_def)

lemma map_snd_upt: "map snd (map (\<lambda>i. (i, f i)) [0..<n]) = map f [0..<n]"
  by (simp add: comp_def)

lemma last_map_upt: "0 < n \<Longrightarrow> List.last (map f [0..<n]) = f (n - 1)"
  by (cases n) auto

lemma butlast_map_upt: "butlast (map f [0..<n]) = map f [0..<n - 1]"
  by (cases n) auto

lemma lens_from_upt:
  assumes "length segs = n" "\<And>i. i < n \<Longrightarrow> length (concat (segs ! i)) = f i"
  shows "map (\<lambda>i. (i, f i)) [0..<n] = lens_from 0 segs"
  using assms by (auto simp: lens_from_eq)

lemma recover_out_clean:
  assumes "discover files 0 = map (\<lambda>i. (i, f i)) [0..<Suc m]" "length segs = Suc m"
    and "\<And>i. i \<le> m \<Longrightarrow> concat (segs ! i) = f i"
    and "recover_segs sha256 nsdir (discover files 0) 0 st0 = Ok (adv sha256 0 (concat segs) st0, None)"
  shows "recover_durable sha256 nsdir files durable =
    Ok (log_of sha256 durable segs, None, AList.update m (file_of files m) files)"
proof -
  have lens: "map (\<lambda>(n, b). (n, length b)) (map (\<lambda>i. (i, f i)) [0..<Suc m]) = lens_from 0 segs"
    using lens_from_upt [of segs "Suc m" "\<lambda>i. length (f i)"] assms(2,3) by (simp add: comp_def)
  have ne: "segs \<noteq> []" using assms(2) by auto
  show ?thesis
    unfolding recover_durable_def Let_def assms(4) unfolding assms(1) lens
    using ne assms(2) by (simp add: log_of_def adv_def st0_def last_lens_from)
qed

lemma recover_out_torn:
  assumes "discover files 0 = map (\<lambda>i. (i, f i)) [0..<Suc m]" "length segs = Suc m"
    and "\<And>i. i < m \<Longrightarrow> concat (segs ! i) = f i" "concat (segs ! m) = take k (f m)" "k \<le> length (f m)"
    and "file_of files m = f m"
    and "recover_segs sha256 nsdir (discover files 0) 0 st0 =
      Ok (adv sha256 0 (concat segs) st0, Some (m, k))"
  shows "\<exists>files'. recover_durable sha256 nsdir files durable =
      Ok (log_of sha256 durable segs, Some (TruncatedTail 1), files') \<and>
    map_of files' = (map_of files)(m \<mapsto> concat (segs ! m))"
proof -
  have l: "length (concat (segs ! m)) = k" using assms(4,5) by simp
  have "lens_from 0 segs = map (\<lambda>i. (i, length (concat (segs ! i)))) [0..<m] @ [(m, k)]"
    using l by (simp add: lens_from_eq assms(2))
  also have "map (\<lambda>i. (i, length (concat (segs ! i)))) [0..<m] = map (\<lambda>i. (i, length (f i))) [0..<m]"
    using assms(3) by simp
  finally have lens: "map (\<lambda>i. (i, length (f i))) [0..<m] @ [(m, k)] = lens_from 0 segs" ..
  have ll: "List.last (lens_from 0 segs) = (m, k)" by (simp flip: lens)
  have ne: "segs \<noteq> []" using assms(2) by auto
  have last: "List.last segs = segs ! m" using assms(2) by (metis diff_Suc_1 last_conv_nth list.size(3) nat.simps(3))
  have f: "file_of (AList.update m (take k (f m)) files) m = take k (f m)"
    by (simp add: file_of_def update_conv')
  show ?thesis
    unfolding recover_durable_def Let_def assms(7) unfolding assms(1)
    using ne ll assms(5)
    by (simp add: comp_def lens assms(2,4,6) f log_of_def adv_def st0_def last l update_conv')
qed

lemma recover_empty:
  assumes "map_of files = Map.empty"
  shows "recover_durable sha256 nsdir files durable =
    Ok (log_of sha256 durable [[]], None, AList.update 0 [] files)"
proof -
  have "discover files 0 = []" using assms by (subst discover.simps) simp
  then show ?thesis
    using assms by (simp add: recover_durable_def log_of_def st0_def file_of_def)
qed

lemma repr_log_of:
  assumes "segs \<noteq> []" "chain_from sha256 zero32 (concat segs)"
    and "\<And>i. map_of files i = (if i < length segs then Some (concat (segs ! i)) else None)"
  shows "log_repr sha256 (log_of sha256 durable segs, files) segs"
  using assms by (simp add: log_repr_iff) (simp add: log_of_def)

lemma segs_nth:
  assumes "map concat segs = map f [0..<n]" "i < n"
  shows "concat (segs ! i) = f i"
proof -
  have "length segs = n" using assms(1) by (metis length_map length_upt diff_zero)
  then have "concat (segs ! i) = map concat segs ! i" using assms(2) by simp
  then show ?thesis using assms by simp
qed

lemma recover_sound_clean:
  assumes "discover files 0 = map (\<lambda>i. (i, file_of files i)) [0..<Suc m]"
    and "\<forall>i. map_of files i = (if i < Suc m then Some (file_of files i) else None)"
    and "recover_segs sha256 nsdir (discover files 0) 0 st0 = Ok (adv sha256 0 (concat segs) st0, None)"
    and "map concat segs = map (file_of files) [0..<Suc m]" "chain_from sha256 zero32 (concat segs)"
  shows "\<exists>files'. recover_durable sha256 nsdir files durable =
      Ok (log_of sha256 durable segs, None, files') \<and> map_of files' = map_of files \<and>
    log_repr sha256 (log_of sha256 durable segs, files') segs"
proof -
  have len: "length segs = Suc m" using assms(4) by (metis length_map length_upt diff_zero)
  have c: "concat (segs ! i) = file_of files i" if "i \<le> m" for i
    using segs_nth [OF assms(4)] that by simp
  let ?fs = "AList.update m (file_of files m) files"
  have same: "map_of ?fs = map_of files"
    by (rule map_of_update_same) (use assms(2) in simp)
  have "log_repr sha256 (log_of sha256 durable segs, ?fs) segs"
    by (rule repr_log_of) (use assms(2,5) len same c in auto)
  then show ?thesis using recover_out_clean [OF assms(1) len c assms(3), of durable] same by blast
qed

lemma recover_sound_torn:
  assumes "discover files 0 = map (\<lambda>i. (i, file_of files i)) [0..<Suc m]"
    and "\<forall>i. map_of files i = (if i < Suc m then Some (file_of files i) else None)"
    and "recover_segs sha256 nsdir (discover files 0) 0 st0 =
      Ok (adv sha256 0 (concat segs) st0, Some (m, k))"
    and "map concat segs = map (file_of files) [0..<m] @ [take k (file_of files m)]"
    and "k \<le> length (file_of files m)" "chain_from sha256 zero32 (concat segs)"
  shows "\<exists>files'. recover_durable sha256 nsdir files durable =
      Ok (log_of sha256 durable segs, Some (TruncatedTail 1), files') \<and>
    log_repr sha256 (log_of sha256 durable segs, files') segs"
proof -
  have len: "length segs = Suc m"
    using arg_cong [OF assms(4), of length] by simp
  have nth: "concat (segs ! i) = (map (file_of files) [0..<m] @ [take k (file_of files m)]) ! i"
    if "i \<le> m" for i
    using that len assms(4) by (metis le_imp_less_Suc nth_map)
  have lt: "concat (segs ! i) = file_of files i" if "i < m" for i
    using nth [of i] that by (simp add: nth_append)
  have eq: "concat (segs ! m) = take k (file_of files m)" using nth [of m] by (simp add: nth_append)
  from recover_out_torn [OF assms(1) len lt eq assms(5) refl assms(3), of durable] obtain files' where
    f: "recover_durable sha256 nsdir files durable =
      Ok (log_of sha256 durable segs, Some (TruncatedTail 1), files')"
      "map_of files' = (map_of files)(m \<mapsto> concat (segs ! m))" by blast
  have "log_repr sha256 (log_of sha256 durable segs, files') segs"
    by (rule repr_log_of) (use assms(2,6) len f(2) lt in \<open>auto simp: less_Suc_eq\<close>)
  then show ?thesis using f(1) by blast
qed

lemma recover_sound:
  assumes "contiguous files" "recover_durable sha256 nsdir files durable = Ok (l, w, files')"
  shows "\<exists>segs. l = log_of sha256 durable segs \<and> log_repr sha256 (l, files') segs \<and>
    (w = None \<longrightarrow> map_of files \<noteq> Map.empty \<longrightarrow> map_of files' = map_of files)"
proof -
  from contiguous_discover [OF assms(1)] obtain n where
    xs: "discover files 0 = map (\<lambda>i. (i, file_of files i)) [0..<n]" and
    fs: "\<forall>i. map_of files i = (if i < n then Some (file_of files i) else None)" by blast
  obtain st tr where r: "recover_segs sha256 nsdir (discover files 0) 0 st0 = Ok (st, tr)"
    using assms(2) by (auto simp: recover_durable_def Let_def split: sum.splits)
  from recover_segs_sound [OF this] obtain segs where
    ch0: "chain_from sha256 (rs_head st0) (concat segs)" and
    st: "st = adv sha256 0 (concat segs) st0" and
    tr0: "case tr of None \<Rightarrow> map concat segs = map snd (discover files 0)
     | Some (m, k) \<Rightarrow> discover files 0 \<noteq> [] \<and> m = fst (List.last (discover files 0)) \<and>
         k \<le> length (snd (List.last (discover files 0))) \<and>
         map concat segs = map snd (butlast (discover files 0)) @ [take k (snd (List.last (discover files 0)))]"
    by blast
  have ch: "chain_from sha256 zero32 (concat segs)" using ch0 by (simp add: st0_def)
  have tr: "case tr of None \<Rightarrow> map concat segs = map (file_of files) [0..<n]
     | Some (m, k) \<Rightarrow> n \<noteq> 0 \<and> m = n - 1 \<and> k \<le> length (file_of files (n - 1)) \<and>
         map concat segs = map (file_of files) [0..<n - 1] @ [take k (file_of files (n - 1))]"
    using tr0 unfolding xs
    by (cases "n = 0") (auto simp: last_map_upt butlast_map_upt comp_def split: option.splits)
  note r = r [unfolded st]
  show ?thesis
  proof (cases n)
    case 0
    then have "map_of files = Map.empty" using fs by (intro ext) simp
    with recover_empty [OF this, of sha256 nsdir durable] assms(2) show ?thesis
      by (intro exI [of _ "[[]]"]) (auto simp: repr_log_of update_conv')
  next
    case (Suc m)
    note xs = xs [unfolded Suc] and fs = fs [unfolded Suc]
    show ?thesis
    proof (cases tr)
      case None
      from recover_sound_clean [OF xs fs r [unfolded None] _ ch, of durable] tr assms(2)
      show ?thesis by (auto simp: None Suc)
    next
      case (Some mk)
      then obtain k where k: "tr = Some (m, k)" using tr Suc by (cases mk) auto
      from recover_sound_torn [OF xs fs r [unfolded k] _ _ ch, of durable] tr assms(2)
      show ?thesis by (auto simp: k Suc)
    qed
  qed
qed

section \<open>The interface of a log\<close>

text \<open>What the store relies on: a log state holds a list of records, appending a record
  chained to the head extends the list and returns its length, reads are windows of the
  list, and closing and reopening keep it.\<close>

locale record_log =
  fixes holds :: "'s \<Rightarrow> bytes list \<Rightarrow> bool"
    and head_of :: "'s \<Rightarrow> bytes"
    and app :: "bytes \<Rightarrow> 's \<Rightarrow> 's \<times> nat"
    and rd :: "'s \<Rightarrow> nat \<Rightarrow> nat \<Rightarrow> (storage_error, (nat \<times> bytes) list) result"
    and reop :: "'s \<Rightarrow> (storage_error, 's) result"
  assumes head32: "holds s recs \<Longrightarrow> is32 (head_of s)"
    and app_holds: "holds s recs \<Longrightarrow> is_ok (parse b (head_of s)) \<Longrightarrow>
      holds (fst (app b s)) (recs @ [b]) \<and> snd (app b s) = length recs + 1"
    and rd_window: "holds s recs \<Longrightarrow> rd s from_seq max_n = Ok (log_window from_seq max_n recs)"
    and reop_holds: "holds s recs \<Longrightarrow> \<exists>s'. reop s = Ok s' \<and> holds s' recs \<and> head_of s' = head_of s"
begin

lemma app_record:
  assumes "holds s recs" "rec_wf r"
  shows "holds (fst (app (to_bytes r (head_of s)) s)) (recs @ [to_bytes r (head_of s)])"
    and "snd (app (to_bytes r (head_of s)) s) = length recs + 1"
    and "parse_chain (to_bytes r (head_of s)) None = Ok (r, head_of s)"
proof -
  have h: "is32 (head_of s)" by (rule head32 [OF assms(1)])
  then have "is_ok (parse (to_bytes r (head_of s)) (head_of s))"
    by (simp add: parse_def parse_chain_to_bytes [OF assms(2)])
  from app_holds [OF assms(1) this]
  show "holds (fst (app (to_bytes r (head_of s)) s)) (recs @ [to_bytes r (head_of s)])"
    and "snd (app (to_bytes r (head_of s)) s) = length recs + 1" by auto
  show "parse_chain (to_bytes r (head_of s)) None = Ok (r, head_of s)"
    by (simp add: parse_chain_to_bytes [OF assms(2) h])
qed

lemma write_recs_holds:
  assumes "holds s recs" "\<forall>r \<in> set rs. rec_wf r"
  shows "\<exists>bs. holds (write_recs app head_of rs s) (recs @ bs) \<and> decodes bs rs"
  using assms
proof (induction rs arbitrary: s recs)
  case Nil
  then show ?case by (intro exI [of _ "[]"]) (simp add: decodes_def)
next
  case (Cons r rs)
  let ?b = "to_bytes r (head_of s)"
  have wf: "rec_wf r" "\<forall>r \<in> set rs. rec_wf r" using Cons(3) by auto
  from Cons(1) [OF app_record(1) [OF Cons(2) wf(1)] wf(2)] obtain bs where
    "holds (write_recs app head_of rs (fst (app ?b s))) ((recs @ [?b]) @ bs)" "decodes bs rs" by blast
  then show ?case
    using app_record(3) [OF Cons(2) wf(1)] by (intro exI [of _ "?b # bs"]) (auto simp: decodes_def)
qed

lemma write_reopen_read:
  assumes "holds s recs" "\<forall>r \<in> set rs. rec_wf r"
  shows "\<exists>bs s'. reop (write_recs app head_of rs s) = Ok s' \<and> decodes bs rs \<and>
    rd s' 1 0 = Ok (zip [1..<Suc (length (recs @ bs))] (recs @ bs))"
proof -
  obtain bs where b: "holds (write_recs app head_of rs s) (recs @ bs)" "decodes bs rs"
    using write_recs_holds [OF assms] by blast
  from reop_holds [OF b(1)] obtain s' where s': "reop (write_recs app head_of rs s) = Ok s'"
    "holds s' (recs @ bs)" by blast
  have "log_window 1 0 xs = zip [1..<Suc (length xs)] xs" for xs
    by (rule nth_equalityI) (auto simp: log_window_def simp del: upt_Suc)
  then show ?thesis using rd_window [OF s'(2), of 1 0] s'(1) b(2) by auto
qed

end

lemma reopen_holds:
  assumes "log_holds sha256 s recs"
  shows "\<exists>s'. reopen sha256 nsdir s = Ok s' \<and> log_holds sha256 s' recs \<and>
    log_head (fst s') = log_head (fst s)"
proof -
  obtain l files where s: "s = (l, files)" by (cases s)
  from assms obtain segs where r: "log_repr sha256 (l, files) segs" "recs = concat segs"
    by (auto simp: log_holds_def s)
  from recover_repr [OF r(1), of nsdir] obtain files' where
    f: "recover_durable sha256 nsdir files (log_durable l) = Ok (l, None, files')"
      "map_of files' = map_of files" by blast
  have "log_repr sha256 (l, files') segs" using r(1) f(2) by (simp add: log_repr_iff)
  then show ?thesis using f(1) r(2) by (auto simp: reopen_def s log_holds_def)
qed

lemma chain_head32: "hash32 sha256 \<Longrightarrow> is32 h \<Longrightarrow> is32 (chain_head sha256 h recs)"
  by (induction recs arbitrary: h) (auto simp: hash32_def record_hash_def)

lemma log_holds_head:
  "log_holds sha256 s recs \<Longrightarrow> log_head (fst s) = chain_head sha256 zero32 recs"
  by (cases s) (auto simp: log_holds_def dest: log_reprD(7))

interpretation lg: record_log
  "\<lambda>s recs. hash32 sha256 \<and> log_holds sha256 s recs"
  "\<lambda>s. log_head (fst s)" "log_append sha256" read_records "reopen sha256 nsdir"
  for sha256 nsdir
proof unfold_locales
  fix s recs b from_seq max_n
  assume h: "hash32 sha256 \<and> log_holds sha256 s recs"
  show "is32 (log_head (fst s))" using h log_holds_head [of sha256 s recs] chain_head32 [of sha256 zero32 recs] by simp
  show "read_records s from_seq max_n = Ok (log_window from_seq max_n recs)"
    using h by (cases s) (auto simp: log_holds_def read_records_repr)
  show "\<exists>s'. reopen sha256 nsdir s = Ok s' \<and> (hash32 sha256 \<and> log_holds sha256 s' recs) \<and>
      log_head (fst s') = log_head (fst s)"
    using h reopen_holds [of sha256 s recs nsdir] by blast
  assume "is_ok (parse b (log_head (fst s)))"
  then show "(hash32 sha256 \<and> log_holds sha256 (fst (log_append sha256 b s)) (recs @ [b])) \<and>
      snd (log_append sha256 b s) = length recs + 1"
    using h log_holds_append by (cases s) auto
qed

section \<open>Crashes during an append\<close>

lemma recover_torn_files:
  assumes "\<And>i. map_of files i = (if i < length xs then Some (concat (xs ! i))
      else if i = length xs then Some (concat x @ t) else None)"
    and "chain_from sha256 zero32 (concat xs @ x)"
    and "is_ok (parse (t @ t') h)" "t \<noteq> []" "t' \<noteq> []"
  shows "\<exists>files'. recover_durable sha256 nsdir files durable =
      Ok (log_of sha256 durable (xs @ [x]), Some (TruncatedTail 1), files') \<and>
    log_repr sha256 (log_of sha256 durable (xs @ [x]), files') (xs @ [x])"
proof -
  let ?m = "length xs"
  have f: "map (file_of files) [0..<?m] = map concat xs" "file_of files ?m = concat x @ t"
    using assms(1) by (auto simp: file_of_def intro: nth_equalityI)
  have fs: "\<forall>i. map_of files i = (if i < Suc ?m then Some (file_of files i) else None)"
    using assms(1) by (auto simp: file_of_def)
  have d: "discover files 0 = map (\<lambda>i. (i, file_of files i)) [0..<Suc ?m]"
    by (rule discover_upto) (use fs in auto)
  have "recover_segs sha256 nsdir (map (\<lambda>i. (i, file_of files i)) [0..<?m] @ [(?m, concat x @ t)]) 0 st0 =
    Ok (adv sha256 0 (concat xs @ x) st0, Some (?m, length (concat x)))"
    by (rule recover_segs_torn [OF _ _ assms(3-5)]) (use assms(2) f in \<open>auto simp: st0_def comp_def\<close>)
  then have r: "recover_segs sha256 nsdir (discover files 0) 0 st0 =
      Ok (adv sha256 0 (concat (xs @ [x])) st0, Some (?m, length (concat x)))"
    by (simp add: d f(2))
  show ?thesis
    by (rule recover_sound_torn [OF d fs r]) (use assms(2) f in auto)
qed

lemma torn_append_files:
  assumes "log_repr sha256 (l, files) segs"
  obtains xs x where "concat xs @ x = concat segs"
    "\<forall>i. map_of (torn_append k b (l, files)) i = (if i < length xs then Some (concat (xs ! i))
      else if i = length xs then Some (concat x @ take k b) else None)"
proof (cases "cur_len l > 0 \<and> cur_len l + length b > SEGMENT_BYTES")
  case True
  note d = log_reprD [OF assms]
  have "cur_seg l + 1 = length segs" "file_of files (length segs) = []"
    using d(2,4) by (simp_all add: file_of_def)
  then show thesis
    using True d(4) by (intro that [of segs "[]"])
      (auto simp: torn_append_def Let_def write_at_def update_conv')
next
  case False
  note d = log_reprD [OF assms]
  obtain xs x where segs: "segs = xs @ [x]" using d(1) by (metis rev_exhaust)
  have "cur_seg l = length xs" "cur_len l = length (concat x)" "file_of files (length xs) = concat x"
    using d(2,3) d(4) [of "length xs"] by (simp_all add: segs file_of_def)
  then show thesis
    using False d(4) by (intro that [of xs x])
      (auto simp: torn_append_def Let_def write_at_def update_conv' segs nth_append)
qed

lemma recover_files_chain:
  assumes "\<forall>i. map_of files i = (if i < length segs then Some (concat (segs ! i)) else None)"
    and "segs \<noteq> []" "chain_from sha256 zero32 (concat segs)"
  shows "\<exists>files'. recover_durable sha256 nsdir files durable = Ok (log_of sha256 durable segs, None, files') \<and>
    log_holds sha256 (log_of sha256 durable segs, files') (concat segs)"
proof -
  have r: "log_repr sha256 (log_of sha256 durable segs, files) segs"
    using assms by (intro repr_log_of) auto
  from recover_repr [OF r, of nsdir] obtain files' where
    f: "recover_durable sha256 nsdir files durable = Ok (log_of sha256 durable segs, None, files')"
      "map_of files' = map_of files" by (auto simp: log_of_def)
  have "log_repr sha256 (log_of sha256 durable segs, files') segs"
    using assms f(2) by (intro repr_log_of) auto
  then show ?thesis using f(1) by (auto simp: log_holds_def)
qed

lemma recover_torn_append:
  assumes "log_repr sha256 (l, files) segs" "is_ok (parse b (log_head l))"
  shows "\<exists>l' w files'. recover_durable sha256 nsdir (torn_append k b (l, files)) durable = Ok (l', w, files') \<and>
    log_holds sha256 (l', files') (if k < length b then concat segs else concat segs @ [b])"
proof -
  note d = log_reprD [OF assms(1)]
  obtain xs x where x: "concat xs @ x = concat segs" and
    f: "\<forall>i. map_of (torn_append k b (l, files)) i = (if i < length xs then Some (concat (xs ! i))
      else if i = length xs then Some (concat x @ take k b) else None)"
    using torn_append_files [OF assms(1)] by blast
  have ch: "chain_from sha256 zero32 (concat xs @ x)" using d(9) x by simp
  consider "k = 0" "b \<noteq> []" | "0 < k" "k < length b" | "length b \<le> k"
    using parse_ok_nonempty [OF assms(2)] by fastforce
  then show ?thesis
  proof cases
    case 1
    have "\<forall>i. map_of (torn_append k b (l, files)) i =
        (if i < length (xs @ [x]) then Some (concat ((xs @ [x]) ! i)) else None)"
      using f 1 by (auto simp: nth_append less_Suc_eq)
    from recover_files_chain [OF this, of sha256 nsdir durable] ch x 1 show ?thesis by auto
  next
    case 2
    have "is_ok (parse (take k b @ drop k b) (log_head l))" using assms(2) by simp
    from recover_torn_files [OF _ ch this, of "torn_append k b (l, files)" nsdir durable] f 2 x
    show ?thesis by (fastforce simp: log_holds_def)
  next
    case 3
    have m: "\<forall>i. map_of (torn_append k b (l, files)) i =
        (if i < length (xs @ [x @ [b]]) then Some (concat ((xs @ [x @ [b]]) ! i)) else None)"
      using f 3 by (auto simp: nth_append less_Suc_eq)
    have c: "chain_from sha256 zero32 (concat (xs @ [x @ [b]]))"
      using ch assms(2) d(7) x [symmetric] by simp
    have "concat (xs @ [x @ [b]]) = concat segs @ [b]" using x by simp
    with recover_files_chain [OF m _ c, of nsdir durable] 3 show ?thesis by (auto simp: not_less simp flip: x)
  qed
qed

section \<open>Rewriting a log\<close>

lemma rechain_chain:
  assumes "hash32 sha256" "is32 h" "\<forall>r \<in> set rs. rec_wf r"
  shows "chain_from sha256 h (rechain sha256 h rs) \<and> decodes (rechain sha256 h rs) rs"
  using assms(2,3)
proof (induction rs arbitrary: h)
  case Nil
  then show ?case by (simp add: decodes_def)
next
  case (Cons r rs)
  have "is32 (record_hash sha256 h (to_bytes r h))"
    using assms(1) by (simp add: hash32_def record_hash_def)
  with Cons show ?case
    by (auto simp: Let_def parse_def parse_chain_to_bytes decodes_def)
qed

lemma remove_segs_empty:
  assumes "contiguous files"
  shows "map_of (remove_segs files) = Map.empty"
proof -
  from contiguous_discover [OF assms] obtain n where
    d: "discover files 0 = map (\<lambda>i. (i, file_of files i)) [0..<n]"
      "\<forall>i. map_of files i = (if i < n then Some (file_of files i) else None)" by blast
  have "fst ` set (discover files 0) = {0..<n}" by (auto simp: d(1) image_image)
  moreover have "k < n" if "(k, v) \<in> set files" for k v
    using d(2) that by (metis option.distinct(1) weak_map_of_SomeI)
  ultimately have "remove_segs files = []" by (auto simp: remove_segs_def filter_empty_conv)
  then show ?thesis by simp
qed

lemma write_fresh_recover:
  assumes "hash32 sha256" "contiguous files" "\<forall>r \<in> set rs. rec_wf r"
  shows "\<exists>l files'. recover_durable sha256 nsdir (write_fresh sha256 files rs) durable = Ok (l, None, files') \<and>
    log_holds sha256 (l, files') (rechain sha256 zero32 rs)"
proof -
  have "\<forall>i. map_of (write_fresh sha256 files rs) i =
      (if i < length [rechain sha256 zero32 rs] then Some (concat ([rechain sha256 zero32 rs] ! i)) else None)"
    by (auto simp: write_fresh_def update_conv' remove_segs_empty [OF assms(2)])
  from recover_files_chain [OF this, of sha256 nsdir durable] rechain_chain [OF assms(1) _ assms(3)]
  show ?thesis by auto
qed

section \<open>A corrupted length field\<close>

lemma nat_of_le_4: "nat_of_le [a, b, c, d] = unat a + 256 * unat b + 65536 * unat c + 16777216 * unat d"
  by simp

lemma recover_seg_bad_length:
  assumes "chain_from sha256 h (b # rest)" "length (concat (b # rest)) < 2 ^ 31"
  shows "recover_seg sha256 nsdir True base ((concat (b # rest))[4 := 0xFF]) 0 st = Ok (st, Some 0)"
proof -
  let ?buf = "(concat (b # rest))[4 := 0xFF]"
  have l: "HEADER_LEN \<le> length b" and t: "valid_tag (b ! 0)"
    using assms(1) by (auto elim: parse_okE)
  have len: "length b \<le> length ?buf" "length ?buf < 2 ^ 31" using assms(2) by auto
  have tag: "?buf ! 0 = b ! 0" using l by (cases b) (auto simp: HEADER_LEN_def)
  have "slice 1 5 ?buf = [?buf ! 1, ?buf ! 2, ?buf ! 3, 0xFF]"
    using l by (intro nth_equalityI) (auto simp: slice_def HEADER_LEN_def less_Suc_eq numeral_eq_Suc)
  then have "16777216 * 255 \<le> nat_of_le (slice 1 5 ?buf)" by (simp only: nat_of_le_4) simp
  moreover have "nat_of_le (slice 1 5 ?buf) < 2 ^ 32"
    using nat_of_le_less [of "slice 1 5 ?buf"] l len(1) by (simp add: HEADER_LEN_def)
  ultimately have "length ?buf < unat (u32_from_le (slice 1 5 ?buf))"
    using len(2) by (simp add: u32_from_le_def unat_of_nat)
  moreover have "b \<noteq> []" using l by (auto simp: HEADER_LEN_def)
  ultimately show ?thesis
    using l len(1) t tag by (subst recover_seg.simps) (simp add: Let_def HEADER_LEN_def)
qed

section \<open>Properties\<close>

lemma hash32_const: "hash32 (\<lambda>_. zero32)"
  by (simp add: hash32_def)

lemma demo_op_wf: "rec_wf demo_op"
  by (simp add: rec_wf_def op_wf_def payload_bytes_def demo_op_def is32_def)

lemma empty_log_holds: "log_holds sha256 (log_of sha256 durable [[]], [(0, [])]) []"
  unfolding log_holds_def by (intro exI [of _ "[[]]"] conjI repr_log_of) auto

text \<open>What is written is read back after a restart: records written to a log that holds
  \<open>recs\<close>, each chained to the head, are found behind \<open>recs\<close>, in order and numbered from 1,
  when the log is closed, reopened and read to the end, across segment rolls.\<close>

theorem log_write_reopen_read:
  assumes "hash32 sha256" "log_holds sha256 s recs" "\<forall>r \<in> set rs. rec_wf r"
  shows "\<exists>bs s'. reopen sha256 nsdir (write_recs (log_append sha256) (\<lambda>s. log_head (fst s)) rs s) = Ok s' \<and>
    decodes bs rs \<and> read_records s' 1 0 = Ok (zip [1..<Suc (length (recs @ bs))] (recs @ bs))"
  using lg.write_reopen_read [of sha256 s recs rs nsdir] assms by blast

theorem log_write_reopen_read_witness:
  "\<exists>bs s'. reopen (\<lambda>_. zero32) ''n'' (write_recs (log_append (\<lambda>_. zero32)) (\<lambda>s. log_head (fst s))
      [demo_op, demo_op] (log_of (\<lambda>_. zero32) False [[]], [(0, [])])) = Ok s' \<and>
    decodes bs [demo_op, demo_op] \<and>
    read_records s' 1 0 = Ok (zip [1..<Suc (length ([] @ bs))] ([] @ bs))"
  by (rule log_write_reopen_read) (simp_all add: hash32_const empty_log_holds demo_op_wf)

text \<open>C8.  An append is atomic under crashes: if only the first \<open>k\<close> bytes of a record reach
  the disk, whether or not the append rolled to a new segment, recovery succeeds and the
  log holds exactly the records before it, or also the new one when \<open>k\<close> covers it.  With
  all bytes written the files are those the append itself leaves.\<close>

theorem append_crash_atomic:
  assumes "log_holds sha256 (l, files) recs" "is_ok (parse b (log_head l))"
  shows "(\<exists>l' w files'.
      recover_durable sha256 nsdir (torn_append k b (l, files)) durable = Ok (l', w, files') \<and>
      log_holds sha256 (l', files') (if k < length b then recs else recs @ [b])) \<and>
    torn_append (length b) b (l, files) = snd (fst (log_append sha256 b (l, files)))"
proof
  obtain segs where "log_repr sha256 (l, files) segs" "recs = concat segs"
    using assms(1) by (auto simp: log_holds_def)
  then show "\<exists>l' w files'.
      recover_durable sha256 nsdir (torn_append k b (l, files)) durable = Ok (l', w, files') \<and>
      log_holds sha256 (l', files') (if k < length b then recs else recs @ [b])"
    using recover_torn_append [OF _ assms(2)] by blast
  show "torn_append (length b) b (l, files) = snd (fst (log_append sha256 b (l, files)))"
    by (simp add: torn_append_def log_append_def Let_def)
qed

theorem append_crash_atomic_witness:
  "(\<exists>l' w files'. recover_durable (\<lambda>_. zero32) ''n''
      (torn_append 50 (to_bytes demo_op zero32) (log_of (\<lambda>_. zero32) False [[]], [(0, [])])) False =
      Ok (l', w, files') \<and>
    log_holds (\<lambda>_. zero32) (l', files')
      (if 50 < length (to_bytes demo_op zero32) then [] else [] @ [to_bytes demo_op zero32]))"
proof -
  have "is_ok (parse (to_bytes demo_op zero32) (log_head (log_of (\<lambda>_. zero32) False [[]])))"
    by (simp add: log_of_def parse_def parse_chain_to_bytes [OF demo_op_wf])
  from append_crash_atomic [OF empty_log_holds this] show ?thesis by blast
qed



text \<open>The rewrite used by compaction: after \<open>write_fresh\<close> of well-formed records, a
  recovery reports no damage and the log holds exactly these records, re-chained from the
  zero hash, whatever segments were there before.\<close>

theorem write_fresh_reopens:
  assumes "hash32 sha256" "contiguous files" "\<forall>r \<in> set rs. rec_wf r"
  shows "\<exists>l files' bs. recover_durable sha256 nsdir (write_fresh sha256 files rs) durable = Ok (l, None, files') \<and>
    log_holds sha256 (l, files') bs \<and> decodes bs rs"
  using write_fresh_recover [OF assms] rechain_chain [OF assms(1) is32_zero32 assms(3)] by blast

theorem write_fresh_reopens_witness:
  "\<exists>l files' bs. recover_durable (\<lambda>_. zero32) ''n''
       (write_fresh (\<lambda>_. zero32) [(0, [7, 7]), (1, [])] [demo_op]) True = Ok (l, None, files') \<and>
    log_holds (\<lambda>_. zero32) (l, files') bs \<and> decodes bs [demo_op]"
proof -
  have "contiguous [(0, [7, 7]), (1, [])]" by (simp add: contiguous_def)
  then show ?thesis
    by (intro write_fresh_reopens) (simp_all add: hash32_const demo_op_wf)
qed

text \<open>One damaged length byte can cost the whole final segment: if the most
  significant length byte of its first record reads \<open>0xFF\<close>, recovery takes the record for a
  torn tail and truncates the segment to nothing, dropping every valid record behind it,
  while it reports one dropped record.\<close>

theorem recover_drops_after_bad_length:
  assumes "chain_from sha256 zero32 (b # rest)" "length (concat (b # rest)) < 2 ^ 31"
  shows "\<exists>files'. recover_durable sha256 nsdir [(0, (concat (b # rest))[4 := 0xFF])] durable =
      Ok (log_of sha256 durable [[]], Some (TruncatedTail 1), files') \<and> map_of files' 0 = Some []"
proof -
  let ?files = "[(0, (concat (b # rest))[4 := 0xFF])]"
  have d: "discover ?files 0 = map (\<lambda>i. (i, file_of ?files i)) [0..<Suc 0]"
    by (rule discover_upto) (auto simp: file_of_def)
  have r: "recover_segs sha256 nsdir (discover ?files 0) 0 st0 =
      Ok (adv sha256 0 (concat [[]]) st0, Some (0, 0))"
    using recover_seg_bad_length [OF assms, of nsdir 0 st0] unfolding d by (simp add: file_of_def)
  from recover_out_torn [OF d _ _ _ _ refl r, of durable] show ?thesis by fastforce
qed

theorem recover_drops_after_bad_length_witness:
  "\<exists>files'. recover_durable (\<lambda>_. zero32) ''n''
      [(0, (concat (to_bytes demo_op zero32 # [to_bytes demo_op zero32]))[4 := 0xFF])] False =
      Ok (log_of (\<lambda>_. zero32) False [[]], Some (TruncatedTail 1), files') \<and> map_of files' 0 = Some []"
proof -
  have "length (to_bytes demo_op zero32) = 135"
    by (simp add: to_bytes_def seal_alt payload_bytes_def demo_op_def)
  moreover have "chain_from (\<lambda>_. zero32) zero32 [to_bytes demo_op zero32, to_bytes demo_op zero32]"
    by (simp add: parse_def parse_chain_to_bytes [OF demo_op_wf] record_hash_def)
  ultimately show ?thesis by (intro recover_drops_after_bad_length) simp_all
qed

end
