(* ===== verification/BTree.thy ===== *)
theory BTree
  imports Prelude "HOL-Library.List_Lexorder" "HOL-Library.Product_Lexorder" "HOL-Library.Char_ord"
begin

text \<open>
  Rust's \<open>BTreeMap\<close> and \<open>BTreeSet\<close> as sorted association lists and sorted lists: lookup,
  insertion, removal and in-order iteration.  Keys compare as in Rust: byte strings and
  strings lexicographically, pairs component by component.  The locale \<open>ordered_map\<close> states
  the laws the store relies on and is interpreted on these operations.
\<close>

section \<open>Definitions\<close>

type_synonym ('k, 'v) btree = "('k \<times> 'v) list"

definition bt_get :: "('k, 'v) btree \<Rightarrow> 'k \<Rightarrow> 'v option" where
  "bt_get t k = map_of t k"

fun bt_insert :: "'k::linorder \<Rightarrow> 'v \<Rightarrow> ('k, 'v) btree \<Rightarrow> ('k, 'v) btree" where
  "bt_insert k v [] = [(k, v)]"
| "bt_insert k v ((k', v') # t) =
     (if k < k' then (k, v) # (k', v') # t
      else if k = k' then (k, v) # t
      else (k', v') # bt_insert k v t)"

definition bt_remove :: "'k \<Rightarrow> ('k, 'v) btree \<Rightarrow> ('k, 'v) btree" where
  "bt_remove k t = filter (\<lambda>(k', _). k' \<noteq> k) t"

definition bt_keys :: "('k, 'v) btree \<Rightarrow> 'k list" where
  "bt_keys t = map fst t"

definition bt_contains :: "'k \<Rightarrow> ('k, 'v) btree \<Rightarrow> bool" where
  "bt_contains k t = (bt_get t k \<noteq> None)"

definition bt_inv :: "('k::linorder, 'v) btree \<Rightarrow> bool" where
  "bt_inv t = sorted_wrt (<) (map fst t)"

definition bt_of_list :: "('k::linorder \<times> 'v) list \<Rightarrow> ('k, 'v) btree" where
  "bt_of_list xs = fold (\<lambda>(k, v). bt_insert k v) xs []"

section \<open>The interface of an ordered map\<close>

locale ordered_map =
  fixes empty :: "'m"
    and get :: "'m \<Rightarrow> 'k::linorder \<Rightarrow> 'v option"
    and insert :: "'k \<Rightarrow> 'v \<Rightarrow> 'm \<Rightarrow> 'm"
    and remove :: "'k \<Rightarrow> 'm \<Rightarrow> 'm"
    and entries :: "'m \<Rightarrow> ('k \<times> 'v) list"
    and inv :: "'m \<Rightarrow> bool"
  assumes get_empty: "get empty = Map.empty"
    and get_insert: "inv m \<Longrightarrow> get (insert k v m) = (get m)(k \<mapsto> v)"
    and get_remove: "inv m \<Longrightarrow> get (remove k m) = (get m)(k := None)"
    and entries_get: "inv m \<Longrightarrow> (k, v) \<in> set (entries m) \<longleftrightarrow> get m k = Some v"
    and entries_sorted: "inv m \<Longrightarrow> sorted_wrt (<) (map fst (entries m))"
    and inv_empty: "inv empty"
    and inv_insert: "inv m \<Longrightarrow> inv (insert k v m)"
    and inv_remove: "inv m \<Longrightarrow> inv (remove k m)"
begin

lemma get_insert_same [simp]: "inv m \<Longrightarrow> get (insert k v m) k = Some v"
  by (simp add: get_insert)

lemma get_insert_other [simp]: "inv m \<Longrightarrow> j \<noteq> k \<Longrightarrow> get (insert k v m) j = get m j"
  by (simp add: get_insert)

text \<open>Two maps with the same lookups list the same entries in the same order.\<close>

lemma entries_unique:
  assumes "inv m" "inv m'" "get m = get m'"
  shows "entries m = entries m'"
proof -
  have eq: "entries x = map (\<lambda>k. (k, the (get x k))) (map fst (entries x))" if "inv x" for x
    unfolding map_map by (rule map_idI [symmetric]) (use entries_get [OF that] in fastforce)
  have s: "set (entries m) = set (entries m')"
    using assms entries_get [of m] entries_get [of m'] by auto
  have "map fst (entries m) = map fst (entries m')"
    using entries_sorted [OF assms(1)] entries_sorted [OF assms(2)] s
    by (intro sorted_distinct_set_unique) (auto simp: strict_sorted_iff)
  then show ?thesis using eq [OF assms(1)] eq [OF assms(2)] assms(3) by simp
qed

end

section \<open>Sorted association lists\<close>

lemma bt_get_Nil [simp]: "bt_get [] = Map.empty"
  by (auto simp: bt_get_def)

lemma bt_inv_Nil [simp]: "bt_inv []"
  by (simp add: bt_inv_def)

lemma bt_inv_Cons [simp]: "bt_inv ((k, v) # t) \<longleftrightarrow> (\<forall>k' \<in> fst ` set t. k < k') \<and> bt_inv t"
  by (simp add: bt_inv_def)

lemma bt_get_Cons: "bt_get ((k, v) # t) j = (if j = k then Some v else bt_get t j)"
  by (simp add: bt_get_def)

lemma bt_insert_keys: "fst ` set (bt_insert k v t) = Set.insert k (fst ` set t)"
  by (induction k v t rule: bt_insert.induct) auto

lemma bt_inv_insert [simp]: "bt_inv t \<Longrightarrow> bt_inv (bt_insert k v t)"
  by (induction k v t rule: bt_insert.induct) (auto simp: bt_insert_keys)

lemma bt_get_not_key: "k \<notin> fst ` set t \<Longrightarrow> bt_get t k = None"
  by (simp add: bt_get_def map_of_eq_None_iff)

lemma bt_get_insert: "bt_get (bt_insert k v t) j = (if j = k then Some v else bt_get t j)"
  if "bt_inv t"
  using that by (induction k v t rule: bt_insert.induct) (auto simp: bt_get_Cons)

lemma bt_inv_remove [simp]: "bt_inv t \<Longrightarrow> bt_inv (bt_remove k t)"
  by (induction t) (auto simp: bt_remove_def)

lemma bt_get_remove: "bt_get (bt_remove k t) j = (if j = k then None else bt_get t j)"
  by (induction t) (auto simp: bt_remove_def bt_get_def)

lemma bt_get_iff: "bt_inv t \<Longrightarrow> (k, v) \<in> set t \<longleftrightarrow> bt_get t k = Some v"
  by (metis bt_get_def bt_inv_def map_of_SomeD map_of_is_SomeI strict_sorted_iff)

lemma bt_get_Some_in: "bt_get t k = Some v \<Longrightarrow> (k, v) \<in> set t"
  by (simp add: bt_get_def map_of_SomeD)

interpretation bt: ordered_map "[]" bt_get bt_insert bt_remove "\<lambda>t. t" bt_inv
proof unfold_locales
  fix m :: "('a::linorder, 'b) btree" and k v
  show "bt_get [] = (Map.empty :: 'a \<Rightarrow> 'b option)" by simp
  show "bt_inv ([] :: ('a, 'b) btree)" by simp
  assume i: "bt_inv m"
  show "bt_get (bt_insert k v m) = (bt_get m)(k \<mapsto> v)"
    using i by (intro ext) (simp add: bt_get_insert)
  show "bt_get (bt_remove k m) = (bt_get m)(k := None)"
    by (intro ext) (simp add: bt_get_remove)
  show "((k, v) \<in> set m) = (bt_get m k = Some v)" by (rule bt_get_iff [OF i])
  show "sorted_wrt (<) (map fst m)" using i by (simp add: bt_inv_def)
  show "bt_inv (bt_insert k v m)" "bt_inv (bt_remove k m)" using i by simp_all
qed

lemma bt_contains_insert [simp]:
  "bt_inv t \<Longrightarrow> bt_contains j (bt_insert k v t) \<longleftrightarrow> j = k \<or> bt_contains j t"
  by (simp add: bt_contains_def bt_get_insert)

lemma bt_contains_remove [simp]: "bt_contains j (bt_remove k t) \<longleftrightarrow> j \<noteq> k \<and> bt_contains j t"
  by (simp add: bt_contains_def bt_get_remove)

lemma bt_contains_iff: "bt_contains k t \<longleftrightarrow> k \<in> set (bt_keys t)"
  by (auto simp: bt_contains_def bt_get_def bt_keys_def map_of_eq_None_iff)

lemma bt_filter_inv: "bt_inv t \<Longrightarrow> bt_inv (filter P t)"
  by (induction t) auto

lemma bt_get_filter:
  assumes "bt_inv t"
  shows "bt_get (filter P t) k =
     (case bt_get t k of None \<Rightarrow> None | Some v \<Rightarrow> if P (k, v) then Some v else None)"
proof -
  have e: "bt_get (filter P t) k = Some v \<longleftrightarrow> bt_get t k = Some v \<and> P (k, v)" for v
    using bt_get_iff [OF assms, of k v] bt_get_iff [OF bt_filter_inv [OF assms], of k v P] by auto
  show ?thesis
  proof (cases "bt_get (filter P t) k")
    case None
    then show ?thesis using e [of "the (bt_get t k)"] by (cases "bt_get t k") auto
  next
    case (Some v)
    then show ?thesis using e [of v] by simp
  qed
qed

text \<open>Inserting the entries of a map in order, as when it is read back from a file, rebuilds
  the map.\<close>

lemma bt_insert_above:
  "\<forall>k' \<in> fst ` set t. k' < k \<Longrightarrow> bt_insert k v t = t @ [(k, v)]"
  by (induction k v t rule: bt_insert.induct) auto

lemma fold_bt_insert_sorted:
  assumes "sorted_wrt (<) (map fst (t @ xs))"
  shows "fold (\<lambda>(k, v). bt_insert k v) xs t = t @ xs"
  using assms
proof (induction xs arbitrary: t)
  case Nil
  then show ?case by simp
next
  case (Cons x xs)
  obtain k v where x: "x = (k, v)" by (cases x)
  have "bt_insert k v t = t @ [(k, v)]"
    by (rule bt_insert_above) (use Cons(2) in \<open>auto simp: sorted_wrt_append x\<close>)
  then show ?case using Cons by (simp add: x)
qed

lemma bt_of_list_entries: "bt_inv t \<Longrightarrow> bt_of_list t = t"
  using fold_bt_insert_sorted [of "[]" t] by (simp add: bt_of_list_def bt_inv_def)

end
