(* ===== verification/Json.thy ===== *)
theory Json
  imports Complex_Main Prelude
begin

text \<open>
  JSON values as \<open>serde_json::Value\<close> has them.  The text format (parsing and printing) is
  code of the \<open>serde_json\<close> crate and stays a parameter of the definitions that use it; a
  finite double is represented by its real value.  Objects are association lists with
  distinct keys in insertion order, as the crate's map keeps them with the feature
  \<open>preserve_order\<close>; equality of objects therefore ignores the order.  \<open>NegInt\<close> holds the
  two's complement of a negative \<open>i64\<close>.

  The conversions of integers to doubles and the division of doubles are the IEEE 754
  operations with rounding to nearest, ties to even.
\<close>

datatype jnum = PosInt u64 | NegInt u64 | Float real

datatype jvalue =
    JNull
  | JBool bool
  | JNumber jnum
  | JString string
  | JArray "jvalue list"
  | JObject "(string \<times> jvalue) list"

definition as_str :: "jvalue \<Rightarrow> string option" where
  "as_str v = (case v of JString s \<Rightarrow> Some s | _ \<Rightarrow> None)"

definition as_array :: "jvalue \<Rightarrow> jvalue list option" where
  "as_array v = (case v of JArray xs \<Rightarrow> Some xs | _ \<Rightarrow> None)"

definition as_object :: "jvalue \<Rightarrow> (string \<times> jvalue) list option" where
  "as_object v = (case v of JObject m \<Rightarrow> Some m | _ \<Rightarrow> None)"

definition as_bool :: "jvalue \<Rightarrow> bool option" where
  "as_bool v = (case v of JBool b \<Rightarrow> Some b | _ \<Rightarrow> None)"

text \<open>\<open>from_str::<Vec<String>>\<close> on a parsed value.\<close>

definition as_string_list :: "jvalue \<Rightarrow> string list option" where
  "as_string_list v =
     (case v of
        JArray xs \<Rightarrow> (if \<forall>x \<in> set xs. as_str x \<noteq> None then Some (map (the \<circ> as_str) xs) else None)
      | _ \<Rightarrow> None)"

text \<open>\<open>Value::as_i64\<close>: the two's complement bits.\<close>

definition as_i64 :: "jvalue \<Rightarrow> u64 option" where
  "as_i64 v =
     (case v of
        JNumber (PosInt n) \<Rightarrow> (if unat n < 2 ^ 63 then Some n else None)
      | JNumber (NegInt n) \<Rightarrow> Some n
      | _ \<Rightarrow> None)"

text \<open>Doubles: the distance of adjacent doubles at the magnitude of a positive number, the
  nearest integer with ties to even, and the nearest double.\<close>

primrec halvings :: "nat \<Rightarrow> real \<Rightarrow> nat" where
  "halvings 0 x = 0"
| "halvings (Suc n) x = (if x \<ge> 2 then Suc (halvings n (x / 2)) else 0)"

primrec doublings :: "nat \<Rightarrow> real \<Rightarrow> nat" where
  "doublings 0 x = 0"
| "doublings (Suc n) x = (if x < 1 then Suc (doublings n (2 * x)) else 0)"

definition ulp :: "real \<Rightarrow> real" where
  "ulp x = (if x \<ge> 1 then 2 ^ halvings 2100 x / 2 ^ 52 else 1 / 2 ^ (52 + doublings 1022 x))"

definition nearest_even :: "real \<Rightarrow> int" where
  "nearest_even x =
     (let f = \<lfloor>x\<rfloor>; d = x - of_int f
      in if d < 1 / 2 \<or> d = 1 / 2 \<and> even f then f else f + 1)"

definition round_f64 :: "real \<Rightarrow> real" where
  "round_f64 x = (let u = ulp \<bar>x\<bar> in sgn x * of_int (nearest_even (\<bar>x\<bar> / u)) * u)"

text \<open>\<open>Value::as_f64\<close>, and the division of finite doubles, \<open>None\<close> when it overflows.\<close>

definition as_f64 :: "jvalue \<Rightarrow> real option" where
  "as_f64 v =
     (case v of
        JNumber (PosInt n) \<Rightarrow> Some (round_f64 (of_nat (unat n)))
      | JNumber (NegInt n) \<Rightarrow> Some (round_f64 (of_int (sint n)))
      | JNumber (Float x) \<Rightarrow> Some x
      | _ \<Rightarrow> None)"

definition f64_div :: "real \<Rightarrow> real \<Rightarrow> real option" where
  "f64_div n m = (let q = round_f64 (n / m) in if \<bar>q\<bar> < 2 ^ 1024 then Some q else None)"

text \<open>\<open>f64::fract\<close>.\<close>

definition fract_f64 :: "real \<Rightarrow> real" where
  "fract_f64 x = (if x \<ge> 0 then x - of_int \<lfloor>x\<rfloor> else x - of_int \<lceil>x\<rceil>)"

text \<open>\<open>Value::eq\<close>.\<close>

function jeq :: "jvalue \<Rightarrow> jvalue \<Rightarrow> bool" where
  "jeq v w =
     (case (v, w) of
        (JNull, JNull) \<Rightarrow> True
      | (JBool a, JBool b) \<Rightarrow> a = b
      | (JNumber a, JNumber b) \<Rightarrow> a = b
      | (JString a, JString b) \<Rightarrow> a = b
      | (JArray xs, JArray ys) \<Rightarrow> length xs = length ys \<and> list_all (\<lambda>(x, y). jeq x y) (zip xs ys)
      | (JObject xs, JObject ys) \<Rightarrow>
          length xs = length ys \<and>
          list_all (\<lambda>(k, x). case map_of ys k of None \<Rightarrow> False | Some y \<Rightarrow> jeq x y) xs
      | _ \<Rightarrow> False)"
  by pat_completeness auto
termination
  apply (relation "measure (\<lambda>(v, w). size v)")
    apply simp
   apply (auto simp: less_Suc_eq_le dest: set_zip_leftD intro!: size_list_estimation') [1]
  apply (auto simp: less_Suc_eq_le dest!: size_list_estimation' [where f = "size_prod (\<lambda>_. 0) size", OF _ order_refl])
  done

declare jeq.simps [simp del]

section \<open>Lemmas\<close>

lemma jeq_simps [simp]:
  "jeq JNull w = (w = JNull)" "jeq (JBool a) w = (w = JBool a)"
  "jeq (JNumber n) w = (w = JNumber n)" "jeq (JString s) w = (w = JString s)"
  by (subst jeq.simps; auto split: jvalue.splits)+

lemmas json_defs = as_str_def as_array_def as_object_def as_bool_def

end
