(* ===== verification/StoreState.thy ===== *)
theory StoreState
  imports BTree LogFile Json
begin

text \<open>
  The in-memory state of \<open>Store\<close> (\<open>src/storage/mod.rs\<close>): versions, entries, policies, the
  primary index with its tombstones, reads (\<open>get\<close>, \<open>scan\<close>, \<open>scan_keys\<close>) and the derived
  secondary index.  The functions of external crates the store calls are collected in the
  record \<open>extern\<close>: SHA-256, the JSON parser applied to a byte value (lossy UTF-8 decoding
  included), the decimal text of a JSON number, and the \<open>hex\<close> crate.
\<close>

section \<open>Definitions\<close>

record extern =
  sha256 :: "bytes \<Rightarrow> bytes"
  json_of :: "bytes \<Rightarrow> jvalue option"
  num_str :: "jnum \<Rightarrow> bytes"
  hex_enc :: "bytes \<Rightarrow> string"
  hex_dec :: "string \<Rightarrow> bytes option"

record version =
  v_hlc :: u64
  v_replica :: bytes
  v_author :: bytes
  v_value :: bytes
  v_seq :: nat
  v_expires_at :: u64

datatype entry = Lww version | Register "version list"

datatype conflict_policy = PolicyLww | CrdtRegister

type_synonym namespace = string
type_synonym key = bytes
type_synonym sec_rows = "(bytes \<times> bytes) list"

record store =
  st_logs :: "(namespace, log) btree"
  st_policies :: "(namespace, conflict_policy) btree"
  st_index :: "(namespace \<times> key, entry) btree"
  st_tombs :: "(namespace \<times> key, u64) btree"
  st_meta :: "(string, bytes) btree"
  st_peer_clocks :: "(string, int) btree"
  st_revision :: nat
  st_durable :: bool
  st_sec :: "bytes \<rightharpoonup> sec_rows"

definition vkey :: "version \<Rightarrow> u64 \<times> bytes" where
  "vkey v = (v_hlc v, v_replica v)"

text \<open>\<open>Iterator::max_by\<close> keeps the last of several equal maxima.\<close>

fun max_version :: "version list \<Rightarrow> version option" where
  "max_version [] = None"
| "max_version (v # vs) =
     (case max_version vs of
        None \<Rightarrow> Some v
      | Some w \<Rightarrow> if vkey w < vkey v then Some v else Some w)"

definition latest_entry_value :: "entry \<Rightarrow> version option" where
  "latest_entry_value e = (case e of Lww v \<Rightarrow> Some v | Register vs \<Rightarrow> max_version vs)"

definition sec_map_key :: "namespace \<Rightarrow> string \<Rightarrow> bytes" where
  "sec_map_key ns field = str_bytes ns @ [0] @ str_bytes field"

definition store_get :: "store \<Rightarrow> namespace \<Rightarrow> key \<Rightarrow> entry option" where
  "store_get st ns k =
     (if bt_contains (ns, k) (st_tombs st) then None else bt_get (st_index st) (ns, k))"

definition scan_range :: "store \<Rightarrow> namespace \<Rightarrow> ((namespace \<times> key) \<times> entry) list" where
  "scan_range st ns =
     takeWhile (\<lambda>((n, _), _). n = ns) (dropWhile (\<lambda>(nk, _). nk < (ns, [])) (st_index st))"

definition scan :: "store \<Rightarrow> namespace \<Rightarrow> bytes \<Rightarrow> (key \<times> entry) list" where
  "scan st ns pre =
     map (\<lambda>((_, k), e). (k, e))
       (filter (\<lambda>((_, k), _). pre = [] \<or> prefix pre k) (scan_range st ns))"

definition scan_keys :: "store \<Rightarrow> namespace \<Rightarrow> bytes \<Rightarrow> key list" where
  "scan_keys st ns pre =
     map (\<lambda>((_, k), _). k)
       (filter (\<lambda>((_, k), _). pre = [] \<or> prefix pre k) (scan_range st ns))"

subsection \<open>The secondary index\<close>

definition index_def :: "store \<Rightarrow> namespace \<Rightarrow> bytes option" where
  "index_def st ns = bt_get (st_meta st) (''index/'' @ ns)"

definition index_fields :: "extern \<Rightarrow> store \<Rightarrow> namespace \<Rightarrow> string list" where
  "index_fields ext st ns =
     (case index_def st ns of
        None \<Rightarrow> []
      | Some bs \<Rightarrow>
          (case json_of ext bs of
             None \<Rightarrow> []
           | Some v \<Rightarrow> (case as_string_list v of None \<Rightarrow> [] | Some fs \<Rightarrow> fs)))"

definition push_scalar :: "extern \<Rightarrow> jvalue \<Rightarrow> bytes list" where
  "push_scalar ext v =
     (case v of
        JNumber n \<Rightarrow> [num_str ext n]
      | JString s \<Rightarrow> [str_bytes s]
      | JBool b \<Rightarrow> [if b then str_bytes ''true'' else str_bytes ''false'']
      | _ \<Rightarrow> [])"

definition field_values :: "extern \<Rightarrow> bytes \<Rightarrow> string \<Rightarrow> bytes list" where
  "field_values ext val field =
     (case json_of ext val of
        None \<Rightarrow> []
      | Some (JObject m) \<Rightarrow>
          concat (map (\<lambda>(k, v). if k = field then push_scalar ext v else []) m)
      | Some v \<Rightarrow> push_scalar ext v)"

definition sec_rows_of :: "store \<Rightarrow> bytes \<Rightarrow> sec_rows" where
  "sec_rows_of st mk = (case st_sec st mk of None \<Rightarrow> [] | Some rows \<Rightarrow> rows)"

definition insert_row :: "bytes \<Rightarrow> bytes \<times> bytes \<Rightarrow> store \<Rightarrow> store" where
  "insert_row mk row st =
     st\<lparr>st_sec := (st_sec st)(mk \<mapsto> insort_insert row (sec_rows_of st mk))\<rparr>"

definition remove_rows :: "bytes \<Rightarrow> key \<Rightarrow> store \<Rightarrow> store" where
  "remove_rows mk k st =
     (case st_sec st mk of
        None \<Rightarrow> st
      | Some rows \<Rightarrow> st\<lparr>st_sec := (st_sec st)(mk \<mapsto> filter (\<lambda>(_, k'). k' \<noteq> k) rows)\<rparr>)"

definition remove_from_sec_index :: "extern \<Rightarrow> namespace \<Rightarrow> key \<Rightarrow> store \<Rightarrow> store" where
  "remove_from_sec_index ext ns k st =
     fold (\<lambda>field. remove_rows (sec_map_key ns field) k) (index_fields ext st ns) st"

definition visible_value :: "store \<Rightarrow> namespace \<Rightarrow> key \<Rightarrow> bytes option" where
  "visible_value st ns k =
     (case store_get st ns k of
        None \<Rightarrow> None
      | Some e \<Rightarrow> map_option v_value (latest_entry_value e))"

definition refresh_sec_index_for :: "extern \<Rightarrow> namespace \<Rightarrow> key \<Rightarrow> store \<Rightarrow> store" where
  "refresh_sec_index_for ext ns k st =
     (let st = remove_from_sec_index ext ns k st;
          fields = index_fields ext st ns
      in if fields = [] then st
         else (case visible_value st ns k of
                 None \<Rightarrow> st
               | Some val \<Rightarrow>
                   fold (\<lambda>field. fold (\<lambda>fv. insert_row (sec_map_key ns field) (fv, k))
                                   (field_values ext val field)) fields st))"

definition clear_sec_index_ns :: "namespace \<Rightarrow> store \<Rightarrow> store" where
  "clear_sec_index_ns ns st =
     st\<lparr>st_sec := (\<lambda>mk. if prefix (str_bytes ns @ [0]) mk then st_sec st mk else None)\<rparr>"

definition rebuild_sec_index_ns :: "extern \<Rightarrow> namespace \<Rightarrow> store \<Rightarrow> store" where
  "rebuild_sec_index_ns ext ns st =
     (let st = clear_sec_index_ns ns st in
      if index_fields ext st ns = [] then st
      else let keys = map (\<lambda>((_, k), _). k)
                 (filter (\<lambda>((n, _), e). n = ns \<and> latest_entry_value e \<noteq> None) (st_index st))
           in fold (refresh_sec_index_for ext ns) (sort keys) st)"

definition rebuild_secondary_indexes :: "extern \<Rightarrow> store \<Rightarrow> store" where
  "rebuild_secondary_indexes ext st =
     fold (\<lambda>ns st. if index_fields ext st ns = [] then st else rebuild_sec_index_ns ext ns st)
       (bt_keys (st_policies st)) (st\<lparr>st_sec := Map.empty\<rparr>)"

definition index_lookup :: "store \<Rightarrow> namespace \<Rightarrow> string \<Rightarrow> bytes \<Rightarrow> (bytes \<times> bytes) list" where
  "index_lookup st ns field start =
     filter (\<lambda>row. (start, []) \<le> row) (sec_rows_of st (sec_map_key ns field))"

subsection \<open>Applying one data operation to the index\<close>

definition mk_version :: "u64 \<Rightarrow> bytes \<Rightarrow> bytes \<Rightarrow> bytes \<Rightarrow> nat \<Rightarrow> u64 \<Rightarrow> version" where
  "mk_version hlc replica author val sq expires_at =
     \<lparr>v_hlc = hlc, v_replica = replica, v_author = author, v_value = val, v_seq = sq,
      v_expires_at = expires_at\<rparr>"

text \<open>The fields of a record that \<open>apply_local_op\<close> and \<open>apply_record_op\<close> take.\<close>

definition rec_version :: "log_record \<Rightarrow> nat \<Rightarrow> version" where
  "rec_version r sq =
     mk_version (r_hlc r) (r_replica r) (r_author r) (r_value r) sq (r_expires_at r)"

definition apply_local_op ::
  "extern \<Rightarrow> namespace \<Rightarrow> log_record \<Rightarrow> nat \<Rightarrow> store \<Rightarrow> (storage_error, unit) result \<times> store" where
  "apply_local_op ext ns r sq st =
     (case bt_get (st_policies st) ns of
        None \<Rightarrow> (Err (BadName ns), st)
      | Some policy \<Rightarrow>
          let ek = (ns, r_key r) in
          if r_tag r = TAG_PUT \<or> r_tag r = TAG_PUT_TTL then
            let v = rec_version r sq;
                st = st\<lparr>st_tombs := bt_remove ek (st_tombs st)\<rparr>
            in (case policy of
                  PolicyLww \<Rightarrow>
                    (Ok (), (refresh_sec_index_for ext ns (r_key r)
                       (st\<lparr>st_index := bt_insert ek (Lww v) (st_index st)\<rparr>))
                       \<lparr>st_revision := st_revision st + 1\<rparr>)
                | CrdtRegister \<Rightarrow>
                    (case bt_get (st_index st) ek of
                       Some (Register vs) \<Rightarrow>
                         (Ok (), (refresh_sec_index_for ext ns (r_key r)
                            (st\<lparr>st_index := bt_insert ek (Register (vs @ [v])) (st_index st)\<rparr>))
                            \<lparr>st_revision := st_revision st + 1\<rparr>)
                     | Some (Lww _) \<Rightarrow>
                         (Err (Corrupt (Some ns) ''register policy entry not a Register''), st)
                     | None \<Rightarrow>
                         (Ok (), (refresh_sec_index_for ext ns (r_key r)
                            (st\<lparr>st_index := bt_insert ek (Register [v]) (st_index st)\<rparr>))
                            \<lparr>st_revision := st_revision st + 1\<rparr>)))
          else if r_tag r = TAG_DEL then
            (Ok (), (remove_from_sec_index ext ns (r_key r)
               (st\<lparr>st_index := bt_remove ek (st_index st),
                   st_tombs := bt_insert ek (r_hlc r) (st_tombs st)\<rparr>))
               \<lparr>st_revision := st_revision st + 1\<rparr>)
          else (Err (Corrupt (Some ns) ''bad tag''), st))"

definition apply_record_op ::
  "extern \<Rightarrow> namespace \<Rightarrow> log_record \<Rightarrow> nat \<Rightarrow> store \<Rightarrow> (storage_error, unit) result \<times> store" where
  "apply_record_op ext ns r sq st =
     (case bt_get (st_policies st) ns of
        None \<Rightarrow> (Err (BadName ns), st)
      | Some policy \<Rightarrow>
          let ek = (ns, r_key r) in
          if r_tag r = TAG_PUT \<or> r_tag r = TAG_PUT_TTL then
            let v = rec_version r sq in
            (case policy of
               PolicyLww \<Rightarrow>
                 let newer = (case bt_get (st_index st) ek of
                                Some (Lww w) \<Rightarrow> vkey v \<ge> vkey w
                              | _ \<Rightarrow> True)
                 in (Ok (), refresh_sec_index_for ext ns (r_key r)
                      (if newer then st\<lparr>st_index := bt_insert ek (Lww v) (st_index st)\<rparr> else st))
             | CrdtRegister \<Rightarrow>
                 (case bt_get (st_index st) ek of
                    Some (Register vs) \<Rightarrow>
                      (Ok (), refresh_sec_index_for ext ns (r_key r)
                         (st\<lparr>st_index := bt_insert ek (Register (vs @ [v])) (st_index st)\<rparr>))
                  | Some (Lww _) \<Rightarrow>
                      (Err (Corrupt (Some ns) ''register policy entry not a Register''), st)
                  | None \<Rightarrow>
                      (Ok (), refresh_sec_index_for ext ns (r_key r)
                         (st\<lparr>st_index := bt_insert ek (Register [v]) (st_index st)\<rparr>))))
          else if r_tag r = TAG_DEL then
            (Ok (), remove_from_sec_index ext ns (r_key r)
               (st\<lparr>st_index := bt_remove ek (st_index st),
                   st_tombs := bt_insert ek (r_hlc r) (st_tombs st)\<rparr>))
          else (Err (Corrupt (Some ns) ''bad tag''), st))"

subsection \<open>What a reader sees\<close>

text \<open>The visible version of a key without its node-local sequence number, and the versions
  and deletions a list of operations contributes to a key.\<close>

definition strip :: "version \<Rightarrow> u64 \<times> bytes \<times> bytes \<times> bytes \<times> u64" where
  "strip v = (v_hlc v, v_replica v, v_author v, v_value v, v_expires_at v)"

definition visible :: "store \<Rightarrow> namespace \<Rightarrow> key \<Rightarrow> (u64 \<times> bytes \<times> bytes \<times> bytes \<times> u64) option" where
  "visible st ns k =
     (case store_get st ns k of None \<Rightarrow> None | Some e \<Rightarrow> map_option strip (latest_entry_value e))"

definition is_put :: "log_record \<Rightarrow> bool" where
  "is_put r = (r_tag r = TAG_PUT \<or> r_tag r = TAG_PUT_TTL)"

definition is_del :: "log_record \<Rightarrow> bool" where
  "is_del r = (r_tag r = TAG_DEL)"

definition key_puts :: "key \<Rightarrow> (log_record \<times> nat) list \<Rightarrow> version list" where
  "key_puts k ops = map (\<lambda>(r, sq). rec_version r sq) (filter (\<lambda>(r, _). is_put r \<and> r_key r = k) ops)"

definition key_deleted :: "key \<Rightarrow> (log_record \<times> nat) list \<Rightarrow> bool" where
  "key_deleted k ops = (\<exists>(r, _) \<in> set ops. is_del r \<and> r_key r = k)"

definition replay_ops :: "extern \<Rightarrow> namespace \<Rightarrow> (log_record \<times> nat) list \<Rightarrow> store \<Rightarrow> store" where
  "replay_ops ext ns ops st = fold (\<lambda>(r, sq) st. snd (apply_record_op ext ns r sq st)) ops st"

definition local_ops :: "extern \<Rightarrow> namespace \<Rightarrow> (log_record \<times> nat) list \<Rightarrow> store \<Rightarrow> store" where
  "local_ops ext ns ops st = fold (\<lambda>(r, sq) st. snd (apply_local_op ext ns r sq st)) ops st"

text \<open>A namespace that has been created and not written to.\<close>

definition fresh_ns :: "namespace \<Rightarrow> store \<Rightarrow> bool" where
  "fresh_ns ns st =
     (bt_contains ns (st_policies st) \<and>
      (\<forall>k. bt_get (st_index st) (ns, k) = None \<and> bt_get (st_tombs st) (ns, k) = None))"

text \<open>Entries have the shape their namespace's policy demands.\<close>

definition entry_ok :: "conflict_policy \<Rightarrow> entry \<Rightarrow> bool" where
  "entry_ok p e = (case (p, e) of
      (PolicyLww, Lww _) \<Rightarrow> True
    | (CrdtRegister, Register vs) \<Rightarrow> vs \<noteq> []
    | _ \<Rightarrow> False)"

definition state_inv :: "store \<Rightarrow> bool" where
  "state_inv st =
     (bt_inv (st_logs st) \<and> bt_inv (st_policies st) \<and> bt_inv (st_index st) \<and>
      bt_inv (st_tombs st) \<and> bt_inv (st_meta st) \<and> bt_inv (st_peer_clocks st) \<and>
      (\<forall>ns k e. bt_get (st_index st) (ns, k) = Some e \<longrightarrow>
         (\<exists>p. bt_get (st_policies st) ns = Some p \<and> entry_ok p e)))"

section \<open>The secondary index touches nothing else\<close>

definition sec_only :: "store \<Rightarrow> store \<Rightarrow> bool" where
  "sec_only st st' = (st' = st\<lparr>st_sec := st_sec st'\<rparr>)"

lemma sec_onlyD:
  assumes "sec_only st st'"
  shows "st_logs st' = st_logs st" "st_policies st' = st_policies st" "st_index st' = st_index st"
    "st_tombs st' = st_tombs st" "st_meta st' = st_meta st"
    "st_peer_clocks st' = st_peer_clocks st" "st_revision st' = st_revision st"
    "st_durable st' = st_durable st"
  using assms by (cases st, cases st', simp add: sec_only_def)+

lemma sec_only_refl [simp]: "sec_only st st"
  by (simp add: sec_only_def)

lemma sec_only_trans: "sec_only a b \<Longrightarrow> sec_only b c \<Longrightarrow> sec_only a c"
  unfolding sec_only_def by (metis store.surjective store.update_convs(9))

lemma sec_only_fold: "(\<And>x st. sec_only st (f x st)) \<Longrightarrow> sec_only st (fold f xs st)"
  by (induction xs arbitrary: st) (auto intro: sec_only_trans)

lemma sec_only_insert_row: "sec_only st (insert_row mk row st)"
  by (simp add: sec_only_def insert_row_def)

lemma sec_only_remove_rows: "sec_only st (remove_rows mk k st)"
  by (simp add: sec_only_def remove_rows_def split: option.splits)

lemma sec_only_remove: "sec_only st (remove_from_sec_index ext ns k st)"
  unfolding remove_from_sec_index_def by (rule sec_only_fold) (rule sec_only_remove_rows)

lemma sec_only_refresh: "sec_only st (refresh_sec_index_for ext ns k st)"
proof -
  have "sec_only st' (fold (\<lambda>field. fold (\<lambda>fv. insert_row (sec_map_key ns field) (fv, k))
      (field_values ext val field)) fields st')" for val fields st'
    by (intro sec_only_fold sec_only_insert_row)
  then show ?thesis
    using sec_only_remove [of st ext ns k]
    by (auto simp: refresh_sec_index_for_def Let_def intro: sec_only_trans split: option.splits)
qed

lemma sec_only_clear: "sec_only st (clear_sec_index_ns ns st)"
  by (simp add: sec_only_def clear_sec_index_ns_def)

lemma sec_only_rebuild_ns: "sec_only st (rebuild_sec_index_ns ext ns st)"
  using sec_only_clear [of st ns]
  by (auto simp: rebuild_sec_index_ns_def Let_def
      intro: sec_only_trans sec_only_fold sec_only_refresh)

lemma sec_only_rebuild: "sec_only st (rebuild_secondary_indexes ext st)"
proof -
  have "sec_only st (st\<lparr>st_sec := Map.empty\<rparr>)" by (simp add: sec_only_def)
  moreover have "sec_only st' (fold (\<lambda>ns st. if index_fields ext st ns = [] then st
      else rebuild_sec_index_ns ext ns st) nss st')" for nss st'
    by (rule sec_only_fold) (auto intro: sec_only_rebuild_ns)
  ultimately show ?thesis
    unfolding rebuild_secondary_indexes_def by (rule sec_only_trans)
qed

lemmas sec_fields [simp] =
  sec_onlyD [OF sec_only_insert_row] sec_onlyD [OF sec_only_remove_rows]
  sec_onlyD [OF sec_only_remove] sec_onlyD [OF sec_only_refresh] sec_onlyD [OF sec_only_clear]
  sec_onlyD [OF sec_only_rebuild_ns] sec_onlyD [OF sec_only_rebuild]

lemma sec_only_get: "sec_only st st' \<Longrightarrow> store_get st' ns k = store_get st ns k"
  by (simp add: store_get_def sec_onlyD)

end
