(* ===== verification/Replication.thy ===== *)
theory Replication
  imports StoreState
begin

text \<open>
  Convergence of replicas.  \<open>apply_record_op\<close> (\<open>src/storage/mod.rs\<close>) applies an operation
  that was replayed from the log or received from a peer.  Its effect on what a reader of
  a key sees is characterised by the operations alone: nothing if one of them deletes the
  key, else the version with the largest \<open>(hlc, replica)\<close>.  The locale \<open>op_replica\<close> states
  this contract for a replica and derives convergence and idempotence; it is interpreted
  on the store.  \<open>apply_local_op\<close>, which a node uses for its own writes, does not satisfy
  it: a local put revives a deleted key on the node that wrote it and nowhere else.
\<close>

section \<open>Definitions\<close>

text \<open>The entry of a key after one more version, by policy.\<close>

definition add_version :: "conflict_policy \<Rightarrow> version \<Rightarrow> entry option \<Rightarrow> entry" where
  "add_version p v e =
     (case p of
        PolicyLww \<Rightarrow> (case e of Some (Lww w) \<Rightarrow> Lww (if vkey v \<ge> vkey w then v else w) | _ \<Rightarrow> Lww v)
      | CrdtRegister \<Rightarrow> (case e of Some (Register vs) \<Rightarrow> Register (vs @ [v]) | _ \<Rightarrow> Register [v]))"

text \<open>The entry of a key after a local put: under last-writer-wins the version just written,
  whatever its clock.\<close>

definition local_version :: "conflict_policy \<Rightarrow> version \<Rightarrow> entry option \<Rightarrow> entry" where
  "local_version p v e = (case p of PolicyLww \<Rightarrow> Lww v | CrdtRegister \<Rightarrow> add_version p v e)"

text \<open>What a list of operations makes of a key, and the entry it leaves.\<close>

definition view_of :: "(log_record \<times> nat) list \<Rightarrow> key \<Rightarrow> (u64 \<times> bytes \<times> bytes \<times> bytes \<times> u64) option" where
  "view_of ops k =
     (if key_deleted k ops then None else map_option strip (max_version (key_puts k ops)))"

definition entry_of :: "conflict_policy \<Rightarrow> version list \<Rightarrow> entry option" where
  "entry_of p vs =
     (case max_version vs of
        None \<Rightarrow> None
      | Some v \<Rightarrow> Some (case p of PolicyLww \<Rightarrow> Lww v | CrdtRegister \<Rightarrow> Register vs))"

text \<open>A write is identified by its key, clock and replica.\<close>

definition unique_writes :: "(log_record \<times> nat) list \<Rightarrow> bool" where
  "unique_writes ops =
     (\<forall>r \<in> fst ` set ops. \<forall>r' \<in> fst ` set ops.
        is_put r \<longrightarrow> is_put r' \<longrightarrow> r_key r = r_key r' \<longrightarrow> r_hlc r = r_hlc r' \<longrightarrow>
        r_replica r = r_replica r' \<longrightarrow> r = r')"

text \<open>A small store and records for concrete instances.\<close>

definition demo_hex :: "bytes \<Rightarrow> string" where
  "demo_hex bs = concat (map (\<lambda>b. [hex_char (unat b div 16), hex_char (unat b mod 16)]) bs)"

fun demo_unhex :: "string \<Rightarrow> bytes option" where
  "demo_unhex [] = Some []"
| "demo_unhex [c] = None"
| "demo_unhex (c # d # s) =
     (case (hex_val c, hex_val d, demo_unhex s) of
        (Some x, Some y, Some bs) \<Rightarrow> Some (of_nat (16 * x + y) # bs)
      | _ \<Rightarrow> None)"

definition demo_ext :: extern where
  "demo_ext = \<lparr>sha256 = (\<lambda>_. zero32), json_of = (\<lambda>_. None), num_str = (\<lambda>_. []),
     hex_enc = demo_hex, hex_dec = demo_unhex\<rparr>"

definition demo_store :: "conflict_policy \<Rightarrow> store" where
  "demo_store p = \<lparr>st_logs = [], st_policies = [(''n'', p)], st_index = [], st_tombs = [],
     st_meta = [], st_peer_clocks = [], st_revision = 0, st_durable = False, st_sec = Map.empty\<rparr>"

definition demo_put :: "u64 \<Rightarrow> byte \<Rightarrow> bytes \<Rightarrow> log_record" where
  "demo_put h who val = Record TAG_PUT [107] h (replicate 32 who) (replicate 32 who) val 0 []"

definition demo_del :: "u64 \<Rightarrow> byte \<Rightarrow> log_record" where
  "demo_del h who = Record TAG_DEL [107] h (replicate 32 who) (replicate 32 who) [] 0 []"

section \<open>The newest version\<close>

lemma max_version_None [simp]: "max_version vs = None \<longleftrightarrow> vs = []"
  by (cases vs) (auto split: option.splits)

lemma max_version_snoc:
  "max_version (vs @ [v]) =
     (case max_version vs of None \<Rightarrow> Some v | Some w \<Rightarrow> if vkey w \<le> vkey v then Some v else Some w)"
  by (induction vs) (auto split: option.splits)

lemma max_version_in: "max_version vs = Some v \<Longrightarrow> v \<in> set vs"
  by (induction vs arbitrary: v) (auto split: option.splits if_splits)

lemma max_version_max: "max_version vs = Some v \<Longrightarrow> w \<in> set vs \<Longrightarrow> vkey w \<le> vkey v"
proof (induction vs arbitrary: v rule: rev_induct)
  case Nil
  then show ?case by simp
next
  case (snoc x xs)
  then show ?case
    by (cases "max_version xs") (auto simp: max_version_snoc split: if_splits dest: order_trans)
qed

text \<open>Lists whose members agree up to sequence numbers, with one version per identity, have
  the same newest version.\<close>

lemma max_version_unique:
  assumes "strip ` set vs = strip ` set ws"
    and "\<And>v w. v \<in> set vs \<Longrightarrow> w \<in> set vs \<Longrightarrow> vkey v = vkey w \<Longrightarrow> strip v = strip w"
  shows "map_option strip (max_version vs) = map_option strip (max_version ws)"
proof (cases "max_version vs")
  case None
  then show ?thesis using assms(1) by (cases ws) auto
next
  case (Some v)
  have key: "vkey a = vkey b" if "strip a = strip b" for a b
    using that by (simp add: strip_def vkey_def)
  have v: "v \<in> set vs" "\<And>w. w \<in> set vs \<Longrightarrow> vkey w \<le> vkey v"
    using max_version_in [OF Some] max_version_max [OF Some] by auto
  obtain w where w: "max_version ws = Some w"
    using assms(1) v(1) by (cases "max_version ws") auto
  have w': "w \<in> set ws" "\<And>x. x \<in> set ws \<Longrightarrow> vkey x \<le> vkey w"
    using max_version_in [OF w] max_version_max [OF w] by auto
  have "strip w \<in> strip ` set vs" "strip v \<in> strip ` set ws" using assms(1) w'(1) v(1) by auto
  then obtain a b where a: "a \<in> set vs" "strip a = strip w" and b: "b \<in> set ws" "strip b = strip v"
    by (auto simp: image_iff)
  have "vkey a = vkey v"
    using v(2) [OF a(1)] w'(2) [OF b(1)] key [OF a(2)] key [OF b(2)] by simp
  then have "strip v = strip w" using assms(2) [OF a(1) v(1)] a(2) by simp
  then show ?thesis by (simp add: Some w)
qed

section \<open>One operation\<close>

lemma state_invD:
  assumes "state_inv st"
  shows "bt_inv (st_policies st)" "bt_inv (st_index st)" "bt_inv (st_tombs st)" "bt_inv (st_meta st)"
    "bt_inv (st_logs st)" "bt_inv (st_peer_clocks st)"
  using assms by (auto simp: state_inv_def)

lemma state_inv_entry:
  assumes "state_inv st" "bt_get (st_index st) (ns, k) = Some e" "bt_get (st_policies st) ns = Some p"
  shows "entry_ok p e"
proof -
  obtain q where "bt_get (st_policies st) ns = Some q" "entry_ok q e"
    using assms(1,2) unfolding state_inv_def by blast
  then show ?thesis using assms(3) by simp
qed

lemma add_version_ok: "entry_ok p (add_version p v e)"
  by (auto simp: add_version_def entry_ok_def split: conflict_policy.splits entry.splits option.splits)

lemma apply_record_op_put:
  assumes "state_inv st" "bt_get (st_policies st) ns = Some p" "is_put r"
  shows "fst (apply_record_op ext ns r sq st) = Ok ()"
    and "bt_get (st_index (snd (apply_record_op ext ns r sq st))) =
      (bt_get (st_index st))((ns, r_key r) \<mapsto>
         add_version p (rec_version r sq) (bt_get (st_index st) (ns, r_key r)))"
    and "st_tombs (snd (apply_record_op ext ns r sq st)) = st_tombs st"
    and "bt_inv (st_index (snd (apply_record_op ext ns r sq st)))"
proof -
  let ?e = "bt_get (st_index st) (ns, r_key r)"
  have ok: "p = CrdtRegister \<Longrightarrow> ?e \<noteq> Some (Lww v)" "p = PolicyLww \<Longrightarrow> ?e \<noteq> Some (Register vs)" for v vs
    using state_inv_entry [OF assms(1) _ assms(2), of "r_key r"] by (auto simp: entry_ok_def)
  have t: "r_tag r = TAG_PUT \<or> r_tag r = TAG_PUT_TTL" using assms(3) by (simp add: is_put_def)
  note simps = apply_record_op_def assms(2) t Let_def add_version_def
  show "fst (apply_record_op ext ns r sq st) = Ok ()"
    using ok by (auto simp: simps split: conflict_policy.splits entry.splits option.splits)
  show "bt_get (st_index (snd (apply_record_op ext ns r sq st))) =
      (bt_get (st_index st))((ns, r_key r) \<mapsto>
         add_version p (rec_version r sq) (bt_get (st_index st) (ns, r_key r)))"
    using ok state_invD(2) [OF assms(1)]
    by (auto simp: simps bt_get_insert fun_eq_iff split: conflict_policy.splits entry.splits option.splits)
  show "st_tombs (snd (apply_record_op ext ns r sq st)) = st_tombs st"
    using ok by (auto simp: simps split: conflict_policy.splits entry.splits option.splits)
  show "bt_inv (st_index (snd (apply_record_op ext ns r sq st)))"
    using ok state_invD(2) [OF assms(1)]
    by (auto simp: simps split: conflict_policy.splits entry.splits option.splits)
qed

lemma apply_record_op_del:
  assumes "state_inv st" "bt_get (st_policies st) ns = Some p" "is_del r"
  shows "fst (apply_record_op ext ns r sq st) = Ok ()"
    and "bt_get (st_index (snd (apply_record_op ext ns r sq st))) = (bt_get (st_index st))((ns, r_key r) := None)"
    and "bt_get (st_tombs (snd (apply_record_op ext ns r sq st))) =
      (bt_get (st_tombs st))((ns, r_key r) \<mapsto> r_hlc r)"
    and "bt_inv (st_index (snd (apply_record_op ext ns r sq st)))"
    and "bt_inv (st_tombs (snd (apply_record_op ext ns r sq st)))"
  using assms state_invD [OF assms(1)]
  by (auto simp: apply_record_op_def is_del_def Let_def bt_get_insert bt_get_remove fun_eq_iff)

lemma apply_record_op_other:
  "\<not> is_put r \<Longrightarrow> \<not> is_del r \<Longrightarrow> snd (apply_record_op ext ns r sq st) = st"
  by (auto simp: apply_record_op_def is_put_def is_del_def Let_def split: option.splits)

lemma apply_record_op_frame [simp]:
  "st_logs (snd (apply_record_op ext ns r sq st)) = st_logs st"
  "st_policies (snd (apply_record_op ext ns r sq st)) = st_policies st"
  "st_meta (snd (apply_record_op ext ns r sq st)) = st_meta st"
  "st_peer_clocks (snd (apply_record_op ext ns r sq st)) = st_peer_clocks st"
  "st_revision (snd (apply_record_op ext ns r sq st)) = st_revision st"
  "st_durable (snd (apply_record_op ext ns r sq st)) = st_durable st"
  by (auto simp: apply_record_op_def Let_def split: option.splits conflict_policy.splits entry.splits)

lemma apply_record_op_inv:
  assumes "state_inv st" "bt_get (st_policies st) ns = Some p"
  shows "state_inv (snd (apply_record_op ext ns r sq st))"
proof -
  consider "is_put r" | "is_del r" | "\<not> is_put r" "\<not> is_del r" by blast
  then show ?thesis
  proof cases
    case 1
    note e = apply_record_op_put [OF assms 1, of ext sq]
    show ?thesis
      unfolding state_inv_def using e(2-4) assms state_invD [OF assms(1)] add_version_ok
      by (auto simp: state_inv_entry [OF assms(1)] dest: state_inv_def [THEN iffD1])
  next
    case 2
    note e = apply_record_op_del [OF assms 2, of ext sq]
    show ?thesis
      unfolding state_inv_def using e(2-5) assms state_invD [OF assms(1)]
      by (auto simp: state_inv_def)
  next
    case 3
    then show ?thesis using assms(1) by (simp add: apply_record_op_other)
  qed
qed

section \<open>A list of operations\<close>

lemma replay_ops_snoc:
  "replay_ops ext ns (ops @ [(r, sq)]) st = snd (apply_record_op ext ns r sq (replay_ops ext ns ops st))"
  by (simp add: replay_ops_def)

lemma replay_ops_policies [simp]: "st_policies (replay_ops ext ns ops st) = st_policies st"
  by (induction ops rule: rev_induct) (auto simp: replay_ops_def)

lemma replay_ops_inv:
  assumes "state_inv st" "bt_get (st_policies st) ns = Some p"
  shows "state_inv (replay_ops ext ns ops st)"
proof (induction ops rule: rev_induct)
  case Nil
  then show ?case using assms by (simp add: replay_ops_def)
next
  case (snoc x xs)
  obtain r sq where x: "x = (r, sq)" by (cases x)
  show ?case using snoc assms(2) by (simp add: x replay_ops_snoc apply_record_op_inv)
qed

lemma key_puts_snoc:
  "key_puts k (ops @ [(r, sq)]) =
   key_puts k ops @ (if is_put r \<and> r_key r = k then [rec_version r sq] else [])"
  by (simp add: key_puts_def)

lemma key_deleted_snoc:
  "key_deleted k (ops @ [(r, sq)]) \<longleftrightarrow> key_deleted k ops \<or> is_del r \<and> r_key r = k"
  by (auto simp: key_deleted_def)

lemma entry_of_snoc: "entry_of p (vs @ [v]) = Some (add_version p v (entry_of p vs))"
  by (auto simp: entry_of_def add_version_def max_version_snoc
      split: option.splits conflict_policy.splits)

lemma is_put_not_del: "is_put r \<Longrightarrow> \<not> is_del r"
  by (auto simp: is_put_def is_del_def)

lemma replay_ops_key:
  assumes "state_inv st" "bt_get (st_policies st) ns = Some p"
    and "bt_get (st_index st) (ns, k) = None" "bt_get (st_tombs st) (ns, k) = None"
  shows "bt_contains (ns, k) (st_tombs (replay_ops ext ns ops st)) = key_deleted k ops \<and>
    (\<not> key_deleted k ops \<longrightarrow>
       bt_get (st_index (replay_ops ext ns ops st)) (ns, k) = entry_of p (key_puts k ops))"
proof (induction ops rule: rev_induct)
  case Nil
  then show ?case
    using assms(3,4) by (simp add: replay_ops_def key_deleted_def key_puts_def entry_of_def bt_contains_def)
next
  case (snoc x xs)
  obtain r sq where x: "x = (r, sq)" by (cases x)
  let ?st = "replay_ops ext ns xs st"
  have inv: "state_inv ?st" "bt_get (st_policies ?st) ns = Some p"
    using replay_ops_inv [OF assms(1,2)] assms(2) by simp_all
  consider "is_put r" | "is_del r" | "\<not> is_put r" "\<not> is_del r" by blast
  then show ?case
  proof cases
    case 1
    show ?thesis
      using snoc apply_record_op_put [OF inv 1, of ext sq] is_put_not_del [OF 1]
      by (auto simp: x replay_ops_snoc key_puts_snoc key_deleted_snoc 1 entry_of_snoc)
  next
    case 2
    show ?thesis
      using snoc apply_record_op_del [OF inv 2, of ext sq] 2 is_put_not_del [of r]
      by (auto simp: x replay_ops_snoc key_puts_snoc key_deleted_snoc bt_contains_def)
  next
    case 3
    then show ?thesis
      using snoc by (simp add: x replay_ops_snoc key_puts_snoc key_deleted_snoc apply_record_op_other)
  qed
qed

lemma latest_entry_of: "entry_of p vs = Some e \<Longrightarrow> latest_entry_value e = max_version vs"
  by (auto simp: entry_of_def latest_entry_value_def split: option.splits conflict_policy.splits)

lemma replay_ops_visible:
  assumes "state_inv st" "fresh_ns ns st"
  shows "visible (replay_ops ext ns ops st) ns k = view_of ops k"
proof -
  obtain p where p: "bt_get (st_policies st) ns = Some p"
    using assms(2) by (auto simp: fresh_ns_def bt_contains_def)
  have "bt_get (st_index st) (ns, k) = None" "bt_get (st_tombs st) (ns, k) = None"
    using assms(2) by (auto simp: fresh_ns_def)
  note r = replay_ops_key [OF assms(1) p this, of ext ops]
  show ?thesis
  proof (cases "entry_of p (key_puts k ops)")
    case None
    then show ?thesis
      using r by (auto simp: visible_def store_get_def view_of_def entry_of_def split: option.splits)
  next
    case (Some e)
    then show ?thesis
      using r latest_entry_of [OF Some] by (auto simp: visible_def store_get_def view_of_def)
  qed
qed

lemma strip_rec_version: "strip (rec_version r sq) = (r_hlc r, r_replica r, r_author r, r_value r, r_expires_at r)"
  by (simp add: strip_def rec_version_def mk_version_def)

lemma vkey_rec_version: "vkey (rec_version r sq) = (r_hlc r, r_replica r)"
  by (simp add: vkey_def rec_version_def mk_version_def)

lemma view_of_cong:
  assumes "unique_writes xs" "fst ` set xs = fst ` set ys"
  shows "view_of xs k = view_of ys k"
proof -
  have del: "key_deleted k zs \<longleftrightarrow> (\<exists>r \<in> fst ` set zs. is_del r \<and> r_key r = k)" for zs
    by (force simp: key_deleted_def)
  have puts: "strip ` set (key_puts k zs) =
      (\<lambda>r. (r_hlc r, r_replica r, r_author r, r_value r, r_expires_at r)) `
        {r \<in> fst ` set zs. is_put r \<and> r_key r = k}" for zs
    by (force simp: key_puts_def strip_rec_version image_iff)
  have "map_option strip (max_version (key_puts k xs)) = map_option strip (max_version (key_puts k ys))"
  proof (rule max_version_unique)
    show "strip ` set (key_puts k xs) = strip ` set (key_puts k ys)" by (simp only: puts assms(2))
    fix v w assume "v \<in> set (key_puts k xs)" "w \<in> set (key_puts k xs)" "vkey v = vkey w"
    then obtain r s r' s' where "(r, s) \<in> set xs" "is_put r" "r_key r = k" "v = rec_version r s"
      "(r', s') \<in> set xs" "is_put r'" "r_key r' = k" "w = rec_version r' s'"
      by (auto simp: key_puts_def)
    moreover from this \<open>vkey v = vkey w\<close> have "r = r'"
      using assms(1) unfolding unique_writes_def
      by (metis fst_conv image_eqI prod.inject vkey_rec_version)
    ultimately show "strip v = strip w" by (simp add: strip_rec_version)
  qed
  moreover have "key_deleted k xs = key_deleted k ys" by (simp only: del assms(2))
  ultimately show ?thesis by (simp add: view_of_def)
qed

section \<open>The contract of a replica\<close>

locale op_replica =
  fixes step :: "'op \<Rightarrow> 's \<Rightarrow> 's"
    and see :: "'s \<Rightarrow> 'k \<Rightarrow> 'v option"
    and start :: "'s \<Rightarrow> bool"
    and spec :: "'op list \<Rightarrow> 'k \<Rightarrow> 'v option"
    and ident :: "'op \<Rightarrow> 'i"
    and admissible :: "'op list \<Rightarrow> bool"
  assumes refine: "start s \<Longrightarrow> see (fold step ops s) k = spec ops k"
    and spec_cong: "admissible xs \<Longrightarrow> ident ` set xs = ident ` set ys \<Longrightarrow> spec xs k = spec ys k"
begin

lemma converge:
  assumes "start s" "start s'" "admissible xs" "ident ` set xs = ident ` set ys"
  shows "see (fold step xs s) k = see (fold step ys s') k"
  using assms by (simp add: refine spec_cong)

lemma redelivery:
  assumes "start s" "admissible xs" "ident ` set ys \<subseteq> ident ` set xs"
  shows "see (fold step (xs @ ys) s) k = see (fold step xs s) k"
proof -
  have "ident ` set xs = ident ` set (xs @ ys)" using assms(3) by (auto simp: image_Un)
  from converge [OF assms(1) assms(1,2) this, of k] show ?thesis by simp
qed

end

interpretation rep: op_replica
  "\<lambda>(r, sq) st. snd (apply_record_op ext ns r sq st)" "\<lambda>st. visible st ns"
  "\<lambda>st. state_inv st \<and> fresh_ns ns st" view_of fst unique_writes
  for ext ns
proof unfold_locales
  fix s ops k
  assume "state_inv s \<and> fresh_ns ns s"
  then show "visible (fold (\<lambda>(r, sq) st. snd (apply_record_op ext ns r sq st)) ops s) ns k = view_of ops k"
    using replay_ops_visible [of s ns ext ops k] by (simp add: replay_ops_def)
next
  fix xs ys :: "(log_record \<times> nat) list" and k
  assume "unique_writes xs" "fst ` set xs = fst ` set ys"
  then show "view_of xs k = view_of ys k" by (rule view_of_cong)
qed

section \<open>Local writes\<close>

lemma apply_local_op_del:
  assumes "state_inv st" "bt_get (st_policies st) ns = Some p" "is_del r"
  shows "fst (apply_local_op ext ns r sq st) = Ok ()"
    and "bt_get (st_index (snd (apply_local_op ext ns r sq st))) = (bt_get (st_index st))((ns, r_key r) := None)"
    and "bt_get (st_tombs (snd (apply_local_op ext ns r sq st))) =
      (bt_get (st_tombs st))((ns, r_key r) \<mapsto> r_hlc r)"
    and "bt_inv (st_index (snd (apply_local_op ext ns r sq st)))"
    and "bt_inv (st_tombs (snd (apply_local_op ext ns r sq st)))"
  using assms state_invD [OF assms(1)]
  by (auto simp: apply_local_op_def is_del_def Let_def bt_get_insert bt_get_remove fun_eq_iff)

lemma local_version_ok: "entry_ok p (local_version p v e)"
  using add_version_ok [of p v e]
  by (auto simp: local_version_def entry_ok_def split: conflict_policy.splits)

lemma apply_local_op_put:
  assumes "state_inv st" "bt_get (st_policies st) ns = Some p" "is_put r"
  shows "fst (apply_local_op ext ns r sq st) = Ok ()"
    and "bt_get (st_index (snd (apply_local_op ext ns r sq st))) =
      (bt_get (st_index st))((ns, r_key r) \<mapsto>
         local_version p (rec_version r sq) (bt_get (st_index st) (ns, r_key r)))"
    and "bt_get (st_tombs (snd (apply_local_op ext ns r sq st))) = (bt_get (st_tombs st))((ns, r_key r) := None)"
    and "bt_inv (st_index (snd (apply_local_op ext ns r sq st)))"
    and "bt_inv (st_tombs (snd (apply_local_op ext ns r sq st)))"
proof -
  let ?e = "bt_get (st_index st) (ns, r_key r)"
  have ok: "p = CrdtRegister \<Longrightarrow> ?e \<noteq> Some (Lww v)" for v
    using state_inv_entry [OF assms(1) _ assms(2), of "r_key r"] by (auto simp: entry_ok_def)
  have t: "r_tag r = TAG_PUT \<or> r_tag r = TAG_PUT_TTL" using assms(3) by (simp add: is_put_def)
  note simps = apply_local_op_def assms(2) t Let_def local_version_def add_version_def
  note splits = conflict_policy.splits entry.splits option.splits
  note i = state_invD(2,3) [OF assms(1)]
  show "fst (apply_local_op ext ns r sq st) = Ok ()"
    using ok by (auto simp: simps split: splits)
  show "bt_get (st_index (snd (apply_local_op ext ns r sq st))) =
      (bt_get (st_index st))((ns, r_key r) \<mapsto>
         local_version p (rec_version r sq) (bt_get (st_index st) (ns, r_key r)))"
    using ok i by (auto simp: simps bt_get_insert fun_eq_iff split: splits)
  show "bt_get (st_tombs (snd (apply_local_op ext ns r sq st))) = (bt_get (st_tombs st))((ns, r_key r) := None)"
    using ok i by (auto simp: simps bt_get_remove fun_eq_iff split: splits)
  show "bt_inv (st_index (snd (apply_local_op ext ns r sq st)))"
    "bt_inv (st_tombs (snd (apply_local_op ext ns r sq st)))"
    using ok i by (auto simp: simps split: splits)
qed

lemma apply_local_op_other:
  "\<not> is_put r \<Longrightarrow> \<not> is_del r \<Longrightarrow> snd (apply_local_op ext ns r sq st) = st"
  by (auto simp: apply_local_op_def is_put_def is_del_def Let_def split: option.splits)

lemma apply_local_op_frame [simp]:
  "st_logs (snd (apply_local_op ext ns r sq st)) = st_logs st"
  "st_policies (snd (apply_local_op ext ns r sq st)) = st_policies st"
  "st_meta (snd (apply_local_op ext ns r sq st)) = st_meta st"
  "st_peer_clocks (snd (apply_local_op ext ns r sq st)) = st_peer_clocks st"
  "st_durable (snd (apply_local_op ext ns r sq st)) = st_durable st"
  by (auto simp: apply_local_op_def Let_def split: option.splits conflict_policy.splits entry.splits)

lemma state_inv_update:
  assumes "state_inv st" "bt_get (st_policies st) ns = Some p"
    and "bt_get (st_index st') = (bt_get (st_index st))((ns, k) := e)" "bt_inv (st_index st')"
    and "\<And>x. e = Some x \<Longrightarrow> entry_ok p x" "bt_inv (st_tombs st')"
    and "st_logs st' = st_logs st" "st_policies st' = st_policies st" "st_meta st' = st_meta st"
      "st_peer_clocks st' = st_peer_clocks st"
  shows "state_inv st'"
  using assms unfolding state_inv_def by auto

lemma apply_local_op_inv:
  assumes "state_inv st" "bt_get (st_policies st) ns = Some p"
  shows "state_inv (snd (apply_local_op ext ns r sq st))"
proof -
  consider "is_put r" | "is_del r" | "\<not> is_put r" "\<not> is_del r" by blast
  then show ?thesis
  proof cases
    case 1
    note e = apply_local_op_put [OF assms 1, of ext sq]
    show ?thesis
      by (rule state_inv_update [OF assms e(2,4) _ e(5)]) (auto simp: local_version_ok)
  next
    case 2
    note e = apply_local_op_del [OF assms 2, of ext sq]
    show ?thesis by (rule state_inv_update [OF assms e(2,4) _ e(5)]) auto
  next
    case 3
    then show ?thesis using assms(1) by (simp add: apply_local_op_other)
  qed
qed

lemma visible_local_put:
  assumes "state_inv st" "bt_get (st_policies st) ns = Some p" "is_put r"
    and "p = PolicyLww \<or> bt_get (st_index st) (ns, r_key r) = None"
  shows "visible (snd (apply_local_op ext ns r sq st)) ns (r_key r) = Some (strip (rec_version r sq))"
  using apply_local_op_put [OF assms(1-3), of ext sq] assms(4)
  by (auto simp: visible_def store_get_def bt_contains_def local_version_def add_version_def
      latest_entry_value_def split: conflict_policy.splits)

section \<open>Scans\<close>

lemma takeWhile_ns:
  assumes "bt_inv t" "\<And>n k e. ((n, k), e) \<in> set t \<Longrightarrow> ns \<le> n"
  shows "takeWhile (\<lambda>((n, _), _). n = ns) t = filter (\<lambda>((n, _), _). n = ns) (t :: (namespace \<times> key, 'e) btree)"
  using assms
proof (induction t)
  case Nil
  then show ?case by simp
next
  case (Cons x t)
  obtain n k e where x: "x = ((n, k), e)" by (metis prod.exhaust)
  have gt: "n \<le> n'" if "((n', k'), e') \<in> set t" for n' k' e'
    using Cons(2) that by (force simp: x less_prod_def)
  show ?case
  proof (cases "n = ns")
    case True
    have "takeWhile (\<lambda>((n, _), _). n = ns) t = filter (\<lambda>((n, _), _). n = ns) t"
      by (rule Cons(1)) (use Cons(2) gt True in \<open>auto simp: x\<close>)
    then show ?thesis by (simp add: x True)
  next
    case False
    then have "ns < n" using Cons(3) x by (metis list.set_intros(1) order.not_eq_order_implies_strict)
    then have "filter (\<lambda>((n, _), _). n = ns) t = []" using gt by (fastforce simp: filter_empty_conv)
    then show ?thesis using False by (simp add: x)
  qed
qed

lemma scan_range_filter:
  assumes "bt_inv (st_index st)"
  shows "scan_range st ns = filter (\<lambda>((n, _), _). n = ns) (st_index st)"
proof -
  have *: "takeWhile (\<lambda>((n, _), _). n = ns) (dropWhile (\<lambda>(nk, _). nk < (ns, [])) t) =
      filter (\<lambda>((n, _), _). n = ns) t" if "bt_inv t" for t :: "(namespace \<times> key, entry) btree"
    using that
  proof (induction t)
    case Nil
    then show ?case by simp
  next
    case (Cons x t)
    obtain n k e where x: "x = ((n, k), e)" by (metis prod.exhaust)
    show ?case
    proof (cases "(n, k) < (ns, [])")
      case True
      then have "n \<noteq> ns" by (auto simp: less_prod_def)
      then show ?thesis using Cons True by (simp add: x)
    next
      case False
      then have "ns \<le> n" by (auto simp: less_prod_def)
      then have "ns \<le> n'" if "((n', k'), e') \<in> set (x # t)" for n' k' e'
        using Cons(2) that by (force simp: x less_prod_def)
      with takeWhile_ns [OF Cons(2)] False show ?thesis by (simp add: x)
    qed
  qed
  show ?thesis unfolding scan_range_def by (rule * [OF assms])
qed

lemma scan_iff:
  assumes "bt_inv (st_index st)"
  shows "(k, e) \<in> set (scan st ns pre) \<longleftrightarrow> bt_get (st_index st) (ns, k) = Some e \<and> prefix pre k"
  unfolding scan_def scan_range_filter [OF assms] bt_get_iff [OF assms, symmetric]
  by (force simp: image_iff)

lemma scan_keys_eq: "scan_keys st ns pre = map fst (scan st ns pre)"
  by (auto simp: scan_keys_def scan_def)

lemma scan_sorted:
  assumes "bt_inv (st_index st)"
  shows "sorted_wrt (<) (map fst (scan st ns pre))"
proof -
  have "bt_inv (filter (\<lambda>((n, k), _). n = ns \<and> (pre = [] \<or> prefix pre k)) (st_index st))"
    by (rule bt_filter_inv [OF assms])
  then have "sorted_wrt (\<lambda>x y. fst x < fst y) (filter (\<lambda>((n, k), _). n = ns \<and> (pre = [] \<or> prefix pre k)) (st_index st))"
    by (simp add: bt_inv_def sorted_wrt_map)
  then have "sorted_wrt (\<lambda>x y. snd (fst x) < snd (fst y))
      (filter (\<lambda>((n, k), _). n = ns \<and> (pre = [] \<or> prefix pre k)) (st_index st))"
    by (rule sorted_wrt_mono_rel [rotated]) (auto simp: less_prod_def)
  moreover have "filter (\<lambda>((_, k), _). pre = [] \<or> prefix pre k) (filter (\<lambda>((n, _), _). n = ns) (st_index st)) =
      filter (\<lambda>((n, k), _). n = ns \<and> (pre = [] \<or> prefix pre k)) (st_index st)"
    by (auto simp: case_prod_unfold conj_commute intro: filter_cong)
  ultimately show ?thesis
    by (simp add: scan_def scan_range_filter [OF assms] sorted_wrt_map case_prod_unfold)
qed

section \<open>Properties\<close>

text \<open>C2.  Replicas converge: two nodes that replay or receive the same set of operations on a
  fresh namespace, in any order, with any duplicates and with any local sequence numbers,
  show the same version of every key, under both conflict policies, provided a write is
  identified by its key, clock and replica.\<close>

theorem replicas_converge:
  assumes "state_inv st" "fresh_ns ns st" "state_inv st'" "fresh_ns ns st'"
    and "unique_writes xs" "fst ` set xs = fst ` set ys"
  shows "visible (replay_ops ext ns xs st) ns k = visible (replay_ops ext ns ys st') ns k"
  using rep.converge [of st ns st' xs ys ext k] assms by (simp add: replay_ops_def)

lemma demo_store_ok: "state_inv (demo_store p)" "fresh_ns ''n'' (demo_store p)"
  by (simp_all add: state_inv_def fresh_ns_def demo_store_def bt_contains_def bt_get_def)

theorem replicas_converge_witness:
  "visible (replay_ops demo_ext ''n'' [(demo_put 5 1 [97], 1), (demo_put 5 2 [98], 2)] (demo_store PolicyLww)) ''n'' [107] =
   visible (replay_ops demo_ext ''n'' [(demo_put 5 2 [98], 1), (demo_put 5 1 [97], 2), (demo_put 5 2 [98], 3)]
     (demo_store PolicyLww)) ''n'' [107]"
  by (rule replicas_converge)
     (auto simp: demo_store_ok unique_writes_def demo_put_def replicate_eq_replicate)

text \<open>A key written again after a local deletion is seen only by the node that wrote it:
  after put, delete and put of a key the node shows the second value, while every node
  that replays the same three records, a peer or the node itself after a restart, shows
  no value at all.\<close>

theorem local_revival_not_replayed:
  assumes "state_inv st" "fresh_ns ns st" "is_put a" "is_del d" "is_put b"
    and "r_key a = k" "r_key d = k" "r_key b = k"
  shows "visible (local_ops ext ns [(a, 1), (d, 2), (b, 3)] st) ns k =
           Some (r_hlc b, r_replica b, r_author b, r_value b, r_expires_at b) \<and>
         visible (replay_ops ext ns [(a, 1), (d, 2), (b, 3)] st) ns k = None"
proof
  obtain p where p: "bt_get (st_policies st) ns = Some p"
    using assms(2) by (auto simp: fresh_ns_def bt_contains_def)
  let ?s1 = "snd (apply_local_op ext ns a 1 st)" and ?s2 = "\<lambda>s. snd (apply_local_op ext ns d 2 s)"
  have s1: "state_inv ?s1" "bt_get (st_policies ?s1) ns = Some p"
    using apply_local_op_inv [OF assms(1) p] p by simp_all
  have s2: "state_inv (?s2 ?s1)" "bt_get (st_policies (?s2 ?s1)) ns = Some p"
    "bt_get (st_index (?s2 ?s1)) (ns, r_key b) = None"
    using apply_local_op_inv [OF s1] s1 apply_local_op_del(2) [OF s1 assms(4)] assms(7,8) by simp_all
  show "visible (local_ops ext ns [(a, 1), (d, 2), (b, 3)] st) ns k =
      Some (r_hlc b, r_replica b, r_author b, r_value b, r_expires_at b)"
    using visible_local_put [OF s2(1,2) assms(5), of ext 3] s2(3) assms(8)
    by (simp add: local_ops_def strip_rec_version)
  show "visible (replay_ops ext ns [(a, 1), (d, 2), (b, 3)] st) ns k = None"
    using assms(4,7) by (simp add: replay_ops_visible [OF assms(1,2)] view_of_def key_deleted_def)
qed

theorem local_revival_not_replayed_witness:
  "visible (local_ops demo_ext ''n'' [(demo_put 1 1 [97], 1), (demo_del 2 1, 2), (demo_put 3 1 [98], 3)]
      (demo_store PolicyLww)) ''n'' [107] = Some (3, replicate 32 1, replicate 32 1, [98], 0) \<and>
   visible (replay_ops demo_ext ''n'' [(demo_put 1 1 [97], 1), (demo_del 2 1, 2), (demo_put 3 1 [98], 3)]
      (demo_store PolicyLww)) ''n'' [107] = None"
  using local_revival_not_replayed [OF demo_store_ok, of "demo_put 1 1 [97]" "demo_del 2 1" "demo_put 3 1 [98]" "[107]" demo_ext PolicyLww]
  by (simp add: demo_put_def demo_del_def is_put_def is_del_def)

text \<open>A scan returns exactly the entries of the namespace whose key starts with the
  prefix, in strictly increasing key order; \<open>scan_keys\<close> returns their keys.\<close>

theorem scan_exact:
  assumes "state_inv st"
  shows "((k, e) \<in> set (scan st ns pre) \<longleftrightarrow> bt_get (st_index st) (ns, k) = Some e \<and> prefix pre k) \<and>
    sorted_wrt (<) (map fst (scan st ns pre)) \<and> scan_keys st ns pre = map fst (scan st ns pre)"
  using scan_iff [OF state_invD(2) [OF assms]] scan_sorted [OF state_invD(2) [OF assms]]
  by (simp add: scan_keys_eq)

theorem scan_exact_witness:
  "\<forall>e. ([107], e) \<in> set (scan (replay_ops demo_ext ''n'' [(demo_put 1 1 [97], 1)] (demo_store PolicyLww)) ''n'' [107]) \<longleftrightarrow>
     bt_get (st_index (replay_ops demo_ext ''n'' [(demo_put 1 1 [97], 1)] (demo_store PolicyLww))) (''n'', [107]) = Some e \<and>
     prefix [107] [107]"
proof -
  have "bt_get (st_policies (demo_store PolicyLww)) ''n'' = Some PolicyLww"
    by (simp add: demo_store_def bt_get_def)
  from replay_ops_inv [OF demo_store_ok(1) this] show ?thesis using scan_exact by blast
qed

text \<open>Scans do not converge: after the same put and deletion of a key in the two possible
  orders both nodes read nothing under the key, but the node that received the deletion
  first still lists the deleted version in its scan.\<close>

theorem scan_shows_deleted:
  assumes "state_inv st" "fresh_ns ns st" "is_put a" "is_del d" "r_key a = k" "r_key d = k"
  shows "store_get (replay_ops ext ns [(a, 1), (d, 2)] st) ns k = None \<and>
    store_get (replay_ops ext ns [(d, 1), (a, 2)] st) ns k = None \<and>
    k \<notin> set (scan_keys (replay_ops ext ns [(a, 1), (d, 2)] st) ns []) \<and>
    k \<in> set (scan_keys (replay_ops ext ns [(d, 1), (a, 2)] st) ns [])"
proof -
  obtain p where p: "bt_get (st_policies st) ns = Some p"
    using assms(2) by (auto simp: fresh_ns_def bt_contains_def)
  have none: "bt_get (st_index st) (ns, k) = None" "bt_get (st_tombs st) (ns, k) = None"
    using assms(2) by (auto simp: fresh_ns_def)
  note r = replay_ops_key [OF assms(1) p none]
  have inv: "bt_inv (st_index (replay_ops ext ns ops st))" for ops
    using replay_ops_inv [OF assms(1) p] state_invD(2) by blast
  have s1: "state_inv (snd (apply_record_op ext ns r 1 st))"
    "bt_get (st_policies (snd (apply_record_op ext ns r 1 st))) ns = Some p" for r
    using apply_record_op_inv [OF assms(1) p] p by simp_all
  have i1: "bt_get (st_index (replay_ops ext ns [(a, 1), (d, 2)] st)) (ns, k) = None"
    using apply_record_op_del(2) [OF s1 assms(4)] assms(6) by (simp add: replay_ops_def)
  have i2: "bt_get (st_index (replay_ops ext ns [(d, 1), (a, 2)] st)) (ns, k) \<noteq> None"
    using apply_record_op_put(2) [OF s1 assms(3)] assms(5) by (simp add: replay_ops_def)
  have mem: "k \<in> set (scan_keys (replay_ops ext ns ops st) ns []) \<longleftrightarrow>
      bt_get (st_index (replay_ops ext ns ops st)) (ns, k) \<noteq> None" for ops
    using scan_iff [OF inv, of k _ ops ns "[]"] by (force simp: scan_keys_eq)
  show ?thesis
    using r [of ext "[(a, 1), (d, 2)]"] r [of ext "[(d, 1), (a, 2)]"] assms(4,6) i1 i2
    by (simp add: store_get_def key_deleted_def mem)
qed

theorem scan_shows_deleted_witness:
  "[107] \<notin> set (scan_keys (replay_ops demo_ext ''n'' [(demo_put 1 1 [97], 1), (demo_del 2 1, 2)] (demo_store PolicyLww)) ''n'' []) \<and>
   [107] \<in> set (scan_keys (replay_ops demo_ext ''n'' [(demo_del 2 1, 1), (demo_put 1 1 [97], 2)] (demo_store PolicyLww)) ''n'' [])"
  using scan_shows_deleted [OF demo_store_ok, of "demo_put 1 1 [97]" "demo_del 2 1" "[107]" demo_ext PolicyLww]
  by (simp add: demo_put_def demo_del_def is_put_def is_del_def)

end
