(* ===== verification/Utf8.thy ===== *)
theory Utf8
  imports Prelude
begin

text \<open>
  Rust strings.  A \<open>String\<close> is its UTF-8 byte sequence, written as an Isabelle \<open>string\<close> whose
  characters are the bytes.  \<open>utf8_step\<close> is the decoding step of the standard library: the
  length of the well-formed sequence at the head, or of the part of an ill-formed one that
  \<open>from_utf8_lossy\<close> replaces by \<open>U+FFFD\<close>.
\<close>

section \<open>Definitions\<close>

definition bytes_str :: "bytes \<Rightarrow> string" where
  "bytes_str bs = map (\<lambda>b. char_of (unat b)) bs"

definition in_range :: "nat \<Rightarrow> nat \<Rightarrow> bytes \<Rightarrow> nat \<Rightarrow> bool" where
  "in_range lo hi bs i = (i < length bs \<and> lo \<le> unat (bs ! i) \<and> unat (bs ! i) \<le> hi)"

definition cont :: "bytes \<Rightarrow> nat \<Rightarrow> bool" where
  "cont bs i = in_range 0x80 0xBF bs i"

text \<open>The admissible second byte after a lead byte of a three- or four-byte sequence.\<close>

definition second3 :: "nat \<Rightarrow> bytes \<Rightarrow> bool" where
  "second3 b bs =
     (if b = 0xE0 then in_range 0xA0 0xBF bs 1
      else if b = 0xED then in_range 0x80 0x9F bs 1
      else in_range 0x80 0xBF bs 1)"

definition second4 :: "nat \<Rightarrow> bytes \<Rightarrow> bool" where
  "second4 b bs =
     (if b = 0xF0 then in_range 0x90 0xBF bs 1
      else if b = 0xF4 then in_range 0x80 0x8F bs 1
      else in_range 0x80 0xBF bs 1)"

definition utf8_step :: "bytes \<Rightarrow> bool \<times> nat" where
  "utf8_step bs =
     (let b = unat (bs ! 0) in
      if b < 0x80 then (True, 1)
      else if 0xC2 \<le> b \<and> b \<le> 0xDF then (if cont bs 1 then (True, 2) else (False, 1))
      else if 0xE0 \<le> b \<and> b \<le> 0xEF then
        (if second3 b bs then (if cont bs 2 then (True, 3) else (False, 2)) else (False, 1))
      else if 0xF0 \<le> b \<and> b \<le> 0xF4 then
        (if second4 b bs then
           (if cont bs 2 then (if cont bs 3 then (True, 4) else (False, 3)) else (False, 2))
         else (False, 1))
      else (False, 1))"

lemma utf8_step_pos: "0 < snd (utf8_step bs)"
  by (simp add: utf8_step_def Let_def)

definition replacement :: bytes where
  "replacement = [0xEF, 0xBF, 0xBD]"

function from_utf8_lossy :: "bytes \<Rightarrow> bytes" where
  "from_utf8_lossy bs =
     (if bs = [] then []
      else let (ok, n) = utf8_step bs
           in (if ok then take n bs else replacement) @ from_utf8_lossy (drop n bs))"
  by pat_completeness auto
termination
proof (relation "measure length", goal_cases)
  case 1
  then show ?case by simp
next
  case (2 bs x ok n)
  then have "0 < n" using utf8_step_pos [of bs] by (metis snd_conv)
  then show ?case using 2(1) by (cases bs) auto
qed

declare from_utf8_lossy.simps [simp del]

function utf8_ok :: "bytes \<Rightarrow> bool" where
  "utf8_ok bs =
     (if bs = [] then True else let (ok, n) = utf8_step bs in if ok then utf8_ok (drop n bs) else False)"
  by pat_completeness auto
termination
proof (relation "measure length", goal_cases)
  case 1
  then show ?case by simp
next
  case (2 bs x ok n)
  then have "0 < n" using utf8_step_pos [of bs] by (metis snd_conv)
  then show ?case using 2(1) by (cases bs) auto
qed

declare utf8_ok.simps [simp del]

section \<open>Lemmas\<close>

lemma bytes_str_bytes [simp]: "bytes_str (str_bytes s) = s"
  by (simp add: bytes_str_def str_bytes_def comp_def unat_of_nat)

lemma str_bytes_str [simp]: "str_bytes (bytes_str bs) = bs"
proof -
  have "unat b mod 256 = unat b" for b :: byte
    using unsigned_less [of b, where ?'a = nat] by simp
  then show ?thesis by (simp add: bytes_str_def str_bytes_def comp_def)
qed

lemma lossy_id: "utf8_ok bs \<Longrightarrow> from_utf8_lossy bs = bs"
proof (induction bs rule: utf8_ok.induct)
  case (1 bs)
  show ?case
  proof (cases "bs = []")
    case True
    then show ?thesis by (simp add: from_utf8_lossy.simps)
  next
    case False
    obtain ok n where s: "utf8_step bs = (ok, n)" by (cases "utf8_step bs")
    have ok: "ok" "utf8_ok (drop n bs)"
      using 1(2) False s by (auto simp: utf8_ok.simps [of bs] split: if_splits)
    have "from_utf8_lossy (drop n bs) = drop n bs"
      by (rule 1(1) [OF False refl _ ok(1)]) (use s ok(2) in simp_all)
    then show ?thesis using False s ok(1) by (simp add: from_utf8_lossy.simps [of bs])
  qed
qed

lemma utf8_ok_ascii: "\<forall>b \<in> set bs. b < 0x80 \<Longrightarrow> utf8_ok bs"
proof (induction bs)
  case Nil
  then show ?case by (simp add: utf8_ok.simps)
next
  case (Cons b bs)
  then have "unat b < 128" by (simp add: word_less_unat)
  then have "utf8_step (b # bs) = (True, 1)" by (simp add: utf8_step_def)
  then show ?case using Cons by (simp add: utf8_ok.simps [of "b # bs"])
qed

end
