(* ===== verification/Snapshot.thy ===== *)
theory Snapshot
  imports Replication Utf8
begin

text \<open>
  The index snapshot \<open>index.snap\<close> of \<open>src/storage/mod.rs\<close>: the little-endian writer \<open>W\<close> and
  reader \<open>R\<close>, \<open>write_version\<close>, \<open>read_version\<close> and its predecessor format, the bytes written
  by \<open>checkpoint\<close> and their reading by \<open>load_snap\<close>.  A reader is a function on the unread
  bytes.  The main lemma is that loading a written snapshot restores the index, the
  tombstones, the policies, the metadata, the peer clocks and the log heads.
\<close>

section \<open>Definitions\<close>

definition SNAP_MAGIC :: bytes where
  "SNAP_MAGIC = str_bytes ''BMDBIDX2''"

definition SNAP_MAGIC_V1 :: bytes where
  "SNAP_MAGIC_V1 = str_bytes ''BMDBIDX1''"

subsection \<open>Writer\<close>

definition w_u8 :: "byte \<Rightarrow> bytes" where
  "w_u8 v = [v]"

definition w_u32 :: "nat \<Rightarrow> bytes" where
  "w_u32 n = u32_to_le (of_nat n)"

definition w_u64 :: "u64 \<Rightarrow> bytes" where
  "w_u64 v = u64_to_le v"

definition w_i64 :: "int \<Rightarrow> bytes" where
  "w_i64 v = u64_to_le (of_int v)"

definition w_bytes :: "bytes \<Rightarrow> bytes" where
  "w_bytes b = w_u32 (length b) @ b"

subsection \<open>Reader\<close>

type_synonym 'a rd = "bytes \<Rightarrow> (storage_error, 'a \<times> bytes) result"

definition rd_ret :: "'a \<Rightarrow> 'a rd" where
  "rd_ret x = (\<lambda>bs. Ok (x, bs))"

definition rd_fail :: "storage_error \<Rightarrow> 'a rd" where
  "rd_fail e = (\<lambda>bs. Err e)"

definition rd_bind :: "'a rd \<Rightarrow> ('a \<Rightarrow> 'b rd) \<Rightarrow> 'b rd" where
  "rd_bind p f = (\<lambda>bs. case p bs of Inl e \<Rightarrow> Err e | Inr (x, rest) \<Rightarrow> f x rest)"

definition rd_take :: "nat \<Rightarrow> bytes rd" where
  "rd_take n = (\<lambda>bs. if n > length bs then Err (Corrupt None ''snapshot truncated'')
                     else Ok (take n bs, drop n bs))"

definition rd_u8 :: "byte rd" where
  "rd_u8 = rd_bind (rd_take 1) (\<lambda>b. rd_ret (b ! 0))"

definition rd_u32 :: "nat rd" where
  "rd_u32 = rd_bind (rd_take 4) (\<lambda>b. rd_ret (unat (u32_from_le b)))"

definition rd_u64 :: "u64 rd" where
  "rd_u64 = rd_bind (rd_take 8) (\<lambda>b. rd_ret (u64_from_le b))"

definition rd_i64 :: "int rd" where
  "rd_i64 = rd_bind (rd_take 8) (\<lambda>b. rd_ret (sint (u64_from_le b)))"

definition rd_fixed32 :: "bytes rd" where
  "rd_fixed32 = rd_take 32"

definition rd_bytes :: "bytes rd" where
  "rd_bytes = rd_bind rd_u32 rd_take"

definition rd_str :: "string rd" where
  "rd_str = rd_bind rd_bytes (\<lambda>b. rd_ret (bytes_str (from_utf8_lossy b)))"

primrec rd_many :: "nat \<Rightarrow> 'a rd \<Rightarrow> 'a list rd" where
  "rd_many 0 p = rd_ret []"
| "rd_many (Suc n) p = rd_bind p (\<lambda>x. rd_bind (rd_many n p) (\<lambda>xs. rd_ret (x # xs)))"

definition rd_counted :: "'a rd \<Rightarrow> 'a list rd" where
  "rd_counted p = rd_bind rd_u32 (\<lambda>n. rd_many n p)"

subsection \<open>The snapshot\<close>

definition policy_to_u8 :: "conflict_policy \<Rightarrow> byte" where
  "policy_to_u8 p = (case p of PolicyLww \<Rightarrow> 0 | CrdtRegister \<Rightarrow> 1)"

definition policy_from_u8 :: "byte \<Rightarrow> (storage_error, conflict_policy) result" where
  "policy_from_u8 v =
     (if v = 0 then Ok PolicyLww else if v = 1 then Ok CrdtRegister
      else Err (Corrupt None ''bad policy byte''))"

definition write_version :: "version \<Rightarrow> bytes" where
  "write_version v =
     w_u64 (v_hlc v) @ v_replica v @ v_author v @ w_bytes (v_value v) @
     w_u64 (of_nat (v_seq v)) @ w_u64 (v_expires_at v)"

definition read_version_v1 :: "version rd" where
  "read_version_v1 =
     rd_bind rd_u64 (\<lambda>hlc. rd_bind rd_fixed32 (\<lambda>replica. rd_bind rd_fixed32 (\<lambda>author.
     rd_bind rd_bytes (\<lambda>val. rd_bind rd_u64 (\<lambda>sq.
     rd_ret (mk_version hlc replica author val (unat sq) 0))))))"

definition read_version :: "version rd" where
  "read_version =
     rd_bind rd_u64 (\<lambda>hlc. rd_bind rd_fixed32 (\<lambda>replica. rd_bind rd_fixed32 (\<lambda>author.
     rd_bind rd_bytes (\<lambda>val. rd_bind rd_u64 (\<lambda>sq. rd_bind rd_u64 (\<lambda>expires_at.
     rd_ret (mk_version hlc replica author val (unat sq) expires_at)))))))"

definition write_entry :: "entry \<Rightarrow> bytes" where
  "write_entry e =
     (case e of
        Lww v \<Rightarrow> w_u8 0 @ write_version v
      | Register vs \<Rightarrow> w_u8 1 @ w_u32 (length vs) @ concat (map write_version vs))"

definition read_entry :: "version rd \<Rightarrow> string \<Rightarrow> entry rd" where
  "read_entry read_v ns =
     rd_bind rd_u8 (\<lambda>tag.
       if tag = 0 then rd_bind read_v (\<lambda>v. rd_ret (Lww v))
       else if tag = 1 then rd_bind (rd_counted read_v) (\<lambda>vs. rd_ret (Register vs))
       else rd_fail (Corrupt (Some ns) ''bad entry tag''))"

definition store_head :: "store \<Rightarrow> namespace \<Rightarrow> (nat \<times> bytes) option" where
  "store_head st ns = map_option (\<lambda>l. (log_seq l, log_head l)) (bt_get (st_logs st) ns)"

definition head_or_zero :: "store \<Rightarrow> namespace \<Rightarrow> nat \<times> bytes" where
  "head_or_zero st ns = (case store_head st ns of Some x \<Rightarrow> x | None \<Rightarrow> (0, zero32))"

definition ns_entries :: "store \<Rightarrow> namespace \<Rightarrow> (key \<times> entry) list" where
  "ns_entries st ns =
     sort_key fst (map (\<lambda>((_, k), e). (k, e)) (filter (\<lambda>((n, _), _). n = ns) (st_index st)))"

definition ns_tombs :: "store \<Rightarrow> namespace \<Rightarrow> (key \<times> u64) list" where
  "ns_tombs st ns = map (\<lambda>((_, k), h). (k, h)) (filter (\<lambda>((n, _), _). n = ns) (st_tombs st))"

definition write_ns :: "store \<Rightarrow> namespace \<times> conflict_policy \<Rightarrow> bytes" where
  "write_ns st np =
     (let (ns, policy) = np;
          (sz, h) = head_or_zero st ns;
          entries = ns_entries st ns;
          tombs = ns_tombs st ns
      in w_bytes (str_bytes ns) @ w_u8 (policy_to_u8 policy) @ w_u64 (of_nat sz) @ h @
         w_u32 (length entries) @ concat (map (\<lambda>(k, e). w_bytes k @ write_entry e) entries) @
         w_u32 (length tombs) @ concat (map (\<lambda>(k, h). w_bytes k @ w_u64 h) tombs))"

definition snap_bytes :: "store \<Rightarrow> bytes" where
  "snap_bytes st =
     SNAP_MAGIC @ w_u64 (of_nat (st_revision st)) @
     w_u32 (length (st_meta st)) @ concat (map (\<lambda>(k, v). w_bytes (str_bytes k) @ w_bytes v) (st_meta st)) @
     w_u32 (length (st_peer_clocks st)) @
     concat (map (\<lambda>(n, diff). w_bytes (str_bytes n) @ w_i64 diff) (st_peer_clocks st)) @
     w_u32 (length (st_policies st)) @ concat (map (write_ns st) (st_policies st))"

text \<open>One namespace block as read back.\<close>

record ns_block =
  nb_ns :: namespace
  nb_policy :: conflict_policy
  nb_seq :: nat
  nb_hash :: bytes
  nb_entries :: "(key \<times> entry) list"
  nb_tombs :: "(key \<times> u64) list"

definition read_ns :: "version rd \<Rightarrow> ns_block rd" where
  "read_ns read_v =
     rd_bind rd_str (\<lambda>ns. rd_bind rd_u8 (\<lambda>pb.
     case policy_from_u8 pb of
       Inl e \<Rightarrow> rd_fail e
     | Inr policy \<Rightarrow>
         rd_bind rd_u64 (\<lambda>head_seq. rd_bind rd_fixed32 (\<lambda>head_hash.
         rd_bind (rd_counted (rd_bind rd_bytes (\<lambda>k. rd_bind (read_entry read_v ns) (\<lambda>e. rd_ret (k, e))))) (\<lambda>es.
         rd_bind (rd_counted (rd_bind rd_bytes (\<lambda>k. rd_bind rd_u64 (\<lambda>h. rd_ret (k, h))))) (\<lambda>ts.
         rd_ret \<lparr>nb_ns = ns, nb_policy = policy, nb_seq = unat head_seq, nb_hash = head_hash,
                 nb_entries = es, nb_tombs = ts\<rparr>))))))"

definition read_snap ::
  "version rd \<Rightarrow> (u64 \<times> (string \<times> bytes) list \<times> (string \<times> int) list \<times> ns_block list) rd" where
  "read_snap read_v =
     rd_bind rd_u64 (\<lambda>revision.
     rd_bind (rd_counted (rd_bind rd_bytes (\<lambda>k. rd_bind rd_bytes (\<lambda>v.
        rd_ret (bytes_str (from_utf8_lossy k), v))))) (\<lambda>metas.
     rd_bind (rd_counted (rd_bind rd_str (\<lambda>name. rd_bind rd_i64 (\<lambda>diff. rd_ret (name, diff))))) (\<lambda>pcs.
     rd_bind (rd_counted (read_ns read_v)) (\<lambda>nss.
     rd_ret (revision, metas, pcs, nss)))))"

definition add_block :: "ns_block \<Rightarrow> store \<Rightarrow> store" where
  "add_block b st =
     st\<lparr>st_index := fold (\<lambda>(k, e). bt_insert (nb_ns b, k) e) (nb_entries b) (st_index st),
        st_tombs := fold (\<lambda>(k, h). bt_insert (nb_ns b, k) h) (nb_tombs b) (st_tombs st),
        st_policies := bt_insert (nb_ns b) (nb_policy b) (st_policies st)\<rparr>"

type_synonym snap_info = "(namespace, nat \<times> bytes) btree"

definition load_snap :: "bytes \<Rightarrow> store \<Rightarrow> (storage_error, store \<times> snap_info) result" where
  "load_snap bs st =
     (if length bs < 8 then Err (Corrupt None ''index.snap too short'')
      else let v1 = (take 8 bs = SNAP_MAGIC_V1) in
        if \<not> v1 \<and> take 8 bs \<noteq> SNAP_MAGIC then Err (Corrupt None ''index.snap magic mismatch'')
        else (case read_snap (if v1 then read_version_v1 else read_version) (drop 8 bs) of
            Inl e \<Rightarrow> Err e
          | Inr ((revision, metas, pcs, nss), rest) \<Rightarrow>
              if rest \<noteq> [] then Err (Corrupt None ''trailing bytes in snapshot'')
              else Ok (fold add_block nss
                         (st\<lparr>st_revision := unat revision,
                             st_meta := fold (\<lambda>(k, v). bt_insert k v) metas (st_meta st),
                             st_peer_clocks := fold (\<lambda>(n, d). bt_insert n d) pcs (st_peer_clocks st)\<rparr>),
                       fold (\<lambda>b. bt_insert (nb_ns b) (nb_seq b, nb_hash b)) nss [])))"

text \<open>The store \<open>open_durable\<close> starts from.\<close>

definition empty_store :: "bool \<Rightarrow> store" where
  "empty_store durable = \<lparr>st_logs = [], st_policies = [], st_index = [], st_tombs = [], st_meta = [],
     st_peer_clocks = [], st_revision = 0, st_durable = durable, st_sec = Map.empty\<rparr>"

text \<open>\<open>p\<close> reads the value \<open>x\<close> off its encoding \<open>e\<close>, whatever follows.\<close>

definition reads :: "'a rd \<Rightarrow> bytes \<Rightarrow> 'a \<Rightarrow> bool" where
  "reads p e x = (\<forall>rest. p (e @ rest) = Ok (x, rest))"

text \<open>The sizes and names a snapshot can hold: what the widths of its fields and the type
  \<open>String\<close> guarantee.\<close>

definition version_ok :: "version \<Rightarrow> bool" where
  "version_ok v = (is32 (v_replica v) \<and> is32 (v_author v) \<and> length (v_value v) < 2 ^ 32 \<and>
                   v_seq v < 2 ^ 64)"

definition entry_sizes :: "entry \<Rightarrow> bool" where
  "entry_sizes e = (case e of Lww v \<Rightarrow> version_ok v
                    | Register vs \<Rightarrow> length vs < 2 ^ 32 \<and> (\<forall>v \<in> set vs. version_ok v))"

definition name_ok :: "string \<Rightarrow> bool" where
  "name_ok s = (length s < 2 ^ 32 \<and> utf8_ok (str_bytes s))"

definition snap_ok :: "store \<Rightarrow> bool" where
  "snap_ok st =
     (state_inv st \<and> st_revision st < 2 ^ 64 \<and>
      length (st_meta st) < 2 ^ 32 \<and> (\<forall>(k, v) \<in> set (st_meta st). name_ok k \<and> length v < 2 ^ 32) \<and>
      length (st_peer_clocks st) < 2 ^ 32 \<and>
      (\<forall>(n, d) \<in> set (st_peer_clocks st). name_ok n \<and> - (2 ^ 63) \<le> d \<and> d < 2 ^ 63) \<and>
      length (st_policies st) < 2 ^ 32 \<and> (\<forall>ns \<in> set (bt_keys (st_policies st)). name_ok ns) \<and>
      length (st_index st) < 2 ^ 32 \<and>
      (\<forall>((n, k), e) \<in> set (st_index st). length k < 2 ^ 32 \<and> entry_sizes e) \<and>
      length (st_tombs st) < 2 ^ 32 \<and>
      (\<forall>((n, k), h) \<in> set (st_tombs st). length k < 2 ^ 32 \<and> bt_contains n (st_policies st)) \<and>
      (\<forall>(ns, l) \<in> set (st_logs st). log_seq l < 2 ^ 64 \<and> is32 (log_head l)))"

definition block_of :: "store \<Rightarrow> namespace \<times> conflict_policy \<Rightarrow> ns_block" where
  "block_of st np =
     (let (ns, policy) = np;
          (sz, h) = head_or_zero st ns
      in \<lparr>nb_ns = ns, nb_policy = policy, nb_seq = sz, nb_hash = h,
          nb_entries = ns_entries st ns, nb_tombs = ns_tombs st ns\<rparr>)"

section \<open>Reading what was written\<close>

named_theorems reads_intros \<open>readers of encoded values\<close>

lemma reads_ret: "reads (rd_ret x) [] x"
  by (simp add: reads_def rd_ret_def)

lemma reads_bind: "reads p e x \<Longrightarrow> reads (f x) e' y \<Longrightarrow> reads (rd_bind p f) (e @ e') y"
  by (simp add: reads_def rd_bind_def)

lemma reads_bind_ret: "reads p e x \<Longrightarrow> f x = rd_ret y \<Longrightarrow> reads (rd_bind p f) e y"
  using reads_bind [of p e x f "[]" y] by (simp add: reads_ret)

lemma reads_take: "length b = n \<Longrightarrow> reads (rd_take n) b b"
  by (simp add: reads_def rd_take_def)

lemma reads_u8 [reads_intros]: "reads rd_u8 (w_u8 v) v"
  unfolding rd_u8_def w_u8_def by (rule reads_bind_ret [OF reads_take]) simp_all

lemma reads_u32 [reads_intros]: "n < 2 ^ 32 \<Longrightarrow> reads rd_u32 (w_u32 n) n"
  unfolding rd_u32_def w_u32_def
  by (rule reads_bind_ret [OF reads_take]) (simp_all add: unat_of_nat_u32)

lemma reads_u64 [reads_intros]: "reads rd_u64 (w_u64 v) v"
  unfolding rd_u64_def w_u64_def by (rule reads_bind_ret [OF reads_take]) simp_all

lemma reads_i64 [reads_intros]:
  assumes "- (2 ^ 63) \<le> d" "d < 2 ^ 63"
  shows "reads rd_i64 (w_i64 d) d"
proof -
  have "sint (of_int d :: u64) = d"
    using assms by (simp add: signed_of_int signed_take_bit_int_eq_self)
  then show ?thesis
    unfolding rd_i64_def w_i64_def by (intro reads_bind_ret [OF reads_take]) simp_all
qed

lemma reads_fixed32 [reads_intros]: "is32 b \<Longrightarrow> reads rd_fixed32 b b"
  unfolding rd_fixed32_def by (rule reads_take) (simp add: is32_def)

lemma reads_bytes [reads_intros]: "length b < 2 ^ 32 \<Longrightarrow> reads rd_bytes (w_bytes b) b"
  unfolding rd_bytes_def w_bytes_def by (rule reads_bind [OF reads_u32 reads_take]) simp_all

lemma reads_str [reads_intros]: "name_ok s \<Longrightarrow> reads rd_str (w_bytes (str_bytes s)) s"
  unfolding rd_str_def name_ok_def
  by (rule reads_bind_ret [OF reads_bytes]) (simp_all add: lossy_id)

lemma reads_many:
  assumes "\<And>x. x \<in> set xs \<Longrightarrow> reads p (enc x) (f x)"
  shows "reads (rd_many (length xs) p) (concat (map enc xs)) (map f xs)"
  using assms
proof (induction xs)
  case Nil
  then show ?case by (simp add: reads_ret)
next
  case (Cons x xs)
  have "reads (rd_many (length xs) p) (concat (map enc xs)) (map f xs)" using Cons by simp
  then have "reads (rd_bind (rd_many (length xs) p) (\<lambda>xs. rd_ret (f x # xs)))
      (concat (map enc xs)) (f x # map f xs)"
    by (rule reads_bind_ret) simp
  with Cons(2) show ?case by (auto intro: reads_bind)
qed

lemma reads_counted_map:
  assumes "length xs < 2 ^ 32" "\<And>x. x \<in> set xs \<Longrightarrow> reads p (enc x) (f x)"
  shows "reads (rd_counted p) (w_u32 (length xs) @ concat (map enc xs)) (map f xs)"
proof -
  have "reads (rd_many (length xs) p) (concat (map enc xs)) (map f xs)" using assms(2) by (rule reads_many)
  with reads_u32 [OF assms(1)] show ?thesis unfolding rd_counted_def by (rule reads_bind)
qed

lemma reads_counted [reads_intros]:
  assumes "length xs < 2 ^ 32" "\<And>x. x \<in> set xs \<Longrightarrow> reads p (enc x) x"
  shows "reads (rd_counted p) (w_u32 (length xs) @ concat (map enc xs)) xs"
  using reads_counted_map [OF assms(1), of p enc "\<lambda>x. x"] assms(2) by simp

lemma reads_pair:
  assumes "reads p e x" "reads q e' y"
  shows "reads (rd_bind p (\<lambda>x. rd_bind q (\<lambda>y. rd_ret (x, y)))) (e @ e') (x, y)"
  by (rule reads_bind [OF assms(1)]) (rule reads_bind_ret [OF assms(2)], simp)

lemma reads_version:
  assumes "version_ok v"
  shows "reads read_version (write_version v) v"
proof -
  have v: "is32 (v_replica v)" "is32 (v_author v)" "length (v_value v) < 2 ^ 32"
    "unat (of_nat (v_seq v) :: u64) = v_seq v"
    using assms by (auto simp: version_ok_def unat_of_nat_u64)
  show ?thesis
    unfolding read_version_def write_version_def
    by (rule reads_bind [OF reads_u64], rule reads_bind [OF reads_fixed32 [OF v(1)]],
        rule reads_bind [OF reads_fixed32 [OF v(2)]], rule reads_bind [OF reads_bytes [OF v(3)]],
        rule reads_bind [OF reads_u64], rule reads_bind_ret [OF reads_u64])
       (use v(4) in \<open>cases v; simp add: mk_version_def\<close>)
qed

lemma reads_entry:
  assumes "entry_sizes e"
  shows "reads (read_entry read_version ns) (write_entry e) e"
proof (cases e)
  case (Lww v)
  have "reads (rd_bind read_version (\<lambda>v. rd_ret (Lww v))) (write_version v) e"
    by (rule reads_bind_ret [OF reads_version]) (use assms in \<open>simp_all add: Lww entry_sizes_def\<close>)
  then show ?thesis
    unfolding read_entry_def write_entry_def by (auto simp: Lww intro!: reads_bind [OF reads_u8])
next
  case (Register vs)
  have "reads (rd_bind (rd_counted read_version) (\<lambda>vs. rd_ret (Register vs)))
      (w_u32 (length vs) @ concat (map write_version vs)) e"
    by (rule reads_bind_ret [OF reads_counted [OF _ reads_version]])
       (use assms in \<open>simp_all add: Register entry_sizes_def\<close>)
  then show ?thesis
    unfolding read_entry_def write_entry_def by (auto simp: Register intro!: reads_bind [OF reads_u8])
qed

section \<open>The whole snapshot\<close>

lemma set_ns_entries: "(k, e) \<in> set (ns_entries st ns) \<longleftrightarrow> ((ns, k), e) \<in> set (st_index st)"
  by (force simp: ns_entries_def image_iff)

lemma set_ns_tombs: "(k, h) \<in> set (ns_tombs st ns) \<longleftrightarrow> ((ns, k), h) \<in> set (st_tombs st)"
  by (force simp: ns_tombs_def image_iff)

lemma length_ns:
  "length (ns_entries st ns) \<le> length (st_index st)" "length (ns_tombs st ns) \<le> length (st_tombs st)"
  by (simp_all add: ns_entries_def ns_tombs_def)

lemma snap_okD:
  assumes "snap_ok st"
  shows "state_inv st" "st_revision st < 2 ^ 64" "length (st_meta st) < 2 ^ 32"
    "\<And>k v. (k, v) \<in> set (st_meta st) \<Longrightarrow> name_ok k \<and> length v < 2 ^ 32"
    "length (st_peer_clocks st) < 2 ^ 32"
    "\<And>n d. (n, d) \<in> set (st_peer_clocks st) \<Longrightarrow> name_ok n \<and> - (2 ^ 63) \<le> d \<and> d < 2 ^ 63"
    "length (st_policies st) < 2 ^ 32" "\<And>ns p. (ns, p) \<in> set (st_policies st) \<Longrightarrow> name_ok ns"
    "length (st_index st) < 2 ^ 32"
    "\<And>n k e. ((n, k), e) \<in> set (st_index st) \<Longrightarrow> length k < 2 ^ 32 \<and> entry_sizes e"
    "length (st_tombs st) < 2 ^ 32"
    "\<And>n k h. ((n, k), h) \<in> set (st_tombs st) \<Longrightarrow> length k < 2 ^ 32 \<and> bt_contains n (st_policies st)"
    "\<And>ns l. (ns, l) \<in> set (st_logs st) \<Longrightarrow> log_seq l < 2 ^ 64 \<and> is32 (log_head l)"
  using assms by (force simp: snap_ok_def bt_keys_def)+

lemma policy_from_to [simp]: "policy_from_u8 (policy_to_u8 p) = Ok p"
  by (cases p) (simp_all add: policy_from_u8_def policy_to_u8_def)

lemma store_head_ok:
  assumes "snap_ok st" "(sz, h) = head_or_zero st ns"
  shows "sz < 2 ^ 64" "is32 h"
  using assms(2) snap_okD(13) [OF assms(1)]
  by (auto simp: head_or_zero_def store_head_def split: option.splits dest!: bt_get_Some_in)

lemma reads_ns:
  assumes "snap_ok st" "np \<in> set (st_policies st)"
  shows "reads (read_ns read_version) (write_ns st np) (block_of st np)"
proof -
  obtain ns p where np: "np = (ns, p)" by (cases np)
  obtain sz h where head: "head_or_zero st ns = (sz, h)"
    by fastforce
  note d = snap_okD [OF assms(1)]
  have sz: "unat (of_nat sz :: u64) = sz" and h: "is32 h"
    using store_head_ok [OF assms(1) head [symmetric]] by (simp_all add: unat_of_nat_u64)
  have le: "length (ns_entries st ns) < 2 ^ 32" "length (ns_tombs st ns) < 2 ^ 32"
    using length_ns [of st ns] d(9,11) by auto
  have es: "reads (rd_counted (rd_bind rd_bytes (\<lambda>k. rd_bind (read_entry read_version ns) (\<lambda>e. rd_ret (k, e)))))
      (w_u32 (length (ns_entries st ns)) @
       concat (map (\<lambda>(k, e). w_bytes k @ write_entry e) (ns_entries st ns))) (ns_entries st ns)"
    by (rule reads_counted [OF le(1)])
       (use d(10) in \<open>auto simp: set_ns_entries intro!: reads_pair reads_bytes reads_entry\<close>)
  have ts: "reads (rd_counted (rd_bind rd_bytes (\<lambda>k. rd_bind rd_u64 (\<lambda>h. rd_ret (k, h)))))
      (w_u32 (length (ns_tombs st ns)) @ concat (map (\<lambda>(k, h). w_bytes k @ w_u64 h) (ns_tombs st ns)))
      (ns_tombs st ns)"
    by (rule reads_counted [OF le(2)])
       (use d(12) in \<open>auto simp: set_ns_tombs intro!: reads_pair reads_bytes reads_u64\<close>)
  have name: "name_ok ns" using d(8) assms(2) by (simp add: np)
  have "reads (read_ns read_version)
      (w_bytes (str_bytes ns) @ w_u8 (policy_to_u8 p) @ w_u64 (of_nat sz) @ h @
       (w_u32 (length (ns_entries st ns)) @
         concat (map (\<lambda>(k, e). w_bytes k @ write_entry e) (ns_entries st ns))) @
       (w_u32 (length (ns_tombs st ns)) @ concat (map (\<lambda>(k, h). w_bytes k @ w_u64 h) (ns_tombs st ns))))
      (block_of st np)"
    unfolding read_ns_def
    by (rule reads_bind [OF reads_str [OF name]], rule reads_bind [OF reads_u8],
        simp only: policy_from_to sum.case, rule reads_bind [OF reads_u64], rule reads_bind [OF reads_fixed32 [OF h]],
        rule reads_bind [OF es], rule reads_bind_ret [OF ts])
       (simp add: block_of_def np head sz)
  then show ?thesis by (simp add: write_ns_def np head Let_def)
qed

lemma reads_snap:
  assumes "snap_ok st"
  shows "reads (read_snap read_version) (drop 8 (snap_bytes st))
    (of_nat (st_revision st), st_meta st, st_peer_clocks st, map (block_of st) (st_policies st))"
proof -
  note d = snap_okD [OF assms]
  have meta: "reads (rd_counted (rd_bind rd_bytes (\<lambda>k. rd_bind rd_bytes (\<lambda>v.
        rd_ret (bytes_str (from_utf8_lossy k), v)))))
      (w_u32 (length (st_meta st)) @ concat (map (\<lambda>(k, v). w_bytes (str_bytes k) @ w_bytes v) (st_meta st)))
      (st_meta st)"
  proof (rule reads_counted [OF d(3)], clarsimp)
    fix k v assume "(k, v) \<in> set (st_meta st)"
    then have *: "utf8_ok (str_bytes k)" "length (str_bytes k) < 2 ^ 32" "length v < 2 ^ 32"
      using d(4) [of k v] by (auto simp: name_ok_def)
    show "reads (rd_bind rd_bytes (\<lambda>k. rd_bind rd_bytes (\<lambda>v. rd_ret (bytes_str (from_utf8_lossy k), v))))
        (w_bytes (str_bytes k) @ w_bytes v) (k, v)"
      by (rule reads_bind [OF reads_bytes [OF *(2)]], rule reads_bind_ret [OF reads_bytes [OF *(3)]])
         (simp add: lossy_id [OF *(1)])
  qed
  have pcs: "reads (rd_counted (rd_bind rd_str (\<lambda>name. rd_bind rd_i64 (\<lambda>diff. rd_ret (name, diff)))))
      (w_u32 (length (st_peer_clocks st)) @
       concat (map (\<lambda>(n, diff). w_bytes (str_bytes n) @ w_i64 diff) (st_peer_clocks st))) (st_peer_clocks st)"
    by (rule reads_counted [OF d(5)]) (use d(6) in \<open>auto intro!: reads_pair reads_str reads_i64\<close>)
  have nss: "reads (rd_counted (read_ns read_version))
      (w_u32 (length (st_policies st)) @ concat (map (write_ns st) (st_policies st)))
      (map (block_of st) (st_policies st))"
    by (rule reads_counted_map [OF d(7) reads_ns [OF assms]])
  have "reads (read_snap read_version)
      (w_u64 (of_nat (st_revision st)) @
       (w_u32 (length (st_meta st)) @ concat (map (\<lambda>(k, v). w_bytes (str_bytes k) @ w_bytes v) (st_meta st))) @
       (w_u32 (length (st_peer_clocks st)) @
        concat (map (\<lambda>(n, diff). w_bytes (str_bytes n) @ w_i64 diff) (st_peer_clocks st))) @
       (w_u32 (length (st_policies st)) @ concat (map (write_ns st) (st_policies st))))
      (of_nat (st_revision st), st_meta st, st_peer_clocks st, map (block_of st) (st_policies st))"
    unfolding read_snap_def
    by (rule reads_bind [OF reads_u64], rule reads_bind [OF meta], rule reads_bind [OF pcs],
        rule reads_bind_ret [OF nss], rule refl)
  then show ?thesis by (simp add: snap_bytes_def SNAP_MAGIC_def)
qed

lemma fold_insert_get:
  assumes "bt_inv t"
  shows "bt_inv (fold (\<lambda>(k, v). bt_insert k v) xs t)"
    and "bt_get (fold (\<lambda>(k, v). bt_insert k v) xs t) = bt_get t ++ map_of (rev xs)"
proof -
  have "bt_inv (fold (\<lambda>(k, v). bt_insert k v) xs t) \<and>
      bt_get (fold (\<lambda>(k, v). bt_insert k v) xs t) = bt_get t ++ map_of (rev xs)"
    using assms
  proof (induction xs arbitrary: t)
    case Nil
    then show ?case by simp
  next
    case (Cons x xs)
    obtain k v where x: "x = (k, v)" by (cases x)
    have "bt_get (bt_insert k v t) = (bt_get t)(k \<mapsto> v)"
      using Cons(2) by (intro ext) (simp add: bt_get_insert)
    then show ?case using Cons by (simp add: x fun_eq_iff map_add_def split: option.splits)
  qed
  then show "bt_inv (fold (\<lambda>(k, v). bt_insert k v) xs t)"
    and "bt_get (fold (\<lambda>(k, v). bt_insert k v) xs t) = bt_get t ++ map_of (rev xs)" by auto
qed

text \<open>Inserting the entries of a map in any order rebuilds it.\<close>

lemma fold_insert_rebuild:
  assumes "bt_inv t" "set xs = set t"
  shows "fold (\<lambda>(k, v). bt_insert k v) xs [] = t"
proof (rule bt.entries_unique)
  have "map_of (rev xs) k = bt_get t k" for k
  proof (cases "map_of (rev xs) k")
    case None
    then have "k \<notin> fst ` set t" using assms(2) by (simp add: map_of_eq_None_iff)
    then show ?thesis using None by (simp add: bt_get_not_key)
  next
    case (Some v)
    then have "(k, v) \<in> set (rev xs)" by (rule map_of_SomeD)
    then have "bt_get t k = Some v" using assms(2) bt_get_iff [OF assms(1), of k v] by simp
    then show ?thesis using Some by simp
  qed
  then show "bt_get (fold (\<lambda>(k, v). bt_insert k v) xs []) = bt_get t"
    by (intro ext) (simp add: fold_insert_get map_add_def split: option.splits)
  show "bt_inv (fold (\<lambda>(k, v). bt_insert k v) xs [])" by (rule fold_insert_get) simp
qed (rule assms(1))

lemma fold_add_block:
  "st_index (fold add_block bs st) =
     fold (\<lambda>(k, v). bt_insert k v) (concat (map (\<lambda>b. map (\<lambda>(k, e). ((nb_ns b, k), e)) (nb_entries b)) bs)) (st_index st)"
  "st_tombs (fold add_block bs st) =
     fold (\<lambda>(k, v). bt_insert k v) (concat (map (\<lambda>b. map (\<lambda>(k, e). ((nb_ns b, k), e)) (nb_tombs b)) bs)) (st_tombs st)"
  "st_policies (fold add_block bs st) =
     fold (\<lambda>(k, v). bt_insert k v) (map (\<lambda>b. (nb_ns b, nb_policy b)) bs) (st_policies st)"
  "fold add_block bs st =
     st\<lparr>st_index := st_index (fold add_block bs st), st_tombs := st_tombs (fold add_block bs st),
        st_policies := st_policies (fold add_block bs st)\<rparr>"
  by (induction bs arbitrary: st) (auto simp: add_block_def fold_map comp_def case_prod_unfold)

lemma set_blocks_entries:
  assumes "snap_ok st"
  shows "set (concat (map (\<lambda>b. map (\<lambda>(k, e). ((nb_ns b, k), e)) (nb_entries b))
      (map (block_of st) (st_policies st)))) = set (st_index st)"
proof -
  have pol: "\<exists>p. (n, p) \<in> set (st_policies st)" if "((n, k), e) \<in> set (st_index st)" for n k e
  proof -
    have "bt_get (st_index st) (n, k) = Some e"
      using that bt_get_iff [OF state_invD(2)] snap_okD(1) [OF assms] by blast
    then obtain p where "bt_get (st_policies st) n = Some p"
      using snap_okD(1) [OF assms] unfolding state_inv_def by blast
    then show ?thesis by (blast dest: bt_get_Some_in)
  qed
  have b: "nb_ns (block_of st np) = fst np" "nb_entries (block_of st np) = ns_entries st (fst np)" for np
    by (auto simp: block_of_def Let_def split: prod.splits)
  show ?thesis using pol by (force simp: b set_ns_entries)
qed

lemma set_blocks_tombs:
  assumes "snap_ok st"
  shows "set (concat (map (\<lambda>b. map (\<lambda>(k, e). ((nb_ns b, k), e)) (nb_tombs b))
      (map (block_of st) (st_policies st)))) = set (st_tombs st)"
proof -
  have pol: "\<exists>p. (n, p) \<in> set (st_policies st)" if "((n, k), h) \<in> set (st_tombs st)" for n k h
    using snap_okD(12) [OF assms that] by (auto simp: bt_contains_def dest!: bt_get_Some_in)
  have b: "nb_ns (block_of st np) = fst np" "nb_tombs (block_of st np) = ns_tombs st (fst np)" for np
    by (auto simp: block_of_def Let_def split: prod.splits)
  show ?thesis using pol by (force simp: b set_ns_tombs)
qed

lemma fold_blocks:
  assumes "snap_ok st" "st_index base = []" "st_tombs base = []" "st_policies base = []"
  shows "fold add_block (map (block_of st) (st_policies st)) base =
    base\<lparr>st_index := st_index st, st_tombs := st_tombs st, st_policies := st_policies st\<rparr>"
proof -
  let ?bs = "map (block_of st) (st_policies st)"
  note d = snap_okD(1) [OF assms(1)]
  have i: "st_index (fold add_block ?bs base) = st_index st"
    unfolding fold_add_block(1) assms(2)
    by (rule fold_insert_rebuild [OF state_invD(2) [OF d] set_blocks_entries [OF assms(1)]])
  have t: "st_tombs (fold add_block ?bs base) = st_tombs st"
    unfolding fold_add_block(2) assms(3)
    by (rule fold_insert_rebuild [OF state_invD(3) [OF d] set_blocks_tombs [OF assms(1)]])
  have "map (\<lambda>b. (nb_ns b, nb_policy b)) ?bs = st_policies st"
    by (auto simp: block_of_def Let_def intro!: map_idI split: prod.splits)
  then have p: "st_policies (fold add_block ?bs base) = st_policies st"
    unfolding fold_add_block(3) assms(4)
    using fold_insert_rebuild [OF state_invD(1) [OF d]] by simp
  show ?thesis using fold_add_block(4) [of ?bs base] i t p by simp
qed

lemma fold_heads:
  assumes "bt_inv (st_policies st)"
  shows "fold (\<lambda>b. bt_insert (nb_ns b) (nb_seq b, nb_hash b)) (map (block_of st) (st_policies st)) [] =
    map (\<lambda>(ns, p). (ns, head_or_zero st ns)) (st_policies st)"
proof -
  have h: "(\<lambda>b. bt_insert (nb_ns b) (nb_seq b, nb_hash b)) (block_of st np) =
      (\<lambda>(k, v). bt_insert k v) (fst np, head_or_zero st (fst np))" for np
    by (auto simp: block_of_def Let_def split: prod.splits)
  have "fold (\<lambda>b. bt_insert (nb_ns b) (nb_seq b, nb_hash b)) (map (block_of st) (st_policies st)) [] =
      fold (\<lambda>(k, v). bt_insert k v) (map (\<lambda>(ns, p). (ns, head_or_zero st ns)) (st_policies st)) []"
    by (simp add: fold_map comp_def h case_prod_unfold)
  also have "\<dots> = map (\<lambda>(ns, p). (ns, head_or_zero st ns)) (st_policies st)"
  proof (rule fold_insert_rebuild [OF _ refl])
    have "map fst (map (\<lambda>(ns, p). (ns, head_or_zero st ns)) (st_policies st)) = map fst (st_policies st)"
      by (simp add: case_prod_unfold comp_def)
    then show "bt_inv (map (\<lambda>(ns, p). (ns, head_or_zero st ns)) (st_policies st))"
      using assms by (simp only: bt_inv_def)
  qed
  finally show ?thesis .
qed

section \<open>Properties\<close>

lemma load_snap_snap_bytes:
  assumes "snap_ok st"
  shows "load_snap (snap_bytes st) (empty_store durable) =
    Ok ((empty_store durable)\<lparr>st_revision := st_revision st, st_meta := st_meta st,
          st_peer_clocks := st_peer_clocks st, st_policies := st_policies st,
          st_index := st_index st, st_tombs := st_tombs st\<rparr>,
        map (\<lambda>(ns, p). (ns, head_or_zero st ns)) (st_policies st))"
proof -
  note d = snap_okD [OF assms]
  have r: "read_snap read_version (drop 8 (snap_bytes st)) = Ok ((of_nat (st_revision st), st_meta st,
      st_peer_clocks st, map (block_of st) (st_policies st)), [])"
    using reads_snap [OF assms] unfolding reads_def by (metis append_Nil2)
  have m: "take 8 (snap_bytes st) = SNAP_MAGIC" "\<not> length (snap_bytes st) < 8"
    by (simp_all add: snap_bytes_def SNAP_MAGIC_def)
  have v: "SNAP_MAGIC \<noteq> SNAP_MAGIC_V1" by (simp add: SNAP_MAGIC_def SNAP_MAGIC_V1_def)
  have meta: "fold (\<lambda>(k, v). bt_insert k v) (st_meta st) [] = st_meta st"
    "fold (\<lambda>(n, d). bt_insert n d) (st_peer_clocks st) [] = st_peer_clocks st"
    using fold_insert_rebuild state_invD(4,6) [OF d(1)] by blast+
  show ?thesis
    using d(2) by (simp add: load_snap_def Let_def m v r meta empty_store_def fold_blocks [OF assms]
        fold_heads [OF state_invD(1) [OF d(1)]] unat_of_nat_u64)
qed

text \<open>A checkpoint restores everything it covers: loading the bytes of a snapshot into an
  empty store yields the revision, metadata, peer clocks, policies, index and tombstones
  of the store that wrote it, and the sequence number and head of every namespace log.\<close>

theorem snapshot_roundtrip:
  assumes "snap_ok st"
  shows "load_snap (snap_bytes st) (empty_store durable) =
    Ok ((empty_store durable)\<lparr>st_revision := st_revision st, st_meta := st_meta st,
          st_peer_clocks := st_peer_clocks st, st_policies := st_policies st,
          st_index := st_index st, st_tombs := st_tombs st\<rparr>,
        map (\<lambda>(ns, p). (ns, head_or_zero st ns)) (st_policies st))"
  by (rule load_snap_snap_bytes [OF assms])

theorem snapshot_roundtrip_witness:
  "load_snap (snap_bytes (demo_store CrdtRegister)) (empty_store True) =
    Ok ((empty_store True)\<lparr>st_revision := st_revision (demo_store CrdtRegister),
          st_meta := st_meta (demo_store CrdtRegister),
          st_peer_clocks := st_peer_clocks (demo_store CrdtRegister),
          st_policies := st_policies (demo_store CrdtRegister),
          st_index := st_index (demo_store CrdtRegister), st_tombs := st_tombs (demo_store CrdtRegister)\<rparr>,
        map (\<lambda>(ns, p). (ns, head_or_zero (demo_store CrdtRegister) ns)) (st_policies (demo_store CrdtRegister)))"
proof (rule snapshot_roundtrip)
  have "utf8_ok (str_bytes ''n'')" by (rule utf8_ok_ascii) (simp add: str_bytes_def)
  then show "snap_ok (demo_store CrdtRegister)"
    using demo_store_ok(1) [of CrdtRegister]
    by (simp add: snap_ok_def name_ok_def demo_store_def bt_keys_def)
qed

end
