(* ===== verification/Names.thy ===== *)
theory Names
  imports Replication Utf8
begin

text \<open>
  Namespace names and their directories (\<open>valid_ns\<close>, \<open>ns_dir\<close>, \<open>parse_ns_dir\<close> of
  \<open>src/storage/mod.rs\<close>).  A directory name is the length of the hex text in hexadecimal, an
  underscore, and the hex text of the name.  The lemmas show that the directory determines
  the namespace.
\<close>

section \<open>Definitions\<close>

definition is_digit :: "char \<Rightarrow> bool" where
  "is_digit c = (let n = of_char c :: nat in 48 \<le> n \<and> n \<le> 57)"

definition is_lower :: "char \<Rightarrow> bool" where
  "is_lower c = (let n = of_char c :: nat in 97 \<le> n \<and> n \<le> 122)"

definition is_hexdigit :: "char \<Rightarrow> bool" where
  "is_hexdigit c = (let n = of_char c :: nat in
     (48 \<le> n \<and> n \<le> 57) \<or> (97 \<le> n \<and> n \<le> 102) \<or> (65 \<le> n \<and> n \<le> 70))"

definition valid_ns :: "string \<Rightarrow> bool" where
  "valid_ns name =
     ((name \<noteq> [] \<and> length name \<le> 64 \<and>
       list_all (\<lambda>c. is_lower c \<or> is_digit c \<or> c = CHR ''.'' \<or> c = CHR ''_'' \<or> c = CHR ''-'') name) \<or>
      (take 2 name = ''u/'' \<and> length (drop 2 name) = 64 \<and> list_all is_hexdigit (drop 2 name)))"

text \<open>The format \<open>{:x}\<close> and \<open>usize::from_str_radix(_, 16)\<close>.\<close>

fun hex_of_nat :: "nat \<Rightarrow> string" where
  "hex_of_nat n = (if n < 16 then [hex_char n] else hex_of_nat (n div 16) @ [hex_char (n mod 16)])"

declare hex_of_nat.simps [simp del]

definition radix_digits :: "string \<Rightarrow> nat option" where
  "radix_digits s =
     foldl (\<lambda>acc c. case acc of None \<Rightarrow> None
              | Some a \<Rightarrow> (case hex_val c of None \<Rightarrow> None
                          | Some d \<Rightarrow> if a * 16 + d < 2 ^ 64 then Some (a * 16 + d) else None))
       (Some 0) s"

definition from_str_radix16 :: "string \<Rightarrow> nat option" where
  "from_str_radix16 s =
     (if s = [] \<or> s = ''+'' then None
      else radix_digits (if s ! 0 = CHR ''+'' then drop 1 s else s))"

definition ns_dir :: "extern \<Rightarrow> namespace \<Rightarrow> string" where
  "ns_dir ext ns = hex_of_nat (length ns * 2) @ ''_'' @ hex_enc ext (str_bytes ns)"

definition parse_ns_dir :: "extern \<Rightarrow> string \<Rightarrow> namespace option" where
  "parse_ns_dir ext name =
     (if CHR ''_'' \<notin> set name then None
      else let len_s = takeWhile (\<lambda>c. c \<noteq> CHR ''_'') name;
               rest = drop (length len_s + 1) name
      in case from_str_radix16 len_s of
           None \<Rightarrow> None
         | Some hexlen \<Rightarrow>
             if \<not> list_all is_hexdigit len_s then None
             else if length rest \<noteq> hexlen \<or> \<not> list_all is_hexdigit rest then None
             else (case hex_dec ext rest of
                     None \<Rightarrow> None
                   | Some decoded \<Rightarrow>
                       if utf8_ok decoded \<and> valid_ns (bytes_str decoded)
                       then Some (bytes_str decoded) else None))"

text \<open>What the \<open>hex\<close> crate promises: two hexadecimal digits per byte, and decoding inverts
  encoding.\<close>

definition hex_ok :: "extern \<Rightarrow> bool" where
  "hex_ok ext = (\<forall>b. hex_dec ext (hex_enc ext b) = Some b \<and> length (hex_enc ext b) = 2 * length b \<and>
                     list_all is_hexdigit (hex_enc ext b))"

section \<open>Lemmas\<close>

lemma hex_char_props:
  assumes "d < 16"
  shows "hex_val (hex_char d) = Some d" "is_hexdigit (hex_char d)" "hex_char d \<noteq> CHR ''_''"
    "hex_char d \<noteq> CHR ''+''"
proof -
  have o: "(of_char (hex_char d) :: nat) = (if d < 10 then 48 + d else 87 + d)"
    using assms by (simp add: hex_char_def)
  show "hex_val (hex_char d) = Some d" "is_hexdigit (hex_char d)"
    using assms by (auto simp: hex_val_def is_hexdigit_def Let_def o)
  have "(of_char (hex_char d) :: nat) \<noteq> of_char (CHR ''_'')" "(of_char (hex_char d) :: nat) \<noteq> of_char (CHR ''+'')"
    using assms by (simp_all add: o)
  then show "hex_char d \<noteq> CHR ''_''" "hex_char d \<noteq> CHR ''+''"
    by metis+
qed

lemma radix_digits_snoc:
  "radix_digits (s @ [c]) = (case radix_digits s of None \<Rightarrow> None
     | Some a \<Rightarrow> (case hex_val c of None \<Rightarrow> None
                 | Some d \<Rightarrow> if a * 16 + d < 2 ^ 64 then Some (a * 16 + d) else None))"
  by (simp add: radix_digits_def)

lemma hex_of_nat_props:
  assumes "n < 2 ^ 64"
  shows "radix_digits (hex_of_nat n) = Some n \<and> list_all is_hexdigit (hex_of_nat n) \<and>
    CHR ''_'' \<notin> set (hex_of_nat n) \<and> hex_of_nat n \<noteq> [] \<and> hex_of_nat n ! 0 \<noteq> CHR ''+''"
  using assms
proof (induction n rule: hex_of_nat.induct)
  case (1 n)
  show ?case
  proof (cases "n < 16")
    case True
    then show ?thesis
      using hex_char_props [OF True] 1(2)
      by (subst (1 2 3 4 5) hex_of_nat.simps) (auto simp: radix_digits_def)
  next
    case False
    have d: "n mod 16 < 16" "n div 16 < 2 ^ 64" using 1(2) by auto
    note ih = 1(1) [OF False d(2)]
    have e: "hex_of_nat n = hex_of_nat (n div 16) @ [hex_char (n mod 16)]"
      using False by (subst hex_of_nat.simps) simp
    have "n div 16 * 16 + n mod 16 = n" by simp
    then show ?thesis
      unfolding e radix_digits_snoc using ih hex_char_props [OF d(1)] 1(2)
      by (auto simp: nth_append)
  qed
qed

lemma from_str_radix_hex:
  assumes "n < 2 ^ 64"
  shows "from_str_radix16 (hex_of_nat n) = Some n"
  using hex_of_nat_props [OF assms] by (auto simp: from_str_radix16_def)

lemma valid_ns_ascii: "valid_ns ns \<Longrightarrow> c \<in> set ns \<Longrightarrow> (of_char c :: nat) < 128"
proof -
  assume v: "valid_ns ns" and c: "c \<in> set ns"
  have hexd: "(of_char d :: nat) < 128" if "is_hexdigit d" for d
    using that by (auto simp: is_hexdigit_def Let_def)
  have flat: "(of_char d :: nat) < 128"
    if "is_lower d \<or> is_digit d \<or> d = CHR ''.'' \<or> d = CHR ''_'' \<or> d = CHR ''-''" for d
    using that by (auto simp: is_lower_def is_digit_def Let_def)
  consider "\<forall>d\<in>set ns. is_lower d \<or> is_digit d \<or> d = CHR ''.'' \<or> d = CHR ''_'' \<or> d = CHR ''-''"
    | "take 2 ns = ''u/''" "\<forall>d\<in>set (drop 2 ns). is_hexdigit d"
    using v unfolding valid_ns_def list_all_iff by blast
  then show "(of_char c :: nat) < 128"
  proof cases
    case 1
    show ?thesis by (rule flat, rule bspec [OF 1 c])
  next
    case 2
    have "ns = take 2 ns @ drop 2 ns" by simp
    then have "ns = ''u/'' @ drop 2 ns" unfolding 2(1) .
    then have "c \<in> set (''u/'' @ drop 2 ns)" using c by metis
    then consider "c = CHR ''u''" | "c = CHR ''/''" | "c \<in> set (drop 2 ns)" by auto
    then show ?thesis using 2(2) hexd by cases auto
  qed
qed

lemma valid_ns_length: "valid_ns ns \<Longrightarrow> length ns \<le> 66"
  by (auto simp: valid_ns_def)

lemma valid_ns_utf8: "valid_ns ns \<Longrightarrow> utf8_ok (str_bytes ns)"
  by (rule utf8_ok_ascii)
     (auto simp: str_bytes_def word_less_unat unat_of_nat dest: valid_ns_ascii)

lemma parse_ns_dir_ns_dir:
  assumes "hex_ok ext" "valid_ns ns"
  shows "parse_ns_dir ext (ns_dir ext ns) = Some ns"
proof -
  let ?h = "hex_of_nat (length ns * 2)" and ?e = "hex_enc ext (str_bytes ns)"
  have n: "length ns * 2 < 2 ^ 64" using valid_ns_length [OF assms(2)] by simp
  note h = hex_of_nat_props [OF n]
  have tw: "takeWhile (\<lambda>c. c \<noteq> CHR ''_'') (ns_dir ext ns) = ?h"
  proof -
    have "takeWhile (\<lambda>c. c \<noteq> CHR ''_'') (?h @ CHR ''_'' # ?e) = ?h @ takeWhile (\<lambda>c. c \<noteq> CHR ''_'') (CHR ''_'' # ?e)"
      by (rule takeWhile_append2) (use h in metis)
    then show ?thesis by (simp add: ns_dir_def)
  qed
  have dr: "drop (length ?h + 1) (ns_dir ext ns) = ?e" and mem: "CHR ''_'' \<in> set (ns_dir ext ns)"
    by (simp_all add: ns_dir_def)
  have e: "hex_dec ext ?e = Some (str_bytes ns)" "length ?e = length ns * 2" "list_all is_hexdigit ?e"
    using assms(1) by (auto simp: hex_ok_def)
  have hx: "list_all is_hexdigit ?h" using h by blast
  show ?thesis
    unfolding parse_ns_dir_def tw Let_def dr from_str_radix_hex [OF n]
    using mem hx e assms(2) valid_ns_utf8 [OF assms(2)] by (simp add: bytes_str_bytes)
qed

lemma ns_dir_inj:
  assumes "hex_ok ext" "valid_ns ns" "valid_ns ns'" "ns_dir ext ns = ns_dir ext ns'"
  shows "ns = ns'"
proof -
  have "Some ns = parse_ns_dir ext (ns_dir ext ns')"
    unfolding assms(4) [symmetric] parse_ns_dir_ns_dir [OF assms(1,2)] ..
  then show ?thesis unfolding parse_ns_dir_ns_dir [OF assms(1,3)] by (rule option.inject [THEN iffD1])
qed

lemma hex_pair:
  fixes b :: byte
  shows "hex_val (hex_char (unat b div 16)) = Some (unat b div 16)"
    "hex_val (hex_char (unat b mod 16)) = Some (unat b mod 16)"
    "is_hexdigit (hex_char (unat b div 16))" "is_hexdigit (hex_char (unat b mod 16))"
proof -
  have "unat b div 16 < 16" using unsigned_less [of b, where ?'a = nat] by simp
  then show "hex_val (hex_char (unat b div 16)) = Some (unat b div 16)"
    "is_hexdigit (hex_char (unat b div 16))" by (rule hex_char_props)+
  have "unat b mod 16 < 16" by simp
  then show "hex_val (hex_char (unat b mod 16)) = Some (unat b mod 16)"
    "is_hexdigit (hex_char (unat b mod 16))" by (rule hex_char_props)+
qed

lemma demo_hex_ok: "hex_ok demo_ext"
proof -
  have "demo_unhex (demo_hex b) = Some b \<and> length (demo_hex b) = 2 * length b \<and> list_all is_hexdigit (demo_hex b)"
    for b :: bytes
  proof (induction b)
    case (Cons a b)
    have "(of_nat (16 * (unat a div 16) + unat a mod 16) :: byte) = a" by simp
    then show ?case using Cons by (simp add: demo_hex_def hex_pair del: of_nat_add of_nat_mult)
  qed (simp add: demo_hex_def)
  then show ?thesis by (simp add: hex_ok_def demo_ext_def)
qed

end
