(* ===== verification/SecIndex.thy ===== *)
theory SecIndex
  imports Names
begin

text \<open>
  The derived secondary index of \<open>src/storage/mod.rs\<close>.  A namespace's index is exact when
  the rows of each indexed field are the sorted pairs of field value and key of the live
  keys.  Data operations maintain exactness, for every namespace; rebuilding the index of
  one namespace empties the indexes of the others.
\<close>

section \<open>Definitions\<close>

definition live_rows :: "extern \<Rightarrow> store \<Rightarrow> namespace \<Rightarrow> string \<Rightarrow> (bytes \<times> bytes) set" where
  "live_rows ext st ns field =
     {(fv, k). \<exists>val. visible_value st ns k = Some val \<and> fv \<in> set (field_values ext val field)}"

text \<open>A \<open>BTreeSet\<close> as the sorted list of its elements.\<close>

definition sorted_set :: "('a :: linorder) list \<Rightarrow> bool" where
  "sorted_set xs = (sorted xs \<and> distinct xs)"

definition sec_exact :: "extern \<Rightarrow> store \<Rightarrow> namespace \<Rightarrow> bool" where
  "sec_exact ext st ns =
     (\<forall>field \<in> set (index_fields ext st ns).
        let rows = sec_rows_of st (sec_map_key ns field) in
        sorted_set rows \<and> set rows = live_rows ext st ns field)"

definition names_ok :: "store \<Rightarrow> bool" where
  "names_ok st = (\<forall>ns. bt_contains ns (st_policies st) \<longrightarrow> valid_ns ns)"

text \<open>A namespace \<open>n\<close> indexed by the field \<open>f\<close>, for concrete instances.\<close>

definition idx_ext :: extern where
  "idx_ext = demo_ext\<lparr>json_of := (\<lambda>bs. if bs = [1] then Some (JObject [(''f'', JString ''a'')])
     else if bs = [2] then Some (JArray [JString ''f'']) else None)\<rparr>"

definition idx_store :: store where
  "idx_store = (demo_store PolicyLww)\<lparr>st_meta := [(''index/n'', [2])]\<rparr>"

section \<open>Map keys\<close>

lemma valid_ns_no_nul: "valid_ns ns \<Longrightarrow> 0 \<notin> set (str_bytes ns)"
proof
  assume v: "valid_ns ns" and z: "0 \<in> set (str_bytes ns)"
  then obtain c where c: "c \<in> set ns" "(of_nat (of_char c) :: byte) = 0"
    by (auto simp: str_bytes_def)
  have "(of_nat (of_char c) :: byte) = of_nat (of_char (char_of (0 :: nat)))" using c(2) by simp
  then have e: "c = char_of (0 :: nat)" using of_char_inj_byte by blast
  have "(of_char c :: nat) = 0" unfolding e by simp
  moreover have "(of_char c :: nat) \<noteq> 0"
  proof -
    consider "is_lower c \<or> is_digit c \<or> c = CHR ''.'' \<or> c = CHR ''_'' \<or> c = CHR ''-''"
      | "c \<in> set ''u/''" | "is_hexdigit c"
      using v c(1) unfolding valid_ns_def list_all_iff
      by (metis append_take_drop_id Un_iff set_append)
    then show ?thesis
      by cases (auto simp: is_lower_def is_digit_def is_hexdigit_def Let_def)
  qed
  ultimately show False by simp
qed

lemma append_nul_inj:
  fixes a b :: bytes
  assumes "0 \<notin> set a" "0 \<notin> set b" "a @ 0 # x = b @ 0 # y"
  shows "a = b \<and> x = y"
  using assms
proof (induction a arbitrary: b)
  case Nil
  then show ?case by (cases b) auto
next
  case (Cons c a)
  then show ?case by (cases b) auto
qed

lemma sec_map_key_inj:
  assumes "valid_ns ns" "valid_ns ns'" "sec_map_key ns f = sec_map_key ns' f'"
  shows "ns = ns' \<and> f = f'"
  using append_nul_inj [OF valid_ns_no_nul [OF assms(1)] valid_ns_no_nul [OF assms(2)],
      of "str_bytes f" "str_bytes f'"] assms(3) by (simp add: sec_map_key_def)

lemma sec_map_key_field [simp]: "sec_map_key ns f = sec_map_key ns f' \<longleftrightarrow> f = f'"
  by (simp add: sec_map_key_def)

section \<open>Rows\<close>

lemma sec_rows_remove_rows:
  "sec_rows_of (remove_rows mk k st) mk' =
     (if mk' = mk then filter (\<lambda>(_, k'). k' \<noteq> k) (sec_rows_of st mk') else sec_rows_of st mk')"
  by (auto simp: remove_rows_def sec_rows_of_def split: option.splits)

lemma sec_rows_insert_row:
  "sec_rows_of (insert_row mk row st) mk' =
     (if mk' = mk then insort_insert row (sec_rows_of st mk') else sec_rows_of st mk')"
  by (auto simp: insert_row_def sec_rows_of_def)

lemma sec_rows_remove_fold:
  "sec_rows_of (fold (\<lambda>field. remove_rows (sec_map_key ns field) k) fs st) mk =
     (if \<exists>f \<in> set fs. mk = sec_map_key ns f then filter (\<lambda>(_, k'). k' \<noteq> k) (sec_rows_of st mk)
      else sec_rows_of st mk)"
  by (induction fs arbitrary: st) (auto simp: sec_rows_remove_rows)

lemma sec_rows_remove:
  "sec_rows_of (remove_from_sec_index ext ns k st) mk =
     (if \<exists>f \<in> set (index_fields ext st ns). mk = sec_map_key ns f
      then filter (\<lambda>(_, k'). k' \<noteq> k) (sec_rows_of st mk) else sec_rows_of st mk)"
  by (simp add: remove_from_sec_index_def sec_rows_remove_fold)

lemma sorted_set_insert [simp]: "sorted_set xs \<Longrightarrow> sorted_set (insort_insert x xs)"
  by (simp add: sorted_set_def sorted_insort_insert distinct_insort_insert)

lemma sorted_set_filter [simp]: "sorted_set xs \<Longrightarrow> sorted_set (filter P xs)"
  by (simp add: sorted_set_def sorted_wrt_filter)

lemma sorted_set_insert_row [simp]:
  "sorted_set (sec_rows_of st mk) \<Longrightarrow> sorted_set (sec_rows_of (insert_row mk0 row st) mk)"
  by (auto simp: sec_rows_insert_row)

lemma insert_rows_vals:
  assumes "sorted_set (sec_rows_of st mk)"
  shows "sorted_set (sec_rows_of (fold (\<lambda>fv. insert_row mk0 (fv, k)) fvs st) mk)"
    and "set (sec_rows_of (fold (\<lambda>fv. insert_row mk0 (fv, k)) fvs st) mk) =
      set (sec_rows_of st mk) \<union> (if mk = mk0 then {(fv, k) |fv. fv \<in> set fvs} else {})"
  using assms
proof (induction fvs arbitrary: st)
  case (Cons a fvs)
  {
    case 1
    then show ?case using Cons(1) by simp
  next
    case 2
    then show ?case using Cons(2) by (auto simp: sec_rows_insert_row set_insort_insert)
  }
qed auto

lemma insert_rows_fields:
  assumes "sorted_set (sec_rows_of st mk)"
  shows "sorted_set (sec_rows_of (fold (\<lambda>f. fold (\<lambda>fv. insert_row (sec_map_key ns f) (fv, k)) (vals f)) fs st) mk)"
    and "set (sec_rows_of (fold (\<lambda>f. fold (\<lambda>fv. insert_row (sec_map_key ns f) (fv, k)) (vals f)) fs st) mk) =
      set (sec_rows_of st mk) \<union> {(fv, k) |fv f. f \<in> set fs \<and> mk = sec_map_key ns f \<and> fv \<in> set (vals f)}"
  using assms
  by (induction fs arbitrary: st) (auto simp: insert_rows_vals)

lemma index_fields_cong: "st_meta st = st_meta st' \<Longrightarrow> index_fields ext st ns = index_fields ext st' ns"
  by (simp add: index_fields_def index_def_def)

lemma visible_value_sec: "sec_only st st' \<Longrightarrow> visible_value st' ns k = visible_value st ns k"
  by (simp add: visible_value_def sec_only_get)

lemma refresh_rows:
  assumes "field \<in> set (index_fields ext st ns)" "sorted_set (sec_rows_of st (sec_map_key ns field))"
  shows "sorted_set (sec_rows_of (refresh_sec_index_for ext ns k st) (sec_map_key ns field))"
    and "set (sec_rows_of (refresh_sec_index_for ext ns k st) (sec_map_key ns field)) =
      {(fv, k') \<in> set (sec_rows_of st (sec_map_key ns field)). k' \<noteq> k} \<union>
      {(fv, k') \<in> live_rows ext st ns field. k' = k}"
proof -
  let ?st = "remove_from_sec_index ext ns k st" and ?mk = "sec_map_key ns field"
  have f: "index_fields ext ?st ns = index_fields ext st ns" by (rule index_fields_cong) simp
  have v: "visible_value ?st ns k = visible_value st ns k" by (rule visible_value_sec [OF sec_only_remove])
  have r: "sec_rows_of ?st ?mk = filter (\<lambda>(_, k'). k' \<noteq> k) (sec_rows_of st ?mk)"
    using assms(1) by (auto simp: sec_rows_remove)
  have s: "sorted_set (sec_rows_of ?st ?mk)" unfolding r using assms(2) by simp
  show "sorted_set (sec_rows_of (refresh_sec_index_for ext ns k st) ?mk)"
    using s by (auto simp: refresh_sec_index_for_def Let_def insert_rows_fields split: option.splits)
  show "set (sec_rows_of (refresh_sec_index_for ext ns k st) ?mk) =
      {(fv, k') \<in> set (sec_rows_of st ?mk). k' \<noteq> k} \<union> {(fv, k') \<in> live_rows ext st ns field. k' = k}"
    using s assms(1)
    by (auto simp: refresh_sec_index_for_def Let_def insert_rows_fields f v r live_rows_def
        split: option.splits)
qed

lemma refresh_rows_other:
  assumes "\<And>f. mk \<noteq> sec_map_key ns f"
  shows "sec_rows_of (refresh_sec_index_for ext ns k st) mk = sec_rows_of st mk"
proof -
  have ins: "sec_rows_of (fold (\<lambda>fv. insert_row (sec_map_key ns f) (fv, k)) vs st') mk = sec_rows_of st' mk"
    for f vs st' using assms by (induction vs arbitrary: st') (auto simp: sec_rows_insert_row)
  have "sec_rows_of (fold (\<lambda>f. fold (\<lambda>fv. insert_row (sec_map_key ns f) (fv, k)) (vals f)) fs st') mk =
      sec_rows_of st' mk" for fs vals st'
    by (induction fs arbitrary: st') (auto simp: ins)
  then show ?thesis
    using assms by (auto simp: refresh_sec_index_for_def Let_def sec_rows_remove split: option.splits)
qed

section \<open>Data operations keep every index exact\<close>

lemma sec_rows_cong: "st_sec st = st_sec st' \<Longrightarrow> sec_rows_of st mk = sec_rows_of st' mk"
  by (simp add: sec_rows_of_def)

lemma live_rows_cong:
  "(\<And>k. visible_value st ns k = visible_value st' ns k) \<Longrightarrow> live_rows ext st ns f = live_rows ext st' ns f"
  by (simp add: live_rows_def)

lemma sec_exact_revision [simp]: "sec_exact ext (st\<lparr>st_revision := n\<rparr>) ns = sec_exact ext st ns"
  by (simp add: sec_exact_def index_fields_def index_def_def sec_rows_of_def live_rows_def
      visible_value_def store_get_def)

lemma sec_exactD:
  assumes "sec_exact ext st ns" "f \<in> set (index_fields ext st ns)"
  shows "sorted_set (sec_rows_of st (sec_map_key ns f))"
    "set (sec_rows_of st (sec_map_key ns f)) = live_rows ext st ns f"
  using assms by (auto simp: sec_exact_def Let_def)

lemma refresh_exact_same:
  assumes ex: "sec_exact ext st ns"
    and same: "st_meta st1 = st_meta st" "st_sec st1 = st_sec st"
    and vis: "\<And>k'. k' \<noteq> k \<Longrightarrow> visible_value st1 ns k' = visible_value st ns k'"
  shows "sec_exact ext (refresh_sec_index_for ext ns k st1) ns"
    and "visible_value st1 ns k = None \<Longrightarrow> sec_exact ext (remove_from_sec_index ext ns k st1) ns"
proof -
  have flds: "index_fields ext st1 ns = index_fields ext st ns" by (rule index_fields_cong [OF same(1)])
  have rows: "sec_rows_of st1 mk = sec_rows_of st mk" for mk by (rule sec_rows_cong [OF same(2)])
  have live: "{(fv, k') \<in> live_rows ext st ns f. k' \<noteq> k} = {(fv, k') \<in> live_rows ext st1 ns f. k' \<noteq> k}" for f
    using vis by (auto simp: live_rows_def)
  let ?r = "refresh_sec_index_for ext ns k st1" and ?d = "remove_from_sec_index ext ns k st1"
  show "sec_exact ext ?r ns"
    unfolding sec_exact_def Let_def
  proof
    fix f assume "f \<in> set (index_fields ext ?r ns)"
    then have f: "f \<in> set (index_fields ext st1 ns)" "f \<in> set (index_fields ext st ns)"
      using index_fields_cong [of ?r st1] flds by simp_all
    note e = sec_exactD [OF ex f(2)]
    have "live_rows ext ?r ns f = live_rows ext st1 ns f"
      by (rule live_rows_cong) (rule visible_value_sec [OF sec_only_refresh])
    then show "sorted_set (sec_rows_of ?r (sec_map_key ns f)) \<and>
        set (sec_rows_of ?r (sec_map_key ns f)) = live_rows ext ?r ns f"
      using refresh_rows [OF f(1), of k] e live [of f] unfolding rows by auto
  qed
  show "sec_exact ext ?d ns" if "visible_value st1 ns k = None"
    unfolding sec_exact_def Let_def
  proof
    fix f assume "f \<in> set (index_fields ext ?d ns)"
    then have f: "f \<in> set (index_fields ext st1 ns)" "f \<in> set (index_fields ext st ns)"
      using index_fields_cong [of ?d st1] flds by simp_all
    note e = sec_exactD [OF ex f(2)]
    have "live_rows ext ?d ns f = live_rows ext st1 ns f"
      by (rule live_rows_cong) (rule visible_value_sec [OF sec_only_remove])
    moreover have "sec_rows_of ?d (sec_map_key ns f) =
        filter (\<lambda>(_, k'). k' \<noteq> k) (sec_rows_of st (sec_map_key ns f))"
      using f(1) by (auto simp: sec_rows_remove rows)
    moreover have "live_rows ext st1 ns f = {(fv, k') \<in> live_rows ext st ns f. k' \<noteq> k}"
      unfolding live using that by (auto simp: live_rows_def)
    ultimately show "sorted_set (sec_rows_of ?d (sec_map_key ns f)) \<and>
        set (sec_rows_of ?d (sec_map_key ns f)) = live_rows ext ?d ns f"
      using e by auto
  qed
qed

lemma sec_exact_frame:
  assumes "sec_exact ext st ns'" "st_meta st2 = st_meta st"
    and "\<And>f. sec_rows_of st2 (sec_map_key ns' f) = sec_rows_of st (sec_map_key ns' f)"
    and "\<And>k. visible_value st2 ns' k = visible_value st ns' k"
  shows "sec_exact ext st2 ns'"
  using assms(1) live_rows_cong [of st2 ns' st, OF assms(4)] index_fields_cong [OF assms(2)]
  by (simp add: sec_exact_def assms(3))

lemma sec_key_exact:
  assumes ex: "sec_exact ext st ns'" and v: "valid_ns ns" "valid_ns ns'"
    and same: "st_meta st1 = st_meta st" "st_sec st1 = st_sec st"
    and vis: "\<And>n k'. (n, k') \<noteq> (ns, k) \<Longrightarrow> visible_value st1 n k' = visible_value st n k'"
  shows "sec_exact ext (refresh_sec_index_for ext ns k st1) ns'"
    and "visible_value st1 ns k = None \<Longrightarrow> sec_exact ext (remove_from_sec_index ext ns k st1) ns'"
proof -
  have ne: "sec_map_key ns' f \<noteq> sec_map_key ns f'" if "ns' \<noteq> ns" for f f'
    using sec_map_key_inj [OF v(2,1)] that by blast
  have rows: "sec_rows_of st1 mk = sec_rows_of st mk" for mk by (rule sec_rows_cong [OF same(2)])
  show "sec_exact ext (refresh_sec_index_for ext ns k st1) ns'"
  proof (cases "ns' = ns")
    case True
    then show ?thesis using refresh_exact_same(1) [of ext st ns st1 k] ex same vis by auto
  next
    case False
    show ?thesis
      by (rule sec_exact_frame [OF ex])
         (use False ne vis in \<open>simp_all add: same refresh_rows_other rows visible_value_sec [OF sec_only_refresh]\<close>)
  qed
  show "sec_exact ext (remove_from_sec_index ext ns k st1) ns'" if "visible_value st1 ns k = None"
  proof (cases "ns' = ns")
    case True
    then show ?thesis using refresh_exact_same(2) [of ext st ns st1 k] ex same vis that by auto
  next
    case False
    show ?thesis
      by (rule sec_exact_frame [OF ex])
         (use False ne vis in \<open>simp_all add: same sec_rows_remove rows visible_value_sec [OF sec_only_remove]\<close>)
  qed
qed

lemma visible_value_update:
  assumes "\<And>n k'. (n, k') \<noteq> (ns, k) \<Longrightarrow> bt_get (st_index st1) (n, k') = bt_get (st_index st) (n, k') \<and>
      bt_contains (n, k') (st_tombs st1) = bt_contains (n, k') (st_tombs st)"
  shows "(n, k') \<noteq> (ns, k) \<Longrightarrow> visible_value st1 n k' = visible_value st n k'"
  using assms [of n k'] by (simp add: visible_value_def store_get_def)

lemma visible_value_tomb: "bt_contains (ns, k) (st_tombs st) \<Longrightarrow> visible_value st ns k = None"
  by (simp add: visible_value_def store_get_def)

lemma apply_record_op_exact:
  assumes "apply_record_op ext ns r sq st = (Ok (), st')" "sec_exact ext st ns'" "valid_ns ns" "valid_ns ns'"
    and "state_inv st"
  shows "sec_exact ext st' ns'"
proof -
  let ?ek = "(ns, r_key r)"
  note inv = state_invD [OF assms(5)]
  have ins: "sec_exact ext (refresh_sec_index_for ext ns (r_key r) (st\<lparr>st_index := bt_insert ?ek e (st_index st)\<rparr>)) ns'"
    for e
    by (rule sec_key_exact(1) [OF assms(2-4)])
       (simp_all, rule visible_value_update, simp_all add: bt_get_insert state_invD(2) [OF assms(5)])
  have keep: "sec_exact ext (refresh_sec_index_for ext ns (r_key r) st) ns'"
    by (rule sec_key_exact(1) [OF assms(2-4)]) simp_all
  have del: "sec_exact ext (remove_from_sec_index ext ns (r_key r)
      (st\<lparr>st_index := bt_remove ?ek (st_index st), st_tombs := bt_insert ?ek h (st_tombs st)\<rparr>)) ns'" for h
    by (rule sec_key_exact(2) [OF assms(2-4)])
       (simp_all add: visible_value_tomb inv, rule visible_value_update,
        auto simp: bt_get_remove inv)
  show ?thesis
    using assms(1) ins keep del
    by (auto simp: apply_record_op_def Let_def split: option.splits conflict_policy.splits entry.splits if_splits)
qed

lemma apply_local_op_exact:
  assumes "apply_local_op ext ns r sq st = (Ok (), st')" "sec_exact ext st ns'" "valid_ns ns" "valid_ns ns'"
    and "state_inv st"
  shows "sec_exact ext st' ns'"
proof -
  let ?ek = "(ns, r_key r)"
  note inv = state_invD [OF assms(5)]
  have ins: "sec_exact ext (refresh_sec_index_for ext ns (r_key r)
      (st\<lparr>st_tombs := bt_remove ?ek (st_tombs st), st_index := bt_insert ?ek e (st_index st)\<rparr>)) ns'" for e
    by (rule sec_key_exact(1) [OF assms(2-4)])
       (simp_all, rule visible_value_update, simp_all add: bt_get_insert state_invD(2) [OF assms(5)])
  have del: "sec_exact ext (remove_from_sec_index ext ns (r_key r)
      (st\<lparr>st_index := bt_remove ?ek (st_index st), st_tombs := bt_insert ?ek h (st_tombs st)\<rparr>)) ns'" for h
    by (rule sec_key_exact(2) [OF assms(2-4)])
       (simp_all add: visible_value_tomb inv, rule visible_value_update,
        auto simp: bt_get_remove inv)
  show ?thesis
    using assms(1) ins del
    by (auto simp: apply_local_op_def Let_def split: option.splits conflict_policy.splits entry.splits if_splits)
qed

lemma index_lookup_exact:
  assumes "sec_exact ext st ns" "field \<in> set (index_fields ext st ns)"
  shows "sorted (index_lookup st ns field start) \<and> distinct (index_lookup st ns field start) \<and>
    set (index_lookup st ns field start) = {(fv, k) \<in> live_rows ext st ns field. start \<le> fv}"
  using sec_exactD [OF assms]
  by (auto simp: index_lookup_def sorted_set_def sorted_wrt_filter less_eq_prod_def order.strict_iff_order)

section \<open>Rebuilding\<close>

lemma clear_rows_other:
  assumes "valid_ns ns" "valid_ns ns'" "ns' \<noteq> ns"
  shows "sec_rows_of (clear_sec_index_ns ns st) (sec_map_key ns' f) = []"
proof -
  have "\<not> prefix (str_bytes ns @ [0]) (sec_map_key ns' f)"
  proof
    assume "prefix (str_bytes ns @ [0]) (sec_map_key ns' f)"
    then obtain z where "str_bytes ns' @ 0 # str_bytes f = str_bytes ns @ 0 # z"
      by (auto simp: prefix_def sec_map_key_def)
    then show False
      using append_nul_inj [OF valid_ns_no_nul [OF assms(2)] valid_ns_no_nul [OF assms(1)]] assms(3)
      by fastforce
  qed
  then show ?thesis by (simp add: clear_sec_index_ns_def sec_rows_of_def)
qed

lemma rebuild_ns_rows_other:
  assumes "valid_ns ns" "valid_ns ns'" "ns' \<noteq> ns"
  shows "sec_rows_of (rebuild_sec_index_ns ext ns st) (sec_map_key ns' f) = []"
proof -
  have ne: "sec_map_key ns' f \<noteq> sec_map_key ns f'" for f'
    using sec_map_key_inj [OF assms(2,1)] assms(3) by blast
  have "sec_rows_of (fold (refresh_sec_index_for ext ns) ks st') (sec_map_key ns' f) =
      sec_rows_of st' (sec_map_key ns' f)" for ks st'
    by (induction ks arbitrary: st') (simp_all add: refresh_rows_other ne)
  then show ?thesis
    by (simp add: rebuild_sec_index_ns_def Let_def clear_rows_other [OF assms])
qed

lemma rebuild_ns_keeps_empty:
  assumes "valid_ns ns" "\<forall>n \<in> set nss. valid_ns n" "ns \<notin> set nss"
    and "sec_rows_of st (sec_map_key ns f) = []"
  shows "sec_rows_of (fold (\<lambda>n st. if index_fields ext st n = [] then st else rebuild_sec_index_ns ext n st) nss st)
    (sec_map_key ns f) = []"
  using assms
proof (induction nss arbitrary: st)
  case (Cons n nss)
  have "sec_rows_of (if index_fields ext st n = [] then st else rebuild_sec_index_ns ext n st) (sec_map_key ns f) = []"
    using Cons(2-5) by (auto intro: rebuild_ns_rows_other)
  then show ?case using Cons by simp
qed simp

section \<open>Properties\<close>

text \<open>C23.  Data operations maintain the secondary indexes: if every namespace's index is exact
  before a local or a replayed operation that succeeds, then afterwards a lookup in any
  namespace and indexed field returns, sorted and without duplicates, exactly the pairs of
  field value and key of the live keys whose field value is at least the start value.\<close>

theorem index_lookup_maintained:
  assumes "state_inv st" "names_ok st"
    and "\<forall>n. bt_contains n (st_policies st) \<longrightarrow> sec_exact ext st n"
    and "apply_local_op ext ns r sq st = (Ok (), st') \<or> apply_record_op ext ns r sq st = (Ok (), st')"
    and "bt_contains n (st_policies st)" "field \<in> set (index_fields ext st' n)"
  shows "sorted (index_lookup st' n field start) \<and> distinct (index_lookup st' n field start) \<and>
    set (index_lookup st' n field start) = {(fv, k) \<in> live_rows ext st' n field. start \<le> fv} \<and>
    sec_exact ext st' n"
proof -
  have "bt_contains ns (st_policies st)"
    using assms(4) by (auto simp: apply_local_op_def apply_record_op_def bt_contains_def split: option.splits)
  then have v: "valid_ns ns" "valid_ns n" using assms(2,5) by (auto simp: names_ok_def)
  have e: "sec_exact ext st n" using assms(3,5) by blast
  have "sec_exact ext st' n"
    using assms(4) apply_local_op_exact [OF _ e v assms(1)] apply_record_op_exact [OF _ e v assms(1)] by blast
  then show ?thesis using index_lookup_exact [OF _ assms(6)] by blast
qed

lemma idx_store_ok:
  "state_inv idx_store" "names_ok idx_store" "bt_contains ''n'' (st_policies idx_store)"
  "index_fields idx_ext idx_store ''n'' = [''f'']" "sec_exact idx_ext idx_store ''n''"
proof -
  show "state_inv idx_store" "names_ok idx_store" "bt_contains ''n'' (st_policies idx_store)"
    by (auto simp: idx_store_def demo_store_def state_inv_def names_ok_def bt_contains_def bt_get_Cons
        valid_ns_def is_lower_def split: if_splits)
  show fl: "index_fields idx_ext idx_store ''n'' = [''f'']"
    by (simp add: index_fields_def index_def_def idx_ext_def idx_store_def bt_get_Cons as_string_list_def as_array_def as_str_def)
  show "sec_exact idx_ext idx_store ''n''"
    unfolding sec_exact_def fl
    by (simp add: sec_rows_of_def live_rows_def visible_value_def store_get_def idx_store_def
        demo_store_def sorted_set_def)
qed

theorem index_lookup_maintained_witness:
  "set (index_lookup (snd (apply_local_op idx_ext ''n'' (demo_put 1 7 [1]) 1 idx_store)) ''n'' ''f'' []) =
     {(fv, k) \<in> live_rows idx_ext (snd (apply_local_op idx_ext ''n'' (demo_put 1 7 [1]) 1 idx_store)) ''n'' ''f''.
        [] \<le> fv}"
proof -
  let ?r = "apply_local_op idx_ext ''n'' (demo_put 1 7 [1]) 1 idx_store"
  have ok: "?r = (Ok (), snd ?r)"
    by (simp add: apply_local_op_def idx_store_def demo_store_def demo_put_def bt_get_Cons Let_def)
  have only: "bt_contains n (st_policies idx_store) \<Longrightarrow> n = ''n''" for n
    by (auto simp: idx_store_def demo_store_def bt_contains_def bt_get_Cons split: if_splits)
  have ex: "\<forall>n. bt_contains n (st_policies idx_store) \<longrightarrow> sec_exact idx_ext idx_store n"
    using only idx_store_ok(5) by auto
  have fl: "''f'' \<in> set (index_fields idx_ext (snd ?r) ''n'')"
    using idx_store_ok(4) index_fields_cong [of "snd ?r" idx_store idx_ext "''n''"] by simp
  show ?thesis
    using index_lookup_maintained [OF idx_store_ok(1,2) ex disjI1 [OF ok] idx_store_ok(3) fl, of "[]"] by blast
qed

text \<open>Rebuilding loses indexes: rebuilding the index of one namespace leaves every other
  namespace without rows, and after the full rebuild that ends every open a namespace with
  an index definition has no rows whenever a later namespace has a definition too.\<close>

theorem rebuild_wipes_other_indexes:
  assumes "valid_ns ns" "valid_ns n" "n \<noteq> ns"
  shows "index_lookup (rebuild_sec_index_ns ext ns st) n field start = [] \<and>
    (state_inv st \<longrightarrow> names_ok st \<longrightarrow> n < ns \<longrightarrow> bt_contains ns (st_policies st) \<longrightarrow>
     index_fields ext st ns \<noteq> [] \<longrightarrow>
     index_lookup (rebuild_secondary_indexes ext st) n field start = [])"
proof (intro conjI impI)
  show "index_lookup (rebuild_sec_index_ns ext ns st) n field start = []"
    by (simp add: index_lookup_def rebuild_ns_rows_other [OF assms])
next
  assume inv: "state_inv st" and ok: "names_ok st" and less: "n < ns"
    and c: "bt_contains ns (st_policies st)" and fl: "index_fields ext st ns \<noteq> []"
  let ?f = "\<lambda>n st. if index_fields ext st n = [] then st else rebuild_sec_index_ns ext n st"
  have srt: "sorted_wrt (<) (bt_keys (st_policies st))"
    using state_invD(1) [OF inv] by (simp add: bt_inv_def bt_keys_def)
  obtain xs ys where k: "bt_keys (st_policies st) = xs @ ns # ys"
    using c by (auto simp: bt_contains_iff dest: split_list)
  have ys: "n \<notin> set ys" using srt less unfolding k by (auto simp: sorted_wrt_append)
  have val: "\<forall>m \<in> set ys. valid_ns m" using ok k by (auto simp: names_ok_def bt_contains_iff)
  let ?s = "fold ?f xs (st\<lparr>st_sec := Map.empty\<rparr>)"
  have "sec_only (st\<lparr>st_sec := Map.empty\<rparr>) ?s"
    by (rule sec_only_fold) (simp add: sec_only_rebuild_ns)
  then have "index_fields ext ?s ns = index_fields ext st ns"
    by (intro index_fields_cong) (simp add: sec_onlyD)
  then have "sec_rows_of (?f ns ?s) (sec_map_key n field) = []"
    using fl rebuild_ns_rows_other [OF assms] by simp
  then have "sec_rows_of (fold ?f ys (?f ns ?s)) (sec_map_key n field) = []"
    by (rule rebuild_ns_keeps_empty [OF assms(2) val ys])
  then show "index_lookup (rebuild_secondary_indexes ext st) n field start = []"
    by (simp add: index_lookup_def rebuild_secondary_indexes_def k)
qed

theorem rebuild_wipes_other_indexes_witness:
  "let st = idx_store\<lparr>st_sec := [sec_map_key ''m'' ''f'' \<mapsto> [([97], [107])]]\<rparr> in
   index_lookup st ''m'' ''f'' [] = [([97], [107])] \<and>
   index_lookup (rebuild_sec_index_ns idx_ext ''n'' st) ''m'' ''f'' [] = []"
proof -
  have "valid_ns ''n''" "valid_ns ''m''" by (simp_all add: valid_ns_def is_lower_def)
  then have "index_lookup (rebuild_sec_index_ns idx_ext ''n'' st) ''m'' ''f'' [] = []" for st
    using rebuild_wipes_other_indexes [of "''n''" "''m''"] by simp
  then show ?thesis
    unfolding Let_def by (simp add: index_lookup_def [of _ _ _ "[]"] sec_rows_of_def less_eq_prod_def)
qed

end
