(* ===== verification/StoreOps.thy ===== *)
theory StoreOps
  imports SecIndex Snapshot
begin

text \<open>
  The operations of \<open>Store\<close> (\<open>src/storage/mod.rs\<close>) that write the log.  The data directory is
  the record \<open>disk\<close>: the snapshot file and, per namespace directory, the segment files and
  the policy sidecar.  An operation takes and returns the pair of the in-memory store and
  the disk.  The invariant \<open>db_inv\<close> ties the two together; every operation keeps it, and the
  log of a namespace holds exactly the records of the operations that succeeded on it.
\<close>

section \<open>Definitions\<close>

record ns_disk =
  nd_segs :: seg_files
  nd_policy :: "bytes option"

record disk =
  dk_snap :: "bytes option"
  dk_dirs :: "(string, ns_disk) btree"

record db =
  db_store :: store
  db_disk :: disk

definition ns_files :: "extern \<Rightarrow> disk \<Rightarrow> namespace \<Rightarrow> ns_disk" where
  "ns_files ext dk ns =
     (case bt_get (dk_dirs dk) (ns_dir ext ns) of
        None \<Rightarrow> \<lparr>nd_segs = [], nd_policy = None\<rparr>
      | Some d \<Rightarrow> d)"

definition set_ns_files :: "extern \<Rightarrow> namespace \<Rightarrow> ns_disk \<Rightarrow> disk \<Rightarrow> disk" where
  "set_ns_files ext ns d dk = dk\<lparr>dk_dirs := bt_insert (ns_dir ext ns) d (dk_dirs dk)\<rparr>"

text \<open>\<open>record.to_bytes(log.head())\<close> followed by \<open>log.append\<close>: the sequence number, and the
  database with the log and its files advanced.\<close>

definition log_write :: "extern \<Rightarrow> namespace \<Rightarrow> log \<Rightarrow> log_record \<Rightarrow> db \<Rightarrow> nat \<times> db" where
  "log_write ext ns l r s =
     (let d = ns_files ext (db_disk s) ns;
          ((l', files), sq) = log_append (sha256 ext) (to_bytes r (log_head l)) (l, nd_segs d)
      in (sq, s\<lparr>db_store := (db_store s)\<lparr>st_logs := bt_insert ns l' (st_logs (db_store s))\<rparr>,
                db_disk := set_ns_files ext ns (d\<lparr>nd_segs := files\<rparr>) (db_disk s)\<rparr>))"

subsection \<open>Namespaces\<close>

definition create_namespace ::
  "extern \<Rightarrow> namespace \<Rightarrow> conflict_policy \<Rightarrow> db \<Rightarrow> (storage_error, unit) result \<times> db" where
  "create_namespace ext ns policy s =
     (let st = db_store s in
      if \<not> valid_ns ns then (Err (BadName ns), s)
      else if bt_contains ns (st_policies st) then (Err (NamespaceExists ns), s)
      else
        let d = ns_files ext (db_disk s) ns in
        case recover_durable (sha256 ext) (ns_dir ext ns) (nd_segs d) (st_durable st) of
          Inl e \<Rightarrow> (Err e, s\<lparr>db_disk := set_ns_files ext ns d (db_disk s)\<rparr>)
        | Inr (l, _, files) \<Rightarrow>
            let d = d\<lparr>nd_segs := files\<rparr> in
            if nd_policy d \<noteq> None
            then (Err (Io ''File exists''), s\<lparr>db_disk := set_ns_files ext ns d (db_disk s)\<rparr>)
            else (Ok (),
                  s\<lparr>db_store := st\<lparr>st_policies := bt_insert ns policy (st_policies st),
                                    st_logs := bt_insert ns l (st_logs st),
                                    st_revision := st_revision st + 1\<rparr>,
                    db_disk := set_ns_files ext ns (d\<lparr>nd_policy := Some [policy_to_u8 policy]\<rparr>) (db_disk s)\<rparr>))"

definition namespaces :: "store \<Rightarrow> (namespace \<times> conflict_policy) list" where
  "namespaces st = st_policies st"

definition policy :: "store \<Rightarrow> namespace \<Rightarrow> conflict_policy option" where
  "policy st ns = bt_get (st_policies st) ns"

definition namespaces_with_head :: "store \<Rightarrow> (namespace \<times> nat \<times> bytes) list" where
  "namespaces_with_head st =
     concat (map (\<lambda>ns. case bt_get (st_logs st) ns of
                         None \<Rightarrow> [] | Some l \<Rightarrow> [(ns, log_seq l, log_head l)])
                 (bt_keys (st_policies st)))"

definition log_records ::
  "extern \<Rightarrow> db \<Rightarrow> namespace \<Rightarrow> nat \<Rightarrow> nat \<Rightarrow> (storage_error, (nat \<times> bytes) list) result" where
  "log_records ext s ns from_seq max_n =
     (case bt_get (st_logs (db_store s)) ns of
        Some l \<Rightarrow> read_records (l, nd_segs (ns_files ext (db_disk s) ns)) from_seq max_n
      | None \<Rightarrow> Err (NotFound ns))"

subsection \<open>Local writes\<close>

definition store_put ::
  "extern \<Rightarrow> namespace \<Rightarrow> key \<Rightarrow> bytes \<Rightarrow> u64 \<Rightarrow> bytes \<Rightarrow> bytes \<Rightarrow> u64 \<Rightarrow> db \<Rightarrow>
   (storage_error, nat) result \<times> db" where
  "store_put ext ns k val hlc replica author expires_at s =
     (case bt_get (st_logs (db_store s)) ns of
        None \<Rightarrow> (Err (NotFound ns), s)
      | Some l \<Rightarrow>
          let r = Record (if expires_at = 0 then TAG_PUT else TAG_PUT_TTL) k hlc replica author val
                    expires_at [];
              (sq, s) = log_write ext ns l r s
          in (case apply_local_op ext ns r sq (db_store s) of
                (Inl e, st) \<Rightarrow> (Err e, s\<lparr>db_store := st\<rparr>)
              | (Inr _, st) \<Rightarrow> (Ok sq, s\<lparr>db_store := st\<rparr>)))"

definition store_delete ::
  "extern \<Rightarrow> namespace \<Rightarrow> key \<Rightarrow> u64 \<Rightarrow> bytes \<Rightarrow> bytes \<Rightarrow> db \<Rightarrow> (storage_error, nat) result \<times> db" where
  "store_delete ext ns k hlc replica author s =
     (if \<not> bt_contains ns (st_policies (db_store s)) then (Err (BadName ns), s)
      else case bt_get (st_logs (db_store s)) ns of
        None \<Rightarrow> (Err (NotFound ns), s)
      | Some l \<Rightarrow>
          let r = Record TAG_DEL k hlc replica author [] 0 [];
              (sq, s) = log_write ext ns l r s
          in (case apply_local_op ext ns r sq (db_store s) of
                (Inl e, st) \<Rightarrow> (Err e, s\<lparr>db_store := st\<rparr>)
              | (Inr _, st) \<Rightarrow> (Ok sq, s\<lparr>db_store := st\<rparr>)))"

text \<open>A loop over the operations of a batch; the first error ends it.\<close>

fun apply_ops ::
  "(log_record \<Rightarrow> nat \<Rightarrow> store \<Rightarrow> (storage_error, unit) result \<times> store) \<Rightarrow> log_record list \<Rightarrow> nat \<Rightarrow> store \<Rightarrow>
   (storage_error, unit) result \<times> store" where
  "apply_ops step [] sq st = (Ok (), st)"
| "apply_ops step (op # ops) sq st =
     (case step op sq st of
        (Inl e, st) \<Rightarrow> (Err e, st)
      | (Inr _, st) \<Rightarrow> apply_ops step ops sq st)"

definition put_batch :: "extern \<Rightarrow> namespace \<Rightarrow> log_record list \<Rightarrow> db \<Rightarrow> (storage_error, nat) result \<times> db" where
  "put_batch ext ns ops s =
     (if ops = [] then (Err (BadName ns), s)
      else if \<not> bt_contains ns (st_policies (db_store s)) then (Err (BadName ns), s)
      else case bt_get (st_logs (db_store s)) ns of
        None \<Rightarrow> (Err (NotFound ns), s)
      | Some l \<Rightarrow>
          let op0 = ops ! 0;
              r = Record TAG_BATCH [] (r_hlc op0) (r_replica op0) (r_author op0) [] 0 ops;
              (sq, s) = log_write ext ns l r s
          in (case apply_ops (apply_local_op ext ns) ops sq (db_store s) of
                (Inl e, st) \<Rightarrow> (Err e, s\<lparr>db_store := st\<rparr>)
              | (Inr _, st) \<Rightarrow> (Ok sq, s\<lparr>db_store := st\<rparr>)))"

definition set_index ::
  "extern \<Rightarrow> namespace \<Rightarrow> bytes option \<Rightarrow> u64 \<Rightarrow> bytes \<Rightarrow> bytes \<Rightarrow> db \<Rightarrow> (storage_error, nat) result \<times> db" where
  "set_index ext ns value hlc replica author s =
     (if \<not> bt_contains ns (st_policies (db_store s)) then (Err (BadName ns), s)
      else case bt_get (st_logs (db_store s)) ns of
        None \<Rightarrow> (Err (NotFound ns), s)
      | Some l \<Rightarrow>
          let r = Record TAG_INDEX [] hlc replica author (case value of Some v \<Rightarrow> v | None \<Rightarrow> []) 0 [];
              (sq, s) = log_write ext ns l r s;
              st = db_store s;
              meta_key = ''index/'' @ ns;
              st = st\<lparr>st_meta := (case value of
                       Some v \<Rightarrow> bt_insert meta_key v (st_meta st)
                     | None \<Rightarrow> bt_remove meta_key (st_meta st))\<rparr>;
              st = rebuild_sec_index_ns ext ns st
          in (Ok sq, s\<lparr>db_store := st\<lparr>st_revision := st_revision st + 1\<rparr>\<rparr>))"

definition schema :: "store \<Rightarrow> namespace \<Rightarrow> bytes option" where
  "schema st ns = bt_get (st_meta st) (''schema/'' @ ns)"

definition set_schema ::
  "extern \<Rightarrow> namespace \<Rightarrow> bytes option \<Rightarrow> u64 \<Rightarrow> bytes \<Rightarrow> bytes \<Rightarrow> db \<Rightarrow> (storage_error, nat) result \<times> db" where
  "set_schema ext ns value hlc replica author s =
     (if \<not> bt_contains ns (st_policies (db_store s)) then (Err (BadName ns), s)
      else case bt_get (st_logs (db_store s)) ns of
        None \<Rightarrow> (Err (NotFound ns), s)
      | Some l \<Rightarrow>
          let r = Record TAG_SCHEMA [] hlc replica author (case value of Some v \<Rightarrow> v | None \<Rightarrow> []) 0 [];
              (sq, s) = log_write ext ns l r s;
              st = db_store s;
              meta_key = ''schema/'' @ ns
          in (Ok sq, s\<lparr>db_store := st\<lparr>st_meta := (case value of
                       Some v \<Rightarrow> bt_insert meta_key v (st_meta st)
                     | None \<Rightarrow> bt_remove meta_key (st_meta st)),
                     st_revision := st_revision st + 1\<rparr>\<rparr>))"

subsection \<open>Replayed and received records\<close>

definition apply_record ::
  "extern \<Rightarrow> namespace \<Rightarrow> log_record \<Rightarrow> nat \<Rightarrow> store \<Rightarrow> (storage_error, unit) result \<times> store" where
  "apply_record ext ns r sq st =
     (if r_tag r = TAG_PUT \<or> r_tag r = TAG_PUT_TTL \<or> r_tag r = TAG_DEL then apply_record_op ext ns r sq st
      else if r_tag r = TAG_BATCH then apply_ops (apply_record_op ext ns) (r_ops r) sq st
      else if r_tag r = TAG_SCHEMA then
        let meta_key = ''schema/'' @ ns in
        (Ok (), st\<lparr>st_meta := (if r_value r = [] then bt_remove meta_key (st_meta st)
                               else bt_insert meta_key (r_value r) (st_meta st))\<rparr>)
      else if r_tag r = TAG_INDEX then
        let meta_key = ''index/'' @ ns in
        (Ok (), rebuild_sec_index_ns ext ns
           (st\<lparr>st_meta := (if r_value r = [] then bt_remove meta_key (st_meta st)
                           else bt_insert meta_key (r_value r) (st_meta st))\<rparr>))
      else (Err (Corrupt (Some ns) ''bad tag''), st))"

definition version_key :: "log_record \<Rightarrow> byte \<times> u64 \<times> bytes" where
  "version_key r = (r_tag r, r_hlc r, r_replica r)"

definition log_versions ::
  "extern \<Rightarrow> db \<Rightarrow> namespace \<Rightarrow> (storage_error, (byte \<times> u64 \<times> bytes) set) result" where
  "log_versions ext s ns =
     (case bt_get (st_logs (db_store s)) ns of
        None \<Rightarrow> Ok {}
      | Some l \<Rightarrow>
          (case read_records (l, nd_segs (ns_files ext (db_disk s) ns)) 1 0 of
             Inl e \<Rightarrow> Err e
           | Inr recs \<Rightarrow>
               Ok (set (concat (map (\<lambda>(_, bs). case parse_chain bs None of
                                                 Inr (r, _) \<Rightarrow> [version_key r]
                                               | Inl _ \<Rightarrow> []) recs)))))"

text \<open>The common part of \<open>apply_synced\<close> and \<open>apply_synced_batch\<close>: append the record and apply
  it.\<close>

definition sync_one :: "extern \<Rightarrow> namespace \<Rightarrow> log_record \<Rightarrow> db \<Rightarrow> (storage_error, unit) result \<times> db" where
  "sync_one ext ns r s =
     (case bt_get (st_logs (db_store s)) ns of
        None \<Rightarrow> (Err (NotFound ns), s)
      | Some l \<Rightarrow>
          let (sq, s) = log_write ext ns l r s in
          (case apply_record ext ns r sq (db_store s) of
             (Inl e, st) \<Rightarrow> (Err e, s\<lparr>db_store := st\<rparr>)
           | (Inr _, st) \<Rightarrow> (Ok (), s\<lparr>db_store := st\<lparr>st_revision := st_revision st + 1\<rparr>\<rparr>)))"

definition apply_synced :: "extern \<Rightarrow> namespace \<Rightarrow> log_record \<Rightarrow> db \<Rightarrow> (storage_error, bool) result \<times> db" where
  "apply_synced ext ns r s =
     (if \<not> bt_contains ns (st_policies (db_store s)) then (Err (BadName ns), s)
      else case log_versions ext s ns of
        Inl e \<Rightarrow> (Err e, s)
      | Inr seen \<Rightarrow>
          if version_key r \<in> seen then (Ok False, s)
          else (case sync_one ext ns r s of
                  (Inl e, s) \<Rightarrow> (Err e, s)
                | (Inr _, s) \<Rightarrow> (Ok True, s)))"

fun sync_loop ::
  "extern \<Rightarrow> namespace \<Rightarrow> log_record list \<Rightarrow> (byte \<times> u64 \<times> bytes) set \<Rightarrow> nat \<Rightarrow> db \<Rightarrow>
   (storage_error, nat) result \<times> db" where
  "sync_loop ext ns [] seen applied s = (Ok applied, s)"
| "sync_loop ext ns (r # rs) seen applied s =
     (if version_key r \<in> seen then sync_loop ext ns rs seen applied s
      else (case sync_one ext ns r s of
              (Inl e, s) \<Rightarrow> (Err e, s)
            | (Inr _, s) \<Rightarrow> sync_loop ext ns rs (Set.insert (version_key r) seen) (applied + 1) s))"

definition apply_synced_batch ::
  "extern \<Rightarrow> namespace \<Rightarrow> log_record list \<Rightarrow> db \<Rightarrow> (storage_error, nat) result \<times> db" where
  "apply_synced_batch ext ns rs s =
     (if \<not> bt_contains ns (st_policies (db_store s)) then (Err (BadName ns), s)
      else case log_versions ext s ns of
        Inl e \<Rightarrow> (Err e, s)
      | Inr seen \<Rightarrow> sync_loop ext ns rs seen 0 s)"

subsection \<open>Metadata and peer clocks\<close>

definition meta_get :: "store \<Rightarrow> string \<Rightarrow> bytes option" where
  "meta_get st k = bt_get (st_meta st) k"

definition meta_set :: "string \<Rightarrow> bytes \<Rightarrow> store \<Rightarrow> store" where
  "meta_set k v st = st\<lparr>st_meta := bt_insert k v (st_meta st), st_revision := st_revision st + 1\<rparr>"

definition set_peer_clock :: "string \<Rightarrow> int \<Rightarrow> store \<Rightarrow> store" where
  "set_peer_clock name diff st = st\<lparr>st_peer_clocks := bt_insert name diff (st_peer_clocks st)\<rparr>"

definition peer_clock :: "store \<Rightarrow> string \<Rightarrow> int option" where
  "peer_clock st name = bt_get (st_peer_clocks st) name"

subsection \<open>The database invariant\<close>

text \<open>What the store relies on of SHA-256 and of the \<open>hex\<close> crate.\<close>

definition ext_ok :: "extern \<Rightarrow> bool" where
  "ext_ok ext = (hash32 (sha256 ext) \<and> hex_ok ext)"

text \<open>The log of a namespace, in memory and on disk, holds the records \<open>bs\<close>, and its sidecar
  records its policy.\<close>

definition ns_log :: "extern \<Rightarrow> db \<Rightarrow> namespace \<Rightarrow> bytes list \<Rightarrow> bool" where
  "ns_log ext s ns bs =
     (\<exists>l d p. bt_get (st_logs (db_store s)) ns = Some l \<and> log_durable l = st_durable (db_store s) \<and>
        bt_get (st_policies (db_store s)) ns = Some p \<and>
        bt_get (dk_dirs (db_disk s)) (ns_dir ext ns) = Some d \<and> nd_policy d = Some [policy_to_u8 p] \<and>
        log_holds (sha256 ext) (l, nd_segs d) bs)"

definition db_inv :: "extern \<Rightarrow> db \<Rightarrow> bool" where
  "db_inv ext s =
     (state_inv (db_store s) \<and> names_ok (db_store s) \<and> bt_inv (dk_dirs (db_disk s)) \<and>
      (\<forall>ns. bt_contains ns (st_logs (db_store s)) \<longrightarrow> bt_contains ns (st_policies (db_store s))) \<and>
      (\<forall>ns. bt_contains ns (st_policies (db_store s)) \<longrightarrow> (\<exists>bs. ns_log ext s ns bs)) \<and>
      (\<forall>d. bt_contains d (dk_dirs (db_disk s)) \<longrightarrow> parse_ns_dir ext d \<noteq> None \<longrightarrow>
         (\<exists>ns. bt_contains ns (st_policies (db_store s)) \<and> d = ns_dir ext ns)))"

text \<open>The bytes of a record appended after the records \<open>bs\<close>.\<close>

definition next_bytes :: "extern \<Rightarrow> bytes list \<Rightarrow> log_record \<Rightarrow> bytes" where
  "next_bytes ext bs r = to_bytes r (chain_head (sha256 ext) zero32 bs)"

text \<open>The records of a list of encodings.\<close>

definition recs_of :: "bytes list \<Rightarrow> log_record list" where
  "recs_of bs = concat (map (\<lambda>b. case parse_chain b None of Inr (r, _) \<Rightarrow> [r] | Inl _ \<Rightarrow> []) bs)"

text \<open>Synchronising records one call at a time.\<close>

fun sync_each ::
  "extern \<Rightarrow> namespace \<Rightarrow> log_record list \<Rightarrow> nat \<Rightarrow> db \<Rightarrow> (storage_error, nat) result \<times> db" where
  "sync_each ext ns [] n s = (Ok n, s)"
| "sync_each ext ns (r # rs) n s =
     (case apply_synced ext ns r s of
        (Inl e, s) \<Rightarrow> (Err e, s)
      | (Inr fresh, s) \<Rightarrow> sync_each ext ns rs (if fresh then n + 1 else n) s)"

text \<open>A change of the in-memory state that keeps its invariant, its logs and its policies.\<close>

definition kept :: "store \<Rightarrow> store \<Rightarrow> bool" where
  "kept st st' = (state_inv st' \<and> st_logs st' = st_logs st \<and> st_policies st' = st_policies st \<and>
                  st_durable st' = st_durable st)"

text \<open>The write operations as steps, with arguments whose records can be encoded: 32-byte
  identities and a payload whose length fits its field.\<close>

definition put_record :: "key \<Rightarrow> bytes \<Rightarrow> u64 \<Rightarrow> bytes \<Rightarrow> bytes \<Rightarrow> u64 \<Rightarrow> log_record" where
  "put_record k val hlc replica author expires_at =
     Record (if expires_at = 0 then TAG_PUT else TAG_PUT_TTL) k hlc replica author val expires_at []"

definition meta_record :: "byte \<Rightarrow> bytes option \<Rightarrow> u64 \<Rightarrow> bytes \<Rightarrow> bytes \<Rightarrow> log_record" where
  "meta_record tag value hlc replica author =
     Record tag [] hlc replica author (case value of Some v \<Rightarrow> v | None \<Rightarrow> []) 0 []"

inductive db_step :: "extern \<Rightarrow> db \<Rightarrow> db \<Rightarrow> bool" for ext where
  Create: "db_step ext s (snd (create_namespace ext ns p s))"
| Put: "op_wf (put_record k val hlc replica author expires_at) \<Longrightarrow>
    db_step ext s (snd (store_put ext ns k val hlc replica author expires_at s))"
| Delete: "op_wf (Record TAG_DEL k hlc replica author [] 0 []) \<Longrightarrow>
    db_step ext s (snd (store_delete ext ns k hlc replica author s))"
| Batch: "rec_wf (batch_record ops) \<Longrightarrow> db_step ext s (snd (put_batch ext ns ops s))"
| SetIndex: "op_wf (meta_record TAG_INDEX value hlc replica author) \<Longrightarrow>
    db_step ext s (snd (set_index ext ns value hlc replica author s))"
| SetSchema: "op_wf (meta_record TAG_SCHEMA value hlc replica author) \<Longrightarrow>
    db_step ext s (snd (set_schema ext ns value hlc replica author s))"
| Synced: "rec_wf r \<Longrightarrow> db_step ext s (snd (apply_synced ext ns r s))"
| SyncedBatch: "\<forall>r \<in> set rs. rec_wf r \<Longrightarrow> db_step ext s (snd (apply_synced_batch ext ns rs s))"
| MetaSet: "db_step ext s (s\<lparr>db_store := meta_set k v (db_store s)\<rparr>)"
| PeerClock: "db_step ext s (s\<lparr>db_store := set_peer_clock name diff (db_store s)\<rparr>)"

definition grows :: "extern \<Rightarrow> db \<Rightarrow> db \<Rightarrow> bool" where
  "grows ext s s' = (db_inv ext s' \<and> (\<forall>ns bs. ns_log ext s ns bs \<longrightarrow> (\<exists>new. ns_log ext s' ns (bs @ new))))"

text \<open>A fresh data directory.\<close>

definition empty_db :: "bool \<Rightarrow> db" where
  "empty_db durable = \<lparr>db_store = empty_store durable, db_disk = \<lparr>dk_snap = None, dk_dirs = []\<rparr>\<rparr>"

section \<open>Changes of the in-memory state\<close>

lemma kept_refl: "state_inv st \<Longrightarrow> kept st st"
  by (simp add: kept_def)

lemma kept_trans: "kept a b \<Longrightarrow> kept b c \<Longrightarrow> kept a c"
  by (simp add: kept_def)

lemma ns_log_kept: "kept (db_store s) st \<Longrightarrow> ns_log ext (s\<lparr>db_store := st\<rparr>) ns bs = ns_log ext s ns bs"
  by (simp add: kept_def ns_log_def)

lemma db_inv_kept: "db_inv ext s \<Longrightarrow> kept (db_store s) st \<Longrightarrow> db_inv ext (s\<lparr>db_store := st\<rparr>)"
  by (auto simp: db_inv_def names_ok_def kept_def ns_log_def)

lemma state_inv_revision [simp]: "state_inv (st\<lparr>st_revision := n\<rparr>) = state_inv st"
  by (simp add: state_inv_def)

lemma kept_revision: "kept st st' \<Longrightarrow> kept st (st'\<lparr>st_revision := n\<rparr>)"
  by (simp add: kept_def)

lemma kept_meta: "state_inv st \<Longrightarrow> bt_inv m \<Longrightarrow> kept st (st\<lparr>st_meta := m\<rparr>)"
  by (simp add: kept_def state_inv_def)

lemma kept_sec: "state_inv st \<Longrightarrow> sec_only st st' \<Longrightarrow> kept st st'"
  by (simp add: kept_def state_inv_def sec_onlyD)

lemma kept_local: "state_inv st \<Longrightarrow> bt_contains ns (st_policies st) \<Longrightarrow> kept st (snd (apply_local_op ext ns r sq st))"
  by (auto simp: kept_def bt_contains_def intro: apply_local_op_inv)

lemma kept_record: "state_inv st \<Longrightarrow> bt_contains ns (st_policies st) \<Longrightarrow> kept st (snd (apply_record_op ext ns r sq st))"
  by (auto simp: kept_def bt_contains_def intro: apply_record_op_inv)

lemma apply_ops_fold:
  assumes "\<And>op st. op \<in> set ops \<Longrightarrow> P st \<Longrightarrow> fst (step op sq st) = Ok () \<and> P (snd (step op sq st))" "P st"
  shows "apply_ops step ops sq st = (Ok (), fold (\<lambda>op st. snd (step op sq st)) ops st) \<and>
    P (fold (\<lambda>op st. snd (step op sq st)) ops st)"
  using assms
proof (induction ops arbitrary: st)
  case (Cons op ops)
  have o: "fst (step op sq st) = Ok ()" "P (snd (step op sq st))" using Cons(2) [of op st] Cons(3) by auto
  obtain r st1 where rs: "step op sq st = (r, st1)" by (cases "step op sq st")
  have "apply_ops step ops sq st1 = (Ok (), fold (\<lambda>op st. snd (step op sq st)) ops st1) \<and>
      P (fold (\<lambda>op st. snd (step op sq st)) ops st1)"
    by (rule Cons(1)) (use Cons(2) o rs in auto)
  then show ?case using o rs by simp
qed simp

lemma kept_apply_ops:
  assumes "\<And>op st. state_inv st \<Longrightarrow> bt_contains ns (st_policies st) \<Longrightarrow> kept st (snd (step op sq st))"
    and "state_inv st" "bt_contains ns (st_policies st)"
  shows "kept st (snd (apply_ops step ops sq st))"
  using assms(2,3)
proof (induction ops arbitrary: st)
  case (Cons op ops)
  obtain r st1 where rs: "step op sq st = (r, st1)" by (cases "step op sq st")
  have k: "kept st st1" using assms(1) [OF Cons(2,3), of op] rs by simp
  then have "kept st1 (snd (apply_ops step ops sq st1))"
    using Cons by (intro Cons(1)) (auto simp: kept_def)
  then show ?case using rs k by (auto split: sum.splits intro: kept_trans)
qed (simp add: kept_refl)

lemma kept_apply_record:
  assumes "state_inv st" "bt_contains ns (st_policies st)"
  shows "kept st (snd (apply_record ext ns r sq st))"
proof -
  have m: "kept st (rebuild_sec_index_ns ext ns (st\<lparr>st_meta := m\<rparr>))" if "bt_inv m" for m
    by (rule kept_trans [OF kept_meta [OF assms(1) that] kept_sec])
       (use kept_meta [OF assms(1) that] in \<open>auto simp: kept_def sec_only_rebuild_ns\<close>)
  show ?thesis
    using kept_record [OF assms] kept_apply_ops [OF kept_record assms] state_invD(4) [OF assms(1)]
      kept_refl [OF assms(1)] m kept_meta [OF assms(1)]
    by (auto simp: apply_record_def Let_def)
qed

section \<open>Writing the log\<close>

lemma db_invD:
  assumes "db_inv ext s"
  shows "state_inv (db_store s)" "names_ok (db_store s)" "bt_inv (dk_dirs (db_disk s))"
    "bt_contains ns (st_logs (db_store s)) \<Longrightarrow> bt_contains ns (st_policies (db_store s))"
    "bt_contains ns (st_policies (db_store s)) \<Longrightarrow> \<exists>bs. ns_log ext s ns bs"
    "bt_contains d (dk_dirs (db_disk s)) \<Longrightarrow> parse_ns_dir ext d \<noteq> None \<Longrightarrow>
       \<exists>ns. bt_contains ns (st_policies (db_store s)) \<and> d = ns_dir ext ns"
  using assms by (auto simp: db_inv_def)

lemma ns_log_valid: "db_inv ext s \<Longrightarrow> ns_log ext s ns bs \<Longrightarrow> valid_ns ns"
  by (auto simp: ns_log_def bt_contains_def names_ok_def dest!: db_invD(2))

lemma ns_log_get:
  assumes "ns_log ext s ns bs"
  obtains l where "bt_get (st_logs (db_store s)) ns = Some l"
    "log_holds (sha256 ext) (l, nd_segs (ns_files ext (db_disk s) ns)) bs"
    "bt_contains ns (st_policies (db_store s))"
  using assms by (auto simp: ns_log_def ns_files_def bt_contains_def)

lemma log_append_durable [simp]: "log_durable (fst (fst (log_append h b lf))) = log_durable (fst lf)"
  by (cases lf) (simp add: log_append_def Let_def)

text \<open>Writing a record extends the log of its namespace by one and touches nothing else.\<close>

lemma log_write_effect:
  assumes ok: "ext_ok ext" and inv: "db_inv ext s" and lg: "ns_log ext s ns bs"
    and l: "bt_get (st_logs (db_store s)) ns = Some l" and wf: "rec_wf r"
  shows "fst (log_write ext ns l r s) = length bs + 1"
    and "ns_log ext (snd (log_write ext ns l r s)) ns (bs @ [next_bytes ext bs r])"
    and "n \<noteq> ns \<Longrightarrow> bt_contains n (st_policies (db_store s)) \<Longrightarrow>
      ns_log ext (snd (log_write ext ns l r s)) n bs' = ns_log ext s n bs'"
    and "\<exists>l'. db_store (snd (log_write ext ns l r s)) =
      (db_store s)\<lparr>st_logs := bt_insert ns l' (st_logs (db_store s))\<rparr>"
    and "dk_snap (db_disk (snd (log_write ext ns l r s))) = dk_snap (db_disk s)"
    and "db_inv ext (snd (log_write ext ns l r s))"
proof -
  note iv = db_invD [OF inv]
  obtain d p where d: "log_durable l = st_durable (db_store s)"
      "bt_get (st_policies (db_store s)) ns = Some p"
      "bt_get (dk_dirs (db_disk s)) (ns_dir ext ns) = Some d" "nd_policy d = Some [policy_to_u8 p]"
      "log_holds (sha256 ext) (l, nd_segs d) bs"
    using lg l by (auto simp: ns_log_def)
  have nf: "ns_files ext (db_disk s) ns = d" by (simp add: ns_files_def d(3))
  have hd: "log_head l = chain_head (sha256 ext) zero32 bs" using log_holds_head [OF d(5)] by simp
  let ?a = "log_append (sha256 ext) (to_bytes r (log_head l)) (l, nd_segs d)"
  obtain l' files sq where a: "?a = ((l', files), sq)" by (metis prod.collapse)
  have h: "hash32 (sha256 ext) \<and> log_holds (sha256 ext) (l, nd_segs d) bs" using ok d(5) by (simp add: ext_ok_def)
  note app = lg.app_record [OF h wf, simplified fst_conv a snd_conv]
  have dur: "log_durable l' = log_durable l" using log_append_durable [of "sha256 ext" "to_bytes r (log_head l)" "(l, nd_segs d)"] a by simp
  define s' where "s' = s\<lparr>db_store := (db_store s)\<lparr>st_logs := bt_insert ns l' (st_logs (db_store s))\<rparr>,
      db_disk := set_ns_files ext ns (d\<lparr>nd_segs := files\<rparr>) (db_disk s)\<rparr>"
  have lw: "log_write ext ns l r s = (sq, s')" by (simp add: log_write_def nf a Let_def s'_def)
  note bi = state_invD(5) [OF iv(1)] iv(3)
  have sq: "sq = length bs + 1" using app(2) .
  have own: "ns_log ext s' ns (bs @ [next_bytes ext bs r])"
    unfolding ns_log_def s'_def next_bytes_def hd [symmetric]
    using app(1) d dur bi by (simp add: set_ns_files_def bt_get_insert)
  have vns: "valid_ns ns" by (rule ns_log_valid [OF inv lg])
  have other: "ns_log ext s' n bs' = ns_log ext s n bs'"
    if "n \<noteq> ns" "bt_contains n (st_policies (db_store s))" for n bs'
  proof -
    have "ns_dir ext n \<noteq> ns_dir ext ns"
      using ns_dir_inj [OF _ _ vns, of ext n] that ok iv(2) by (auto simp: names_ok_def ext_ok_def)
    then show ?thesis
      using that bi unfolding ns_log_def s'_def by (simp add: set_ns_files_def bt_get_insert)
  qed
  show "fst (log_write ext ns l r s) = length bs + 1" by (simp add: lw sq)
  show "ns_log ext (snd (log_write ext ns l r s)) ns (bs @ [next_bytes ext bs r])" using own by (simp add: lw)
  show "ns_log ext (snd (log_write ext ns l r s)) n bs' = ns_log ext s n bs'"
    if "n \<noteq> ns" "bt_contains n (st_policies (db_store s))" using other [OF that] by (simp add: lw)
  show "\<exists>l'. db_store (snd (log_write ext ns l r s)) =
      (db_store s)\<lparr>st_logs := bt_insert ns l' (st_logs (db_store s))\<rparr>" by (auto simp: lw s'_def)
  show "dk_snap (db_disk (snd (log_write ext ns l r s))) = dk_snap (db_disk s)"
    by (simp add: lw s'_def set_ns_files_def)
  have c: "bt_contains ns (st_policies (db_store s))" by (simp add: bt_contains_def d(2))
  have "\<exists>bs. ns_log ext s' n bs" if "bt_contains n (st_policies (db_store s))" for n
    using own other [OF _ that] iv(5) [OF that] by (cases "n = ns") auto
  moreover have "state_inv (db_store s')" using iv(1) by (simp add: s'_def state_inv_def)
  moreover have "\<exists>n. bt_contains n (st_policies (db_store s)) \<and> e = ns_dir ext n"
    if "bt_contains e (dk_dirs (db_disk s'))" "parse_ns_dir ext e \<noteq> None" for e
    using that bi c iv(6) [OF _ that(2)] by (auto simp: s'_def set_ns_files_def)
  moreover have "bt_contains n (st_policies (db_store s))" if "bt_contains n (st_logs (db_store s'))" for n
    using that bi c iv(4) by (auto simp: s'_def)
  ultimately have "db_inv ext s'"
    using iv(2,3) unfolding db_inv_def by (simp add: s'_def names_ok_def set_ns_files_def)
  then show "db_inv ext (snd (log_write ext ns l r s))" by (simp add: lw)
qed

lemma write_step:
  assumes "ext_ok ext" "db_inv ext s" "ns_log ext s ns bs"
    and "bt_get (st_logs (db_store s)) ns = Some l" "rec_wf r"
    and "kept (db_store (snd (log_write ext ns l r s))) st"
  shows "db_inv ext ((snd (log_write ext ns l r s))\<lparr>db_store := st\<rparr>)"
    and "ns_log ext ((snd (log_write ext ns l r s))\<lparr>db_store := st\<rparr>) ns (bs @ [next_bytes ext bs r])"
    and "n \<noteq> ns \<Longrightarrow> bt_contains n (st_policies (db_store s)) \<Longrightarrow>
      ns_log ext ((snd (log_write ext ns l r s))\<lparr>db_store := st\<rparr>) n bs' = ns_log ext s n bs'"
  using log_write_effect [OF assms(1-5)] assms(6) by (auto simp: ns_log_kept intro: db_inv_kept)

lemma log_write_store:
  assumes "ext_ok ext" "db_inv ext s" "ns_log ext s ns bs"
    and "bt_get (st_logs (db_store s)) ns = Some l" "rec_wf r"
  shows "state_inv (db_store (snd (log_write ext ns l r s)))"
    and "st_index (db_store (snd (log_write ext ns l r s))) = st_index (db_store s)"
    and "st_tombs (db_store (snd (log_write ext ns l r s))) = st_tombs (db_store s)"
    and "st_policies (db_store (snd (log_write ext ns l r s))) = st_policies (db_store s)"
    and "st_meta (db_store (snd (log_write ext ns l r s))) = st_meta (db_store s)"
    and "st_sec (db_store (snd (log_write ext ns l r s))) = st_sec (db_store s)"
  using log_write_effect(4) [OF assms] db_invD(1) [OF log_write_effect(6) [OF assms]] by auto

text \<open>The records the write operations build.\<close>

lemma rec_wf_op: "op_wf r \<Longrightarrow> valid_tag (r_tag r) \<Longrightarrow> r_tag r \<noteq> TAG_BATCH \<Longrightarrow> rec_wf r"
  by (simp add: rec_wf_def)

lemma valid_tags [simp]:
  "valid_tag TAG_PUT" "valid_tag TAG_DEL" "valid_tag TAG_PUT_TTL" "valid_tag TAG_SCHEMA"
  "valid_tag TAG_INDEX" "valid_tag TAG_BATCH"
  by (simp_all add: valid_tag_def)

section \<open>What the operations do\<close>

lemma local_write_effect:
  assumes "ext_ok ext" "db_inv ext s" "ns_log ext s ns bs"
    and "bt_get (st_logs (db_store s)) ns = Some l" "rec_wf r" "is_put r \<or> is_del r"
  obtains s1 st where "log_write ext ns l r s = (length bs + 1, s1)"
    "apply_local_op ext ns r (length bs + 1) (db_store s1) = (Ok (), st)"
    "db_inv ext (s1\<lparr>db_store := st\<rparr>)" "ns_log ext (s1\<lparr>db_store := st\<rparr>) ns (bs @ [next_bytes ext bs r])"
    "\<And>n bs'. n \<noteq> ns \<Longrightarrow> bt_contains n (st_policies (db_store s)) \<Longrightarrow>
       ns_log ext (s1\<lparr>db_store := st\<rparr>) n bs' = ns_log ext s n bs'"
proof -
  let ?s1 = "snd (log_write ext ns l r s)"
  let ?st = "snd (apply_local_op ext ns r (length bs + 1) (db_store ?s1))"
  note w = log_write_store [OF assms(1-5)]
  have c: "bt_contains ns (st_policies (db_store s))" using assms(3) by (auto elim: ns_log_get)
  then obtain p where p: "bt_get (st_policies (db_store ?s1)) ns = Some p" by (auto simp: w(4) bt_contains_def)
  have k: "kept (db_store ?s1) ?st" by (rule kept_local [OF w(1)]) (simp add: w(4) c)
  have "apply_local_op ext ns r (length bs + 1) (db_store ?s1) = (Ok (), ?st)"
    using assms(6) apply_local_op_put(1) [OF w(1) p] apply_local_op_del(1) [OF w(1) p]
    by (metis prod.collapse)
  moreover have "log_write ext ns l r s = (length bs + 1, ?s1)"
    using log_write_effect(1) [OF assms(1-5)] by (metis prod.collapse)
  ultimately show thesis using that write_step [OF assms(1-5) k] by blast
qed

lemma apply_record_op_ok:
  assumes "state_inv st" "bt_contains ns (st_policies st)" "valid_sub_tag (r_tag r)"
  shows "fst (apply_record_op ext ns r sq st) = Ok ()"
proof -
  obtain p where p: "bt_get (st_policies st) ns = Some p" using assms(2) by (auto simp: bt_contains_def)
  show ?thesis
    using assms(3) apply_record_op_put(1) [OF assms(1) p] apply_record_op_del(1) [OF assms(1) p]
    by (auto simp: valid_sub_tag_def is_put_def is_del_def)
qed

lemma apply_local_op_ok:
  assumes "state_inv st" "bt_contains ns (st_policies st)" "valid_sub_tag (r_tag r)"
  shows "fst (apply_local_op ext ns r sq st) = Ok ()"
proof -
  obtain p where p: "bt_get (st_policies st) ns = Some p" using assms(2) by (auto simp: bt_contains_def)
  show ?thesis
    using assms(3) apply_local_op_put(1) [OF assms(1) p] apply_local_op_del(1) [OF assms(1) p]
    by (auto simp: valid_sub_tag_def is_put_def is_del_def)
qed

lemma apply_record_ok:
  assumes "state_inv st" "bt_contains ns (st_policies st)" "rec_wf r"
  shows "fst (apply_record ext ns r sq st) = Ok ()"
proof (cases "r_tag r = TAG_BATCH")
  case True
  have "fst (apply_record_op ext ns op sq st) = Ok () \<and>
      (state_inv (snd (apply_record_op ext ns op sq st)) \<and>
       bt_contains ns (st_policies (snd (apply_record_op ext ns op sq st))))"
    if "op \<in> set (r_ops r)" "state_inv st \<and> bt_contains ns (st_policies st)" for op st
    using apply_record_op_ok [of st ns op] kept_record [of st ns] that assms(3) True
    by (auto simp: rec_wf_def kept_def)
  then have "fst (apply_ops (apply_record_op ext ns) (r_ops r) sq st) = Ok ()"
    using apply_ops_fold [of "r_ops r" "\<lambda>st. state_inv st \<and> bt_contains ns (st_policies st)"
        "apply_record_op ext ns" sq st] assms(1,2) by auto
  then show ?thesis using True by (simp add: apply_record_def)
next
  case False
  then show ?thesis
    using assms apply_record_op_ok [OF assms(1,2), of r]
    by (auto simp: apply_record_def rec_wf_def valid_tag_def valid_sub_tag_def Let_def)
qed

lemma recs_of_append [simp]: "recs_of (xs @ ys) = recs_of xs @ recs_of ys"
  by (simp add: recs_of_def)

lemma recs_of_next:
  assumes "ext_ok ext" "rec_wf r"
  shows "recs_of [next_bytes ext bs r] = [r]"
  using parse_chain_to_bytes [OF assms(2), of "chain_head (sha256 ext) zero32 bs" None]
    chain_head32 [of "sha256 ext" zero32 bs] assms(1)
  by (simp add: recs_of_def next_bytes_def ext_ok_def)

lemma log_window_all: "map snd (log_window 1 0 bs) = bs"
  by (auto simp: log_window_def comp_def map_nth)

lemma log_records_window:
  assumes "ext_ok ext" "ns_log ext s ns bs"
  shows "log_records ext s ns from_seq max_n = Ok (log_window from_seq max_n bs)"
proof -
  obtain l where l: "bt_get (st_logs (db_store s)) ns = Some l"
    "log_holds (sha256 ext) (l, nd_segs (ns_files ext (db_disk s) ns)) bs" using ns_log_get [OF assms(2)] .
  then show ?thesis
    using lg.rd_window [of "sha256 ext" _ bs] assms(1) by (simp add: log_records_def ext_ok_def)
qed

lemma log_versions_eq:
  assumes "ext_ok ext" "ns_log ext s ns bs"
  shows "log_versions ext s ns = Ok (version_key ` set (recs_of bs))"
proof -
  obtain l where l: "bt_get (st_logs (db_store s)) ns = Some l" using ns_log_get [OF assms(2)] .
  have f: "(\<lambda>(_, b). case parse_chain b None of Inr (r, _) \<Rightarrow> [version_key r] | Inl _ \<Rightarrow> []) =
      (\<lambda>b. map version_key (case parse_chain b None of Inr (r, _) \<Rightarrow> [r] | Inl _ \<Rightarrow> [])) \<circ> snd"
    by (auto simp: fun_eq_iff split: sum.splits)
  have rd: "read_records (l, nd_segs (ns_files ext (db_disk s) ns)) 1 0 = Ok (log_window 1 0 bs)"
    using log_records_window [OF assms, of 1 0] l by (simp add: log_records_def)
  show ?thesis
    unfolding log_versions_def l option.case rd sum.case f map_map [symmetric] log_window_all
    by (simp only: set_concat set_map recs_of_def image_UN image_image comp_def)
qed

lemma sync_one_effect:
  assumes "ext_ok ext" "db_inv ext s" "ns_log ext s ns bs" "rec_wf r"
  obtains s' where "sync_one ext ns r s = (Ok (), s')" "db_inv ext s'"
    "ns_log ext s' ns (bs @ [next_bytes ext bs r])"
    "\<And>n bs'. n \<noteq> ns \<Longrightarrow> bt_contains n (st_policies (db_store s)) \<Longrightarrow> ns_log ext s' n bs' = ns_log ext s n bs'"
proof -
  obtain l where l: "bt_get (st_logs (db_store s)) ns = Some l" "bt_contains ns (st_policies (db_store s))"
    using ns_log_get [OF assms(3)] .
  let ?s1 = "snd (log_write ext ns l r s)"
  note w = log_write_store [OF assms(1-3) l(1) assms(4)]
  have c: "bt_contains ns (st_policies (db_store ?s1))" using l(2) by (simp add: w(4))
  define st where "st = snd (apply_record ext ns r (length bs + 1) (db_store ?s1))"
  have ap: "apply_record ext ns r (length bs + 1) (db_store ?s1) = (Ok (), st)"
    using apply_record_ok [OF w(1) c assms(4)] unfolding st_def by (metis prod.collapse)
  have k: "kept (db_store ?s1) (st\<lparr>st_revision := st_revision st + 1\<rparr>)"
    unfolding st_def by (intro kept_revision kept_apply_record w(1) c)
  have lw: "log_write ext ns l r s = (length bs + 1, ?s1)"
    using log_write_effect(1) [OF assms(1-3) l(1) assms(4)] by (metis prod.collapse)
  have "sync_one ext ns r s = (Ok (), ?s1\<lparr>db_store := st\<lparr>st_revision := st_revision st + 1\<rparr>\<rparr>)"
    unfolding sync_one_def l(1) option.case by (subst lw) (simp add: ap [simplified])
  then show thesis using that write_step [OF assms(1-3) l(1) assms(4) k] by blast
qed

lemma sync_loop_effect:
  assumes "ext_ok ext" "db_inv ext s" "ns_log ext s ns bs" "\<forall>r \<in> set rs. rec_wf r"
  shows "\<exists>s' new. sync_loop ext ns rs (version_key ` set (recs_of bs)) n s = (Ok (n + length new), s') \<and>
    sync_each ext ns rs n s = (Ok (n + length new), s') \<and> db_inv ext s' \<and> ns_log ext s' ns (bs @ new) \<and>
    version_key ` set (recs_of (bs @ new)) = version_key ` set (recs_of bs) \<union> version_key ` set rs"
  using assms(2-4)
proof (induction rs arbitrary: s bs n)
  case Nil
  then show ?case by (intro exI [of _ s] exI [of _ "[]"]) simp
next
  case (Cons r rs)
  have c: "bt_contains ns (st_policies (db_store s))" using Cons(3) by (auto elim: ns_log_get)
  note v = log_versions_eq [OF assms(1) Cons(3)]
  show ?case
  proof (cases "version_key r \<in> version_key ` set (recs_of bs)")
    case True
    have "apply_synced ext ns r s = (Ok False, s)" using c v True by (simp add: apply_synced_def)
    then show ?thesis using Cons(1) [OF Cons(2,3), of n] Cons(4) True by (auto simp: insert_absorb)
  next
    case False
    obtain s1 where s1: "sync_one ext ns r s = (Ok (), s1)" "db_inv ext s1"
        "ns_log ext s1 ns (bs @ [next_bytes ext bs r])"
      by (rule sync_one_effect [OF assms(1) Cons(2,3), of r]) (use Cons(4) in auto)
    have rn: "recs_of [next_bytes ext bs r] = [r]" using recs_of_next [OF assms(1)] Cons(4) by simp
    have ap: "apply_synced ext ns r s = (Ok True, s1)" using c v False s1(1) by (simp add: apply_synced_def)
    obtain s' new where s': "sync_loop ext ns rs (version_key ` set (recs_of (bs @ [next_bytes ext bs r]))) (n + 1) s1 = (Ok (n + 1 + length new), s')"
        "sync_each ext ns rs (n + 1) s1 = (Ok (n + 1 + length new), s')" "db_inv ext s'"
        "ns_log ext s' ns ((bs @ [next_bytes ext bs r]) @ new)"
        "version_key ` set (recs_of ((bs @ [next_bytes ext bs r]) @ new)) =
           version_key ` set (recs_of (bs @ [next_bytes ext bs r])) \<union> version_key ` set rs"
      using Cons(1) [OF s1(2,3), of "n + 1"] Cons(4) by auto
    show ?thesis
      using s' s1(1) ap False rn by (intro exI [of _ s'] exI [of _ "next_bytes ext bs r # new"]) (simp add: Un_commute)
  qed
qed

lemma sync_loop_seen: "\<forall>r \<in> set rs. version_key r \<in> seen \<Longrightarrow> sync_loop ext ns rs seen n s = (Ok n, s)"
  by (induction rs) auto

lemma fresh_dir:
  assumes "ext_ok ext" "db_inv ext s" "valid_ns ns" "\<not> bt_contains ns (st_policies (db_store s))"
  shows "bt_get (dk_dirs (db_disk s)) (ns_dir ext ns) = None"
proof (rule ccontr)
  have h: "hex_ok ext" using assms(1) by (simp add: ext_ok_def)
  assume "bt_get (dk_dirs (db_disk s)) (ns_dir ext ns) \<noteq> None"
  then have "bt_contains (ns_dir ext ns) (dk_dirs (db_disk s))" by (simp add: bt_contains_def)
  moreover have "parse_ns_dir ext (ns_dir ext ns) \<noteq> None"
    unfolding parse_ns_dir_ns_dir [OF h assms(3)] by simp
  ultimately obtain n where n: "bt_contains n (st_policies (db_store s))" "ns_dir ext ns = ns_dir ext n"
    using db_invD(6) [OF assms(2)] by blast
  moreover have "valid_ns n" using n(1) db_invD(2) [OF assms(2)] by (simp add: names_ok_def)
  ultimately show False using ns_dir_inj [OF h assms(3), of n] assms(4) by simp
qed

lemma create_namespace_effect:
  assumes "ext_ok ext" "db_inv ext s" "valid_ns ns" "\<not> bt_contains ns (st_policies (db_store s))"
  obtains s' where "create_namespace ext ns p s = (Ok (), s')" "db_inv ext s'" "ns_log ext s' ns []"
    "bt_get (st_policies (db_store s')) ns = Some p"
    "\<And>n bs. n \<noteq> ns \<Longrightarrow> bt_contains n (st_policies (db_store s)) \<Longrightarrow> ns_log ext s' n bs = ns_log ext s n bs"
    "st_index (db_store s') = st_index (db_store s)" "st_tombs (db_store s') = st_tombs (db_store s)"
proof -
  let ?st = "db_store s"
  note iv = db_invD [OF assms(2)] and fd = fresh_dir [OF assms]
  note bi = state_invD(1,5) [OF iv(1)] iv(3)
  let ?l = "log_of (sha256 ext) (st_durable ?st) [[]]"
  have nf: "ns_files ext (db_disk s) ns = \<lparr>nd_segs = [], nd_policy = None\<rparr>" by (simp add: ns_files_def fd)
  define s' where "s' = s\<lparr>db_store := ?st\<lparr>st_policies := bt_insert ns p (st_policies ?st),
      st_logs := bt_insert ns ?l (st_logs ?st), st_revision := st_revision ?st + 1\<rparr>,
      db_disk := set_ns_files ext ns \<lparr>nd_segs = [(0, [])], nd_policy = Some [policy_to_u8 p]\<rparr> (db_disk s)\<rparr>"
  have c: "create_namespace ext ns p s = (Ok (), s')"
    using assms(3,4) recover_empty [of "[]" "sha256 ext" "ns_dir ext ns" "st_durable ?st"]
    by (simp add: create_namespace_def nf Let_def s'_def)
  have pol: "bt_contains n (st_policies (db_store s')) \<longleftrightarrow> n = ns \<or> bt_contains n (st_policies ?st)" for n
    using bi by (auto simp: s'_def)
  have own: "ns_log ext s' ns []"
    using bi empty_log_holds by (simp add: ns_log_def s'_def set_ns_files_def bt_get_insert log_of_def)
  have other: "ns_log ext s' n bs = ns_log ext s n bs"
    if "n \<noteq> ns" "bt_contains n (st_policies ?st)" for n bs
  proof -
    have "ns_dir ext n \<noteq> ns_dir ext ns"
      using ns_dir_inj [OF _ _ assms(3), of ext n] that assms(1) iv(2) by (auto simp: names_ok_def ext_ok_def)
    then show ?thesis using that bi unfolding ns_log_def s'_def by (simp add: set_ns_files_def bt_get_insert)
  qed
  have "entry_ok p' e \<Longrightarrow> bt_get (st_policies ?st) n = Some p' \<Longrightarrow> \<exists>q. bt_get (st_policies (db_store s')) n = Some q \<and> entry_ok q e"
    for n p' e using assms(4) bi by (auto simp: s'_def bt_get_insert bt_contains_def)
  then have inv: "state_inv (db_store s')"
    using iv(1) bi unfolding state_inv_def by (fastforce simp: s'_def)
  have dirs: "\<exists>n. bt_contains n (st_policies (db_store s')) \<and> e = ns_dir ext n"
    if "bt_contains e (dk_dirs (db_disk s'))" "parse_ns_dir ext e \<noteq> None" for e
    using that bi pol iv(6) [OF _ that(2)] by (auto simp: s'_def set_ns_files_def)
  have logs: "\<exists>bs. ns_log ext s' n bs" if "bt_contains n (st_policies (db_store s'))" for n
    using that own other [of n] iv(5) [of n] pol by (cases "n = ns") auto
  have "bt_inv (dk_dirs (db_disk s'))" "names_ok (db_store s')"
    "bt_contains n (st_logs (db_store s')) \<Longrightarrow> bt_contains n (st_policies (db_store s'))" for n
    using bi pol assms(3) iv(2,4) by (auto simp: names_ok_def s'_def set_ns_files_def)
  then have "db_inv ext s'" unfolding db_inv_def using inv dirs logs by blast
  then show thesis using that [OF c _ own _ other] bi by (simp add: s'_def bt_get_insert)
qed

section \<open>Reachable databases\<close>

lemma grows_refl: "db_inv ext s \<Longrightarrow> grows ext s s"
  by (auto simp: grows_def intro: exI [of _ "[]"])

lemma grows_trans: "grows ext a b \<Longrightarrow> grows ext b c \<Longrightarrow> grows ext a c"
  unfolding grows_def by (metis append_assoc)

lemma grows_kept: "db_inv ext s \<Longrightarrow> kept (db_store s) st \<Longrightarrow> grows ext s (s\<lparr>db_store := st\<rparr>)"
  by (auto simp: grows_def ns_log_kept intro: db_inv_kept exI [of _ "[]"])

lemma ns_log_unique: "ns_log ext s ns bs \<Longrightarrow> bt_contains ns (st_policies (db_store s))"
  by (auto simp: ns_log_def bt_contains_def)

lemma growsI:
  assumes "db_inv ext s'"
    and "\<And>n bs. ns_log ext s n bs \<Longrightarrow> n \<noteq> ns \<Longrightarrow> ns_log ext s' n bs"
    and "\<And>bs. ns_log ext s ns bs \<Longrightarrow> \<exists>new. ns_log ext s' ns (bs @ new)"
  shows "grows ext s s'"
  unfolding grows_def
proof (intro conjI allI impI assms(1))
  fix n bs assume "ns_log ext s n bs"
  then show "\<exists>new. ns_log ext s' n (bs @ new)"
    using assms(2) [of n bs] assms(3) [of bs] by (cases "n = ns") (auto intro: exI [of _ "[]"])
qed

lemma grows_write:
  assumes "ext_ok ext" "db_inv ext s" "bt_get (st_logs (db_store s)) ns = Some l" "rec_wf r"
    and "kept (db_store (snd (log_write ext ns l r s))) st"
  shows "grows ext s ((snd (log_write ext ns l r s))\<lparr>db_store := st\<rparr>)"
proof -
  have "bt_contains ns (st_policies (db_store s))"
    using db_invD(4) [OF assms(2), of ns] assms(3) by (simp add: bt_contains_def)
  then obtain bs where b: "ns_log ext s ns bs" using db_invD(5) [OF assms(2)] by blast
  note w = write_step [OF assms(1,2) _ assms(3-5)]
  show ?thesis
    by (rule growsI [of _ _ _ ns]) (use w b ns_log_unique in \<open>auto intro: exI\<close>)
qed

lemma grows_write':
  assumes "ext_ok ext" "db_inv ext s" "bt_get (st_logs (db_store s)) ns = Some l" "rec_wf r"
    and "log_write ext ns l r s = (sq, s1)"
    and "\<And>st. state_inv st \<Longrightarrow> bt_contains ns (st_policies st) \<Longrightarrow> kept st (f st)"
  shows "grows ext s (s1\<lparr>db_store := f (db_store s1)\<rparr>)"
proof -
  have c: "bt_contains ns (st_policies (db_store s))"
    using db_invD(4) [OF assms(2), of ns] assms(3) by (simp add: bt_contains_def)
  then obtain bs where b: "ns_log ext s ns bs" using db_invD(5) [OF assms(2)] by blast
  note w = log_write_store [OF assms(1,2) b assms(3,4)]
  have "kept (db_store s1) (f (db_store s1))"
    using w(1) w(4) c assms(5) by (intro assms(6)) simp_all
  then show ?thesis using grows_write [OF assms(1-4)] assms(5) by simp
qed

lemma grows_local:
  assumes "ext_ok ext" "db_inv ext s" "bt_get (st_logs (db_store s)) ns = Some l" "rec_wf r"
    and "log_write ext ns l r s = (sq, s1)" "apply_local_op ext ns r' sq (db_store s1) = (res, st)"
  shows "grows ext s (s1\<lparr>db_store := st\<rparr>)"
  using grows_write' [OF assms(1-5), of "\<lambda>st. snd (apply_local_op ext ns r' sq st)"] kept_local assms(6)
  by simp

lemma grows_local_ops:
  assumes "ext_ok ext" "db_inv ext s" "bt_get (st_logs (db_store s)) ns = Some l" "rec_wf r"
    and "log_write ext ns l r s = (sq, s1)"
    and "apply_ops (apply_local_op ext ns) ops sq (db_store s1) = (res, st)"
  shows "grows ext s (s1\<lparr>db_store := st\<rparr>)"
  using grows_write' [OF assms(1-5), of "\<lambda>st. snd (apply_ops (apply_local_op ext ns) ops sq st)"]
    kept_apply_ops [OF kept_local] assms(6) by simp

lemma step_grows_local:
  assumes "ext_ok ext" "db_inv ext s"
  shows "op_wf (put_record k val hlc replica author ex) \<Longrightarrow>
      grows ext s (snd (store_put ext ns k val hlc replica author ex s))"
    and "op_wf (Record TAG_DEL k hlc replica author [] 0 []) \<Longrightarrow>
      grows ext s (snd (store_delete ext ns k hlc replica author s))"
    and "rec_wf (batch_record ops) \<Longrightarrow> grows ext s (snd (put_batch ext ns ops s))"
proof -
  note g = grows_refl [OF assms(2)]
  note splits = option.splits prod.splits sum.splits
  show "grows ext s (snd (store_put ext ns k val hlc replica author ex s))"
    if "op_wf (put_record k val hlc replica author ex)"
  proof -
    have "rec_wf (put_record k val hlc replica author ex)"
      by (rule rec_wf_op [OF that]) (auto simp: put_record_def)
    from grows_local [OF assms _ this] show ?thesis
      unfolding store_put_def put_record_def [symmetric] Let_def using g by (auto split: splits)
  qed
  show "grows ext s (snd (store_delete ext ns k hlc replica author s))"
    if "op_wf (Record TAG_DEL k hlc replica author [] 0 [])"
  proof -
    have "rec_wf (Record TAG_DEL k hlc replica author [] 0 [])" by (rule rec_wf_op [OF that]) simp_all
    from grows_local [OF assms _ this] show ?thesis
      unfolding store_delete_def Let_def using g by (auto split: splits)
  qed
  show "grows ext s (snd (put_batch ext ns ops s))" if "rec_wf (batch_record ops)"
  proof (cases ops)
    case (Cons op0 ops')
    have r: "Record TAG_BATCH [] (r_hlc (ops ! 0)) (r_replica (ops ! 0)) (r_author (ops ! 0)) [] 0 ops = batch_record ops"
      by (simp add: batch_record_def Cons)
    from grows_local_ops [OF assms _ that] show ?thesis
      unfolding put_batch_def r Let_def using g by (auto split: splits)
  qed (simp add: g put_batch_def)
qed

lemma kept_meta_op:
  assumes "state_inv st" "bt_inv m"
  shows "kept st ((rebuild_sec_index_ns ext ns (st\<lparr>st_meta := m\<rparr>))\<lparr>st_revision := n\<rparr>)"
    and "kept st (st\<lparr>st_meta := m, st_revision := n\<rparr>)"
proof -
  note k = kept_meta [OF assms]
  have "kept (st\<lparr>st_meta := m\<rparr>) (rebuild_sec_index_ns ext ns (st\<lparr>st_meta := m\<rparr>))"
    by (rule kept_sec) (use k in \<open>auto simp: kept_def sec_only_rebuild_ns\<close>)
  then show "kept st ((rebuild_sec_index_ns ext ns (st\<lparr>st_meta := m\<rparr>))\<lparr>st_revision := n\<rparr>)"
    by (intro kept_revision kept_trans [OF k])
  show "kept st (st\<lparr>st_meta := m, st_revision := n\<rparr>)" using kept_revision [OF k] by simp
qed

lemma step_grows_meta:
  assumes "ext_ok ext" "db_inv ext s" "op_wf (meta_record tag value hlc replica author)"
  shows "tag = TAG_INDEX \<Longrightarrow> grows ext s (snd (set_index ext ns value hlc replica author s))"
    and "tag = TAG_SCHEMA \<Longrightarrow> grows ext s (snd (set_schema ext ns value hlc replica author s))"
proof -
  note g = grows_refl [OF assms(2)]
  let ?m = "\<lambda>pre st. case value of Some v \<Rightarrow> bt_insert (pre @ ns) v (st_meta st)
      | None \<Rightarrow> bt_remove (pre @ ns) (st_meta st)"
  have m: "bt_inv (?m pre st)" if "state_inv st" for pre st
    using state_invD(4) [OF that] by (simp split: option.splits)
  have wf: "rec_wf (meta_record tag value hlc replica author)" if "valid_tag tag" "tag \<noteq> TAG_BATCH"
    by (rule rec_wf_op [OF assms(3)]) (simp_all add: meta_record_def that)
  let ?fi = "\<lambda>st. let st = rebuild_sec_index_ns ext ns (st\<lparr>st_meta := ?m ''index/'' st\<rparr>) in
      st\<lparr>st_revision := st_revision st + 1\<rparr>"
  let ?fs = "\<lambda>st. st\<lparr>st_meta := ?m ''schema/'' st, st_revision := st_revision st + 1\<rparr>"
  have k: "kept st (?fi st)" "kept st (?fs st)" if "state_inv st" for st
    unfolding Let_def by (intro kept_meta_op m that)+
  show "grows ext s (snd (set_index ext ns value hlc replica author s))" if "tag = TAG_INDEX"
  proof -
    have "grows ext s (s1\<lparr>db_store := ?fi (db_store s1)\<rparr>)"
      if "bt_get (st_logs (db_store s)) ns = Some l"
        "log_write ext ns l (meta_record TAG_INDEX value hlc replica author) s = (sq, s1)" for l sq s1
      using grows_write' [OF assms(1,2) that(1) wf [unfolded \<open>tag = TAG_INDEX\<close>] that(2), of ?fi] k(1) by simp
    then show ?thesis
      unfolding set_index_def meta_record_def [symmetric] Let_def using g by (auto split: option.splits prod.splits)
  qed
  show "grows ext s (snd (set_schema ext ns value hlc replica author s))" if "tag = TAG_SCHEMA"
  proof -
    have "grows ext s (s1\<lparr>db_store := ?fs (db_store s1)\<rparr>)"
      if "bt_get (st_logs (db_store s)) ns = Some l"
        "log_write ext ns l (meta_record TAG_SCHEMA value hlc replica author) s = (sq, s1)" for l sq s1
      using grows_write' [OF assms(1,2) that(1) wf [unfolded \<open>tag = TAG_SCHEMA\<close>] that(2), of ?fs] k(2) by simp
    then show ?thesis
      unfolding set_schema_def meta_record_def [symmetric] Let_def using g by (auto split: option.splits prod.splits)
  qed
qed

lemma sync_one_grows:
  assumes "ext_ok ext" "db_inv ext s" "ns_log ext s ns bs" "rec_wf r" "sync_one ext ns r s = (res, s')"
  shows "res = Ok ()" "grows ext s s'" "ns_log ext s' ns (bs @ [next_bytes ext bs r])"
proof -
  obtain s1 where s1: "sync_one ext ns r s = (Ok (), s1)" "db_inv ext s1"
      "ns_log ext s1 ns (bs @ [next_bytes ext bs r])"
      "\<And>n bs'. n \<noteq> ns \<Longrightarrow> bt_contains n (st_policies (db_store s)) \<Longrightarrow> ns_log ext s1 n bs' = ns_log ext s n bs'"
    by (rule sync_one_effect [OF assms(1-4)]) blast
  show "res = Ok ()" "ns_log ext s' ns (bs @ [next_bytes ext bs r])" using s1 assms(5) by auto
  have "\<exists>new. ns_log ext s1 ns (bs' @ new)" if "ns_log ext s ns bs'" for bs'
    using sync_one_effect [OF assms(1,2) that assms(4)] s1(1) by (metis Pair_inject)
  then have "grows ext s s1" by (intro growsI [of _ _ _ ns]) (use s1 ns_log_unique in auto)
  then show "grows ext s s'" using s1(1) assms(5) by simp
qed

lemma sync_loop_grows:
  assumes "ext_ok ext" "db_inv ext s" "ns_log ext s ns bs" "\<forall>r \<in> set rs. rec_wf r"
  shows "grows ext s (snd (sync_loop ext ns rs seen n s))"
  using assms(2-4)
proof (induction rs arbitrary: s bs seen n)
  case Nil
  then show ?case by (simp add: grows_refl)
next
  case (Cons r rs)
  obtain res s1 where o: "sync_one ext ns r s = (res, s1)" by (cases "sync_one ext ns r s")
  have "rec_wf r" using Cons(4) by simp
  note g = sync_one_grows [OF assms(1) Cons(2,3) this o]
  have "db_inv ext s1" using g(2) by (simp add: grows_def)
  from Cons(1) [OF this g(3), of "Set.insert (version_key r) seen" "n + 1"] Cons(1) [OF Cons(2,3), of seen n]
  show ?case using Cons(4) g grows_trans [OF g(2)] o by auto
qed

lemma step_grows_sync:
  assumes "ext_ok ext" "db_inv ext s"
  shows "rec_wf r \<Longrightarrow> grows ext s (snd (apply_synced ext ns r s))"
    and "\<forall>r \<in> set rs. rec_wf r \<Longrightarrow> grows ext s (snd (apply_synced_batch ext ns rs s))"
proof -
  note g = grows_refl [OF assms(2)]
  show "grows ext s (snd (apply_synced ext ns r s))" if wf: "rec_wf r"
  proof (cases "bt_contains ns (st_policies (db_store s))")
    case True
    then obtain bs where bs: "ns_log ext s ns bs" using db_invD(5) [OF assms(2)] by blast
    obtain res s1 where o: "sync_one ext ns r s = (res, s1)" by (cases "sync_one ext ns r s")
    show ?thesis
      using g sync_one_grows [OF assms bs wf o] o
      by (auto simp: apply_synced_def split: sum.splits)
  qed (simp add: apply_synced_def g)
  show "grows ext s (snd (apply_synced_batch ext ns rs s))" if wf: "\<forall>r \<in> set rs. rec_wf r"
  proof (cases "bt_contains ns (st_policies (db_store s))")
    case True
    then obtain bs where bs: "ns_log ext s ns bs" using db_invD(5) [OF assms(2)] by blast
    show ?thesis
      using g sync_loop_grows [OF assms bs wf] by (auto simp: apply_synced_batch_def split: sum.splits)
  qed (simp add: apply_synced_batch_def g)
qed

lemma create_grows:
  assumes "ext_ok ext" "db_inv ext s"
  shows "grows ext s (snd (create_namespace ext ns p s))"
proof (cases "valid_ns ns \<and> \<not> bt_contains ns (st_policies (db_store s))")
  case True
  then obtain s' where s': "create_namespace ext ns p s = (Ok (), s')" "db_inv ext s'"
      "\<And>n bs. n \<noteq> ns \<Longrightarrow> bt_contains n (st_policies (db_store s)) \<Longrightarrow> ns_log ext s' n bs = ns_log ext s n bs"
    using create_namespace_effect [OF assms, of ns p] by (metis (no_types, lifting))
  then show ?thesis
    using True ns_log_unique by (auto intro!: growsI [of _ _ _ ns])
next
  case False
  then show ?thesis using grows_refl [OF assms(2)] by (auto simp: create_namespace_def Let_def)
qed

lemma db_step_grows:
  assumes "ext_ok ext" "db_inv ext s" "db_step ext s s'"
  shows "grows ext s s'"
  using assms(3)
proof cases
  case (MetaSet k v)
  have "kept (db_store s) (meta_set k v (db_store s))"
    unfolding meta_set_def using state_invD(4) [OF db_invD(1) [OF assms(2)]]
    by (intro kept_meta_op(2) db_invD(1) [OF assms(2)]) simp
  then show ?thesis using grows_kept [OF assms(2)] MetaSet by simp
next
  case (PeerClock name diff)
  have "kept (db_store s) (set_peer_clock name diff (db_store s))"
    using db_invD(1) [OF assms(2)] by (simp add: kept_def set_peer_clock_def state_inv_def)
  then show ?thesis using grows_kept [OF assms(2)] PeerClock by simp
qed (use step_grows_local [OF assms(1,2)] step_grows_meta [OF assms(1,2)] step_grows_sync [OF assms(1,2)]
    create_grows [OF assms(1,2)] in auto)

lemma empty_db_inv: "db_inv ext (empty_db durable)"
  by (simp add: db_inv_def empty_db_def empty_store_def state_inv_def names_ok_def bt_contains_def)

lemma reachable_grows:
  assumes "ext_ok ext" "db_inv ext s" "(db_step ext)\<^sup>*\<^sup>* s s'"
  shows "grows ext s s'"
  using assms(3)
proof (induction rule: rtranclp_induct)
  case base
  show ?case by (rule grows_refl [OF assms(2)])
next
  case (step y z)
  have "db_inv ext y" using step(3) by (simp add: grows_def)
  then show ?case using grows_trans [OF step(3)] db_step_grows [OF assms(1) _ step(2)] by blast
qed

section \<open>One write\<close>

lemma store_put_effect:
  assumes "ext_ok ext" "db_inv ext s" "ns_log ext s ns bs" "bt_get (st_policies (db_store s)) ns = Some p"
    and "op_wf (put_record k val hlc replica author expires_at)"
  shows "\<exists>s'. store_put ext ns k val hlc replica author expires_at s = (Ok (length bs + 1), s') \<and> db_inv ext s' \<and>
    ns_log ext s' ns (bs @ [next_bytes ext bs (put_record k val hlc replica author expires_at)]) \<and>
    store_get (db_store s') ns k =
      Some (local_version p (mk_version hlc replica author val (length bs + 1) expires_at)
              (bt_get (st_index (db_store s)) (ns, k))) \<and>
    st_policies (db_store s') = st_policies (db_store s) \<and>
    (\<forall>n k'. (n, k') \<noteq> (ns, k) \<longrightarrow> store_get (db_store s') n k' = store_get (db_store s) n k') \<and>
    (\<forall>n bs'. n \<noteq> ns \<longrightarrow> bt_contains n (st_policies (db_store s)) \<longrightarrow> ns_log ext s' n bs' = ns_log ext s n bs')"
proof -
  let ?r = "put_record k val hlc replica author expires_at"
  have wf: "rec_wf ?r" and put: "is_put ?r" and key: "r_key ?r = k"
    and ver: "rec_version ?r sq = mk_version hlc replica author val sq expires_at" for sq
    using rec_wf_op [OF assms(5)] by (auto simp: put_record_def is_put_def rec_version_def)
  obtain l where l: "bt_get (st_logs (db_store s)) ns = Some l" using ns_log_get [OF assms(3)] .
  obtain s1 st where e: "log_write ext ns l ?r s = (length bs + 1, s1)"
      "apply_local_op ext ns ?r (length bs + 1) (db_store s1) = (Ok (), st)"
      "db_inv ext (s1\<lparr>db_store := st\<rparr>)" "ns_log ext (s1\<lparr>db_store := st\<rparr>) ns (bs @ [next_bytes ext bs ?r])"
      "\<And>n bs'. n \<noteq> ns \<Longrightarrow> bt_contains n (st_policies (db_store s)) \<Longrightarrow>
         ns_log ext (s1\<lparr>db_store := st\<rparr>) n bs' = ns_log ext s n bs'"
    by (rule local_write_effect [OF assms(1-3) l wf disjI1 [OF put]]) blast
  note w = log_write_store [OF assms(1-3) l wf, unfolded e(1) snd_conv]
  have p: "bt_get (st_policies (db_store s1)) ns = Some p" using assms(4) w(4) by simp
  note g = apply_local_op_put [OF w(1) p put, of ext "length bs + 1", unfolded e(2) snd_conv key ver w(2,3)]
  have k: "kept (db_store s1) st"
    using kept_local [OF w(1), of ns ext ?r "length bs + 1"] p e(2) by (simp add: bt_contains_def)
  have "store_put ext ns k val hlc replica author expires_at s = (Ok (length bs + 1), s1\<lparr>db_store := st\<rparr>)"
    unfolding store_put_def l option.case put_record_def [symmetric] Let_def e(1) by (simp add: e(2) [simplified])
  then show ?thesis
    using e(3-5) g(2,3) k w(4) by (auto simp: store_get_def bt_contains_def fun_upd_def kept_def)
qed

lemma store_delete_effect:
  assumes "ext_ok ext" "db_inv ext s" "ns_log ext s ns bs" "op_wf (Record TAG_DEL k hlc replica author [] 0 [])"
  shows "\<exists>s'. store_delete ext ns k hlc replica author s = (Ok (length bs + 1), s') \<and> db_inv ext s' \<and>
    ns_log ext s' ns (bs @ [next_bytes ext bs (Record TAG_DEL k hlc replica author [] 0 [])]) \<and>
    store_get (db_store s') ns k = None \<and> st_policies (db_store s') = st_policies (db_store s) \<and>
    (\<forall>n k'. (n, k') \<noteq> (ns, k) \<longrightarrow> store_get (db_store s') n k' = store_get (db_store s) n k')"
proof -
  let ?r = "Record TAG_DEL k hlc replica author [] 0 []"
  have wf: "rec_wf ?r" and del: "is_del ?r" and key: "r_key ?r = k" using rec_wf_op [OF assms(4)] by (auto simp: is_del_def)
  obtain l where l: "bt_get (st_logs (db_store s)) ns = Some l" "bt_contains ns (st_policies (db_store s))"
    using ns_log_get [OF assms(3)] by blast
  then obtain p where pol: "bt_get (st_policies (db_store s)) ns = Some p" by (auto simp: bt_contains_def)
  obtain s1 st where e: "log_write ext ns l ?r s = (length bs + 1, s1)"
      "apply_local_op ext ns ?r (length bs + 1) (db_store s1) = (Ok (), st)"
      "db_inv ext (s1\<lparr>db_store := st\<rparr>)" "ns_log ext (s1\<lparr>db_store := st\<rparr>) ns (bs @ [next_bytes ext bs ?r])"
    by (rule local_write_effect [OF assms(1-3) l(1) wf disjI2 [OF del]]) blast
  note w = log_write_store [OF assms(1-3) l(1) wf, unfolded e(1) snd_conv]
  have p: "bt_get (st_policies (db_store s1)) ns = Some p" using pol w(4) by simp
  note g = apply_local_op_del [OF w(1) p del, of ext "length bs + 1", unfolded e(2) snd_conv key w(2,3)]
  have k: "kept (db_store s1) st"
    using kept_local [OF w(1), of ns ext ?r "length bs + 1"] p e(2) by (simp add: bt_contains_def)
  have "store_delete ext ns k hlc replica author s = (Ok (length bs + 1), s1\<lparr>db_store := st\<rparr>)"
    unfolding store_delete_def l option.case Let_def e(1) using l(2) by (simp add: e(2) [simplified])
  then show ?thesis
    using e(3,4) g(2,3) k w(4) by (auto simp: store_get_def bt_contains_def fun_upd_def kept_def)
qed

section \<open>Properties\<close>

lemma demo_ext_ok: "ext_ok demo_ext"
  using demo_hex_ok hash32_const by (simp add: ext_ok_def demo_ext_def)

lemma demo_db:
  obtains s where "create_namespace demo_ext ''n'' p (empty_db False) = (Ok (), s)" "db_inv demo_ext s"
    "ns_log demo_ext s ''n'' []" "bt_get (st_policies (db_store s)) ''n'' = Some p"
    "st_index (db_store s) = []" "st_tombs (db_store s) = []"
proof -
  have v: "valid_ns ''n''" by (simp add: valid_ns_def is_lower_def)
  have n: "\<not> bt_contains ''n'' (st_policies (db_store (empty_db False)))"
    by (simp add: empty_db_def empty_store_def bt_contains_def)
  show thesis
    by (rule create_namespace_effect [OF demo_ext_ok empty_db_inv v n, of p], rule that)
       (simp_all add: empty_db_def empty_store_def)
qed



text \<open>C18.  A put is durable and isolated: on a database that satisfies the invariant it returns
  the next sequence number of the namespace, appends exactly its record to that log and
  to no other, makes \<open>get\<close> return the new version under the namespace's policy, and
  changes what \<open>get\<close> returns for no other key.\<close>

theorem put_effect:
  assumes "ext_ok ext" "db_inv ext s" "ns_log ext s ns bs" "bt_get (st_policies (db_store s)) ns = Some p"
    and "op_wf (put_record k val hlc replica author expires_at)"
  shows "\<exists>s'. store_put ext ns k val hlc replica author expires_at s = (Ok (length bs + 1), s') \<and> db_inv ext s' \<and>
    ns_log ext s' ns (bs @ [next_bytes ext bs (put_record k val hlc replica author expires_at)]) \<and>
    store_get (db_store s') ns k =
      Some (local_version p (mk_version hlc replica author val (length bs + 1) expires_at)
              (bt_get (st_index (db_store s)) (ns, k))) \<and>
    (\<forall>n k'. (n, k') \<noteq> (ns, k) \<longrightarrow> store_get (db_store s') n k' = store_get (db_store s) n k') \<and>
    (\<forall>n bs'. n \<noteq> ns \<longrightarrow> bt_contains n (st_policies (db_store s)) \<longrightarrow> ns_log ext s' n bs' = ns_log ext s n bs')"
  using store_put_effect [OF assms] by blast

theorem put_effect_witness:
  "\<exists>s s'. create_namespace demo_ext ''n'' PolicyLww (empty_db False) = (Ok (), s) \<and>
     store_put demo_ext ''n'' [107] [118] 7 zero32 zero32 0 s = (Ok 1, s') \<and>
     store_get (db_store s') ''n'' [107] = Some (Lww (mk_version 7 zero32 zero32 [118] 1 0))"
proof -
  obtain s where s: "create_namespace demo_ext ''n'' PolicyLww (empty_db False) = (Ok (), s)" "db_inv demo_ext s"
      "ns_log demo_ext s ''n'' []" "bt_get (st_policies (db_store s)) ''n'' = Some PolicyLww" by (rule demo_db)
  have "op_wf (put_record [107] [118] 7 zero32 zero32 0)"
    by (simp add: op_wf_def put_record_def payload_bytes_def)
  from put_effect [OF demo_ext_ok s(2-4) this] s(1) show ?thesis
    by (auto simp: local_version_def)
qed

text \<open>C19.  A batch is one record and all of its operations: \<open>put_batch\<close> with operations that can
  be encoded appends a single record, from which the same operations are decoded, and
  leaves the in-memory state that the operations leave when run one after the other as
  local writes.\<close>

theorem put_batch_atomic:
  assumes "ext_ok ext" "db_inv ext s" "ns_log ext s ns bs" "ops \<noteq> []" "rec_wf (batch_record ops)"
  shows "\<exists>s' l'. put_batch ext ns ops s = (Ok (length bs + 1), s') \<and> db_inv ext s' \<and>
    ns_log ext s' ns (bs @ [next_bytes ext bs (batch_record ops)]) \<and>
    recs_of [next_bytes ext bs (batch_record ops)] = [batch_record ops] \<and> r_ops (batch_record ops) = ops \<and>
    db_store s' = local_ops ext ns (map (\<lambda>op. (op, length bs + 1)) ops)
                    ((db_store s)\<lparr>st_logs := bt_insert ns l' (st_logs (db_store s))\<rparr>)"
proof -
  let ?b = "batch_record ops"
  have r: "Record TAG_BATCH [] (r_hlc (ops ! 0)) (r_replica (ops ! 0)) (r_author (ops ! 0)) [] 0 ops = ?b"
    using assms(4) by (simp add: batch_record_def split: list.splits)
  have tag: "r_tag ?b = TAG_BATCH" and ro: "r_ops ?b = ops" unfolding r [symmetric] by simp_all
  obtain l where l: "bt_get (st_logs (db_store s)) ns = Some l" "bt_contains ns (st_policies (db_store s))"
    using ns_log_get [OF assms(3)] .
  define s1 where "s1 = snd (log_write ext ns l ?b s)"
  have lw: "log_write ext ns l ?b s = (length bs + 1, s1)"
    using log_write_effect(1) [OF assms(1-3) l(1) assms(5)] unfolding s1_def by (metis prod.collapse)
  note w = log_write_store [OF assms(1-3) l(1) assms(5), folded s1_def]
  obtain l' where st1: "db_store s1 = (db_store s)\<lparr>st_logs := bt_insert ns l' (st_logs (db_store s))\<rparr>"
    using log_write_effect(4) [OF assms(1-3) l(1) assms(5)] unfolding s1_def by blast
  define st where "st = fold (\<lambda>op st. snd (apply_local_op ext ns op (length bs + 1) st)) ops (db_store s1)"
  have "fst (apply_local_op ext ns op (length bs + 1) x) = Ok () \<and>
      (state_inv (snd (apply_local_op ext ns op (length bs + 1) x)) \<and>
       bt_contains ns (st_policies (snd (apply_local_op ext ns op (length bs + 1) x))))"
    if "op \<in> set ops" "state_inv x \<and> bt_contains ns (st_policies x)" for op x
    using that apply_local_op_ok [of x ns op] kept_local [of x ns] assms(5) tag ro
    by (auto simp: rec_wf_def kept_def)
  then have ap: "apply_ops (apply_local_op ext ns) ops (length bs + 1) (db_store s1) = (Ok (), st)"
    using apply_ops_fold [of ops "\<lambda>st. state_inv st \<and> bt_contains ns (st_policies st)"
        "apply_local_op ext ns" "length bs + 1" "db_store s1"] w(1,4) l(2) unfolding st_def by auto
  have k: "kept (db_store s1) st"
    using kept_apply_ops [where step = "apply_local_op ext ns" and ns = ns and sq = "length bs + 1"
        and ops = ops, OF kept_local w(1)] ap l(2) w(4) by simp
  have "put_batch ext ns ops s = (Ok (length bs + 1), s1\<lparr>db_store := st\<rparr>)"
    unfolding put_batch_def l(1) option.case r Let_def lw prod.case ap using assms(4) l(2) by simp
  moreover have "st = local_ops ext ns (map (\<lambda>op. (op, length bs + 1)) ops)
      ((db_store s)\<lparr>st_logs := bt_insert ns l' (st_logs (db_store s))\<rparr>)"
    by (simp add: st_def st1 local_ops_def fold_map comp_def)
  ultimately show ?thesis
    using write_step(1,2) [OF assms(1-3) l(1) assms(5) k [unfolded s1_def], folded s1_def]
      recs_of_next [OF assms(1,5)] ro by (intro exI [of _ "s1\<lparr>db_store := st\<rparr>"] exI [of _ l']) simp
qed

theorem put_batch_atomic_witness:
  "\<exists>s s'. create_namespace demo_ext ''n'' CrdtRegister (empty_db False) = (Ok (), s) \<and>
     put_batch demo_ext ''n'' [demo_put 1 2 [5], demo_del 2 2, demo_put 3 2 [6]] s = (Ok 1, s') \<and>
     db_inv demo_ext s'"
proof -
  let ?ops = "[demo_put 1 2 [5], demo_del 2 2, demo_put 3 2 [6]]"
  obtain s where s: "create_namespace demo_ext ''n'' CrdtRegister (empty_db False) = (Ok (), s)" "db_inv demo_ext s"
      "ns_log demo_ext s ''n'' []" by (rule demo_db)
  have "rec_wf (batch_record ?ops)"
    by (simp add: rec_wf_def batch_record_def demo_put_def demo_del_def op_wf_def is32_def payload_bytes_def
        batch_payload_def valid_sub_tag_def)
  from put_batch_atomic [OF demo_ext_ok s(2,3) _ this] s(1) show ?thesis by auto
qed

text \<open>C13.  Received records are applied exactly once: a batch of well-formed records applied to
  a namespace has the same effect and count as applying them one call at a time; afterwards
  the log contains each record's identity, and applying the same batch again, or any
  record of it, changes nothing.\<close>

theorem sync_exactly_once:
  assumes "ext_ok ext" "db_inv ext s" "ns_log ext s ns bs" "\<forall>r \<in> set rs. rec_wf r"
  shows "\<exists>s' new. apply_synced_batch ext ns rs s = (Ok (length new), s') \<and>
    sync_each ext ns rs 0 s = (Ok (length new), s') \<and> db_inv ext s' \<and> ns_log ext s' ns (bs @ new) \<and>
    version_key ` set (recs_of (bs @ new)) = version_key ` set (recs_of bs) \<union> version_key ` set rs \<and>
    apply_synced_batch ext ns rs s' = (Ok 0, s') \<and>
    (\<forall>r \<in> set rs. apply_synced ext ns r s' = (Ok False, s'))"
proof -
  obtain s' new where s': "sync_loop ext ns rs (version_key ` set (recs_of bs)) 0 s = (Ok (0 + length new), s')"
      "sync_each ext ns rs 0 s = (Ok (0 + length new), s')" "db_inv ext s'" "ns_log ext s' ns (bs @ new)"
      "version_key ` set (recs_of (bs @ new)) = version_key ` set (recs_of bs) \<union> version_key ` set rs"
    using sync_loop_effect [OF assms, of 0] by blast
  have b: "apply_synced_batch ext ns rs x = sync_loop ext ns rs (version_key ` set (recs_of c)) 0 x"
    if "ns_log ext x ns c" for x c
    using log_versions_eq [OF assms(1) that] ns_log_unique [OF that] by (simp add: apply_synced_batch_def)
  have "sync_loop ext ns rs (version_key ` set (recs_of (bs @ new))) 0 s' = (Ok 0, s')"
    by (rule sync_loop_seen) (unfold s'(5), blast)
  moreover have "apply_synced ext ns r s' = (Ok False, s')" if "r \<in> set rs" for r
    unfolding apply_synced_def log_versions_eq [OF assms(1) s'(4)] s'(5)
    using that ns_log_unique [OF s'(4)] by simp
  ultimately show ?thesis
    unfolding b [OF assms(3)] using s' b [OF s'(4)] by (intro exI [of _ s'] exI [of _ new]) simp
qed

theorem sync_exactly_once_witness:
  "\<exists>s s' n. create_namespace demo_ext ''n'' PolicyLww (empty_db False) = (Ok (), s) \<and>
     apply_synced_batch demo_ext ''n'' [demo_op, demo_op] s = (Ok n, s') \<and>
     apply_synced_batch demo_ext ''n'' [demo_op, demo_op] s' = (Ok 0, s')"
proof -
  obtain s where s: "create_namespace demo_ext ''n'' PolicyLww (empty_db False) = (Ok (), s)" "db_inv demo_ext s"
      "ns_log demo_ext s ''n'' []" by (rule demo_db)
  have "\<forall>r \<in> set [demo_op, demo_op]. rec_wf r" using demo_op_wf by simp
  from sync_exactly_once [OF demo_ext_ok s(2,3) this] s(1) show ?thesis by blast
qed

end
