(* ===== verification/StoreOpen.thy ===== *)
theory StoreOpen
  imports StoreOps
begin

text \<open>
  Checkpoints and opening a store (\<open>checkpoint\<close>, \<open>open_durable\<close>, \<open>read_policy_sidecar\<close> of
  \<open>src/storage/mod.rs\<close>).  Opening loads the snapshot, discovers the namespaces by their
  directories, recovers each log, replays the records behind the snapshot and rebuilds the
  secondary indexes.  The lemmas give the entry and tombstone of every key after opening as
  a function of the snapshot and of the replayed operations.

  The wall clock read for \<open>created_ms\<close> is an argument.  An open that fails returns its error;
  segment truncations it made before failing are not tracked.
\<close>

section \<open>Definitions\<close>

definition checkpoint :: "db \<Rightarrow> (storage_error, unit) result \<times> db" where
  "checkpoint s = (Ok (), s\<lparr>db_disk := (db_disk s)\<lparr>dk_snap := Some (snap_bytes (db_store s))\<rparr>\<rparr>)"

definition read_policy_sidecar :: "namespace \<Rightarrow> ns_disk \<Rightarrow> (storage_error, conflict_policy option) result" where
  "read_policy_sidecar ns d =
     (case nd_policy d of
        None \<Rightarrow> Ok None
      | Some b \<Rightarrow>
          if length b \<noteq> 1 then Err (Corrupt (Some ns) ''policy sidecar length != 1'')
          else (case policy_from_u8 (b ! 0) of Inl e \<Rightarrow> Err e | Inr p \<Rightarrow> Ok (Some p)))"

definition choose_policy ::
  "namespace \<Rightarrow> conflict_policy option \<Rightarrow> conflict_policy option \<Rightarrow> (storage_error, conflict_policy) result" where
  "choose_policy ns snap_policy sidecar_policy =
     (case (snap_policy, sidecar_policy) of
        (Some a, Some b) \<Rightarrow>
          if a \<noteq> b then Err (Corrupt (Some ns) ''snapshot policy disagrees with sidecar'') else Ok a
      | (Some a, None) \<Rightarrow> Ok a
      | (None, Some b) \<Rightarrow> Ok b
      | (None, None) \<Rightarrow> Err (Corrupt (Some ns) ''namespace has no policy''))"

fun replay_records ::
  "extern \<Rightarrow> namespace \<Rightarrow> (nat \<times> bytes) list \<Rightarrow> bytes \<Rightarrow> store \<Rightarrow> (storage_error, bytes \<times> store) result" where
  "replay_records ext ns [] running_head st = Ok (running_head, st)"
| "replay_records ext ns ((sq, bs) # recs) running_head st =
     (case parse bs running_head of
        Inl e \<Rightarrow> Err e
      | Inr (r, prev) \<Rightarrow>
          (case apply_record ext ns r sq st of
             (Inl e, _) \<Rightarrow> Err e
           | (Inr _, st) \<Rightarrow> replay_records ext ns recs (record_hash (sha256 ext) prev bs) st))"

definition open_ns ::
  "extern \<Rightarrow> bool \<Rightarrow> snap_info \<Rightarrow> namespace \<Rightarrow> store \<times> disk \<Rightarrow> (storage_error, store \<times> disk) result" where
  "open_ns ext durable info ns sd =
     (let (st, dk) = sd in
      case bt_get (dk_dirs dk) (ns_dir ext ns) of
        None \<Rightarrow> Err (Io ''No such file or directory'')
      | Some d \<Rightarrow>
      (case recover_durable (sha256 ext) (ns_dir ext ns) (nd_segs d) durable of
        Inl e \<Rightarrow> Err e
      | Inr (l, _, files) \<Rightarrow>
      (case read_policy_sidecar ns d of
        Inl e \<Rightarrow> Err e
      | Inr side \<Rightarrow>
      (case choose_policy ns (bt_get (st_policies st) ns) side of
        Inl e \<Rightarrow> Err e
      | Inr pol \<Rightarrow>
          let (snap_seq, snap_hash) = (case bt_get info ns of Some x \<Rightarrow> x | None \<Rightarrow> (0, zero32)) in
          if snap_seq > log_seq l then Err (Corrupt (Some ns) ''snapshot seq ahead of log seq'')
          else
            let st = st\<lparr>st_policies := bt_insert ns pol (st_policies st)\<rparr> in
            (case read_records (l, files) (snap_seq + 1) 0 of
               Inl e \<Rightarrow> Err e
             | Inr recs \<Rightarrow>
             (case replay_records ext ns recs snap_hash st of
               Inl e \<Rightarrow> Err e
             | Inr (running_head, st) \<Rightarrow>
                 if log_head l \<noteq> running_head then Err (Corrupt (Some ns) ''replayed head != stored head'')
                 else Ok (st\<lparr>st_logs := bt_insert ns l (st_logs st)\<rparr>,
                          set_ns_files ext ns (d\<lparr>nd_segs := files\<rparr>) dk)))))))"

fun open_all ::
  "extern \<Rightarrow> bool \<Rightarrow> snap_info \<Rightarrow> namespace list \<Rightarrow> store \<times> disk \<Rightarrow> (storage_error, store \<times> disk) result" where
  "open_all ext durable info [] sd = Ok sd"
| "open_all ext durable info (ns # nss) sd =
     (case open_ns ext durable info ns sd of
        Inl e \<Rightarrow> Err e
      | Inr sd \<Rightarrow> open_all ext durable info nss sd)"

definition ns_names :: "extern \<Rightarrow> disk \<Rightarrow> namespace list" where
  "ns_names ext dk = sort (remdups (List.map_filter (parse_ns_dir ext) (bt_keys (dk_dirs dk))))"

definition open_durable :: "extern \<Rightarrow> u64 \<Rightarrow> disk \<Rightarrow> bool \<Rightarrow> (storage_error, db) result" where
  "open_durable ext now_ms dk durable =
     (case (case dk_snap dk of
              None \<Rightarrow> Ok (empty_store durable, [])
            | Some bytes \<Rightarrow> load_snap bytes (empty_store durable)) of
        Inl e \<Rightarrow> Err e
      | Inr (st, info) \<Rightarrow>
          (case find (\<lambda>ns. ns \<notin> set (ns_names ext dk)) (bt_keys info) of
             Some ns \<Rightarrow> Err (Corrupt (Some ns) ''snapshot references namespace whose log dir is gone'')
           | None \<Rightarrow>
               (case open_all ext durable info (ns_names ext dk) (st, dk) of
                  Inl e \<Rightarrow> Err e
                | Inr (st, dk) \<Rightarrow>
                    let st = (if bt_get (st_meta st) ''created_ms'' = None
                              then st\<lparr>st_meta := bt_insert ''created_ms'' (u64_to_le now_ms) (st_meta st)\<rparr>
                              else st)
                    in Ok \<lparr>db_store = rebuild_secondary_indexes ext st, db_disk = dk\<rparr>)))"

subsection \<open>The effect of replay on a key\<close>

text \<open>The data operations of a record, and of a list of records numbered from \<open>n + 1\<close>.\<close>

definition rec_ops :: "log_record \<Rightarrow> nat \<Rightarrow> (log_record \<times> nat) list" where
  "rec_ops r sq =
     (if r_tag r = TAG_BATCH then map (\<lambda>op. (op, sq)) (r_ops r)
      else if valid_sub_tag (r_tag r) then [(r, sq)] else [])"

fun ops_of :: "nat \<Rightarrow> bytes list \<Rightarrow> (log_record \<times> nat) list" where
  "ops_of n [] = []"
| "ops_of n (b # bs) = concat (map (\<lambda>r. rec_ops r (n + 1)) (recs_of [b])) @ ops_of (n + 1) bs"

text \<open>Entry and tombstone of a key, and what one operation makes of them.\<close>

definition key_state :: "store \<Rightarrow> namespace \<Rightarrow> key \<Rightarrow> entry option \<times> u64 option" where
  "key_state st ns k = (bt_get (st_index st) (ns, k), bt_get (st_tombs st) (ns, k))"

definition key_step ::
  "conflict_policy \<Rightarrow> key \<Rightarrow> log_record \<times> nat \<Rightarrow> entry option \<times> u64 option \<Rightarrow> entry option \<times> u64 option" where
  "key_step p k op et =
     (let (r, sq) = op; (e, t) = et in
      if r_key r \<noteq> k then et
      else if is_put r then (Some (add_version p (rec_version r sq) e), t)
      else if is_del r then (None, Some (r_hlc r))
      else et)"

text \<open>A snapshot file that agrees with the logs: it was written from the state \<open>base\<close>, whose
  namespaces had the first \<open>done_at ns\<close> records of their present logs.  Without a file \<open>base\<close> is
  the empty store.\<close>

definition snap_agrees :: "extern \<Rightarrow> db \<Rightarrow> store \<Rightarrow> (namespace \<Rightarrow> nat) \<Rightarrow> bool" where
  "snap_agrees ext s base done_at =
     ((case dk_snap (db_disk s) of
         None \<Rightarrow> (\<exists>durable. base = empty_store durable)
       | Some bytes \<Rightarrow> snap_ok base \<and> bytes = snap_bytes base) \<and>
      (\<forall>ns p. bt_get (st_policies base) ns = Some p \<longrightarrow> bt_get (st_policies (db_store s)) ns = Some p) \<and>
      (\<forall>ns bs. ns_log ext s ns bs \<longrightarrow> done_at ns \<le> length bs \<and>
         (if bt_contains ns (st_policies base)
          then head_or_zero base ns = (done_at ns, chain_head (sha256 ext) zero32 (take (done_at ns) bs))
          else done_at ns = 0)))"

text \<open>A namespace directory that can be opened, and one that has been.\<close>

definition openable :: "extern \<Rightarrow> snap_info \<Rightarrow> disk \<Rightarrow> store \<Rightarrow> namespace \<Rightarrow> conflict_policy \<Rightarrow> bytes list \<Rightarrow> nat \<Rightarrow> bool" where
  "openable ext info dk st ns p bs n =
     (valid_ns ns \<and> (bt_get (st_policies st) ns = None \<or> bt_get (st_policies st) ns = Some p) \<and>
      (\<exists>d l. bt_get (dk_dirs dk) (ns_dir ext ns) = Some d \<and> nd_policy d = Some [policy_to_u8 p] \<and>
         log_holds (sha256 ext) (l, nd_segs d) bs) \<and>
      (case bt_get info ns of Some x \<Rightarrow> x | None \<Rightarrow> (0, zero32)) =
        (n, chain_head (sha256 ext) zero32 (take n bs)) \<and> n \<le> length bs)"

definition opened :: "extern \<Rightarrow> bool \<Rightarrow> store \<Rightarrow> disk \<Rightarrow> namespace \<Rightarrow> conflict_policy \<Rightarrow> bytes list \<Rightarrow> bool" where
  "opened ext durable st dk ns p bs =
     (\<exists>l d. bt_get (st_logs st) ns = Some l \<and> log_durable l = durable \<and>
        bt_get (dk_dirs dk) (ns_dir ext ns) = Some d \<and> nd_policy d = Some [policy_to_u8 p] \<and>
        log_holds (sha256 ext) (l, nd_segs d) bs)"

section \<open>One record\<close>

lemma key_state_sec: "sec_only st st' \<Longrightarrow> key_state st' ns k = key_state st ns k"
  by (simp add: key_state_def sec_onlyD)

lemma apply_record_op_key:
  assumes "state_inv st" "bt_get (st_policies st) ns = Some p"
  shows "key_state (snd (apply_record_op ext ns r sq st)) n k =
    (if n = ns then key_step p k (r, sq) (key_state st ns k) else key_state st n k)"
proof -
  consider "is_put r" | "is_del r" "\<not> is_put r" | "\<not> is_put r" "\<not> is_del r" by blast
  then show ?thesis
  proof cases
    case 1
    then show ?thesis
      using apply_record_op_put [OF assms 1, of ext sq] by (auto simp: key_state_def key_step_def)
  next
    case 2
    then show ?thesis
      using apply_record_op_del [OF assms 2(1), of ext sq] by (auto simp: key_state_def key_step_def)
  next
    case 3
    then show ?thesis by (auto simp: apply_record_op_other key_step_def Let_def split: prod.splits)
  qed
qed

lemma fold_record_op_key:
  assumes "state_inv st" "bt_get (st_policies st) ns = Some p"
  shows "key_state (fold (\<lambda>op st. snd (apply_record_op ext ns op sq st)) ops st) n k =
    (if n = ns then fold (key_step p k) (map (\<lambda>op. (op, sq)) ops) (key_state st ns k) else key_state st n k)"
  using assms
proof (induction ops arbitrary: st)
  case (Cons op ops)
  let ?st = "snd (apply_record_op ext ns op sq st)"
  have "state_inv ?st" "bt_get (st_policies ?st) ns = Some p"
    using apply_record_op_inv [OF Cons(2,3)] Cons(3) by simp_all
  then show ?case using Cons(1) [of ?st] by (simp add: apply_record_op_key [OF Cons(2,3)])
qed simp

lemma apply_record_key:
  assumes "state_inv st" "bt_get (st_policies st) ns = Some p" "rec_wf r"
  shows "key_state (snd (apply_record ext ns r sq st)) n k =
    (if n = ns then fold (key_step p k) (rec_ops r sq) (key_state st ns k) else key_state st n k)"
proof -
  have c: "bt_contains ns (st_policies st)" by (simp add: bt_contains_def assms(2))
  have meta: "key_state (st\<lparr>st_meta := m\<rparr>) n k = key_state st n k"
    "key_state (rebuild_sec_index_ns ext ns (st\<lparr>st_meta := m\<rparr>)) n k = key_state st n k" for m n
    by (simp_all add: key_state_def)
  consider "r_tag r = TAG_BATCH" | "valid_sub_tag (r_tag r)" | "r_tag r = TAG_SCHEMA" | "r_tag r = TAG_INDEX"
    using assms(3) by (auto simp: rec_wf_def valid_tag_def valid_sub_tag_def)
  then show ?thesis
  proof cases
    case 1
    have "fst (apply_record_op ext ns op sq x) = Ok () \<and> (state_inv (snd (apply_record_op ext ns op sq x)) \<and>
        bt_contains ns (st_policies (snd (apply_record_op ext ns op sq x))))"
      if "op \<in> set (r_ops r)" "state_inv x \<and> bt_contains ns (st_policies x)" for op x
      using apply_record_op_ok [of x ns op] kept_record [of x ns] that assms(3) 1
      by (auto simp: rec_wf_def kept_def)
    then have "snd (apply_ops (apply_record_op ext ns) (r_ops r) sq st) =
        fold (\<lambda>op st. snd (apply_record_op ext ns op sq st)) (r_ops r) st"
      using apply_ops_fold [of "r_ops r" "\<lambda>x. state_inv x \<and> bt_contains ns (st_policies x)"
          "apply_record_op ext ns" sq st] assms(1) c by auto
    then show ?thesis
      using 1 fold_record_op_key [OF assms(1,2), of ext sq "r_ops r"] by (simp add: apply_record_def rec_ops_def)
  next
    case 2
    then show ?thesis
      using apply_record_op_key [OF assms(1,2), of ext r sq]
      by (auto simp: apply_record_def rec_ops_def valid_sub_tag_def)
  qed (auto simp: apply_record_def rec_ops_def valid_sub_tag_def Let_def meta)
qed

section \<open>Replaying a log\<close>

lemma ops_of_append: "ops_of n (xs @ ys) = ops_of n xs @ ops_of (n + length xs) ys"
  by (induction xs arbitrary: n) (auto simp: ac_simps)

lemma recs_of_ok: "parse b h = Ok (r, h') \<Longrightarrow> recs_of [b] = [r]"
  by (auto simp: recs_of_def parse_def parse_chain_def Let_def split: if_splits sum.splits)

lemma replay_records_effect:
  assumes "chain_from (sha256 ext) h bs" "state_inv st" "bt_get (st_policies st) ns = Some p"
  shows "\<exists>st'. replay_records ext ns (map (\<lambda>i. (n + i + 1, bs ! i)) [0..<length bs]) h st =
      Ok (chain_head (sha256 ext) h bs, st') \<and> kept st st' \<and>
    (\<forall>m k. key_state st' m k =
       (if m = ns then fold (key_step p k) (ops_of n bs) (key_state st ns k) else key_state st m k)) \<and>
    (bs = [] \<longrightarrow> st' = st)"
  using assms
proof (induction bs arbitrary: n h st)
  case Nil
  then show ?case by (simp add: kept_refl)
next
  case (Cons b bs)
  obtain r where r: "parse b h = Ok (r, h)" "rec_wf r"
    using Cons(2) by (auto elim: parse_okE)
  have c: "bt_contains ns (st_policies st)" by (simp add: bt_contains_def Cons(4))
  let ?st = "snd (apply_record ext ns r (n + 1) st)"
  have ap: "apply_record ext ns r (n + 1) st = (Ok (), ?st)"
    using apply_record_ok [OF Cons(3) c r(2)] by (metis prod.collapse)
  note k = kept_apply_record [OF Cons(3) c, of ext r "n + 1"]
  have lst: "map (\<lambda>i. (n + i + 1, (b # bs) ! i)) [0..<length (b # bs)] =
      (n + 1, b) # map (\<lambda>i. (n + 1 + i + 1, bs ! i)) [0..<length bs]"
    by (simp add: upt_conv_Cons map_Suc_upt [symmetric] del: upt_Suc)
  obtain st' where st': "replay_records ext ns (map (\<lambda>i. (n + 1 + i + 1, bs ! i)) [0..<length bs])
        (record_hash (sha256 ext) h b) ?st = Ok (chain_head (sha256 ext) (record_hash (sha256 ext) h b) bs, st')"
      "kept ?st st'" "\<And>m k. key_state st' m k = (if m = ns then fold (key_step p k) (ops_of (n + 1) bs) (key_state ?st ns k)
          else key_state ?st m k)"
    using Cons(1) [of "record_hash (sha256 ext) h b" ?st "n + 1"] Cons(2,4) k by (auto simp: kept_def)
  have "replay_records ext ns (map (\<lambda>i. (n + i + 1, (b # bs) ! i)) [0..<length (b # bs)]) h st =
      Ok (chain_head (sha256 ext) h (b # bs), st')"
    unfolding lst replay_records.simps r(1) sum.case prod.case by (subst ap) (simp add: st'(1) [simplified])
  moreover have "key_state st' m k =
      (if m = ns then fold (key_step p k) (ops_of n (b # bs)) (key_state st ns k) else key_state st m k)" for m k
    by (simp add: st'(3) recs_of_ok [OF r(1)] apply_record_key [OF Cons(3,4) r(2)] del: One_nat_def)
  ultimately show ?case using kept_trans [OF k st'(2)] by blast
qed

section \<open>Opening one namespace\<close>

lemma log_window_tail:
  "n \<le> length bs \<Longrightarrow>
   log_window (n + 1) 0 bs = map (\<lambda>i. (n + i + 1, drop n bs ! i)) [0..<length (drop n bs)]"
  by (rule nth_equalityI) (auto simp: log_window_def Let_def)

lemma recover_holds:
  assumes "log_holds (sha256 ext) (l, files) bs"
  obtains l' files' where "recover_durable (sha256 ext) nsdir files durable = Ok (l', None, files')"
    "log_holds (sha256 ext) (l', files') bs" "log_durable l' = durable" "log_seq l' = length bs"
    "log_head l' = chain_head (sha256 ext) zero32 bs" "chain_from (sha256 ext) zero32 bs"
proof -
  obtain segs where r: "log_repr (sha256 ext) (l, files) segs" "bs = concat segs"
    using assms by (auto simp: log_holds_def)
  then have s: "segs \<noteq> []" "chain_from (sha256 ext) zero32 (concat segs)"
    "\<forall>i. map_of files i = (if i < length segs then Some (concat (segs ! i)) else None)"
    by (auto simp: log_repr_iff)
  from recover_files_chain [OF s(3,1,2), of nsdir durable] obtain files' where
    "recover_durable (sha256 ext) nsdir files durable = Ok (log_of (sha256 ext) durable segs, None, files')"
    "log_holds (sha256 ext) (log_of (sha256 ext) durable segs, files') (concat segs)" by blast
  then show thesis using that [of "log_of (sha256 ext) durable segs" files'] s(2) r(2) by (simp add: log_of_def)
qed

lemma state_inv_add_policy:
  assumes "state_inv st" "bt_get (st_policies st) ns = None \<or> bt_get (st_policies st) ns = Some p"
  shows "state_inv (st\<lparr>st_policies := bt_insert ns p (st_policies st)\<rparr>)"
proof -
  note b = state_invD [OF assms(1)]
  have "\<exists>q. bt_get (bt_insert ns p (st_policies st)) n = Some q \<and> entry_ok q e"
    if "bt_get (st_index st) (n, k) = Some e" for n k e
  proof -
    from assms(1) that obtain q where "bt_get (st_policies st) n = Some q" "entry_ok q e"
      unfolding state_inv_def by blast
    then show ?thesis using assms(2) b by (auto simp: bt_get_insert)
  qed
  then show ?thesis using b by (simp add: state_inv_def)
qed

lemma state_inv_logs: "state_inv st \<Longrightarrow> bt_inv m \<Longrightarrow> state_inv (st\<lparr>st_logs := m\<rparr>)"
  by (simp add: state_inv_def)

lemma open_ns_effect:
  assumes ok: "ext_ok ext" and d: "bt_get (dk_dirs dk) (ns_dir ext ns) = Some d"
    and pol: "nd_policy d = Some [policy_to_u8 p]" and lg: "log_holds (sha256 ext) (l, nd_segs d) bs"
    and inv: "state_inv st" and fresh: "bt_get (st_policies st) ns = None \<or> bt_get (st_policies st) ns = Some p"
    and info: "(case bt_get info ns of Some x \<Rightarrow> x | None \<Rightarrow> (0, zero32)) =
      (n, chain_head (sha256 ext) zero32 (take n bs))" and n: "n \<le> length bs"
  obtains st' l' files where "open_ns ext durable info ns (st, dk) =
      Ok (st', set_ns_files ext ns (d\<lparr>nd_segs := files\<rparr>) dk)"
    "log_holds (sha256 ext) (l', files) bs" "log_durable l' = durable" "state_inv st'"
    "st_policies st' = bt_insert ns p (st_policies st)" "st_logs st' = bt_insert ns l' (st_logs st)"
    "st_durable st' = st_durable st"
    "\<And>m k. key_state st' m k = (if m = ns then fold (key_step p k) (ops_of n (drop n bs)) (key_state st ns k)
       else key_state st m k)"
    "n = length bs \<Longrightarrow> st' = st\<lparr>st_policies := bt_insert ns p (st_policies st), st_logs := bt_insert ns l' (st_logs st)\<rparr>"
proof -
  obtain l' files where r: "recover_durable (sha256 ext) (ns_dir ext ns) (nd_segs d) durable = Ok (l', None, files)"
      "log_holds (sha256 ext) (l', files) bs" "log_durable l' = durable" "log_seq l' = length bs"
      "log_head l' = chain_head (sha256 ext) zero32 bs" "chain_from (sha256 ext) zero32 bs"
    by (rule recover_holds [OF lg])
  let ?st = "st\<lparr>st_policies := bt_insert ns p (st_policies st)\<rparr>" and ?h = "chain_head (sha256 ext) zero32 (take n bs)"
  have ch: "chain_from (sha256 ext) ?h (drop n bs)" "chain_head (sha256 ext) ?h (drop n bs) = chain_head (sha256 ext) zero32 bs"
    using r(6) chain_from_append [of "sha256 ext" zero32 "take n bs" "drop n bs"]
      chain_head_simps(3) [of "sha256 ext" zero32 "take n bs" "drop n bs"] by simp_all
  have sinv: "state_inv ?st" by (rule state_inv_add_policy [OF inv fresh])
  have gp: "bt_get (st_policies ?st) ns = Some p" using state_invD(1) [OF inv] by (simp add: bt_get_insert)
  obtain st1 where st1: "replay_records ext ns (map (\<lambda>i. (n + i + 1, drop n bs ! i)) [0..<length (drop n bs)]) ?h ?st =
        Ok (chain_head (sha256 ext) zero32 bs, st1)" "kept ?st st1"
      "\<And>m k. key_state st1 m k = (if m = ns then fold (key_step p k) (ops_of n (drop n bs)) (key_state ?st ns k) else key_state ?st m k)"
      "drop n bs = [] \<Longrightarrow> st1 = ?st"
    using replay_records_effect [OF ch(1) sinv gp, of n] ch(2) by auto
  have rd: "read_records (l', files) (n + 1) 0 = Ok (map (\<lambda>i. (n + i + 1, drop n bs ! i)) [0..<length (drop n bs)])"
    using lg.rd_window [of "sha256 ext" "(l', files)" bs "n + 1" 0] ok r(2) log_window_tail [OF n]
    by (simp add: ext_ok_def)
  have pl: "read_policy_sidecar ns d = Ok (Some p)" "choose_policy ns (bt_get (st_policies st) ns) (Some p) = Ok p"
    using pol fresh by (auto simp: read_policy_sidecar_def choose_policy_def)
  define st' where "st' = st1\<lparr>st_logs := bt_insert ns l' (st_logs st1)\<rparr>"
  have "open_ns ext durable info ns (st, dk) = Ok (st', set_ns_files ext ns (d\<lparr>nd_segs := files\<rparr>) dk)"
    unfolding open_ns_def Let_def prod.case d option.case r(1) sum.case pl info rd st1(1)
    using n r(4,5) by (simp add: st'_def)
  moreover have "state_inv st'"
    unfolding st'_def using st1(2) state_invD(5) [of st1] by (intro state_inv_logs) (auto simp: kept_def)
  moreover have "key_state st' m k = (if m = ns then fold (key_step p k) (ops_of n (drop n bs)) (key_state st ns k)
       else key_state st m k)" for m k
    using st1(3) [of m k] by (simp add: st'_def key_state_def)
  ultimately show thesis
    using that [of st' files l'] r(2,3) st1(2,4) by (auto simp: st'_def kept_def)
qed

section \<open>Opening all namespaces\<close>

lemma open_all_effect:
  assumes "ext_ok ext" "distinct nss" "\<forall>ns \<in> set nss. openable ext info dk st ns (P ns) (B ns) (N ns)"
    and "state_inv st" "bt_inv (dk_dirs dk)"
  shows "\<exists>st' dk'. open_all ext durable info nss (st, dk) = Ok (st', dk') \<and> state_inv st' \<and> bt_inv (dk_dirs dk') \<and>
    (\<forall>n. bt_get (st_policies st') n = (if n \<in> set nss then Some (P n) else bt_get (st_policies st) n)) \<and>
    (\<forall>n. n \<notin> set nss \<longrightarrow> bt_get (st_logs st') n = bt_get (st_logs st) n) \<and>
    (\<forall>n \<in> set nss. opened ext durable st' dk' n (P n) (B n)) \<and>
    (\<forall>e. e \<notin> ns_dir ext ` set nss \<longrightarrow> bt_get (dk_dirs dk') e = bt_get (dk_dirs dk) e) \<and>
    dk_snap dk' = dk_snap dk \<and> st_durable st' = st_durable st \<and>
    (\<forall>m k. key_state st' m k = (if m \<in> set nss
       then fold (key_step (P m) k) (ops_of (N m) (drop (N m) (B m))) (key_state st m k) else key_state st m k)) \<and>
    ((\<forall>n \<in> set nss. N n = length (B n)) \<longrightarrow>
       st' = st\<lparr>st_policies := st_policies st', st_logs := st_logs st'\<rparr>)"
  using assms(2-5)
proof (induction nss arbitrary: st dk)
  case Nil
  then show ?case by simp
next
  case (Cons ns nss)
  have hex: "hex_ok ext" using assms(1) by (simp add: ext_ok_def)
  have o: "openable ext info dk st ns (P ns) (B ns) (N ns)" using Cons(3) by simp
  then obtain d l where d: "bt_get (dk_dirs dk) (ns_dir ext ns) = Some d" "nd_policy d = Some [policy_to_u8 (P ns)]"
      "log_holds (sha256 ext) (l, nd_segs d) (B ns)"
      "bt_get (st_policies st) ns = None \<or> bt_get (st_policies st) ns = Some (P ns)" "valid_ns ns"
      "(case bt_get info ns of Some x \<Rightarrow> x | None \<Rightarrow> (0, zero32)) =
        (N ns, chain_head (sha256 ext) zero32 (take (N ns) (B ns)))" "N ns \<le> length (B ns)"
    by (auto simp: openable_def)
  obtain st1 l' files where st1: "open_ns ext durable info ns (st, dk) =
        Ok (st1, set_ns_files ext ns (d\<lparr>nd_segs := files\<rparr>) dk)"
      "log_holds (sha256 ext) (l', files) (B ns)" "log_durable l' = durable" "state_inv st1"
      "st_policies st1 = bt_insert ns (P ns) (st_policies st)" "st_logs st1 = bt_insert ns l' (st_logs st)"
      "st_durable st1 = st_durable st"
      "\<And>m k. key_state st1 m k = (if m = ns then fold (key_step (P ns) k) (ops_of (N ns) (drop (N ns) (B ns))) (key_state st ns k)
         else key_state st m k)"
      "N ns = length (B ns) \<Longrightarrow> st1 = st\<lparr>st_policies := bt_insert ns (P ns) (st_policies st), st_logs := bt_insert ns l' (st_logs st)\<rparr>"
    by (rule open_ns_effect [OF assms(1) d(1-3) Cons(4) d(4) d(6,7)]) blast
  define dk1 where "dk1 = set_ns_files ext ns (d\<lparr>nd_segs := files\<rparr>) dk"
  have g1: "bt_get (dk_dirs dk1) e = (if e = ns_dir ext ns then Some (d\<lparr>nd_segs := files\<rparr>) else bt_get (dk_dirs dk) e)" for e
    using Cons(5) by (simp add: dk1_def set_ns_files_def bt_get_insert)
  have p1: "bt_get (st_policies st1) n = (if n = ns then Some (P ns) else bt_get (st_policies st) n)" for n
    using state_invD(1) [OF Cons(4)] st1(5) by (simp add: bt_get_insert)
  have l1: "bt_get (st_logs st1) n = (if n = ns then Some l' else bt_get (st_logs st) n)" for n
    using state_invD(5) [OF Cons(4)] st1(6) by (simp add: bt_get_insert)
  have ne: "ns_dir ext n \<noteq> ns_dir ext ns" if "n \<in> set nss" for n
    using ns_dir_inj [OF hex _ d(5), of n] that Cons(2,3) by (auto simp: openable_def)
  have "\<forall>n \<in> set nss. openable ext info dk1 st1 n (P n) (B n) (N n)"
    using Cons(2,3) ne g1 p1 by (auto simp: openable_def)
  moreover have "bt_inv (dk_dirs dk1)" using Cons(5) by (simp add: dk1_def set_ns_files_def)
  ultimately obtain st' dk' where s': "open_all ext durable info nss (st1, dk1) = Ok (st', dk')" "state_inv st'"
      "bt_inv (dk_dirs dk')"
      "\<And>n. bt_get (st_policies st') n = (if n \<in> set nss then Some (P n) else bt_get (st_policies st1) n)"
      "\<And>n. n \<notin> set nss \<Longrightarrow> bt_get (st_logs st') n = bt_get (st_logs st1) n"
      "\<forall>n \<in> set nss. opened ext durable st' dk' n (P n) (B n)"
      "\<And>e. e \<notin> ns_dir ext ` set nss \<Longrightarrow> bt_get (dk_dirs dk') e = bt_get (dk_dirs dk1) e"
      "dk_snap dk' = dk_snap dk1" "st_durable st' = st_durable st1"
      "\<And>m k. key_state st' m k = (if m \<in> set nss
         then fold (key_step (P m) k) (ops_of (N m) (drop (N m) (B m))) (key_state st1 m k) else key_state st1 m k)"
      "\<forall>n \<in> set nss. N n = length (B n) \<Longrightarrow> st' = st1\<lparr>st_policies := st_policies st', st_logs := st_logs st'\<rparr>"
    using Cons(1) [of dk1 st1] Cons(2) st1(4) by auto
  have "ns_dir ext ns \<notin> ns_dir ext ` set nss" using ne by force
  then have own: "opened ext durable st' dk' ns (P ns) (B ns)"
    using s'(5) [of ns] s'(7) [of "ns_dir ext ns"] Cons(2) l1 g1 st1(2,3) d(2) by (auto simp: opened_def)
  have "st' = st\<lparr>st_policies := st_policies st', st_logs := st_logs st'\<rparr>" if "\<forall>n \<in> set (ns # nss). N n = length (B n)"
  proof -
    have "st' = st1\<lparr>st_policies := st_policies st', st_logs := st_logs st'\<rparr>" using s'(11) that by simp
    moreover have "st1 = st\<lparr>st_policies := bt_insert ns (P ns) (st_policies st), st_logs := bt_insert ns l' (st_logs st)\<rparr>"
      using st1(9) that by simp
    ultimately show ?thesis by simp
  qed
  moreover have "open_all ext durable info (ns # nss) (st, dk) = Ok (st', dk')"
    using s'(1) st1(1) by (simp add: dk1_def)
  moreover have "dk_snap dk1 = dk_snap dk" by (simp add: dk1_def set_ns_files_def)
  ultimately show ?case
    using s'(2-10) own p1 l1 g1 st1(7,8) Cons(2)
    by (intro exI [of _ st'] exI [of _ dk'] conjI) auto
qed

section \<open>Opening a store\<close>

lemma set_map_filter_iff: "y \<in> set (List.map_filter f xs) \<longleftrightarrow> (\<exists>x \<in> set xs. f x = Some y)"
  by (force simp: List.map_filter_def)

lemma ns_names_eq:
  assumes "ext_ok ext" "db_inv ext s"
  shows "ns_names ext (db_disk s) = bt_keys (st_policies (db_store s))"
proof -
  have hex: "hex_ok ext" using assms(1) by (simp add: ext_ok_def)
  note iv = db_invD [OF assms(2)]
  have valid: "valid_ns n" if "bt_contains n (st_policies (db_store s))" for n
    using iv(2) that by (simp add: names_ok_def)
  have "ns \<in> set (List.map_filter (parse_ns_dir ext) (bt_keys (dk_dirs (db_disk s)))) \<longleftrightarrow>
      bt_contains ns (st_policies (db_store s))" for ns
  proof
    assume "ns \<in> set (List.map_filter (parse_ns_dir ext) (bt_keys (dk_dirs (db_disk s))))"
    then obtain e where e: "bt_contains e (dk_dirs (db_disk s))" "parse_ns_dir ext e = Some ns"
      by (auto simp: set_map_filter_iff bt_contains_iff)
    then obtain n where n: "bt_contains n (st_policies (db_store s))" "e = ns_dir ext n" using iv(6) [of e] by auto
    have "Some ns = Some n" unfolding e(2) [symmetric] n(2) by (rule parse_ns_dir_ns_dir [OF hex valid [OF n(1)]])
    then show "bt_contains ns (st_policies (db_store s))" using n(1) by simp
  next
    assume c: "bt_contains ns (st_policies (db_store s))"
    then obtain bs where "ns_log ext s ns bs" using iv(5) by blast
    then have "bt_contains (ns_dir ext ns) (dk_dirs (db_disk s))" by (auto simp: ns_log_def bt_contains_def)
    then show "ns \<in> set (List.map_filter (parse_ns_dir ext) (bt_keys (dk_dirs (db_disk s))))"
      using parse_ns_dir_ns_dir [OF hex valid [OF c]] unfolding set_map_filter_iff bt_contains_iff by blast
  qed
  then have "set (ns_names ext (db_disk s)) = set (bt_keys (st_policies (db_store s)))"
    by (auto simp: ns_names_def bt_contains_iff)
  moreover have "sorted_wrt (<) (bt_keys (st_policies (db_store s)))"
    using state_invD(1) [OF iv(1)] by (simp add: bt_inv_def bt_keys_def)
  ultimately show ?thesis
    unfolding ns_names_def by (intro sorted_distinct_set_unique) (auto simp: strict_sorted_iff)
qed

text \<open>The state and the heads the snapshot file gives.\<close>

lemma snap_agrees_load:
  assumes "snap_agrees ext s base done_at" "state_inv (db_store s)"
  obtains st info where "(case dk_snap (db_disk s) of None \<Rightarrow> Ok (empty_store durable, [])
      | Some bytes \<Rightarrow> load_snap bytes (empty_store durable)) = Ok (st, info)"
    "st = base\<lparr>st_logs := [], st_durable := durable, st_sec := Map.empty\<rparr>" "state_inv base" "st_logs st = []"
    "\<And>ns. bt_get info ns = (if bt_contains ns (st_policies base) then Some (head_or_zero base ns) else None)"
proof (cases "dk_snap (db_disk s)")
  case None
  then obtain d where "base = empty_store d" using assms(1) by (auto simp: snap_agrees_def)
  then show thesis
    using that [of "empty_store durable" "[]"] None
    by (simp add: empty_store_def state_inv_def bt_contains_def)
next
  case (Some bytes)
  then have ok: "snap_ok base" "bytes = snap_bytes base" using assms(1) by (auto simp: snap_agrees_def)
  have "map_of (map (\<lambda>(n, p). (n, head_or_zero base n)) t) ns =
      (if map_of t ns \<noteq> None then Some (head_or_zero base ns) else None)" for t :: "(string, conflict_policy) btree" and ns
    by (induction t) auto
  moreover have "state_inv base" using ok(1) by (simp add: snap_ok_def)
  ultimately show thesis
    using that Some ok load_snap_snap_bytes [OF ok(1), of durable]
    by (simp add: bt_get_def bt_contains_def empty_store_def)
qed

lemma ns_log_inj:
  assumes "ext_ok ext" "ns_log ext s ns bs" "ns_log ext s ns bs'"
  shows "bs = bs'"
  using log_records_window [OF assms(1,2), of 1 0] log_records_window [OF assms(1,3), of 1 0]
    log_window_all [of bs] log_window_all [of bs'] by simp

lemma head_empty: "bt_get (st_logs st) ns = None \<Longrightarrow> head_or_zero st ns = (0, zero32)"
  by (simp add: head_or_zero_def store_head_def)

lemma snap_agrees_openable:
  assumes "db_inv ext s" "snap_agrees ext s base done_at" "ns_log ext s ns bs"
    and "bt_get (st_policies (db_store s)) ns = Some p" "st_policies st = st_policies base"
    and "bt_get info ns = (if bt_contains ns (st_policies base) then Some (head_or_zero base ns) else None)"
  shows "openable ext info (db_disk s) st ns p bs (done_at ns)"
proof -
  have n: "done_at ns \<le> length bs" "if bt_contains ns (st_policies base)
      then head_or_zero base ns = (done_at ns, chain_head (sha256 ext) zero32 (take (done_at ns) bs))
      else done_at ns = 0"
    using assms(2,3) unfolding snap_agrees_def by blast+
  have "bt_get (st_policies base) ns = None \<or> bt_get (st_policies base) ns = Some p"
    using assms(2,4) unfolding snap_agrees_def by (metis not_None_eq)
  then show ?thesis
    using assms(3-6) n ns_log_valid [OF assms(1,3)] unfolding openable_def ns_log_def by (auto split: if_splits)
qed

lemma open_all_db:
  assumes ok: "ext_ok ext" and inv: "db_inv ext s" and agr: "snap_agrees ext s base done_at"
    and st: "state_inv st" "st_policies st = st_policies base"
    and info: "\<And>ns. bt_get info ns = (if bt_contains ns (st_policies base) then Some (head_or_zero base ns) else None)"
  shows "\<exists>st1 dk1. open_all ext durable info (ns_names ext (db_disk s)) (st, db_disk s) = Ok (st1, dk1) \<and>
    state_inv st1 \<and> bt_inv (dk_dirs dk1) \<and> st_policies st1 = st_policies (db_store s) \<and>
    (\<forall>ns. bt_contains ns (st_policies (db_store s)) \<or> bt_get (st_logs st1) ns = bt_get (st_logs st) ns) \<and>
    (\<forall>ns bs p. ns_log ext s ns bs \<longrightarrow> bt_get (st_policies (db_store s)) ns = Some p \<longrightarrow>
       opened ext durable st1 dk1 ns p bs \<and>
       (\<forall>k. key_state st1 ns k = fold (key_step p k) (ops_of (done_at ns) (drop (done_at ns) bs)) (key_state st ns k))) \<and>
    (\<forall>e. bt_contains e (dk_dirs dk1) \<longrightarrow> bt_contains e (dk_dirs (db_disk s)) \<or>
       e \<in> ns_dir ext ` set (bt_keys (st_policies (db_store s)))) \<and>
    dk_snap dk1 = dk_snap (db_disk s) \<and> st_durable st1 = st_durable st \<and>
    ((\<forall>ns bs. ns_log ext s ns bs \<longrightarrow> done_at ns = length bs) \<longrightarrow>
       st1 = st\<lparr>st_policies := st_policies st1, st_logs := st_logs st1\<rparr>) \<and>
    (\<forall>ns k. \<not> bt_contains ns (st_policies (db_store s)) \<longrightarrow> key_state st1 ns k = key_state st ns k)"
proof -
  note iv = db_invD [OF inv]
  let ?pol = "st_policies (db_store s)"
  define P where "P = (\<lambda>ns. the (bt_get ?pol ns))"
  have "\<forall>ns. \<exists>bs. bt_contains ns ?pol \<longrightarrow> ns_log ext s ns bs" using iv(5) by blast
  then obtain B where B: "\<And>ns. bt_contains ns ?pol \<Longrightarrow> ns_log ext s ns (B ns)" by metis
  have P: "bt_get ?pol ns = Some (P ns)" if "bt_contains ns ?pol" for ns
    using that by (auto simp: P_def bt_contains_def)
  have op: "\<forall>ns \<in> set (bt_keys ?pol). openable ext info (db_disk s) st ns (P ns) (B ns) (done_at ns)"
    using snap_agrees_openable [OF inv agr B P st(2) info] by (simp add: bt_contains_iff)
  have dist: "distinct (bt_keys ?pol)"
    using state_invD(1) [OF iv(1)] by (auto simp: bt_inv_def bt_keys_def strict_sorted_iff)
  from open_all_effect [OF ok dist op st(1) iv(3), of durable]
  obtain st1 dk1 where o: "open_all ext durable info (bt_keys ?pol) (st, db_disk s) = Ok (st1, dk1)" "state_inv st1"
      "bt_inv (dk_dirs dk1)"
      "\<forall>n. bt_get (st_policies st1) n = (if n \<in> set (bt_keys ?pol) then Some (P n) else bt_get (st_policies st) n)"
      "\<forall>n. n \<notin> set (bt_keys ?pol) \<longrightarrow> bt_get (st_logs st1) n = bt_get (st_logs st) n"
      "\<forall>n \<in> set (bt_keys ?pol). opened ext durable st1 dk1 n (P n) (B n)"
      "\<forall>e. e \<notin> ns_dir ext ` set (bt_keys ?pol) \<longrightarrow> bt_get (dk_dirs dk1) e = bt_get (dk_dirs (db_disk s)) e"
      "dk_snap dk1 = dk_snap (db_disk s)" "st_durable st1 = st_durable st"
      "\<forall>m k. key_state st1 m k = (if m \<in> set (bt_keys ?pol)
         then fold (key_step (P m) k) (ops_of (done_at m) (drop (done_at m) (B m))) (key_state st m k) else key_state st m k)"
      "(\<forall>n \<in> set (bt_keys ?pol). done_at n = length (B n)) \<longrightarrow> st1 = st\<lparr>st_policies := st_policies st1, st_logs := st_logs st1\<rparr>"
    by blast
  have "bt_get (st_policies base) n = None" if "\<not> bt_contains n ?pol" for n
    using agr that unfolding snap_agrees_def bt_contains_def by (metis not_None_eq)
  then have "bt_get (st_policies st1) n = bt_get ?pol n" for n
    using o(4) P [of n] st(2) by (auto simp: bt_contains_iff [symmetric] bt_contains_def)
  then have pol1: "st_policies st1 = ?pol"
    using bt.entries_unique [OF state_invD(1) [OF o(2)] state_invD(1) [OF iv(1)]] by auto
  have own: "bs = B ns \<and> p = P ns \<and> ns \<in> set (bt_keys ?pol)"
    if "ns_log ext s ns bs" "bt_get ?pol ns = Some p" for ns bs p
    using ns_log_inj [OF ok that(1) B] P [of ns] that(2) by (auto simp: bt_contains_iff [symmetric] bt_contains_def)
  have "st1 = st\<lparr>st_policies := st_policies st1, st_logs := st_logs st1\<rparr>"
    if "\<forall>ns bs. ns_log ext s ns bs \<longrightarrow> done_at ns = length bs"
    using o(11) that B by (simp add: bt_contains_iff)
  moreover have "bt_contains e (dk_dirs (db_disk s)) \<or> e \<in> ns_dir ext ` set (bt_keys ?pol)"
    if "bt_contains e (dk_dirs dk1)" for e
    using that o(7) by (auto simp: bt_contains_def)
  moreover have "bt_contains ns ?pol \<or> bt_get (st_logs st1) ns = bt_get (st_logs st) ns" for ns
    using o(5) by (auto simp: bt_contains_iff)
  moreover have "opened ext durable st1 dk1 ns p bs \<and>
      (\<forall>k. key_state st1 ns k = fold (key_step p k) (ops_of (done_at ns) (drop (done_at ns) bs)) (key_state st ns k))"
    if "ns_log ext s ns bs" "bt_get ?pol ns = Some p" for ns bs p
    using own [OF that] o(6,10) by simp
  moreover have "\<forall>ns k. \<not> bt_contains ns ?pol \<longrightarrow> key_state st1 ns k = key_state st ns k"
    using o(10) by (simp add: bt_contains_iff)
  ultimately show ?thesis
    unfolding ns_names_eq [OF ok inv] using o(1-3,8,9) pol1 by (intro exI [of _ st1] exI [of _ dk1]) blast
qed

lemma open_effect:
  assumes ok: "ext_ok ext" and inv: "db_inv ext s" and agr: "snap_agrees ext s base done_at"
  obtains s' where "open_durable ext now_ms (db_disk s) durable = Ok s'" "db_inv ext s'"
    "st_policies (db_store s') = st_policies (db_store s)"
    "\<And>ns bs. ns_log ext s ns bs \<Longrightarrow> ns_log ext s' ns bs"
    "dk_snap (db_disk s') = dk_snap (db_disk s)"
    "\<And>ns bs p k. ns_log ext s ns bs \<Longrightarrow> bt_get (st_policies (db_store s)) ns = Some p \<Longrightarrow>
       key_state (db_store s') ns k = fold (key_step p k) (ops_of (done_at ns) (drop (done_at ns) bs)) (key_state base ns k)"
    "\<forall>ns bs. ns_log ext s ns bs \<longrightarrow> done_at ns = length bs \<Longrightarrow>
       (\<forall>ns k. key_state (db_store s') ns k = key_state base ns k) \<and>
       st_peer_clocks (db_store s') = st_peer_clocks base \<and> st_revision (db_store s') = st_revision base \<and>
       (\<forall>x. x \<noteq> ''created_ms'' \<or> bt_contains x (st_meta base) \<longrightarrow>
          bt_get (st_meta (db_store s')) x = bt_get (st_meta base) x)"
    "\<And>ns k. \<not> bt_contains ns (st_policies (db_store s)) \<Longrightarrow> key_state (db_store s') ns k = key_state base ns k"
proof -
  note iv = db_invD [OF inv]
  let ?pol = "st_policies (db_store s)"
  obtain st info where ld: "(case dk_snap (db_disk s) of None \<Rightarrow> Ok (empty_store durable, [])
        | Some bytes \<Rightarrow> load_snap bytes (empty_store durable)) = Ok (st, info)"
      "st = base\<lparr>st_logs := [], st_durable := durable, st_sec := Map.empty\<rparr>" "state_inv base" "st_logs st = []"
      "\<And>ns. bt_get info ns = (if bt_contains ns (st_policies base) then Some (head_or_zero base ns) else None)"
    using snap_agrees_load [OF agr iv(1)] by metis
  have st: "state_inv st" "st_policies st = st_policies base" "key_state st ns k = key_state base ns k" for ns k
    using ld(2,3) by (simp_all add: state_inv_def key_state_def)
  from open_all_db [OF ok inv agr st(1,2) ld(5), of durable]
  obtain st1 dk1 where o: "open_all ext durable info (ns_names ext (db_disk s)) (st, db_disk s) = Ok (st1, dk1)"
      "state_inv st1" "bt_inv (dk_dirs dk1)" "st_policies st1 = ?pol"
      "\<forall>ns. bt_contains ns ?pol \<or> bt_get (st_logs st1) ns = bt_get (st_logs st) ns"
      "\<forall>ns bs p. ns_log ext s ns bs \<longrightarrow> bt_get ?pol ns = Some p \<longrightarrow> opened ext durable st1 dk1 ns p bs \<and>
         (\<forall>k. key_state st1 ns k = fold (key_step p k) (ops_of (done_at ns) (drop (done_at ns) bs)) (key_state st ns k))"
      "\<forall>e. bt_contains e (dk_dirs dk1) \<longrightarrow> bt_contains e (dk_dirs (db_disk s)) \<or> e \<in> ns_dir ext ` set (bt_keys ?pol)"
      "st_durable st1 = st_durable st" "dk_snap dk1 = dk_snap (db_disk s)"
      "(\<forall>ns bs. ns_log ext s ns bs \<longrightarrow> done_at ns = length bs) \<longrightarrow>
         st1 = st\<lparr>st_policies := st_policies st1, st_logs := st_logs st1\<rparr>"
      "\<forall>ns k. \<not> bt_contains ns ?pol \<longrightarrow> key_state st1 ns k = key_state st ns k" by blast
  define st2 where "st2 = (if bt_get (st_meta st1) ''created_ms'' = None
     then st1\<lparr>st_meta := bt_insert ''created_ms'' (u64_to_le now_ms) (st_meta st1)\<rparr> else st1)"
  define s' where "s' = \<lparr>db_store = rebuild_secondary_indexes ext st2, db_disk = dk1\<rparr>"
  have k2: "kept st1 st2" using o(2) state_invD(4) [OF o(2)] by (auto simp: st2_def intro: kept_refl kept_meta)
  have k3: "kept st1 (db_store s')"
    unfolding s'_def db.simps
    by (rule kept_trans [OF k2 kept_sec]) (use k2 in \<open>auto simp: kept_def sec_only_rebuild\<close>)
  have ks: "key_state (db_store s') ns k = key_state st1 ns k" for ns k
    by (simp add: key_state_def s'_def st2_def)
  have "ns \<in> set (bt_keys ?pol)" if "ns \<in> set (bt_keys info)" for ns
    using that ld(5) [of ns] agr unfolding bt_contains_iff [symmetric] bt_contains_def snap_agrees_def
    by (metis option.distinct(1) option.exhaust)
  then have nf: "find (\<lambda>ns. ns \<notin> set (ns_names ext (db_disk s))) (bt_keys info) = None"
    unfolding ns_names_eq [OF ok inv] by (auto simp: find_None_iff)
  have op: "open_durable ext now_ms (db_disk s) durable = Ok s'"
    unfolding open_durable_def ld(1) sum.case prod.case nf option.case o(1)
    by (simp add: Let_def st2_def s'_def)
  have logs: "ns_log ext s' ns bs" if nl: "ns_log ext s ns bs" for ns bs
  proof -
    obtain p where p: "bt_get ?pol ns = Some p" using ns_log_unique [OF nl] by (auto simp: bt_contains_def)
    then have "opened ext durable st1 dk1 ns p bs" using o(6) nl by blast
    then show ?thesis using k3 o(4,8) p ld(2) by (auto simp: ns_log_def opened_def kept_def s'_def)
  qed
  have dirs: "\<exists>ns. bt_contains ns ?pol \<and> e = ns_dir ext ns"
    if "bt_contains e (dk_dirs dk1)" "parse_ns_dir ext e \<noteq> None" for e
    using that o(7) iv(6) [OF _ that(2)] by (auto simp: bt_contains_iff [of _ ?pol])
  have "bt_contains ns ?pol" if "bt_contains ns (st_logs st1)" for ns
    using that o(5) ld(4) by (auto simp: bt_contains_def)
  then have inv': "db_inv ext s'"
    using k3 o(3,4) iv(2,5) logs dirs unfolding db_inv_def names_ok_def kept_def by (simp add: s'_def) blast
  have same: "(\<forall>ns k. key_state (db_store s') ns k = key_state base ns k) \<and>
       st_peer_clocks (db_store s') = st_peer_clocks base \<and> st_revision (db_store s') = st_revision base \<and>
       (\<forall>x. x \<noteq> ''created_ms'' \<or> bt_contains x (st_meta base) \<longrightarrow>
          bt_get (st_meta (db_store s')) x = bt_get (st_meta base) x)"
    if "\<forall>ns bs. ns_log ext s ns bs \<longrightarrow> done_at ns = length bs"
  proof -
    have e: "st1 = st\<lparr>st_policies := st_policies st1, st_logs := st_logs st1\<rparr>" using o(10) that by blast
    have "st_index st1 = st_index base" "st_tombs st1 = st_tombs base" "st_peer_clocks st1 = st_peer_clocks base"
      "st_revision st1 = st_revision base" "st_meta st1 = st_meta base" by (subst e, simp add: ld(2))+
    then show ?thesis
      using state_invD(4) [OF ld(3)] by (auto simp: key_state_def s'_def st2_def bt_get_insert bt_contains_def)
  qed
  show thesis
    by (rule that [OF op inv']) (use k3 o(4,6,9,11) logs ks st(3) same in \<open>auto simp: kept_def s'_def\<close>)
qed

section \<open>Properties\<close>

lemma snap_agrees_self:
  assumes "ext_ok ext" "db_inv ext s" "snap_ok (db_store s)" "dk_snap (db_disk s) = Some (snap_bytes (db_store s))"
  shows "\<exists>done_at. snap_agrees ext s (db_store s) done_at \<and> (\<forall>ns bs. ns_log ext s ns bs \<longrightarrow> done_at ns = length bs)"
proof -
  define d where "d = (\<lambda>ns. fst (head_or_zero (db_store s) ns))"
  have "head_or_zero (db_store s) ns = (length bs, chain_head (sha256 ext) zero32 bs)" if nl: "ns_log ext s ns bs" for ns bs
  proof -
    obtain l where l: "bt_get (st_logs (db_store s)) ns = Some l"
        "log_holds (sha256 ext) (l, nd_segs (ns_files ext (db_disk s) ns)) bs" by (rule ns_log_get [OF nl])
    obtain segs where r: "log_repr (sha256 ext) (l, nd_segs (ns_files ext (db_disk s) ns)) segs" "bs = concat segs"
      using l(2) by (auto simp: log_holds_def)
    have "log_seq l = length bs" "log_head l = chain_head (sha256 ext) zero32 bs"
      using log_reprD [OF r(1)] r(2) by auto
    then show ?thesis using l(1) by (simp add: head_or_zero_def store_head_def)
  qed
  then show ?thesis
    using assms(3,4) ns_log_unique by (intro exI [of _ d]) (auto simp: snap_agrees_def d_def)
qed

lemma store_get_key_state: "key_state st ns k = key_state st' ns k \<Longrightarrow> store_get st ns k = store_get st' ns k"
  by (simp add: key_state_def store_get_def bt_contains_def)

lemma reopen_effect:
  assumes "ext_ok ext" "db_inv ext s" "snap_ok (db_store s)"
  shows "\<exists>s'. open_durable ext now_ms (db_disk (snd (checkpoint s))) durable = Ok s' \<and> db_inv ext s' \<and>
    st_policies (db_store s') = st_policies (db_store s) \<and>
    (\<forall>ns bs. ns_log ext s ns bs \<longrightarrow> ns_log ext s' ns bs) \<and>
    (\<forall>ns k. store_get (db_store s') ns k = store_get (db_store s) ns k) \<and>
    st_peer_clocks (db_store s') = st_peer_clocks (db_store s) \<and> st_revision (db_store s') = st_revision (db_store s) \<and>
    (\<forall>x. x \<noteq> ''created_ms'' \<or> bt_contains x (st_meta (db_store s)) \<longrightarrow>
       bt_get (st_meta (db_store s')) x = bt_get (st_meta (db_store s)) x)"
proof -
  let ?c = "snd (checkpoint s)"
  have c: "db_store ?c = db_store s" "dk_snap (db_disk ?c) = Some (snap_bytes (db_store ?c))"
    "dk_dirs (db_disk ?c) = dk_dirs (db_disk s)" by (simp_all add: checkpoint_def)
  have nl: "ns_log ext ?c = ns_log ext s" by (simp add: ns_log_def c fun_eq_iff)
  have inv: "db_inv ext ?c" using assms(2) by (simp add: db_inv_def nl c)
  obtain d where d: "snap_agrees ext ?c (db_store s) d" "\<forall>ns bs. ns_log ext s ns bs \<longrightarrow> d ns = length bs"
    using snap_agrees_self [OF assms(1) inv _ c(2)] assms(3) unfolding c(1) nl by blast
  obtain s' where s': "open_durable ext now_ms (db_disk ?c) durable = Ok s'" "db_inv ext s'"
      "st_policies (db_store s') = st_policies (db_store ?c)" "\<And>ns bs. ns_log ext ?c ns bs \<Longrightarrow> ns_log ext s' ns bs"
      "\<forall>ns bs. ns_log ext ?c ns bs \<longrightarrow> d ns = length bs \<Longrightarrow>
       (\<forall>ns k. key_state (db_store s') ns k = key_state (db_store s) ns k) \<and>
       st_peer_clocks (db_store s') = st_peer_clocks (db_store s) \<and> st_revision (db_store s') = st_revision (db_store s) \<and>
       (\<forall>x. x \<noteq> ''created_ms'' \<or> bt_contains x (st_meta (db_store s)) \<longrightarrow>
          bt_get (st_meta (db_store s')) x = bt_get (st_meta (db_store s)) x)"
    by (rule open_effect [OF assms(1) inv d(1)]) blast
  have same: "(\<forall>ns k. key_state (db_store s') ns k = key_state (db_store s) ns k) \<and>
       st_peer_clocks (db_store s') = st_peer_clocks (db_store s) \<and> st_revision (db_store s') = st_revision (db_store s) \<and>
       (\<forall>x. x \<noteq> ''created_ms'' \<or> bt_contains x (st_meta (db_store s)) \<longrightarrow>
          bt_get (st_meta (db_store s')) x = bt_get (st_meta (db_store s)) x)"
    by (rule s'(5)) (unfold nl, rule d(2))
  then have "\<forall>ns k. store_get (db_store s') ns k = store_get (db_store s) ns k"
    using store_get_key_state by metis
  moreover have "\<forall>ns bs. ns_log ext s ns bs \<longrightarrow> ns_log ext s' ns bs" using s'(4) unfolding nl by blast
  ultimately show ?thesis
    using same s'(1-3) unfolding c(1) by (intro exI [of _ s'] conjI) simp_all
qed

text \<open>C12.  A checkpoint survives a restart: opening the directory of a database right after a
  checkpoint succeeds and yields a database with the same namespaces, policies and logs in
  which \<open>get\<close> returns for every key what it returned before; revision, peer clocks and
  metadata are kept, except that a missing \<open>created_ms\<close> is filled in.\<close>

theorem checkpoint_reopen:
  assumes "ext_ok ext" "db_inv ext s" "snap_ok (db_store s)"
  shows "\<exists>s'. open_durable ext now_ms (db_disk (snd (checkpoint s))) durable = Ok s' \<and> db_inv ext s' \<and>
    st_policies (db_store s') = st_policies (db_store s) \<and>
    (\<forall>ns bs. ns_log ext s ns bs \<longrightarrow> ns_log ext s' ns bs) \<and>
    (\<forall>ns k. store_get (db_store s') ns k = store_get (db_store s) ns k) \<and>
    st_peer_clocks (db_store s') = st_peer_clocks (db_store s) \<and> st_revision (db_store s') = st_revision (db_store s) \<and>
    (\<forall>x. x \<noteq> ''created_ms'' \<or> bt_contains x (st_meta (db_store s)) \<longrightarrow>
       bt_get (st_meta (db_store s')) x = bt_get (st_meta (db_store s)) x)"
  by (rule reopen_effect [OF assms])

theorem checkpoint_reopen_witness:
  "\<exists>s s'. create_namespace demo_ext ''n'' PolicyLww (empty_db False) = (Ok (), s) \<and>
     open_durable demo_ext 5 (db_disk (snd (checkpoint s))) True = Ok s' \<and>
     st_policies (db_store s') = [(''n'', PolicyLww)]"
proof -
  obtain s where s: "create_namespace demo_ext ''n'' PolicyLww (empty_db False) = (Ok (), s)" "db_inv demo_ext s"
      "ns_log demo_ext s ''n'' []" by (rule demo_db)
  have v: "valid_ns ''n''" by (simp add: valid_ns_def is_lower_def)
  have st: "db_store s = (empty_store False)\<lparr>st_policies := [(''n'', PolicyLww)],
      st_logs := [(''n'', log_of (sha256 demo_ext) False [[]])], st_revision := 1\<rparr>"
    using s(1) v recover_empty [of "[]" "sha256 demo_ext" "ns_dir demo_ext ''n''" False]
    by (auto simp: create_namespace_def empty_db_def empty_store_def bt_contains_def ns_files_def Let_def)
  have "snap_ok (db_store s)"
    unfolding snap_ok_def using db_invD(1) [OF s(2)] valid_ns_utf8 [OF v]
    by (simp add: st empty_store_def name_ok_def bt_keys_def log_of_def is32_def)
  from checkpoint_reopen [OF demo_ext_ok s(2) this, of 5 True] s(1) st show ?thesis by auto
qed

lemma fold_key_step:
  assumes "state_inv st" "bt_get (st_policies st) ns = Some p"
  shows "key_state (replay_ops ext ns ops st) ns k = fold (key_step p k) ops (key_state st ns k)"
proof (induction ops rule: rev_induct)
  case Nil
  then show ?case by (simp add: replay_ops_def)
next
  case (snoc op ops)
  obtain r sq where op: "op = (r, sq)" by (cases op)
  have "state_inv (replay_ops ext ns ops st)" by (rule replay_ops_inv [OF assms])
  from apply_record_op_key [OF this, of ns p ext r sq ns k] snoc assms(2)
  show ?case by (simp add: op replay_ops_snoc)
qed

lemma visible_key_state: "key_state st ns k = key_state st' ns' k \<Longrightarrow> visible st ns k = visible st' ns' k"
  by (simp add: key_state_def visible_def store_get_def bt_contains_def)

lemma open_view:
  assumes "ext_ok ext" "db_inv ext s" "dk_snap (db_disk s) = None"
  shows "\<exists>s'. open_durable ext now_ms (db_disk s) durable = Ok s' \<and> db_inv ext s' \<and>
    st_policies (db_store s') = st_policies (db_store s) \<and>
    (\<forall>ns bs. ns_log ext s ns bs \<longrightarrow> ns_log ext s' ns bs \<and>
       (\<forall>k. visible (db_store s') ns k = view_of (ops_of 0 bs) k))"
proof -
  have agr: "snap_agrees ext s (empty_store False) (\<lambda>_. 0)"
    using assms(3) by (auto simp: snap_agrees_def empty_store_def bt_contains_def)
  obtain s' where s': "open_durable ext now_ms (db_disk s) durable = Ok s'" "db_inv ext s'"
      "st_policies (db_store s') = st_policies (db_store s)" "\<And>ns bs. ns_log ext s ns bs \<Longrightarrow> ns_log ext s' ns bs"
      "\<And>ns bs p k. ns_log ext s ns bs \<Longrightarrow> bt_get (st_policies (db_store s)) ns = Some p \<Longrightarrow>
       key_state (db_store s') ns k = fold (key_step p k) (ops_of 0 (drop 0 bs)) (key_state (empty_store False) ns k)"
    by (rule open_effect [OF assms(1,2) agr]) blast
  have "visible (db_store s') ns k = view_of (ops_of 0 bs) k" if nl: "ns_log ext s ns bs" for ns bs k
  proof -
    obtain p where p: "bt_get (st_policies (db_store s)) ns = Some p"
      using ns_log_unique [OF nl] by (auto simp: bt_contains_def)
    let ?d = "demo_store p"
    have d: "bt_get (st_policies ?d) ''n'' = Some p" by (simp add: demo_store_def bt_get_Cons)
    have "key_state (db_store s') ns k = key_state (replay_ops ext ''n'' (ops_of 0 bs) ?d) ''n'' k"
      unfolding fold_key_step [OF demo_store_ok(1) d] s'(5) [OF nl p]
      by (simp add: key_state_def demo_store_def empty_store_def)
    then show ?thesis
      using visible_key_state [of "db_store s'" ns k] replay_ops_visible [OF demo_store_ok, where ext = ext and ops = "ops_of 0 bs" and k = k and p1 = p]
      by simp
  qed
  then show ?thesis using s' by blast
qed

text \<open>C4.  A restart shows the log: opening a directory without a snapshot succeeds, keeps every
  namespace log and policy, and what a reader then sees of a key is the value the logged
  operations determine: nothing if one of them deletes the key, else the version with the
  largest clock and replica.\<close>

theorem open_shows_log:
  assumes "ext_ok ext" "db_inv ext s" "dk_snap (db_disk s) = None"
  shows "\<exists>s'. open_durable ext now_ms (db_disk s) durable = Ok s' \<and> db_inv ext s' \<and>
    st_policies (db_store s') = st_policies (db_store s) \<and>
    (\<forall>ns bs. ns_log ext s ns bs \<longrightarrow> ns_log ext s' ns bs \<and>
       (\<forall>k. visible (db_store s') ns k = view_of (ops_of 0 bs) k))"
  by (rule open_view [OF assms])

theorem open_shows_log_witness:
  "\<exists>s s'. create_namespace demo_ext ''n'' PolicyLww (empty_db False) = (Ok (), s) \<and>
     open_durable demo_ext 5 (db_disk s) False = Ok s' \<and> ns_log demo_ext s' ''n'' []"
proof -
  obtain s where s: "create_namespace demo_ext ''n'' PolicyLww (empty_db False) = (Ok (), s)" "db_inv demo_ext s"
      "ns_log demo_ext s ''n'' []" by (rule demo_db)
  have "dk_snap (db_disk s) = None"
    using s(1) by (auto simp: create_namespace_def empty_db_def empty_store_def Let_def set_ns_files_def
        split: if_splits sum.splits)
  from open_shows_log [OF demo_ext_ok s(2) this, of 5 False] s show ?thesis by blast
qed

end
