(* ===== verification/Compaction.thy ===== *)
theory Compaction
  imports StoreOpen
begin

text \<open>
  Log compaction: \<open>gc_live\<close> for a running node and \<open>compact_dir\<close> for a stopped one
  (\<open>src/storage/mod.rs\<close>).  Both rewrite every namespace log to one put per live version and
  one deletion per tombstone without an entry, dropping expired versions.  The lemmas say
  what a reader sees after \<open>gc_live\<close>, and that \<open>compact_dir\<close> leaves a checkpointed directory
  unopenable.  The clock is an argument.
\<close>

section \<open>Definitions\<close>

definition ttl_expired :: "u64 \<Rightarrow> version \<Rightarrow> bool" where
  "ttl_expired now v = (v_expires_at v \<noteq> 0 \<and> v_expires_at v \<le> now)"

definition version_record :: "key \<Rightarrow> version \<Rightarrow> log_record" where
  "version_record k v =
     Record (if v_expires_at v = 0 then TAG_PUT else TAG_PUT_TTL) k (v_hlc v) (v_replica v) (v_author v)
       (v_value v) (v_expires_at v) []"

definition entry_records :: "u64 \<Rightarrow> key \<Rightarrow> entry \<Rightarrow> log_record list" where
  "entry_records now k e =
     (case e of
        Lww v \<Rightarrow> if ttl_expired now v then [] else [version_record k v]
      | Register vs \<Rightarrow> map (version_record k) (filter (\<lambda>v. \<not> ttl_expired now v) vs))"

definition tomb_records :: "store \<Rightarrow> namespace \<Rightarrow> log_record list" where
  "tomb_records st ns =
     map (\<lambda>((_, k), hlc). Record TAG_DEL k hlc zero32 zero32 [] 0 [])
       (filter (\<lambda>((n, k), _). n = ns \<and> \<not> bt_contains (ns, k) (st_index st)) (st_tombs st))"

definition compact_records :: "store \<Rightarrow> namespace \<Rightarrow> u64 \<Rightarrow> log_record list" where
  "compact_records st ns now =
     concat (map (\<lambda>(k, e). entry_records now k e) (scan st ns [])) @ tomb_records st ns"

definition seg_bytes :: "extern \<Rightarrow> disk \<Rightarrow> namespace \<Rightarrow> nat" where
  "seg_bytes ext dk ns = sum_list (map (\<lambda>(_, b). length b) (discover (nd_segs (ns_files ext dk ns)) 0))"

definition saturating_add_u64 :: "nat \<Rightarrow> nat \<Rightarrow> nat" where
  "saturating_add_u64 a b = min (a + b) (2 ^ 64 - 1)"

text \<open>Re-applying the records of the fresh log; a record that does not parse is skipped.\<close>

fun reapply :: "extern \<Rightarrow> namespace \<Rightarrow> (nat \<times> bytes) list \<Rightarrow> store \<Rightarrow> (storage_error, unit) result \<times> store" where
  "reapply ext ns [] st = (Ok (), st)"
| "reapply ext ns ((sq, bs) # recs) st =
     (case parse_chain bs None of
        Inl Panic \<Rightarrow> (Err Panic, st)
      | Inl _ \<Rightarrow> reapply ext ns recs st
      | Inr (r, _) \<Rightarrow>
          (case apply_record ext ns r sq st of
             (Inl e, st) \<Rightarrow> (Err e, st)
           | (Inr _, st) \<Rightarrow> reapply ext ns recs st))"

text \<open>One turn of the loop of \<open>gc_live\<close>: the bytes reclaimed.\<close>

definition drop_ns :: "namespace \<Rightarrow> store \<Rightarrow> store" where
  "drop_ns ns st =
     st\<lparr>st_index := filter (\<lambda>((n, _), _). n \<noteq> ns) (st_index st),
        st_tombs := filter (\<lambda>((n, _), _). n \<noteq> ns) (st_tombs st)\<rparr>"

definition gc_ns :: "extern \<Rightarrow> u64 \<Rightarrow> namespace \<Rightarrow> db \<Rightarrow> (storage_error, nat) result \<times> db" where
  "gc_ns ext now ns s =
     (let st = db_store s;
          before = seg_bytes ext (db_disk s) ns;
          out = compact_records st ns now
      in if out = [] then (Ok (before - seg_bytes ext (db_disk s) ns), s)
         else
           let d = ns_files ext (db_disk s) ns;
               d = d\<lparr>nd_segs := write_fresh (sha256 ext) (nd_segs d) out\<rparr>;
               s = s\<lparr>db_disk := set_ns_files ext ns d (db_disk s)\<rparr>
           in case recover_durable (sha256 ext) (ns_dir ext ns) (nd_segs d) (st_durable st) of
                Inl e \<Rightarrow> (Err e, s)
              | Inr (l, _, files) \<Rightarrow>
                  let s = s\<lparr>db_store := drop_ns ns (st\<lparr>st_logs := bt_insert ns l (st_logs st)\<rparr>),
                            db_disk := set_ns_files ext ns (d\<lparr>nd_segs := files\<rparr>) (db_disk s)\<rparr>;
                      recs = (case log_records ext s ns 1 0 of Inr recs \<Rightarrow> recs | Inl _ \<Rightarrow> [])
                  in (case reapply ext ns recs (db_store s) of
                        (Inl e, st) \<Rightarrow> (Err e, s\<lparr>db_store := st\<rparr>)
                      | (Inr _, st) \<Rightarrow> (Ok (before - seg_bytes ext (db_disk s) ns), s\<lparr>db_store := st\<rparr>)))"

fun gc_loop :: "extern \<Rightarrow> u64 \<Rightarrow> namespace list \<Rightarrow> nat \<Rightarrow> db \<Rightarrow> (storage_error, nat) result \<times> db" where
  "gc_loop ext now [] reclaimed s = (Ok reclaimed, s)"
| "gc_loop ext now (ns # nss) reclaimed s =
     (case gc_ns ext now ns s of
        (Inl e, s) \<Rightarrow> (Err e, s)
      | (Inr n, s) \<Rightarrow> gc_loop ext now nss (saturating_add_u64 reclaimed n) s)"

definition gc_live :: "extern \<Rightarrow> u64 \<Rightarrow> db \<Rightarrow> (storage_error, nat) result \<times> db" where
  "gc_live ext now s =
     (if st_peer_clocks (db_store s) \<noteq> [] then (Err (Io ''refusing to compact''), s)
      else case gc_loop ext now (bt_keys (st_policies (db_store s))) 0 s of
             (Inl e, s) \<Rightarrow> (Err e, s)
           | (Inr reclaimed, s) \<Rightarrow> (Ok reclaimed, snd (checkpoint s)))"

text \<open>Offline compaction of a directory: the result and the directory it leaves.\<close>

definition compact_ns :: "extern \<Rightarrow> u64 \<Rightarrow> store \<Rightarrow> namespace \<Rightarrow> disk \<Rightarrow> disk" where
  "compact_ns ext now st ns dk =
     (let d = ns_files ext dk ns;
          out = compact_records st ns now
      in set_ns_files ext ns
           (d\<lparr>nd_segs := if out = [] then remove_segs (nd_segs d)
                         else write_fresh (sha256 ext) (nd_segs d) out\<rparr>) dk)"

fun compact_loop :: "extern \<Rightarrow> u64 \<Rightarrow> store \<Rightarrow> namespace list \<Rightarrow> nat \<Rightarrow> disk \<Rightarrow> nat \<times> disk" where
  "compact_loop ext now st [] reclaimed dk = (reclaimed, dk)"
| "compact_loop ext now st (ns # nss) reclaimed dk =
     (let before = seg_bytes ext dk ns;
          dk = compact_ns ext now st ns dk
      in compact_loop ext now st nss (saturating_add_u64 reclaimed (before - seg_bytes ext dk ns)) dk)"

definition compact_dir :: "extern \<Rightarrow> u64 \<Rightarrow> disk \<Rightarrow> (storage_error, nat) result \<times> disk" where
  "compact_dir ext now dk =
     (case open_durable ext now dk False of
        Inl e \<Rightarrow> (Err e, dk)
      | Inr s \<Rightarrow>
          if st_peer_clocks (db_store s) \<noteq> [] then (Err (Io ''refusing to compact''), db_disk s)
          else
            let (reclaimed, dk) =
                  compact_loop ext now (db_store s) (bt_keys (st_policies (db_store s))) 0 (db_disk s)
            in (case open_durable ext now dk False of
                  Inl e \<Rightarrow> (Err e, dk)
                | Inr s2 \<Rightarrow> (Ok reclaimed, db_disk (snd (checkpoint s2)))))"

subsection \<open>What remains of an entry\<close>

definition entry_versions :: "entry \<Rightarrow> version list" where
  "entry_versions e = (case e of Lww v \<Rightarrow> [v] | Register vs \<Rightarrow> vs)"

definition live_versions :: "u64 \<Rightarrow> entry \<Rightarrow> version list" where
  "live_versions now e = filter (\<lambda>v. \<not> ttl_expired now v) (entry_versions e)"

definition live_view :: "u64 \<Rightarrow> store \<Rightarrow> namespace \<Rightarrow> key \<Rightarrow> (u64 \<times> bytes \<times> bytes \<times> bytes \<times> u64) option" where
  "live_view now st ns k =
     (case bt_get (st_index st) (ns, k) of
        None \<Rightarrow> None
      | Some e \<Rightarrow> map_option strip (max_version (live_versions now e)))"

text \<open>What \<open>gc_live\<close> leaves of a key: a namespace with nothing to write is left alone.\<close>

definition gc_view :: "u64 \<Rightarrow> store \<Rightarrow> namespace \<Rightarrow> key \<Rightarrow> (u64 \<times> bytes \<times> bytes \<times> bytes \<times> u64) option" where
  "gc_view now st ns k = (if compact_records st ns now = [] then visible st ns k else live_view now st ns k)"

text \<open>A key with both an entry and a tombstone, for concrete instances.\<close>

definition gc_demo :: "db \<Rightarrow> db" where
  "gc_demo s = s\<lparr>db_store := (db_store s)\<lparr>
     st_index := [((''n'', [107]), Lww (mk_version 7 zero32 zero32 [118] 1 0))],
     st_tombs := [((''n'', [107]), 9)]\<rparr>\<rparr>"

section \<open>The rewritten records\<close>

lemma filter_entry_records:
  assumes "distinct (map fst xs)"
  shows "filter (\<lambda>r. r_key r = k) (concat (map (\<lambda>(k, e). entry_records now k e) xs)) =
    (case map_of xs k of None \<Rightarrow> [] | Some e \<Rightarrow> entry_records now k e)"
proof -
  have own: "filter (\<lambda>r. r_key r = k) (entry_records now k' e) = (if k' = k then entry_records now k' e else [])" for k' e
    by (auto simp: entry_records_def version_record_def filter_empty_conv filter_id_conv split: entry.splits)
  have none: "map_of xs k = None \<Longrightarrow> filter (\<lambda>r. r_key r = k) (concat (map (\<lambda>(k, e). entry_records now k e) xs)) = []" for xs
    by (induction xs) (auto simp: own split: if_splits)
  show ?thesis using assms
  proof (induction xs)
    case (Cons x xs)
    obtain k' e where x: "x = (k', e)" by (cases x)
    show ?case
    proof (cases "k' = k")
      case True
      then have "map_of xs k = None" using Cons(2) by (auto simp: x map_of_eq_None_iff)
      then show ?thesis using none [of xs] True by (simp add: x own)
    next
      case False
      then show ?thesis using Cons by (simp add: x own)
    qed
  qed simp
qed

lemma map_of_scan:
  assumes "state_inv st"
  shows "map_of (scan st ns []) k = bt_get (st_index st) (ns, k)"
proof -
  note b = state_invD(2) [OF assms]
  have d: "distinct (map fst (scan st ns []))"
    using scan_sorted [OF b, of ns "[]"] by (simp add: strict_sorted_iff)
  have "map_of (scan st ns []) k = Some e \<longleftrightarrow> bt_get (st_index st) (ns, k) = Some e" for e
    using map_of_eq_Some_iff [OF d, of k e] scan_iff [OF b, of k e ns "[]"] by simp
  then show ?thesis by (metis not_None_eq)
qed

lemma entry_records_put: "r \<in> set (entry_records now k e) \<Longrightarrow> is_put r \<and> \<not> is_del r \<and> r_key r = k"
  by (auto simp: entry_records_def version_record_def is_put_def is_del_def split: entry.splits if_splits)

lemma entry_records_strip:
  "map (\<lambda>r. strip (rec_version r 0)) (entry_records now k e) = map strip (live_versions now e)"
proof -
  have v: "strip (rec_version (version_record k v) 0) = strip v" for v
    unfolding strip_rec_version by (simp add: version_record_def strip_def)
  show ?thesis
    by (auto simp: entry_records_def live_versions_def entry_versions_def v split: entry.splits)
qed

lemma compact_puts:
  assumes "state_inv st"
  shows "map (\<lambda>r. strip (rec_version r 0)) (filter (\<lambda>r. is_put r \<and> r_key r = k) (compact_records st ns now)) =
    (case bt_get (st_index st) (ns, k) of None \<Rightarrow> [] | Some e \<Rightarrow> map strip (live_versions now e))"
proof -
  let ?es = "concat (map (\<lambda>(k, e). entry_records now k e) (scan st ns []))"
  have d: "distinct (map fst (scan st ns []))"
    using scan_sorted [OF state_invD(2) [OF assms], of ns "[]"] by (simp add: strict_sorted_iff)
  have t: "filter (\<lambda>r. is_put r \<and> r_key r = k) (tomb_records st ns) = []"
    by (auto simp: tomb_records_def is_put_def filter_empty_conv)
  have "filter (\<lambda>r. is_put r \<and> r_key r = k) ?es = filter (\<lambda>r. r_key r = k) ?es"
    using entry_records_put by (intro filter_cong) force+
  then show ?thesis
    by (simp add: compact_records_def t filter_entry_records [OF d] map_of_scan [OF assms] entry_records_strip
        split: option.splits)
qed

lemma compact_dels:
  assumes "state_inv st"
  shows "(\<exists>r \<in> set (compact_records st ns now). is_del r \<and> r_key r = k) \<longleftrightarrow>
    bt_contains (ns, k) (st_tombs st) \<and> bt_get (st_index st) (ns, k) = None"
proof -
  have "(\<exists>r \<in> set (compact_records st ns now). is_del r \<and> r_key r = k) \<longleftrightarrow>
      (\<exists>r \<in> set (tomb_records st ns). is_del r \<and> r_key r = k)"
    using entry_records_put by (fastforce simp: compact_records_def)
  also have "\<dots> \<longleftrightarrow> (\<exists>h. ((ns, k), h) \<in> set (st_tombs st)) \<and> \<not> bt_contains (ns, k) (st_index st)"
    by (auto simp: tomb_records_def is_del_def image_iff)
  finally show ?thesis
    using bt_get_iff [OF state_invD(3) [OF assms]] by (auto simp: bt_contains_def)
qed

lemma compact_sub_tags: "r \<in> set (compact_records st ns now) \<Longrightarrow> valid_sub_tag (r_tag r)"
  by (auto simp: compact_records_def tomb_records_def valid_sub_tag_def is_put_def dest!: entry_records_put)

section \<open>What a reader sees of rewritten records\<close>

lemma max_version_strip_cong:
  "map strip vs = map strip ws \<Longrightarrow> map_option strip (max_version vs) = map_option strip (max_version ws)"
proof (induction vs arbitrary: ws)
  case (Cons v vs)
  then obtain w ws' where w: "ws = w # ws'" "strip v = strip w" "map strip vs = map strip ws'" by (cases ws) auto
  have key: "vkey a = vkey b" if "strip a = strip b" for a b
    using that by (simp add: strip_def vkey_def)
  note ih = Cons(1) [OF w(3)]
  show ?case
  proof (cases "max_version vs")
    case None
    then have "max_version ws' = None" using ih by simp
    then show ?thesis using None w(2) by (simp add: w(1) del: max_version_None)
  next
    case (Some a)
    then obtain b where b: "max_version ws' = Some b" "strip a = strip b" using ih by (cases "max_version ws'") auto
    then show ?thesis using Some key [OF b(2)] key [OF w(2)] w(2) by (simp add: w(1))
  qed
qed simp

lemma length_rechain [simp]: "length (rechain h prev rs) = length rs"
  by (induction rs arbitrary: prev) (auto simp: Let_def)

lemma ops_of_rechain:
  assumes "hash32 (sha256 ext)" "is32 h" "\<forall>r \<in> set rs. rec_wf r \<and> valid_sub_tag (r_tag r)"
  shows "ops_of n (rechain (sha256 ext) h rs) = zip rs [Suc n..<Suc (n + length rs)]"
  using assms(2,3)
proof (induction rs arbitrary: n h)
  case (Cons r rs)
  have "recs_of [to_bytes r h] = [r]"
    using parse_chain_to_bytes [of r h None] Cons(2,3) by (simp add: recs_of_def)
  moreover have "rec_ops r sq = [(r, sq)]" for sq
    using Cons(3) by (auto simp: rec_ops_def valid_sub_tag_def)
  moreover have "is32 (record_hash (sha256 ext) h (to_bytes r h))"
    using assms(1) by (simp add: hash32_def record_hash_def)
  moreover have "[Suc n..<Suc (n + length (r # rs))] = Suc n # [Suc (Suc n)..<Suc (Suc n + length rs)]"
    by (simp add: upt_conv_Cons del: upt_Suc)
  ultimately show ?case using Cons(1) [of "record_hash (sha256 ext) h (to_bytes r h)" "Suc n"] Cons(3)
    by (simp add: Let_def del: upt_Suc)
qed simp

lemma key_puts_zip:
  assumes "length sqs = length rs"
  shows "map strip (key_puts k (zip rs sqs)) =
    map (\<lambda>r. strip (rec_version r 0)) (filter (\<lambda>r. is_put r \<and> r_key r = k) rs)"
  using assms
proof (induction rs arbitrary: sqs)
  case (Cons r rs)
  then show ?case by (cases sqs) (auto simp: key_puts_def strip_rec_version)
qed (simp add: key_puts_def)

lemma key_deleted_zip:
  "length sqs = length rs \<Longrightarrow> key_deleted k (zip rs sqs) \<longleftrightarrow> (\<exists>r \<in> set rs. is_del r \<and> r_key r = k)"
  unfolding key_deleted_def by (fastforce simp: set_zip in_set_conv_nth)

lemma view_of_compact:
  assumes "state_inv st" "length sqs = length (compact_records st ns now)"
  shows "view_of (zip (compact_records st ns now) sqs) k = live_view now st ns k"
proof -
  let ?rs = "compact_records st ns now"
  have "map_option strip (max_version (key_puts k (zip ?rs sqs))) = map_option strip (max_version
      (case bt_get (st_index st) (ns, k) of None \<Rightarrow> [] | Some e \<Rightarrow> live_versions now e))"
    by (rule max_version_strip_cong)
       (simp add: key_puts_zip [OF assms(2)] compact_puts [OF assms(1)] split: option.splits)
  then show ?thesis
    using compact_dels [OF assms(1), of ns now k]
    by (auto simp: view_of_def key_deleted_zip [OF assms(2)] live_view_def split: option.splits)
qed

section \<open>One namespace\<close>

lemma log_holds_contiguous: "log_holds h (l, files) bs \<Longrightarrow> contiguous files"
  unfolding log_holds_def log_repr_iff contiguous_def by (metis Suc_lessD option.distinct(1))

lemma parse_None: "parse b h = Ok (r, h') \<Longrightarrow> parse_chain b None = Ok (r, h')"
  by (auto simp: parse_def parse_chain_def Let_def split: if_splits sum.splits)

lemma reapply_replay:
  "replay_records ext ns recs h st = Ok (h', st') \<Longrightarrow> reapply ext ns recs st = (Ok (), st')"
proof (induction ext ns recs h st rule: replay_records.induct)
  case (2 ext ns sq bs recs h st)
  then show ?case by (auto dest!: parse_None split: sum.splits prod.splits)
qed simp

lemma drop_ns_key_state:
  assumes "state_inv st"
  shows "key_state (drop_ns ns st) n k = (if n = ns then (None, None) else key_state st n k)"
    and "state_inv (drop_ns ns st)"
proof -
  note b = state_invD [OF assms]
  have g: "bt_get (filter (\<lambda>((n, _), _). n \<noteq> ns) t) (n, k) = (if n = ns then None else bt_get t (n, k))"
    if "bt_inv t" for t :: "(namespace \<times> key, 'e) btree" and n k
    using that by (subst bt_get_filter) (auto split: option.splits)
  show "key_state (drop_ns ns st) n k = (if n = ns then (None, None) else key_state st n k)"
    using b by (simp add: key_state_def drop_ns_def g)
  show "state_inv (drop_ns ns st)"
    unfolding state_inv_def using b assms
    by (auto simp: drop_ns_def g bt_filter_inv state_inv_def split: if_splits)
qed

text \<open>Changes of the files and the log of one namespace.\<close>

lemma db_inv_set_log:
  assumes ok: "ext_ok ext" and inv: "db_inv ext s" and nl: "ns_log ext s ns bs"
    and p: "bt_get (st_policies (db_store s)) ns = Some p"
    and l: "log_holds (sha256 ext) (l, files) bs'" "log_durable l = st_durable (db_store s)"
    and st: "state_inv st" "st_logs st = bt_insert ns l (st_logs (db_store s))"
      "st_policies st = st_policies (db_store s)" "st_durable st = st_durable (db_store s)"
    and dk: "dk_dirs dk = bt_insert (ns_dir ext ns) \<lparr>nd_segs = files, nd_policy = Some [policy_to_u8 p]\<rparr> (dk_dirs (db_disk s))"
  shows "db_inv ext \<lparr>db_store = st, db_disk = dk\<rparr>" "ns_log ext \<lparr>db_store = st, db_disk = dk\<rparr> ns bs'"
    and "n \<noteq> ns \<Longrightarrow> bt_contains n (st_policies (db_store s)) \<Longrightarrow>
      ns_log ext \<lparr>db_store = st, db_disk = dk\<rparr> n b = ns_log ext s n b"
proof -
  note iv = db_invD [OF inv]
  note bi = state_invD(5) [OF iv(1)] iv(3)
  let ?s = "\<lparr>db_store = st, db_disk = dk\<rparr>"
  show own: "ns_log ext ?s ns bs'"
    using l st dk p bi by (simp add: ns_log_def bt_get_insert)
  show other: "ns_log ext ?s n b = ns_log ext s n b" if "n \<noteq> ns" "bt_contains n (st_policies (db_store s))" for n b
  proof -
    have "ns_dir ext n \<noteq> ns_dir ext ns"
      using ns_dir_inj [OF _ _ ns_log_valid [OF inv nl], of ext n] that ok iv(2) by (auto simp: names_ok_def ext_ok_def)
    then show ?thesis using that st dk bi by (simp add: ns_log_def bt_get_insert)
  qed
  have "\<exists>bs. ns_log ext ?s n bs" if "bt_contains n (st_policies (db_store s))" for n
    using own other [OF _ that] iv(5) [OF that] by (cases "n = ns") auto
  moreover have "\<exists>n. bt_contains n (st_policies (db_store s)) \<and> e = ns_dir ext n"
    if "bt_contains e (dk_dirs dk)" "parse_ns_dir ext e \<noteq> None" for e
    using that dk bi ns_log_unique [OF nl] iv(6) [OF _ that(2)] by auto
  moreover have "bt_contains n (st_policies (db_store s))" if "bt_contains n (st_logs st)" for n
    using that st(2) bi ns_log_unique [OF nl] iv(4) by auto
  ultimately show "db_inv ext ?s"
    using iv(2) st(1,3) bi dk unfolding db_inv_def by (simp add: names_ok_def)
qed

lemma gc_ns_effect:
  assumes ok: "ext_ok ext" and inv: "db_inv ext s" and nl: "ns_log ext s ns bs"
    and wf: "\<forall>r \<in> set (compact_records (db_store s) ns now). rec_wf r"
    and ne: "compact_records (db_store s) ns now \<noteq> []"
  obtains n s' bs' where "gc_ns ext now ns s = (Ok n, s')" "db_inv ext s'" "ns_log ext s' ns bs'"
    "\<And>m b. m \<noteq> ns \<Longrightarrow> bt_contains m (st_policies (db_store s)) \<Longrightarrow> ns_log ext s' m b = ns_log ext s m b"
    "st_policies (db_store s') = st_policies (db_store s)"
    "\<And>m k. m \<noteq> ns \<Longrightarrow> key_state (db_store s') m k = key_state (db_store s) m k"
    "\<And>k. visible (db_store s') ns k = live_view now (db_store s) ns k"
    "length bs' = length (compact_records (db_store s) ns now)" "dk_snap (db_disk s') = dk_snap (db_disk s)"
proof -
  let ?st = "db_store s" and ?out = "compact_records (db_store s) ns now"
  note iv = db_invD [OF inv]
  obtain l0 d p where d: "bt_get (st_logs ?st) ns = Some l0" "bt_get (st_policies ?st) ns = Some p"
      "bt_get (dk_dirs (db_disk s)) (ns_dir ext ns) = Some d" "nd_policy d = Some [policy_to_u8 p]"
      "log_holds (sha256 ext) (l0, nd_segs d) bs"
    using nl by (auto simp: ns_log_def)
  have nf: "ns_files ext (db_disk s) ns = d" by (simp add: ns_files_def d(3))
  have h: "hash32 (sha256 ext)" using ok by (simp add: ext_ok_def)
  let ?bs = "rechain (sha256 ext) zero32 ?out"
  from write_fresh_recover [OF h log_holds_contiguous [OF d(5)] wf, of "ns_dir ext ns" "st_durable ?st"]
  obtain l1 files1 where w: "recover_durable (sha256 ext) (ns_dir ext ns) (write_fresh (sha256 ext) (nd_segs d) ?out) (st_durable ?st) =
      Ok (l1, None, files1)" "log_holds (sha256 ext) (l1, files1) ?bs" by blast
  have dur: "log_durable l1 = st_durable ?st"
    using w(1) by (auto simp: recover_durable_def Let_def split: sum.splits option.splits)
  define st1 where "st1 = drop_ns ns (?st\<lparr>st_logs := bt_insert ns l1 (st_logs ?st)\<rparr>)"
  have inv0: "state_inv (?st\<lparr>st_logs := bt_insert ns l1 (st_logs ?st)\<rparr>)"
    by (rule state_inv_logs [OF iv(1)]) (simp add: state_invD(5) [OF iv(1)])
  have st1: "state_inv st1" "st_policies st1 = st_policies ?st" "st_durable st1 = st_durable ?st"
      "st_logs st1 = bt_insert ns l1 (st_logs ?st)"
      "key_state st1 m k = (if m = ns then (None, None) else key_state ?st m k)" for m k
    using drop_ns_key_state [OF inv0] unfolding st1_def by (simp_all add: drop_ns_def key_state_def)
  define dk2 where "dk2 = set_ns_files ext ns (d\<lparr>nd_segs := files1\<rparr>)
      (set_ns_files ext ns (d\<lparr>nd_segs := write_fresh (sha256 ext) (nd_segs d) ?out\<rparr>) (db_disk s))"
  have dk2: "dk_dirs dk2 = bt_insert (ns_dir ext ns) \<lparr>nd_segs = files1, nd_policy = Some [policy_to_u8 p]\<rparr> (dk_dirs (db_disk s))"
    by (rule bt.entries_unique)
       (use iv(3) d(4) in \<open>auto simp: dk2_def set_ns_files_def bt_get_insert fun_eq_iff\<close>)
  define s2 where "s2 = s\<lparr>db_store := st1, db_disk := dk2\<rparr>"
  have s2: "s2 = \<lparr>db_store = st1, db_disk = dk2\<rparr>" by (simp add: s2_def)
  note i2 = db_inv_set_log [OF ok inv nl d(2) w(2) dur st1(1,4,2,3) dk2, folded s2]
  have rd: "log_records ext s2 ns 1 0 = Ok (map (\<lambda>i. (0 + i + 1, ?bs ! i)) [0..<length ?bs])"
    using log_records_window [OF ok i2(2), of 1 0] log_window_tail [of 0 ?bs] by simp
  have ch: "chain_from (sha256 ext) zero32 ?bs" using rechain_chain [OF h is32_zero32 wf] by simp
  have p1: "bt_get (st_policies st1) ns = Some p" using st1(2) d(2) by simp
  from replay_records_effect [OF ch st1(1) p1, of 0] obtain st3 where
    st3: "replay_records ext ns (map (\<lambda>i. (0 + i + 1, ?bs ! i)) [0..<length ?bs]) zero32 st1 =
        Ok (chain_head (sha256 ext) zero32 ?bs, st3)" "kept st1 st3"
      "\<forall>m k. key_state st3 m k = (if m = ns then fold (key_step p k) (ops_of 0 ?bs) (key_state st1 ns k) else key_state st1 m k)"
    by blast
  have gc: "\<exists>n. gc_ns ext now ns s = (Ok n, s2\<lparr>db_store := st3\<rparr>)"
    using ne unfolding gc_ns_def Let_def nf
    by (simp add: w(1) s2_def [symmetric] st1_def [symmetric] dk2_def [symmetric] rd [simplified] reapply_replay [OF st3(1), simplified])
  have k2: "kept (db_store s2) st3" using st3(2) by (simp add: s2)
  have vis: "visible st3 ns k = live_view now ?st ns k" for k
  proof -
    let ?d = "demo_store p"
    have dp: "bt_get (st_policies ?d) ''n'' = Some p" by (simp add: demo_store_def bt_get_Cons)
    have z: "ops_of 0 ?bs = zip ?out [Suc 0..<Suc (length ?out)]"
      using ops_of_rechain [OF h is32_zero32, of ?out 0] wf compact_sub_tags by simp
    have "key_state st3 ns k = key_state (replay_ops ext ''n'' (ops_of 0 ?bs) ?d) ''n'' k"
      unfolding fold_key_step [OF demo_store_ok(1) dp] using st3(3) st1(5)
      by (simp add: key_state_def demo_store_def)
    then have "visible st3 ns k = view_of (ops_of 0 ?bs) k"
      using visible_key_state [of st3 ns k] replay_ops_visible [OF demo_store_ok, where ext = ext and ops = "ops_of 0 ?bs" and k = k and p1 = p]
      by simp
    then show ?thesis unfolding z by (simp add: view_of_compact [OF iv(1)] del: upt_Suc)
  qed
  have snap: "dk_snap (db_disk s2) = dk_snap (db_disk s)" by (simp add: s2 dk2_def set_ns_files_def)
  from gc obtain n where "gc_ns ext now ns s = (Ok n, s2\<lparr>db_store := st3\<rparr>)" by blast
  then show thesis
    by (rule that [OF _ db_inv_kept [OF i2(1) k2], of _ ?bs])
       (use i2(2,3) k2 st1 st3(2,3) vis snap in \<open>auto simp: ns_log_kept [OF k2] kept_def\<close>)
qed

section \<open>All namespaces\<close>

lemma compact_records_cong:
  assumes "state_inv st" "state_inv st'" "\<And>k. key_state st' ns k = key_state st ns k"
  shows "compact_records st' ns now = compact_records st ns now"
proof -
  have i: "bt_get (st_index st') (ns, k) = bt_get (st_index st) (ns, k)"
    "bt_get (st_tombs st') (ns, k) = bt_get (st_tombs st) (ns, k)" for k
    using assms(3) [of k] by (simp_all add: key_state_def)
  note b = state_invD [OF assms(1)] and b' = state_invD [OF assms(2)]
  have "filter (\<lambda>((n, _), _). n = ns) (st_index st') = filter (\<lambda>((n, _), _). n = ns) (st_index st)"
    by (rule bt.entries_unique)
       (use b b' i in \<open>auto simp: bt_filter_inv bt_get_filter fun_eq_iff split: option.splits\<close>)
  then have "scan st' ns [] = scan st ns []" using b(2) b'(2) by (simp add: scan_def scan_range_filter)
  moreover have "filter (\<lambda>((n, k), _). n = ns \<and> \<not> bt_contains (ns, k) (st_index st')) (st_tombs st') =
      filter (\<lambda>((n, k), _). n = ns \<and> \<not> bt_contains (ns, k) (st_index st)) (st_tombs st)"
    by (rule bt.entries_unique)
       (use b b' i in \<open>auto simp: bt_filter_inv bt_get_filter fun_eq_iff bt_contains_def split: option.splits\<close>)
  ultimately show ?thesis by (simp add: compact_records_def tomb_records_def)
qed

lemma gc_view_cong:
  assumes "state_inv st" "state_inv st'" "\<And>k. key_state st' ns k = key_state st ns k"
  shows "gc_view now st' ns k = gc_view now st ns k"
  using compact_records_cong [OF assms, of now] visible_key_state [OF assms(3), of k] assms(3) [of k]
  by (simp add: gc_view_def live_view_def key_state_def)

lemma gc_ns_step:
  assumes ok: "ext_ok ext" and inv: "db_inv ext s" and c: "bt_contains ns (st_policies (db_store s))"
    and wf: "\<forall>r \<in> set (compact_records (db_store s) ns now). rec_wf r"
  obtains n s' where "gc_ns ext now ns s = (Ok n, s')" "db_inv ext s'"
    "st_policies (db_store s') = st_policies (db_store s)"
    "\<And>m k. m \<noteq> ns \<Longrightarrow> key_state (db_store s') m k = key_state (db_store s) m k"
    "\<And>k. visible (db_store s') ns k = gc_view now (db_store s) ns k"
proof (cases "compact_records (db_store s) ns now = []")
  case True
  show thesis
    by (rule that [of "0" s]) (use True inv in \<open>auto simp: gc_ns_def Let_def gc_view_def\<close>)
next
  case False
  obtain bs where bs: "ns_log ext s ns bs" using db_invD(5) [OF inv c] by blast
  obtain n s' bs' where "gc_ns ext now ns s = (Ok n, s')" "db_inv ext s'" "ns_log ext s' ns bs'"
    "\<And>m b. m \<noteq> ns \<Longrightarrow> bt_contains m (st_policies (db_store s)) \<Longrightarrow> ns_log ext s' m b = ns_log ext s m b"
    "st_policies (db_store s') = st_policies (db_store s)"
    "\<And>m k. m \<noteq> ns \<Longrightarrow> key_state (db_store s') m k = key_state (db_store s) m k"
    "\<And>k. visible (db_store s') ns k = live_view now (db_store s) ns k"
    by (rule gc_ns_effect [OF ok inv bs wf False]) blast
  then show thesis using that False by (simp add: gc_view_def)
qed

lemma gc_loop_effect:
  assumes ok: "ext_ok ext" and "db_inv ext s" "distinct nss"
    and "\<forall>ns \<in> set nss. bt_contains ns (st_policies (db_store s)) \<and>
      (\<forall>r \<in> set (compact_records (db_store s) ns now). rec_wf r)"
  shows "\<exists>n s'. gc_loop ext now nss acc s = (Ok n, s') \<and> db_inv ext s' \<and>
    st_policies (db_store s') = st_policies (db_store s) \<and>
    (\<forall>m k. m \<notin> set nss \<longrightarrow> key_state (db_store s') m k = key_state (db_store s) m k) \<and>
    (\<forall>ns \<in> set nss. \<forall>k. visible (db_store s') ns k = gc_view now (db_store s) ns k)"
  using assms(2-4)
proof (induction nss arbitrary: s acc)
  case (Cons ns nss)
  obtain n s1 where s1: "gc_ns ext now ns s = (Ok n, s1)" "db_inv ext s1"
      "st_policies (db_store s1) = st_policies (db_store s)"
      "\<And>m k. m \<noteq> ns \<Longrightarrow> key_state (db_store s1) m k = key_state (db_store s) m k"
      "\<And>k. visible (db_store s1) ns k = gc_view now (db_store s) ns k"
    by (rule gc_ns_step [OF ok Cons(2), of ns now]) (use Cons(4) in auto)
  note si = db_invD(1) [OF Cons(2)] db_invD(1) [OF s1(2)]
  have same: "compact_records (db_store s1) m now = compact_records (db_store s) m now"
    "gc_view now (db_store s1) m k = gc_view now (db_store s) m k" if "m \<noteq> ns" for m k
    using compact_records_cong [OF si, of m now] gc_view_cong [OF si, of m now k] s1(4) [OF that] by auto
  have "\<forall>m \<in> set nss. bt_contains m (st_policies (db_store s1)) \<and>
      (\<forall>r \<in> set (compact_records (db_store s1) m now). rec_wf r)"
    using Cons(3,4) same(1) s1(3) by (metis distinct.simps(2) list.set_intros(2))
  with Cons(1) [OF s1(2), of "saturating_add_u64 acc n"] Cons(3) obtain n' s' where
    s': "gc_loop ext now nss (saturating_add_u64 acc n) s1 = (Ok n', s')" "db_inv ext s'"
      "st_policies (db_store s') = st_policies (db_store s1)"
      "\<forall>m k. m \<notin> set nss \<longrightarrow> key_state (db_store s') m k = key_state (db_store s1) m k"
      "\<forall>ns \<in> set nss. \<forall>k. visible (db_store s') ns k = gc_view now (db_store s1) ns k" by auto
  have "visible (db_store s') ns k = gc_view now (db_store s) ns k" for k
    using visible_key_state [of "db_store s'" ns k "db_store s1" ns] s'(4) s1(5) Cons(3) by simp
  moreover have "visible (db_store s') m k = gc_view now (db_store s) m k" if "m \<in> set nss" for m k
    using s'(5) that same(2) [of m k] Cons(3) by auto
  ultimately show ?case
    using s1 s' by (intro exI [of _ n'] exI [of _ s']) auto
qed simp

lemma gc_live_effect:
  assumes "ext_ok ext" "db_inv ext s" "st_peer_clocks (db_store s) = []"
    and "\<forall>ns. bt_contains ns (st_policies (db_store s)) \<longrightarrow>
      (\<forall>r \<in> set (compact_records (db_store s) ns now). rec_wf r)"
  shows "\<exists>n s'. gc_live ext now s = (Ok n, s') \<and> db_inv ext s' \<and>
    (\<forall>ns k. bt_contains ns (st_policies (db_store s)) \<longrightarrow>
       visible (db_store s') ns k = gc_view now (db_store s) ns k)"
proof -
  let ?nss = "bt_keys (st_policies (db_store s))"
  have d: "distinct ?nss"
    using state_invD(1) [OF db_invD(1) [OF assms(2)]] by (auto simp: bt_inv_def bt_keys_def strict_sorted_iff)
  from gc_loop_effect [OF assms(1,2) d, of now 0] assms(4) obtain n s' where
    s': "gc_loop ext now ?nss 0 s = (Ok n, s')" "db_inv ext s'"
      "\<forall>ns \<in> set ?nss. \<forall>k. visible (db_store s') ns k = gc_view now (db_store s) ns k"
    by (auto simp: bt_contains_iff)
  have "db_inv ext (snd (checkpoint s'))"
    using s'(2) by (simp add: checkpoint_def db_inv_def ns_log_def)
  moreover have "gc_live ext now s = (Ok n, snd (checkpoint s'))"
    using assms(3) s'(1) by (simp add: gc_live_def)
  moreover have "db_store (snd (checkpoint s')) = db_store s'" by (simp add: checkpoint_def)
  ultimately show ?thesis using s'(3) by (auto simp: bt_contains_iff)
qed

section \<open>Compaction under an older snapshot\<close>

lemma parse_ns_dir_valid: "parse_ns_dir ext d = Some ns \<Longrightarrow> valid_ns ns"
  by (auto simp: parse_ns_dir_def Let_def split: if_splits option.splits)

lemma open_ns_dirs:
  assumes "open_ns ext durable info n (st, dk) = Ok (st', dk')" "bt_inv (dk_dirs dk)"
  shows "bt_inv (dk_dirs dk')" "e \<noteq> ns_dir ext n \<Longrightarrow> bt_get (dk_dirs dk') e = bt_get (dk_dirs dk) e"
  using assms
  by (auto simp: open_ns_def Let_def set_ns_files_def bt_get_insert
      split: option.splits sum.splits prod.splits if_splits)

lemma open_all_fails:
  assumes "hex_ok ext" "valid_ns ns"
    and "\<And>st dk'. bt_get (dk_dirs dk') (ns_dir ext ns) = d \<Longrightarrow> \<exists>e. open_ns ext durable info ns (st, dk') = Err e"
    and "ns \<in> set nss" "\<forall>n \<in> set nss. valid_ns n" "bt_inv (dk_dirs dk)" "bt_get (dk_dirs dk) (ns_dir ext ns) = d"
  shows "\<exists>e. open_all ext durable info nss (st, dk) = Err e"
  using assms(4-7)
proof (induction nss arbitrary: st dk)
  case (Cons n nss)
  show ?case
  proof (cases "n = ns")
    case True
    then show ?thesis using assms(3) [OF Cons(5), of st] by auto
  next
    case False
    then have ne: "ns_dir ext ns \<noteq> ns_dir ext n" using ns_dir_inj [OF assms(1,2), of n] Cons(3) by auto
    show ?thesis
    proof (cases "open_ns ext durable info n (st, dk)")
      case (Inr sd)
      obtain st' dk' where sd: "sd = (st', dk')" by (cases sd)
      note o = open_ns_dirs [OF Inr [unfolded sd] Cons(4)]
      have "\<exists>e. open_all ext durable info nss (st', dk') = Err e"
        by (rule Cons(1)) (use Cons(2,3,5) False o ne in auto)
      then show ?thesis by (simp add: Inr sd)
    qed simp
  qed
qed simp

lemma open_ns_behind:
  assumes "hash32 (sha256 ext)" "contiguous files" "\<forall>r \<in> set out. rec_wf r"
    and "bt_get info ns = Some (n, h)" "length out < n"
    and "bt_get (dk_dirs dk) (ns_dir ext ns) =
      Some d" "nd_segs d = (if out = [] then remove_segs files else write_fresh (sha256 ext) files out)"
  shows "\<exists>e. open_ns ext durable info ns (st, dk) = Err e"
proof -
  obtain l files' where l: "recover_durable (sha256 ext) (ns_dir ext ns) (nd_segs d) durable = Ok (l, None, files')"
    "log_seq l = length out"
  proof (cases "out = []")
    case True
    then show thesis
      using recover_empty [OF remove_segs_empty [OF assms(2)], of "sha256 ext" "ns_dir ext ns" durable] that assms(7)
      by (simp add: log_of_def)
  next
    case False
    from write_fresh_recover [OF assms(1-3), of "ns_dir ext ns" durable] obtain l files' where
      l: "recover_durable (sha256 ext) (ns_dir ext ns) (write_fresh (sha256 ext) files out) durable = Ok (l, None, files')"
        "log_holds (sha256 ext) (l, files') (rechain (sha256 ext) zero32 out)" by blast
    obtain segs where "log_repr (sha256 ext) (l, files') segs" "rechain (sha256 ext) zero32 out = concat segs"
      using l(2) by (auto simp: log_holds_def)
    then show thesis using that l(1) False assms(7) by (metis log_reprD(6) length_rechain)
  qed
  show ?thesis
    using assms(4,5) l(2) by (auto simp: open_ns_def Let_def assms(6) l(1) split: sum.splits)
qed

lemma compact_loop_dirs:
  assumes "hex_ok ext" "valid_ns ns" "\<forall>n \<in> set nss. valid_ns n" "distinct nss" "bt_inv (dk_dirs dk)"
    and "bt_get (dk_dirs dk) (ns_dir ext ns) = Some d"
  shows "bt_inv (dk_dirs (snd (compact_loop ext now st nss acc dk))) \<and>
    dk_snap (snd (compact_loop ext now st nss acc dk)) = dk_snap dk \<and>
    bt_get (dk_dirs (snd (compact_loop ext now st nss acc dk))) (ns_dir ext ns) =
      Some (if ns \<in> set nss then d\<lparr>nd_segs := if compact_records st ns now = [] then remove_segs (nd_segs d)
         else write_fresh (sha256 ext) (nd_segs d) (compact_records st ns now)\<rparr> else d)"
  using assms(3-6)
proof (induction nss arbitrary: dk acc d)
  case (Cons n nss)
  let ?dk = "compact_ns ext now st n dk"
  have b: "bt_inv (dk_dirs ?dk)" using Cons(4) by (simp add: compact_ns_def set_ns_files_def Let_def)
  have v: "\<forall>n \<in> set nss. valid_ns n" "distinct nss" using Cons(2,3) by auto
  have g: "bt_get (dk_dirs ?dk) (ns_dir ext ns) = Some (if ns = n then d\<lparr>nd_segs := if compact_records st ns now = []
      then remove_segs (nd_segs d) else write_fresh (sha256 ext) (nd_segs d) (compact_records st ns now)\<rparr> else d)"
    using ns_dir_inj [OF assms(1,2), of n] Cons(2,4,5)
    by (auto simp: compact_ns_def set_ns_files_def Let_def bt_get_insert ns_files_def)
  have "dk_snap ?dk = dk_snap dk" by (simp add: Let_def compact_ns_def set_ns_files_def)
  then show ?case using Cons(1) [OF v b g] Cons(3) by (auto simp: Let_def)
qed simp

section \<open>Properties\<close>


lemma gc_demo_ok:
  assumes "db_inv demo_ext s" "bt_get (st_policies (db_store s)) ''n'' = Some PolicyLww"
  shows "db_inv demo_ext (gc_demo s)"
    "compact_records (db_store (gc_demo s)) ''n'' 0 = [version_record [107] (mk_version 7 zero32 zero32 [118] 1 0)]"
    "rec_wf (version_record [107] (mk_version 7 zero32 zero32 [118] 1 0))"
proof -
  have "state_inv (db_store (gc_demo s))"
    using db_invD(1) [OF assms(1)] assms(2) unfolding state_inv_def
    by (auto simp: gc_demo_def bt_get_Cons entry_ok_def split: if_splits)
  then have "kept (db_store s) (db_store (gc_demo s))" by (simp add: kept_def gc_demo_def)
  then show "db_inv demo_ext (gc_demo s)" using db_inv_kept [OF assms(1)] by (simp add: gc_demo_def)
  show "compact_records (db_store (gc_demo s)) ''n'' 0 = [version_record [107] (mk_version 7 zero32 zero32 [118] 1 0)]"
    by (simp add: compact_records_def scan_def scan_range_def tomb_records_def gc_demo_def entry_records_def
        ttl_expired_def mk_version_def bt_contains_def bt_get_Cons less_prod_def)
  show "rec_wf (version_record [107] (mk_version 7 zero32 zero32 [118] 1 0))"
    by (simp add: rec_wf_def version_record_def mk_version_def op_wf_def payload_bytes_def)
qed

lemma demo_only_ns:
  assumes "create_namespace demo_ext ''n'' p (empty_db False) = (Ok (), s)"
  shows "st_policies (db_store s) = [(''n'', p)]" "st_peer_clocks (db_store s) = []"
  using assms
  by (auto simp: create_namespace_def empty_db_def empty_store_def Let_def split: if_splits sum.splits)

lemma gc_demo_wf:
  assumes "create_namespace demo_ext ''n'' PolicyLww (empty_db False) = (Ok (), s)" "db_inv demo_ext s"
  shows "\<forall>ns. bt_contains ns (st_policies (db_store (gc_demo s))) \<longrightarrow>
      (\<forall>r \<in> set (compact_records (db_store (gc_demo s)) ns 0). rec_wf r)"
    and "st_peer_clocks (db_store (gc_demo s)) = []" "bt_contains ''n'' (st_policies (db_store (gc_demo s)))"
  using gc_demo_ok [OF assms(2)] demo_only_ns [OF assms(1)]
  by (auto simp: gc_demo_def bt_contains_def bt_get_Cons split: if_splits)


text \<open>Compaction revives deleted keys: if a key has a tombstone and also an entry with an
  unexpired version, which is the state a deletion followed by an older write leaves, then
  nothing is read under it before \<open>gc_live\<close> and that version is read afterwards.\<close>

theorem gc_live_revives_deleted:
  assumes "ext_ok ext" "db_inv ext s" "st_peer_clocks (db_store s) = []"
    and "\<forall>ns. bt_contains ns (st_policies (db_store s)) \<longrightarrow>
      (\<forall>r \<in> set (compact_records (db_store s) ns now). rec_wf r)"
    and "bt_contains (ns, k) (st_tombs (db_store s))" "bt_get (st_index (db_store s)) (ns, k) = Some e"
    and "max_version (live_versions now e) = Some v"
  shows "store_get (db_store s) ns k = None \<and>
    (\<exists>n s'. gc_live ext now s = (Ok n, s') \<and> visible (db_store s') ns k = Some (strip v))"
proof -
  note si = db_invD(1) [OF assms(2)]
  have c: "bt_contains ns (st_policies (db_store s))"
    using si assms(6) unfolding state_inv_def bt_contains_def by (metis option.distinct(1))
  have "live_versions now e \<noteq> []" using assms(7) by auto
  then have "compact_records (db_store s) ns now \<noteq> []"
    using compact_puts [OF si, of k ns now] assms(6) by auto
  then have "gc_view now (db_store s) ns k = Some (strip v)"
    using assms(6,7) by (simp add: gc_view_def live_view_def)
  then show ?thesis
    using gc_live_effect [OF assms(1-4)] c assms(5) by (auto simp: store_get_def)
qed

theorem gc_live_revives_deleted_witness:
  "\<exists>s n s'. store_get (db_store (gc_demo s)) ''n'' [107] = None \<and> gc_live demo_ext 0 (gc_demo s) = (Ok n, s') \<and>
     visible (db_store s') ''n'' [107] = Some (7, zero32, zero32, [118], 0)"
proof -
  obtain s where s: "create_namespace demo_ext ''n'' PolicyLww (empty_db False) = (Ok (), s)" "db_inv demo_ext s"
    "bt_get (st_policies (db_store s)) ''n'' = Some PolicyLww" by (rule demo_db)
  note w = gc_demo_wf [OF s(1,2)]
  let ?v = "mk_version 7 zero32 zero32 [118] 1 0"
  have "bt_contains (''n'', [107]) (st_tombs (db_store (gc_demo s)))"
    "bt_get (st_index (db_store (gc_demo s))) (''n'', [107]) = Some (Lww ?v)"
    "max_version (live_versions 0 (Lww ?v)) = Some ?v"
    by (simp_all add: gc_demo_def bt_contains_def bt_get_Cons live_versions_def entry_versions_def ttl_expired_def mk_version_def)
  from gc_live_revives_deleted [OF demo_ext_ok gc_demo_ok(1) [OF s(2,3)] w(2,1) this]
  have "store_get (db_store (gc_demo s)) ''n'' [107] = None \<and>
    (\<exists>n s'. gc_live demo_ext 0 (gc_demo s) = (Ok n, s') \<and> visible (db_store s') ''n'' [107] = Some (strip ?v))" .
  then show ?thesis by (auto simp: strip_def mk_version_def)
qed

text \<open>Offline compaction destroys a checkpointed node: if the snapshot is current and some
  namespace's rewritten log is shorter than its log, then \<open>compact_dir\<close> returns an error
  after it has replaced the logs, and the directory it leaves cannot be opened any more.\<close>

theorem compact_dir_after_checkpoint_fails:
  assumes "ext_ok ext" "db_inv ext s" "snap_ok (db_store s)" "st_peer_clocks (db_store s) = []"
    and "ns_log ext s ns bs" "length (compact_records (db_store s) ns now) < length bs"
    and "\<forall>r \<in> set (compact_records (db_store s) ns now). rec_wf r"
  shows "\<exists>e dk. compact_dir ext now (db_disk (snd (checkpoint s))) = (Err e, dk) \<and>
    (\<forall>later durable. \<exists>e. open_durable ext later dk durable = Err e)"
proof -
  let ?c = "snd (checkpoint s)"
  have hex: "hex_ok ext" and h32: "hash32 (sha256 ext)" using assms(1) by (simp_all add: ext_ok_def)
  have c: "db_store ?c = db_store s" "dk_snap (db_disk ?c) = Some (snap_bytes (db_store ?c))"
    "dk_dirs (db_disk ?c) = dk_dirs (db_disk s)" by (simp_all add: checkpoint_def)
  have nl: "ns_log ext ?c = ns_log ext s" by (simp add: ns_log_def c fun_eq_iff)
  have inv: "db_inv ext ?c" using assms(2) by (simp add: db_inv_def nl c)
  obtain d where d: "snap_agrees ext ?c (db_store s) d" "\<forall>ns bs. ns_log ext s ns bs \<longrightarrow> d ns = length bs"
    using snap_agrees_self [OF assms(1) inv _ c(2)] assms(3) unfolding c(1) nl by blast
  obtain s1 where s1: "open_durable ext now (db_disk ?c) False = Ok s1" "db_inv ext s1"
      "st_policies (db_store s1) = st_policies (db_store ?c)" "\<And>ns bs. ns_log ext ?c ns bs \<Longrightarrow> ns_log ext s1 ns bs"
      "dk_snap (db_disk s1) = dk_snap (db_disk ?c)"
      "\<forall>ns bs. ns_log ext ?c ns bs \<longrightarrow> d ns = length bs \<Longrightarrow>
       (\<forall>ns k. key_state (db_store s1) ns k = key_state (db_store s) ns k) \<and>
       st_peer_clocks (db_store s1) = st_peer_clocks (db_store s) \<and> st_revision (db_store s1) = st_revision (db_store s) \<and>
       (\<forall>x. x \<noteq> ''created_ms'' \<or> bt_contains x (st_meta (db_store s)) \<longrightarrow>
          bt_get (st_meta (db_store s1)) x = bt_get (st_meta (db_store s)) x)"
    by (rule open_effect [OF assms(1) inv d(1)]) blast
  have same: "key_state (db_store s1) m k = key_state (db_store s) m k" "st_peer_clocks (db_store s1) = []" for m k
    using s1(6) d(2) assms(4) unfolding nl by auto
  let ?out = "compact_records (db_store s) ns now" and ?nss = "bt_keys (st_policies (db_store s1))"
  have out: "compact_records (db_store s1) ns now = ?out"
    by (rule compact_records_cong [OF db_invD(1) [OF assms(2)] db_invD(1) [OF s1(2)] same(1)])
  have l1: "ns_log ext s1 ns bs" using s1(4) nl assms(5) by simp
  then obtain f l where f: "bt_get (dk_dirs (db_disk s1)) (ns_dir ext ns) = Some f" "log_holds (sha256 ext) (l, nd_segs f) bs"
    by (auto simp: ns_log_def)
  have v: "valid_ns ns" by (rule ns_log_valid [OF s1(2) l1])
  have vs: "\<forall>n \<in> set ?nss. valid_ns n" "distinct ?nss" "ns \<in> set ?nss"
    using db_invD(2) [OF s1(2)] state_invD(1) [OF db_invD(1) [OF s1(2)]] ns_log_unique [OF l1]
    by (auto simp: names_ok_def bt_contains_iff bt_inv_def bt_keys_def strict_sorted_iff)
  define dk where "dk = snd (compact_loop ext now (db_store s1) ?nss 0 (db_disk s1))"
  obtain rc where rc: "compact_loop ext now (db_store s1) ?nss 0 (db_disk s1) = (rc, dk)"
    unfolding dk_def by (metis prod.collapse)
  note dirs = compact_loop_dirs [OF hex v vs(1,2) db_invD(3) [OF s1(2)] f(1), of now "db_store s1" 0, folded dk_def, unfolded out]
  let ?f = "f\<lparr>nd_segs := if ?out = [] then remove_segs (nd_segs f) else write_fresh (sha256 ext) (nd_segs f) ?out\<rparr>"
  have fail: "\<exists>e. open_durable ext later dk durable = Err e" for later durable
  proof -
    have snap: "dk_snap dk = Some (snap_bytes (db_store s))" using dirs s1(5) c by simp
    obtain st info where ld: "load_snap (snap_bytes (db_store s)) (empty_store durable) = Ok (st, info)"
        "bt_get info ns = Some (length bs, snd (head_or_zero (db_store s) ns))"
    proof -
      obtain st info where i: "(case dk_snap (db_disk ?c) of None \<Rightarrow> Ok (empty_store durable, [])
          | Some bytes \<Rightarrow> load_snap bytes (empty_store durable)) = Ok (st, info)"
          "bt_get info ns = (if bt_contains ns (st_policies (db_store s)) then Some (head_or_zero (db_store s) ns) else None)"
        by (rule snap_agrees_load [OF d(1) db_invD(1) [OF inv], of durable]) blast
      have "fst (head_or_zero (db_store s) ns) = length bs"
        using d assms(5) ns_log_unique [OF assms(5)] nl unfolding snap_agrees_def c(1) by (metis fst_conv)
      then show thesis using that [of st info] i c ns_log_unique [OF assms(5)] by (metis option.simps(5) prod.collapse)
    qed
    have "parse_ns_dir ext (ns_dir ext ns) = Some ns" by (rule parse_ns_dir_ns_dir [OF hex v])
    then have mem: "ns \<in> set (ns_names ext dk)"
      using dirs vs(3) unfolding ns_names_def by (auto simp: set_map_filter_iff bt_contains_iff [symmetric] bt_contains_def)
    have val: "\<forall>n \<in> set (ns_names ext dk). valid_ns n"
      by (auto simp: ns_names_def set_map_filter_iff dest: parse_ns_dir_valid)
    have behind: "\<exists>e. open_ns ext durable info ns (st', dk') = Err e"
      if "bt_get (dk_dirs dk') (ns_dir ext ns) = Some ?f" for st' dk'
      by (rule open_ns_behind [OF h32 log_holds_contiguous [OF f(2)] assms(7) ld(2) assms(6) that]) simp
    have "\<exists>e. open_all ext durable info (ns_names ext dk) (st, dk) = Err e"
      by (rule open_all_fails [OF hex v behind mem val]) (use dirs vs(3) in auto)
    then show ?thesis by (auto simp: open_durable_def snap ld(1) split: option.splits)
  qed
  obtain e where e: "open_durable ext now dk False = Err e" using fail by blast
  have "compact_dir ext now (db_disk ?c) = (Err e, dk)"
    unfolding compact_dir_def s1(1) sum.case rc Let_def prod.case e by (simp add: same(2))
  then show ?thesis using fail by blast
qed

theorem compact_dir_after_checkpoint_fails_witness:
  "\<exists>s e dk. db_inv demo_ext s \<and> compact_dir demo_ext 0 (db_disk (snd (checkpoint s))) = (Err e, dk) \<and>
     (\<forall>later durable. \<exists>e. open_durable demo_ext later dk durable = Err e)"
proof -
  obtain s where s: "create_namespace demo_ext ''n'' PolicyLww (empty_db False) = (Ok (), s)" "db_inv demo_ext s"
    "ns_log demo_ext s ''n'' []" "st_index (db_store s) = []" "st_tombs (db_store s) = []" by (rule demo_db)
  have st: "st_policies (db_store s) = [(''n'', PolicyLww)]" "st_peer_clocks (db_store s) = []"
    "st_meta (db_store s) = []" "st_revision (db_store s) = 1"
    using s(1) by (auto simp: create_namespace_def empty_db_def empty_store_def Let_def split: if_splits sum.splits)
  obtain l where l: "bt_get (st_logs (db_store s)) ''n'' = Some l" by (rule ns_log_get [OF s(3)])
  define s2 where "s2 = snd (log_write demo_ext ''n'' l demo_op s)"
  note w = log_write_effect [OF demo_ext_ok s(2,3) l demo_op_wf, folded s2_def]
  obtain l2 where l2: "db_store s2 = (db_store s)\<lparr>st_logs := bt_insert ''n'' l2 (st_logs (db_store s))\<rparr>" using w(4) by blast
  let ?bs = "[] @ [next_bytes demo_ext [] demo_op]"
  have nl: "ns_log demo_ext s2 ''n'' ?bs" by (rule w(2))
  have only: "n = ''n''" if "(n, x) \<in> set (st_logs (db_store s2))" for n x
    using that db_invD(4) [OF w(6), of n] bt_get_iff [OF state_invD(5) [OF db_invD(1) [OF w(6)]], of n x] l2 st(1)
    by (auto simp: bt_contains_def bt_get_Cons split: if_splits)
  have logs: "log_seq x < 2 ^ 64 \<and> is32 (log_head x)" if "(n, x) \<in> set (st_logs (db_store s2))" for n x
  proof -
    have "bt_get (st_logs (db_store s2)) ''n'' = Some x"
      using that only [OF that] bt_get_iff [OF state_invD(5) [OF db_invD(1) [OF w(6)]], of n x] by simp
    then obtain f where f: "log_holds (sha256 demo_ext) (x, f) ?bs" using nl by (auto simp: ns_log_def)
    then obtain segs where "log_repr (sha256 demo_ext) (x, f) segs" "?bs = concat segs" by (auto simp: log_holds_def)
    then have "log_seq x = 1" using log_reprD(6) by (metis One_nat_def append_Nil length_Cons list.size(3))
    moreover have "is32 (log_head x)"
      using log_holds_head [OF f] chain_head32 [of "sha256 demo_ext" zero32 ?bs] demo_ext_ok by (simp add: ext_ok_def)
    ultimately show ?thesis by simp
  qed
  have "utf8_ok (str_bytes ''n'')" by (rule valid_ns_utf8) (simp add: valid_ns_def is_lower_def)
  then have ok: "snap_ok (db_store s2)"
    using db_invD(1) [OF w(6)] logs st s(4,5) l2
    by (auto simp: snap_ok_def name_ok_def bt_keys_def)
  have out: "compact_records (db_store s2) ''n'' 0 = []"
    by (simp add: compact_records_def scan_def scan_range_def tomb_records_def l2 s(4,5))
  have pc: "st_peer_clocks (db_store s2) = []" using l2 st(2) by simp
  have less: "length (compact_records (db_store s2) ''n'' 0) < length ?bs"
    and wf: "\<forall>r \<in> set (compact_records (db_store s2) ''n'' 0). rec_wf r" by (simp_all add: out)
  from compact_dir_after_checkpoint_fails [OF demo_ext_ok w(6) ok pc nl less wf] w(6) show ?thesis by blast
qed

end
