(* ===== verification/Base64.thy ===== *)
theory Base64
  imports Prelude
begin

text \<open>
  Base64 and base64url (\<open>src/util.rs\<close>): encoding without padding, decoding with up to two
  trailing padding characters.  The lemmas show that decoding inverts encoding for both
  alphabets, with and without padding.
\<close>

section \<open>Definitions\<close>

definition B64 :: bytes where
  "B64 = str_bytes ''ABCDEFGHIJKLMNOPQRSTUVWXYZabcdefghijklmnopqrstuvwxyz0123456789+/''"

definition B64URL :: bytes where
  "B64URL = str_bytes ''ABCDEFGHIJKLMNOPQRSTUVWXYZabcdefghijklmnopqrstuvwxyz0123456789-_''"

text \<open>\<open>alpha[i] as char\<close>.\<close>

definition char_at :: "bytes \<Rightarrow> u32 \<Rightarrow> char" where
  "char_at alpha i = char_of (unat (alpha ! unat (i AND 63)))"

definition encode_chunk :: "bytes \<Rightarrow> bytes \<Rightarrow> string" where
  "encode_chunk alpha chunk =
     (let b0 = ucast (chunk ! 0) :: u32;
          b1 = (if length chunk > 1 then ucast (chunk ! 1) else 0);
          b2 = (if length chunk > 2 then ucast (chunk ! 2) else 0);
          n = push_bit 16 b0 OR push_bit 8 b1 OR b2
      in [char_at alpha (drop_bit 18 n), char_at alpha (drop_bit 12 n)] @
         (if length chunk > 1 then [char_at alpha (drop_bit 6 n)] else []) @
         (if length chunk > 2 then [char_at alpha n] else []))"

definition encode_impl :: "bytes \<Rightarrow> bytes \<Rightarrow> string" where
  "encode_impl data alpha = concat (map (encode_chunk alpha) (chunks 3 data))"

definition rev_table :: "bytes \<Rightarrow> byte list" where
  "rev_table alpha =
     fold (\<lambda>i tbl. tbl[unat (alpha ! i) := of_nat i]) [0..<length alpha] (replicate 128 255)"

fun strip_pad :: "nat \<Rightarrow> bytes \<Rightarrow> bytes" where
  "strip_pad 0 src = src"
| "strip_pad (Suc n) src =
     (if src \<noteq> [] \<and> List.last src = 61 then strip_pad n (butlast src) else src)"

definition decode_char :: "byte list \<Rightarrow> byte \<Rightarrow> (string, byte) result" where
  "decode_char tbl b =
     (if b \<ge> 128 then Err ''non-ascii byte''
      else if tbl ! unat b = 255 then Err ''invalid base64 char''
      else Ok (tbl ! unat b))"

definition decode_chunk :: "bytes \<Rightarrow> bytes" where
  "decode_chunk chunk =
     (let n = fold (\<lambda>i n. n OR push_bit (18 - 6 * i) (ucast (chunk ! i))) [0..<length chunk] (0 :: u32)
      in [ucast (drop_bit 16 n)] @
         (if length chunk \<ge> 3 then [ucast (drop_bit 8 n)] else []) @
         (if length chunk = 4 then [ucast n] else []))"

definition decode_impl :: "string \<Rightarrow> bytes \<Rightarrow> (string, bytes) result" where
  "decode_impl s alpha =
     (let tbl = rev_table alpha;
          src = strip_pad 2 (str_bytes s)
      in if 61 \<in> set src then Err ''invalid base64 padding''
         else case collect_result (decode_char tbl) src of
                Inl e \<Rightarrow> Err e
              | Inr valid \<Rightarrow>
                  if length valid mod 4 = 1 then Err ''invalid base64 length''
                  else Ok (concat (map decode_chunk (chunks 4 valid))))"

definition b64_encode :: "bytes \<Rightarrow> string" where
  "b64_encode data = encode_impl data B64"

definition b64_decode :: "string \<Rightarrow> (string, bytes) result" where
  "b64_decode s = decode_impl s B64"

definition b64url_encode :: "bytes \<Rightarrow> string" where
  "b64url_encode data = encode_impl data B64URL"

definition b64url_decode :: "string \<Rightarrow> (string, bytes) result" where
  "b64url_decode s = decode_impl s B64URL"

text \<open>The 24-bit group of three bytes and the six-bit digits of a chunk.\<close>

definition pack :: "byte \<Rightarrow> byte \<Rightarrow> byte \<Rightarrow> u32" where
  "pack a b c = push_bit 16 (ucast a) OR push_bit 8 (ucast b) OR ucast c"

definition digits_of :: "bytes \<Rightarrow> bytes" where
  "digits_of chunk =
     (let n = pack (chunk ! 0) (if length chunk > 1 then chunk ! 1 else 0)
                (if length chunk > 2 then chunk ! 2 else 0)
      in map ucast ([drop_bit 18 n AND 63, drop_bit 12 n AND 63] @
         (if length chunk > 1 then [drop_bit 6 n AND 63] else []) @
         (if length chunk > 2 then [n AND 63] else [])))"

definition alphabet :: "bytes \<Rightarrow> bool" where
  "alphabet alpha = (length alpha = 64 \<and> distinct alpha \<and> (\<forall>c \<in> set alpha. c < 128 \<and> c \<noteq> 61))"

section \<open>Chunks\<close>

lemma chunk_cases:
  assumes "xs \<noteq> []"
  obtains a where "xs = [a]" | a b where "xs = [a, b]" | a b c ys where "xs = a # b # c # ys"
  using assms by (metis list.exhaust)

lemma and_63: "x AND 63 = take_bit 6 x" for x :: u32
proof -
  have "(63 :: u32) = mask 6" by (simp add: mask_eq_exp_minus_1)
  then show ?thesis by (simp only: take_bit_eq_mask)
qed

lemma bit_six: "bit (push_bit k (drop_bit k n AND 63)) i \<longleftrightarrow> k \<le> i \<and> i < k + 6 \<and> i < 32 \<and> bit n i"
  for n :: u32
  unfolding and_63 by (auto simp: bit_push_bit_iff bit_take_bit_iff bit_drop_bit_eq)

lemma recompose:
  fixes n :: u32
  shows "push_bit 18 (drop_bit 18 n AND 63) OR push_bit 12 (drop_bit 12 n AND 63) OR
     push_bit 6 (drop_bit 6 n AND 63) OR (n AND 63) = take_bit 24 n"
    and "push_bit 18 (drop_bit 18 n AND 63) OR push_bit 12 (drop_bit 12 n AND 63) OR
     push_bit 6 (drop_bit 6 n AND 63) = take_bit 24 n AND NOT (mask 6)"
    and "push_bit 18 (drop_bit 18 n AND 63) OR push_bit 12 (drop_bit 12 n AND 63) =
     take_bit 24 n AND NOT (mask 12)"
proof -
  have z: "bit (n AND 63) i \<longleftrightarrow> i < 6 \<and> bit n i" for i unfolding and_63 by (auto simp: bit_take_bit_iff)
  have t: "bit (take_bit 24 n) i \<longleftrightarrow> i < 24 \<and> bit n i" for i by (simp add: bit_take_bit_iff)
  have nn: "bit (NOT (mask 6 :: u32)) i \<longleftrightarrow> i < 32 \<and> 6 \<le> i" for i by (auto simp: bit_not_iff bit_mask_iff)
  have m: "bit (NOT (mask 12 :: u32)) i \<longleftrightarrow> i < 32 \<and> 12 \<le> i" for i by (auto simp: bit_not_iff bit_mask_iff)
  show "push_bit 18 (drop_bit 18 n AND 63) OR push_bit 12 (drop_bit 12 n AND 63) OR
     push_bit 6 (drop_bit 6 n AND 63) OR (n AND 63) = take_bit 24 n"
    by (rule bit_word_eqI) (unfold bit_or_iff bit_six z t, auto)
  show "push_bit 18 (drop_bit 18 n AND 63) OR push_bit 12 (drop_bit 12 n AND 63) OR
     push_bit 6 (drop_bit 6 n AND 63) = take_bit 24 n AND NOT (mask 6)"
    by (rule bit_word_eqI) (unfold bit_or_iff bit_and_iff [of "take_bit 24 n"] bit_six t nn, auto)
  show "push_bit 18 (drop_bit 18 n AND 63) OR push_bit 12 (drop_bit 12 n AND 63) =
     take_bit 24 n AND NOT (mask 12)"
    by (rule bit_word_eqI) (unfold bit_or_iff bit_and_iff [of "take_bit 24 n"] bit_six t m, auto)
qed

lemma bit_pack: "bit (pack a b c) i \<longleftrightarrow>
    (if i < 8 then bit c i else if i < 16 then bit b (i - 8) else if i < 24 then bit a (i - 16) else False)"
proof -
  have u: "bit (ucast x :: u32) j \<longleftrightarrow> j < 8 \<and> bit x j" for x :: byte and j
    by (auto simp: bit_ucast_iff dest: bit_imp_le_length)
  show ?thesis by (auto simp: pack_def bit_or_iff bit_push_bit_iff u)
qed

lemma unpack:
  "ucast (drop_bit 16 (pack a b c)) = a" "ucast (drop_bit 8 (pack a b c)) = b" "ucast (pack a b c) = c"
  by (rule bit_word_eqI, simp add: bit_ucast_iff bit_drop_bit_eq bit_pack)+

lemma take_pack: "take_bit 24 (pack a b c) = pack a b c"
  by (rule bit_word_eqI) (auto simp: bit_take_bit_iff bit_pack)

lemma mask_pack: "pack a b 0 AND NOT (mask 6) = pack a b 0" "pack a 0 0 AND NOT (mask 12) = pack a 0 0"
  by (rule bit_word_eqI, auto simp: bit_and_iff bit_not_iff bit_mask_iff bit_pack)+

lemma six_ucast: "ucast (ucast (x AND 63) :: byte) = x AND 63" for x :: u32
  unfolding and_63 by (rule bit_word_eqI) (auto simp: bit_ucast_iff bit_take_bit_iff)

lemma six_bound: "unat (ucast (x AND 63) :: byte) < 64" for x :: u32
proof -
  have "unat (x AND 63) < 64"
    unfolding and_63 unsigned_take_bit_eq by (simp add: take_bit_eq_mod)
  then show ?thesis
    by (simp only: unsigned_ucast_eq take_bit_eq_mod) simp
qed

text \<open>The group assembled from the digits is the group they were taken from.\<close>

lemma assemble:
  "decode_chunk [ucast (drop_bit 18 n AND 63), ucast (drop_bit 12 n AND 63),
      ucast (drop_bit 6 n AND 63), ucast (n AND 63)] =
    [ucast (drop_bit 16 (take_bit 24 n)), ucast (drop_bit 8 (take_bit 24 n)), ucast (take_bit 24 n)]"
  "decode_chunk [ucast (drop_bit 18 n AND 63), ucast (drop_bit 12 n AND 63), ucast (drop_bit 6 n AND 63)] =
    [ucast (drop_bit 16 (take_bit 24 n AND NOT (mask 6))), ucast (drop_bit 8 (take_bit 24 n AND NOT (mask 6)))]"
  "decode_chunk [ucast (drop_bit 18 n AND 63), ucast (drop_bit 12 n AND 63)] =
    [ucast (drop_bit 16 (take_bit 24 n AND NOT (mask 12)))]"
  for n :: u32
  unfolding recompose(2,3) [symmetric] unfolding recompose(1) [symmetric] decode_chunk_def Let_def
  by (simp_all add: upt_rec six_ucast or.assoc del: push_bit_and push_bit_or drop_bit_and)

lemma decode_digits:
  assumes "chunk \<noteq> []" "length chunk \<le> 3"
  shows "decode_chunk (digits_of chunk) = chunk"
  using assms(1)
proof (cases rule: chunk_cases)
  case (1 a)
  then show ?thesis
    by (simp only: digits_of_def Let_def) (simp add: assemble take_pack mask_pack unpack del: drop_bit_and)
next
  case (2 a b)
  then show ?thesis
    by (simp only: digits_of_def Let_def) (simp add: assemble take_pack mask_pack unpack del: drop_bit_and)
next
  case (3 a b c ys)
  then show ?thesis using assms(2)
    by (simp only: digits_of_def Let_def) (simp add: assemble take_pack mask_pack unpack del: drop_bit_and)
qed

lemma digits_length:
  "chunk \<noteq> [] \<Longrightarrow> length chunk \<le> 3 \<Longrightarrow> length (digits_of chunk) = Suc (length chunk)"
  by (erule chunk_cases) (simp_all add: digits_of_def Let_def)

lemma digits_bound: "d \<in> set (digits_of chunk) \<Longrightarrow> unat d < 64"
  unfolding digits_of_def Let_def using six_bound by (auto split: if_splits)

lemma encode_chunk_digits:
  "encode_chunk alpha chunk = map (\<lambda>d. char_of (unat (alpha ! unat d))) (digits_of chunk)"
proof -
  have u: "unat (ucast (x AND 63) :: byte) = unat (x AND 63)" for x :: u32
  proof -
    have "unat (x AND 63) < 64" unfolding and_63 unsigned_take_bit_eq by (simp add: take_bit_eq_mod)
    then show ?thesis by (simp only: unsigned_ucast_eq take_bit_eq_mod) simp
  qed
  show ?thesis
    by (auto simp: encode_chunk_def digits_of_def Let_def char_at_def u pack_def simp del: unsigned_and_eq)
qed

lemma chunks_Cons: "xs \<noteq> [] \<Longrightarrow> 0 < n \<Longrightarrow> chunks n xs = take n xs # chunks n (drop n xs)"
  by (subst chunks.simps) simp

lemma chunks_Nil [simp]: "chunks n [] = []"
  by (subst chunks.simps) simp

lemma chunks_concat: "0 < n \<Longrightarrow> concat (chunks n xs) = xs"
  by (induction n xs rule: chunks.induct) (subst chunks.simps, auto)

lemma chunks_digits:
  "chunks 4 (concat (map digits_of (chunks 3 data))) = map digits_of (chunks 3 data) \<and>
   length (concat (map digits_of (chunks 3 data))) mod 4 \<noteq> 1 \<and>
   concat (map (decode_chunk \<circ> digits_of) (chunks 3 data)) = data"
proof (induction "length data" arbitrary: data rule: less_induct)
  case less
  consider "data = []" | "data \<noteq> []" "length data \<le> 3" | "3 < length data" by fastforce
  then show ?case
  proof cases
    case 1
    then show ?thesis by simp
  next
    case 2
    then have c: "chunks 3 data = [data]" by (simp add: chunks_Cons)
    have l: "length (digits_of data) = Suc (length data)" by (rule digits_length) (use 2 in simp_all)
    then have "digits_of data \<noteq> []" by auto
    then have "chunks 4 (digits_of data) = [digits_of data]" using l 2 by (simp add: chunks_Cons)
    moreover have "length data = 1 \<or> length data = 2 \<or> length data = 3" using 2 by (cases rule: chunk_cases [OF 2(1)]) auto
    ultimately show ?thesis using c l 2 by (auto simp: decode_digits)
  next
    case 3
    then have ne: "data \<noteq> []" by auto
    then have c: "chunks 3 data = take 3 data # chunks 3 (drop 3 data)" by (simp add: chunks_Cons)
    have l: "length (digits_of (take 3 data)) = 4" using 3 ne digits_length [of "take 3 data"] by simp
    have d: "decode_chunk (digits_of (take 3 data)) = take 3 data" by (rule decode_digits) (use 3 ne in auto)
    have "digits_of (take 3 data) \<noteq> []" using l by auto
    then have "chunks 4 (digits_of (take 3 data) @ ys) = digits_of (take 3 data) # chunks 4 ys" for ys
      using l by (simp add: chunks_Cons)
    then show ?thesis using less [of "drop 3 data"] 3 c l d by (simp add: mod_add_left_eq)
  qed
qed

section \<open>The decoding table\<close>

lemma rev_fold:
  assumes "alphabet alpha" "n \<le> 64"
  defines "t \<equiv> fold (\<lambda>i tbl. tbl[unat (alpha ! i) := of_nat i]) [0..<n] (replicate 128 (255 :: byte))"
  shows "length t = 128 \<and> (\<forall>i < n. t ! unat (alpha ! i) = of_nat i)"
  using assms(2) unfolding t_def
proof (induction n)
  case 0
  then show ?case by simp
next
  case (Suc n)
  have b: "unat (alpha ! i) < 128" if "i < 64" for i
  proof -
    have "alpha ! i \<in> set alpha" using assms(1) that by (simp add: alphabet_def)
    then show ?thesis using assms(1) by (auto simp: alphabet_def word_less_nat_alt)
  qed
  have inj: "unat (alpha ! i) \<noteq> unat (alpha ! n)" if "i < n" for i
    using assms(1) that Suc.prems nth_eq_iff_index_eq [of alpha i n]
    by (simp add: alphabet_def word_unat_eq_iff [symmetric])
  have "tbl[unat (alpha ! n) := x] ! unat (alpha ! i) = tbl ! unat (alpha ! i)" if "i < n"
    for i x and tbl :: "byte list"
    using inj [OF that] by (simp add: nth_list_update)
  then show ?case using Suc b [of n] by (auto simp: less_Suc_eq)
qed

lemma decode_char_alpha:
  assumes "alphabet alpha" "unat d < 64"
  shows "decode_char (rev_table alpha) (alpha ! unat d) = Inr d"
proof -
  have "alpha ! unat d \<in> set alpha" using assms by (simp add: alphabet_def)
  then have "alpha ! unat d < 128" using assms(1) by (simp add: alphabet_def)
  moreover have "rev_table alpha ! unat (alpha ! unat d) = d"
    using rev_fold [OF assms(1), of 64] assms by (simp add: rev_table_def alphabet_def)
  moreover have "d \<noteq> 255" using assms(2) by auto
  ultimately show ?thesis by (simp add: decode_char_def)
qed

lemma strip_pad_replicate:
  "61 \<notin> set bs \<Longrightarrow> k \<le> n \<Longrightarrow> strip_pad n (bs @ replicate k 61) = bs"
proof (induction n arbitrary: k)
  case 0
  then show ?case by simp
next
  case (Suc n)
  show ?case
  proof (cases k)
    case 0
    then show ?thesis using Suc.prems by (auto dest: last_in_set)
  next
    case (Suc j)
    have e: "bs @ replicate k 61 = (bs @ replicate j 61) @ [61]" by (simp add: Suc replicate_append_same)
    show ?thesis unfolding e by (simp only: strip_pad.simps butlast_snoc) (use Suc.IH Suc Suc.prems in simp)
  qed
qed

lemma str_bytes_encode:
  "str_bytes (encode_impl data alpha) = map (\<lambda>d. alpha ! unat d) (concat (map digits_of (chunks 3 data)))"
proof -
  have "of_nat (of_char (char_of (unat b) :: char)) = b" for b :: byte
  proof -
    have "unat b < 256" using unsigned_less [of b] by simp
    then show ?thesis by simp
  qed
  then show ?thesis
    unfolding encode_impl_def str_bytes_def encode_chunk_digits by (simp add: map_concat comp_def)
qed

lemma decode_encode:
  assumes a: "alphabet alpha" and k: "k \<le> 2"
  shows "decode_impl (encode_impl data alpha @ replicate k (CHR ''='')) alpha = Inr data"
proof -
  let ?ds = "concat (map digits_of (chunks 3 data))"
  let ?src = "map (\<lambda>d. alpha ! unat d) ?ds"
  have b: "unat d < 64" if "d \<in> set ?ds" for d using that digits_bound by auto
  have "alpha ! unat d \<noteq> 61" if "d \<in> set ?ds" for d
    using a nth_mem [of "unat d" alpha] b [OF that] by (auto simp only: alphabet_def)
  then have e: "61 \<notin> set ?src" by (simp only: set_map image_iff) metis
  have p: "str_bytes (replicate k (CHR ''='')) = replicate k 61" by (simp add: str_bytes_def)
  have s: "strip_pad 2 (str_bytes (encode_impl data alpha @ replicate k (CHR ''=''))) = ?src"
    unfolding str_bytes_append p str_bytes_encode by (rule strip_pad_replicate [OF e k])
  have "collect_result (decode_char (rev_table alpha)) ?src = Inr ?ds"
    unfolding collect_result_Inr_iff list_all2_map1
    by (rule list.rel_refl_strong) (rule decode_char_alpha [OF a b])
  then show ?thesis
    unfolding decode_impl_def Let_def s using e chunks_digits [of data] by (simp add: comp_def)
qed

lemma alphabet_B64: "alphabet B64" "alphabet B64URL"
  by (simp_all add: alphabet_def B64_def B64URL_def str_bytes_def)

section \<open>Properties\<close>

text \<open>Decoding inverts encoding for both alphabets, whether or not the text is padded.\<close>

theorem base64_roundtrip:
  assumes "k \<le> 2"
  shows "b64_decode (b64_encode data @ replicate k (CHR ''='')) = Ok data \<and>
    b64url_decode (b64url_encode data @ replicate k (CHR ''='')) = Ok data"
  using decode_encode [OF alphabet_B64(1) assms] decode_encode [OF alphabet_B64(2) assms]
  by (simp add: b64_decode_def b64_encode_def b64url_decode_def b64url_encode_def)

theorem base64_roundtrip_witness:
  "b64_decode (b64_encode [255, 1] @ ''='') = Ok [255, 1] \<and>
   b64url_decode (b64url_encode [255, 1] @ ''='') = Ok [255, 1]"
  using base64_roundtrip [of 1 "[255, 1]"] by simp

end
