(* ===== verification/Schema.thy ===== *)
theory Schema
  imports Json
begin

text \<open>
  Validation of payloads against a JSON schema (\<open>src/schema/mod.rs\<close>).  The groups of checks of
  \<open>validate_at\<close> are definitions of their own, in the order of the code; the recursive ones
  stay in \<open>validate_at\<close>, whose recursion is on the schema.  A message is a fault together
  with the path at which it was found.
\<close>

section \<open>Definitions\<close>

datatype schema_fault =
    ExpectedType string | NoAllowedType | NotInEnum | NotConst
  | BelowMinLength nat u64 | AboveMaxLength nat u64
  | BelowMinimum real real | AboveMaximum real real
  | NotAboveExclusive real real | NotBelowExclusive real real | NotMultiple real real
  | TooManyProperties | TooFewProperties | RequiredNotString | MissingRequired string
  | UnexpectedProperty string
  | TooManyItems | TooFewItems | DuplicateItem
  | NotOneOf | NotAnyOf | MatchedNot | ProhibitedByFalse | NotASchema

type_synonym schema_error = "string \<times> schema_fault"
type_synonym check = "(schema_error, unit) result"

definition type_names :: "string set" where
  "type_names = {''null'', ''boolean'', ''object'', ''array'', ''string'', ''integer'', ''number''}"

definition supported_kws :: "string set" where
  "supported_kws =
     {''type'', ''enum'', ''const'', ''properties'', ''required'', ''additionalProperties'',
      ''items'', ''prefixItems'', ''minItems'', ''maxItems'', ''uniqueItems'',
      ''minLength'', ''maxLength'', ''minProperties'', ''maxProperties'',
      ''minimum'', ''maximum'', ''exclusiveMinimum'', ''exclusiveMaximum'',
      ''multipleOf'', ''oneOf'', ''anyOf'', ''allOf'', ''not'',
      ''title'', ''description'', ''default'', ''examples'', ''$comment''}"

definition is_number :: "jvalue \<Rightarrow> bool" where
  "is_number v = (as_i64 v \<noteq> None \<or> as_f64 v \<noteq> None)"

definition matches_type :: "string \<Rightarrow> jvalue \<Rightarrow> bool" where
  "matches_type name v =
     (if name = ''null'' then v = JNull
      else if name = ''boolean'' then as_bool v \<noteq> None
      else if name = ''object'' then as_object v \<noteq> None
      else if name = ''array'' then as_array v \<noteq> None
      else if name = ''string'' then as_str v \<noteq> None
      else if name = ''integer'' then as_i64 v \<noteq> None
      else if name = ''number'' then is_number v
      else False)"

text \<open>\<open>if b { return Err(e) }\<close>, the sequencing of two checks, and a loop that returns the first
  error.\<close>

definition fail_if :: "bool \<Rightarrow> 'e \<Rightarrow> ('e, unit) result" where
  "fail_if b e = (if b then Err e else Ok ())"

definition and_also :: "('e, unit) result \<Rightarrow> ('e, unit) result \<Rightarrow> ('e, unit) result" where
  "and_also r s = (case r of Inl e \<Rightarrow> Err e | Inr _ \<Rightarrow> s)"

fun each :: "('a \<Rightarrow> ('e, unit) result) \<Rightarrow> 'a list \<Rightarrow> ('e, unit) result" where
  "each f [] = Ok ()"
| "each f (x # xs) = and_also (f x) (each f xs)"

lemma and_also_cong [fundef_cong]:
  "r = r' \<Longrightarrow> (r' = Inr () \<Longrightarrow> s = s') \<Longrightarrow> and_also r s = and_also r' s'"
  by (auto simp: and_also_def split: sum.splits)

lemma each_cong [fundef_cong]:
  "xs = ys \<Longrightarrow> (\<And>x. x \<in> set ys \<Longrightarrow> f x = g x) \<Longrightarrow> each f xs = each g ys"
  by (induction xs arbitrary: ys) auto

text \<open>\<open>map.get(kw).and_then(f)\<close>, and a check made when it is present.\<close>

definition kw_get :: "(string \<times> jvalue) list \<Rightarrow> string \<Rightarrow> (jvalue \<Rightarrow> 'a option) \<Rightarrow> 'a option" where
  "kw_get m kw f = (case map_of m kw of None \<Rightarrow> None | Some v \<Rightarrow> f v)"

definition when_some :: "'a option \<Rightarrow> ('a \<Rightarrow> ('e, unit) result) \<Rightarrow> ('e, unit) result" where
  "when_some x f = (case x of None \<Rightarrow> Ok () | Some a \<Rightarrow> f a)"

definition check_type :: "(string \<times> jvalue) list \<Rightarrow> jvalue \<Rightarrow> string \<Rightarrow> check" where
  "check_type m value path =
     when_some (map_of m ''type'') (\<lambda>t.
       case as_str t of
         Some s \<Rightarrow> fail_if (\<not> matches_type s value) (path, ExpectedType s)
       | None \<Rightarrow>
           when_some (as_array t) (\<lambda>arr.
             fail_if (\<not> list_ex (\<lambda>n. case as_str n of None \<Rightarrow> False | Some name \<Rightarrow> matches_type name value) arr)
               (path, NoAllowedType)))"

definition check_enum :: "(string \<times> jvalue) list \<Rightarrow> jvalue \<Rightarrow> string \<Rightarrow> check" where
  "check_enum m value path =
     and_also
       (when_some (kw_get m ''enum'' as_array) (\<lambda>members.
          fail_if (\<not> list_ex (\<lambda>mem. jeq mem value) members) (path, NotInEnum)))
       (when_some (map_of m ''const'') (\<lambda>expected.
          fail_if (\<not> jeq expected value) (path, NotConst)))"

definition check_length :: "(string \<times> jvalue) list \<Rightarrow> jvalue \<Rightarrow> string \<Rightarrow> check" where
  "check_length m value path =
     when_some (as_str value) (\<lambda>s.
       and_also
         (when_some (kw_get m ''minLength'' as_i64) (\<lambda>lo.
            fail_if (length s < unat lo) (path, BelowMinLength (length s) lo)))
         (when_some (kw_get m ''maxLength'' as_i64) (\<lambda>hi.
            fail_if (unat hi < length s) (path, AboveMaxLength (length s) hi))))"

definition not_multiple :: "real \<Rightarrow> real \<Rightarrow> bool" where
  "not_multiple n m =
     (case f64_div n m of
        None \<Rightarrow> False
      | Some q \<Rightarrow> round_f64 (1 / 10 ^ 9) < \<bar>fract_f64 q\<bar>)"

definition check_number :: "(string \<times> jvalue) list \<Rightarrow> jvalue \<Rightarrow> string \<Rightarrow> check" where
  "check_number m value path =
     when_some (as_f64 value) (\<lambda>n.
       and_also (when_some (kw_get m ''minimum'' as_f64) (\<lambda>x. fail_if (n < x) (path, BelowMinimum n x)))
       (and_also (when_some (kw_get m ''maximum'' as_f64) (\<lambda>x. fail_if (x < n) (path, AboveMaximum n x)))
       (and_also (when_some (kw_get m ''exclusiveMinimum'' as_f64)
                    (\<lambda>x. fail_if (\<not> x < n) (path, NotAboveExclusive n x)))
       (and_also (when_some (kw_get m ''exclusiveMaximum'' as_f64)
                    (\<lambda>x. fail_if (\<not> n < x) (path, NotBelowExclusive n x)))
                 (when_some (kw_get m ''multipleOf'' as_f64)
                    (\<lambda>x. if x \<noteq> 0 then fail_if (not_multiple n x) (path, NotMultiple n x) else Ok ()))))))"

text \<open>The part of the object checks that does not recurse: counts and \<open>required\<close>.\<close>

definition check_shape :: "(string \<times> jvalue) list \<Rightarrow> (string \<times> jvalue) list \<Rightarrow> string \<Rightarrow> check" where
  "check_shape m obj path =
     and_also (when_some (kw_get m ''maxProperties'' as_i64)
                 (\<lambda>hi. fail_if (unat hi < length obj) (path, TooManyProperties)))
     (and_also (when_some (kw_get m ''minProperties'' as_i64)
                  (\<lambda>lo. fail_if (length obj < unat lo) (path, TooFewProperties)))
               (when_some (kw_get m ''required'' as_array)
                  (each (\<lambda>item.
                     case as_str item of
                       None \<Rightarrow> Err (path, RequiredNotString)
                     | Some name \<Rightarrow> fail_if (map_of obj name = None) (path, MissingRequired name)))))"

definition extra_schema :: "(string \<times> jvalue) list \<Rightarrow> jvalue option" where
  "extra_schema m = kw_get m ''additionalProperties'' (\<lambda>v. if as_object v \<noteq> None then Some v else None)"

definition extra_allowed :: "(string \<times> jvalue) list \<Rightarrow> bool" where
  "extra_allowed m = (case kw_get m ''additionalProperties'' as_bool of None \<Rightarrow> True | Some b \<Rightarrow> b)"

text \<open>The subschema of a property: the declared one, or else the one for extra properties.\<close>

definition prop_schema :: "(string \<times> jvalue) list \<Rightarrow> string \<Rightarrow> jvalue option" where
  "prop_schema m k =
     (case kw_get m ''properties'' as_object of
        Some props \<Rightarrow> (case map_of props k of Some sub \<Rightarrow> Some sub | None \<Rightarrow> extra_schema m)
      | None \<Rightarrow> extra_schema m)"

text \<open>The double loop of \<open>uniqueItems\<close>.\<close>

fun has_dup :: "jvalue list \<Rightarrow> bool" where
  "has_dup [] = False"
| "has_dup (x # xs) = (list_ex (jeq x) xs \<or> has_dup xs)"

definition check_counts :: "(string \<times> jvalue) list \<Rightarrow> jvalue list \<Rightarrow> string \<Rightarrow> check" where
  "check_counts m arr path =
     and_also (when_some (kw_get m ''maxItems'' as_i64)
                 (\<lambda>hi. fail_if (unat hi < length arr) (path, TooManyItems)))
     (and_also (when_some (kw_get m ''minItems'' as_i64)
                  (\<lambda>lo. fail_if (length arr < unat lo) (path, TooFewItems)))
               (fail_if (kw_get m ''uniqueItems'' as_bool = Some True \<and> has_dup arr) (path, DuplicateItem)))"

text \<open>\<open>items\<close>, when it is an object or a boolean.\<close>

definition items_schema :: "(string \<times> jvalue) list \<Rightarrow> jvalue option" where
  "items_schema m =
     kw_get m ''items'' (\<lambda>v. if as_object v \<noteq> None \<or> as_bool v \<noteq> None then Some v else None)"

lemma when_some_cong [fundef_cong]:
  "x = y \<Longrightarrow> (\<And>a. y = Some a \<Longrightarrow> f a = g a) \<Longrightarrow> when_some x f = when_some y g"
  by (auto simp: when_some_def split: option.splits)

fun count_ok :: "('a \<Rightarrow> check) \<Rightarrow> 'a list \<Rightarrow> nat" where
  "count_ok f [] = 0"
| "count_ok f (x # xs) = (if is_ok (f x) then 1 else 0) + count_ok f xs"

lemma count_ok_cong [fundef_cong]:
  "xs = ys \<Longrightarrow> (\<And>x. x \<in> set ys \<Longrightarrow> f x = g x) \<Longrightarrow> count_ok f xs = count_ok g ys"
  by (induction xs arbitrary: ys) auto

lemma size_of_kw: "map_of m k = Some v \<Longrightarrow> size v < size (JObject m)"
  using size_list_estimation' [where f = "size_prod (\<lambda>_. 0) size" and x = "(k, v)" and xs = m, OF _ order_refl]
  by (auto dest!: map_of_SomeD)

lemma size_of_member:
  "kw_get m kw as_array = Some ms \<Longrightarrow> v \<in> set ms \<Longrightarrow> size v < size (JObject m)"
  using size_list_estimation' [where f = size and x = v and xs = ms, OF _ order_refl]
  by (auto simp: kw_get_def as_array_def split: option.splits jvalue.splits dest!: size_of_kw)

lemma size_of_extra: "extra_schema m = Some v \<Longrightarrow> size v < size (JObject m)"
  by (auto simp: kw_get_def extra_schema_def split: option.splits if_splits dest!: size_of_kw)

lemma size_of_items: "items_schema m = Some v \<Longrightarrow> size v < size (JObject m)"
  by (auto simp: kw_get_def items_schema_def split: option.splits if_splits dest!: size_of_kw)

lemma size_of_prop: "prop_schema m k = Some v \<Longrightarrow> size v < size (JObject m)"
  by (auto simp: prop_schema_def kw_get_def as_object_def
      split: option.splits jvalue.splits dest!: size_of_kw dest: size_of_extra)

lemma size_of_pair: "(k, v) \<in> set m \<Longrightarrow> size v < size (JObject m)"
  using size_list_estimation' [where f = "size_prod (\<lambda>_. 0) size" and x = "(k, v)" and xs = m, OF _ order_refl]
  by auto

lemma size_of_prop_pair: "as_object s = Some m \<Longrightarrow> (k, v) \<in> set m \<Longrightarrow> size v < size s"
  using size_of_pair [of k v m] by (auto simp: as_object_def split: jvalue.splits)

lemma size_of_elem: "as_array s = Some vs \<Longrightarrow> v \<in> set vs \<Longrightarrow> size v < size s"
  using size_list_estimation' [where f = size and x = v and xs = vs, OF _ order_refl]
  by (auto simp: as_array_def split: jvalue.splits)

lemmas sub_sizes = size_of_kw size_of_member size_of_items size_of_prop

function validate_at :: "jvalue \<Rightarrow> jvalue \<Rightarrow> string \<Rightarrow> check" where
  "validate_at schema value path =
     (case schema of
        JObject m \<Rightarrow>
          and_also (check_type m value path)
          (and_also (check_enum m value path)
          (and_also (check_length m value path)
          (and_also (check_number m value path)
          (and_also (when_some (as_object value) (\<lambda>obj.
             and_also (check_shape m obj path)
               (each (\<lambda>(k, v).
                  case prop_schema m k of
                    Some sub \<Rightarrow> validate_at sub v (path @ ''/'' @ k)
                  | None \<Rightarrow> fail_if (\<not> extra_allowed m) (path, UnexpectedProperty k)) obj)))
          (and_also (when_some (as_array value) (\<lambda>arr.
             and_also (check_counts m arr path)
               (when_some (items_schema m) (\<lambda>items.
                  each (\<lambda>item. validate_at items item (path @ ''[]'')) arr))))
          (and_also (when_some (kw_get m ''oneOf'' as_array) (\<lambda>members.
             fail_if (count_ok (\<lambda>s. validate_at s value path) members \<noteq> 1) (path, NotOneOf)))
          (and_also (when_some (kw_get m ''anyOf'' as_array) (\<lambda>members.
             fail_if (count_ok (\<lambda>s. validate_at s value path) members = 0) (path, NotAnyOf)))
          (and_also (when_some (kw_get m ''allOf'' as_array) (\<lambda>members.
             each (\<lambda>s. validate_at s value path) members))
          (when_some (map_of m ''not'') (\<lambda>neg.
             fail_if (is_ok (validate_at neg value path)) (path, MatchedNot)))))))))))
      | JBool allowed \<Rightarrow> fail_if (\<not> allowed) (path, ProhibitedByFalse)
      | _ \<Rightarrow> Err (path, NotASchema))"
  by pat_completeness auto
termination
  by (relation "measure (\<lambda>(s, v, p). size s)") (auto dest!: sub_sizes)

declare validate_at.simps [simp del]

definition validate_schema :: "jvalue \<Rightarrow> jvalue \<Rightarrow> check" where
  "validate_schema schema value = validate_at schema value ''$''"

datatype support_error = NotObjectOrBool | UnsupportedKeyword string | UnsupportedType string | UnsupportedTypeEntry

definition is_schema :: "jvalue \<Rightarrow> bool" where
  "is_schema v = (as_object v \<noteq> None \<or> as_bool v \<noteq> None)"

definition check_type_names :: "jvalue \<Rightarrow> (support_error, unit) result" where
  "check_type_names sub =
     (case as_str sub of
        Some s \<Rightarrow> fail_if (s \<notin> type_names) (UnsupportedType s)
      | None \<Rightarrow>
          when_some (as_array sub)
            (each (\<lambda>n. fail_if (case as_str n of None \<Rightarrow> True | Some name \<Rightarrow> name \<notin> type_names)
                         UnsupportedTypeEntry)))"

function check_supported :: "jvalue \<Rightarrow> (support_error, unit) result" where
  "check_supported schema =
     (case schema of
        JBool _ \<Rightarrow> Ok ()
      | JObject m \<Rightarrow>
          each (\<lambda>(kw, sub).
            if kw \<notin> supported_kws then Err (UnsupportedKeyword kw)
            else if kw = ''properties'' then
              when_some (as_object sub) (each (\<lambda>(_, subschema). check_supported subschema))
            else if kw = ''additionalProperties'' \<or> kw = ''items'' then
              (if as_object sub \<noteq> None then check_supported sub else Ok ())
            else if kw = ''not'' then
              (if is_schema sub then check_supported sub else Ok ())
            else if kw = ''prefixItems'' \<or> kw = ''oneOf'' \<or> kw = ''anyOf'' \<or> kw = ''allOf'' then
              when_some (as_array sub) (each (\<lambda>s. if is_schema s then check_supported s else Ok ()))
            else if kw = ''type'' then check_type_names sub
            else Ok ()) m
      | _ \<Rightarrow> Err NotObjectOrBool)"
  by pat_completeness auto
termination
  apply (relation "measure size")
      apply (rule wf_measure)
     apply (unfold in_measure)
  subgoal by (metis size_of_prop_pair size_of_pair less_trans)
  subgoal by (metis size_of_pair)
  subgoal by (metis size_of_pair)
  subgoal by (metis size_of_elem size_of_pair less_trans)
  done

declare check_supported.simps [simp del]

text \<open>What the keywords mean, without paths, error values and early exits.\<close>

definition bounded :: "(string \<times> jvalue) list \<Rightarrow> string \<Rightarrow> string \<Rightarrow> nat \<Rightarrow> bool" where
  "bounded m lo hi n \<longleftrightarrow>
     (\<forall>l. kw_get m lo as_i64 = Some l \<longrightarrow> unat l \<le> n) \<and> (\<forall>h. kw_get m hi as_i64 = Some h \<longrightarrow> n \<le> unat h)"

definition type_ok :: "(string \<times> jvalue) list \<Rightarrow> jvalue \<Rightarrow> bool" where
  "type_ok m v \<longleftrightarrow>
     (\<forall>s. map_of m ''type'' = Some (JString s) \<longrightarrow> matches_type s v) \<and>
     (\<forall>arr. map_of m ''type'' = Some (JArray arr) \<longrightarrow> (\<exists>s. JString s \<in> set arr \<and> matches_type s v))"

definition enum_ok :: "(string \<times> jvalue) list \<Rightarrow> jvalue \<Rightarrow> bool" where
  "enum_ok m v \<longleftrightarrow>
     (\<forall>ms. map_of m ''enum'' = Some (JArray ms) \<longrightarrow> (\<exists>x \<in> set ms. jeq x v)) \<and>
     (\<forall>x. map_of m ''const'' = Some x \<longrightarrow> jeq x v)"

definition number_ok :: "(string \<times> jvalue) list \<Rightarrow> jvalue \<Rightarrow> bool" where
  "number_ok m v \<longleftrightarrow>
     (\<forall>n x. as_f64 v = Some n \<longrightarrow>
        (kw_get m ''minimum'' as_f64 = Some x \<longrightarrow> x \<le> n) \<and>
        (kw_get m ''maximum'' as_f64 = Some x \<longrightarrow> n \<le> x) \<and>
        (kw_get m ''exclusiveMinimum'' as_f64 = Some x \<longrightarrow> x < n) \<and>
        (kw_get m ''exclusiveMaximum'' as_f64 = Some x \<longrightarrow> n < x) \<and>
        (kw_get m ''multipleOf'' as_f64 = Some x \<longrightarrow> x = 0 \<or> \<not> not_multiple n x))"

definition shape_ok :: "(string \<times> jvalue) list \<Rightarrow> (string \<times> jvalue) list \<Rightarrow> bool" where
  "shape_ok m obj \<longleftrightarrow>
     bounded m ''minProperties'' ''maxProperties'' (length obj) \<and>
     (\<forall>rs. map_of m ''required'' = Some (JArray rs) \<longrightarrow>
        (\<forall>r \<in> set rs. \<exists>name \<in> fst ` set obj. r = JString name))"

definition array_ok :: "(string \<times> jvalue) list \<Rightarrow> jvalue list \<Rightarrow> bool" where
  "array_ok m arr \<longleftrightarrow>
     bounded m ''minItems'' ''maxItems'' (length arr) \<and>
     (map_of m ''uniqueItems'' = Some (JBool True) \<longrightarrow>
        (\<forall>j < length arr. \<forall>i < j. \<not> jeq (arr ! i) (arr ! j)))"

function conforms :: "jvalue \<Rightarrow> jvalue \<Rightarrow> bool" where
  "conforms schema v \<longleftrightarrow>
     (case schema of
        JBool b \<Rightarrow> b
      | JObject m \<Rightarrow>
        type_ok m v \<and> enum_ok m v \<and>
        (\<forall>s. v = JString s \<longrightarrow> bounded m ''minLength'' ''maxLength'' (length s)) \<and>
        number_ok m v \<and>
        (\<forall>obj. v = JObject obj \<longrightarrow> shape_ok m obj \<and>
           (\<forall>p \<in> set obj. case prop_schema m (fst p) of
              Some sub \<Rightarrow> conforms sub (snd p) | None \<Rightarrow> extra_allowed m)) \<and>
        (\<forall>arr. v = JArray arr \<longrightarrow> array_ok m arr \<and>
           (\<forall>items. items_schema m = Some items \<longrightarrow> (\<forall>x \<in> set arr. conforms items x))) \<and>
        (\<forall>ms. kw_get m ''oneOf'' as_array = Some ms \<longrightarrow>
           length (filter (\<lambda>s. conforms s v) ms) = 1) \<and>
        (\<forall>ms. kw_get m ''anyOf'' as_array = Some ms \<longrightarrow> (\<exists>s \<in> set ms. conforms s v)) \<and>
        (\<forall>ms. kw_get m ''allOf'' as_array = Some ms \<longrightarrow> (\<forall>s \<in> set ms. conforms s v)) \<and>
        (\<forall>s. map_of m ''not'' = Some s \<longrightarrow> \<not> conforms s v)
      | _ \<Rightarrow> False)"
  by pat_completeness auto
termination
  by (relation "measure (\<lambda>(s, v). size s)") (auto dest!: sub_sizes)

declare conforms.simps [simp del]

section \<open>The verdict\<close>

lemma is_ok_fail_if [simp]: "is_ok (fail_if b e) \<longleftrightarrow> \<not> b"
  by (simp add: fail_if_def)

lemma is_ok_and_also [simp]: "is_ok (and_also r s) \<longleftrightarrow> is_ok r \<and> is_ok s"
  by (simp add: and_also_def split: sum.splits)

lemma is_ok_when_some [simp]: "is_ok (when_some x f) \<longleftrightarrow> (\<forall>a. x = Some a \<longrightarrow> is_ok (f a))"
  by (simp add: when_some_def split: option.splits)

lemma is_ok_each [simp]: "is_ok (each f xs) \<longleftrightarrow> (\<forall>x \<in> set xs. is_ok (f x))"
  by (induction xs) auto

lemma count_ok_filter: "count_ok f xs = length (filter (\<lambda>x. is_ok (f x)) xs)"
  by (induction xs) auto

lemma has_dup_nth: "has_dup arr \<longleftrightarrow> (\<exists>j < length arr. \<exists>i < j. jeq (arr ! i) (arr ! j))"
proof (induction arr)
  case Nil
  then show ?case by simp
next
  case (Cons x xs)
  have *: "(\<exists>j < Suc n. P j) \<longleftrightarrow> P 0 \<or> (\<exists>j < n. P (Suc j))" for n P
    by (auto simp: less_Suc_eq_0_disj)
  show ?case
    unfolding has_dup.simps Cons.IH length_Cons * list_ex_length by (auto simp: *)
qed

lemma bounded_check:
  "bounded m lo hi n \<longleftrightarrow>
     (\<forall>l. kw_get m lo as_i64 = Some l \<longrightarrow> \<not> n < unat l) \<and> (\<forall>h. kw_get m hi as_i64 = Some h \<longrightarrow> \<not> unat h < n)"
  by (auto simp: bounded_def)

lemma as_some_iff [simp]:
  "as_str v = Some s \<longleftrightarrow> v = JString s" "as_array v = Some xs \<longleftrightarrow> v = JArray xs"
  "as_object v = Some obj \<longleftrightarrow> v = JObject obj" "as_bool v = Some b \<longleftrightarrow> v = JBool b"
  by (auto simp: json_defs split: jvalue.splits)

lemma kw_get_some: "kw_get m kw f = Some x \<longleftrightarrow> (\<exists>v. map_of m kw = Some v \<and> f v = Some x)"
  by (auto simp: kw_get_def split: option.splits)

lemma kw_get_skip: "k \<noteq> kw \<Longrightarrow> kw_get ((k, x) # m) kw f = kw_get m kw f"
  by (simp add: kw_get_def)

lemma check_type_ok: "is_ok (check_type m v p) \<longleftrightarrow> type_ok m v"
proof -
  have "list_ex (\<lambda>n. case as_str n of None \<Rightarrow> False | Some name \<Rightarrow> matches_type name v) arr \<longleftrightarrow>
      (\<exists>s. JString s \<in> set arr \<and> matches_type s v)" for arr
    by (auto simp: list_ex_iff split: option.splits)
  then show ?thesis
    unfolding check_type_def type_ok_def by (auto split: option.splits)
qed

lemma check_enum_ok: "is_ok (check_enum m v p) \<longleftrightarrow> enum_ok m v"
  unfolding check_enum_def enum_ok_def by (auto simp: kw_get_some list_ex_iff)

lemma check_length_ok:
  "is_ok (check_length m v p) \<longleftrightarrow> (\<forall>s. v = JString s \<longrightarrow> bounded m ''minLength'' ''maxLength'' (length s))"
  unfolding check_length_def bounded_check by simp

lemma check_number_ok: "is_ok (check_number m v p) \<longleftrightarrow> number_ok m v"
  unfolding check_number_def number_ok_def by (auto simp: not_less)

lemma check_shape_ok: "is_ok (check_shape m obj p) \<longleftrightarrow> shape_ok m obj"
proof -
  have "is_ok (case as_str r of None \<Rightarrow> Err (p, RequiredNotString)
        | Some name \<Rightarrow> fail_if (map_of obj name = None) (p, MissingRequired name)) \<longleftrightarrow>
      (\<exists>name \<in> fst ` set obj. r = JString name)" for r
    by (cases "as_str r") (auto simp: map_of_eq_None_iff as_str_def split: jvalue.splits)
  then show ?thesis
    unfolding check_shape_def shape_ok_def bounded_check by (auto simp: kw_get_some)
qed

lemma check_counts_ok: "is_ok (check_counts m arr p) \<longleftrightarrow> array_ok m arr"
  unfolding check_counts_def array_ok_def bounded_check by (auto simp: kw_get_some has_dup_nth)

lemma validate_conforms: "is_ok (validate_at s v p) \<longleftrightarrow> conforms s v"
proof (induction "size s" arbitrary: s v p rule: less_induct)
  case less
  show ?case
  proof (cases s)
    case (JObject m)
    have IH: "size t < size (JObject m) \<Longrightarrow> is_ok (validate_at t w q) = conforms t w" for t w q
      using less JObject by blast
    have props: "is_ok (case prop_schema m k of
          Some sub \<Rightarrow> validate_at sub x (p @ ''/'' @ k)
        | None \<Rightarrow> fail_if (\<not> extra_allowed m) (p, UnexpectedProperty k)) \<longleftrightarrow>
        (case prop_schema m k of Some sub \<Rightarrow> conforms sub x | None \<Rightarrow> extra_allowed m)" for k x
      by (cases "prop_schema m k") (simp, simp only: option.case IH [OF size_of_prop])
    have items: "is_ok (validate_at t x q) = conforms t x" if "items_schema m = Some t" for t x q
      using IH size_of_items that by blast
    have count: "count_ok (\<lambda>t. validate_at t v p) ms = length (filter (\<lambda>t. conforms t v) ms)"
      if "kw_get m kw as_array = Some ms" for kw ms
      unfolding count_ok_filter using that
      by (intro arg_cong [where f = length] filter_cong refl) (rule IH, erule size_of_member)
    have all: "is_ok (validate_at t v p) = conforms t v" if "kw_get m kw as_array = Some ms" "t \<in> set ms" for t kw ms
      using IH size_of_member that by blast
    have neg: "is_ok (validate_at t v p) = conforms t v" if "map_of m ''not'' = Some t" for t
      using IH size_of_kw that by blast
    show ?thesis
      unfolding JObject by (subst validate_at.simps, subst conforms.simps)
        (simp add: check_type_ok check_enum_ok check_length_ok check_number_ok check_shape_ok check_counts_ok
          split_beta props items count all neg filter_empty_conv cong: imp_cong conj_cong)
  qed (simp_all add: validate_at.simps conforms.simps)
qed

lemma is_schema_iff: "is_schema v \<longleftrightarrow> (\<exists>m. v = JObject m) \<or> (\<exists>b. v = JBool b)"
  by (auto simp: is_schema_def json_defs split: jvalue.splits)

text \<open>A non-schema under \<open>allOf\<close> passes the support check and makes the schema reject every value.\<close>

lemma supported_allOf_rejects_all:
  defines "s \<equiv> JObject [(''allOf'', JArray [JNull])]"
  shows "check_supported s = Ok ()" and "\<not> is_ok (validate_schema s v)"
proof -
  show "check_supported s = Ok ()"
    by (simp add: s_def check_supported.simps supported_kws_def when_some_def and_also_def is_schema_def json_defs)
  show "\<not> is_ok (validate_schema s v)"
    unfolding validate_schema_def validate_conforms s_def
    by (subst conforms.simps) (simp add: kw_get_def conforms.simps [of JNull])
qed

text \<open>\<open>prefixItems\<close> is supported and never looked at.\<close>

lemma prefix_items_ignored:
  "check_supported (JObject [(''prefixItems'', JArray [JBool False])]) = Ok ()"
  "validate_at (JObject ((''prefixItems'', x) # m)) v p = validate_at (JObject m) v p"
proof -
  show "check_supported (JObject [(''prefixItems'', JArray [JBool False])]) = Ok ()"
    by (simp add: check_supported.simps supported_kws_def when_some_def and_also_def is_schema_def json_defs)
  let ?m = "(''prefixItems'', x) # m"
  have x: "extra_schema ?m = extra_schema m" by (simp add: extra_schema_def kw_get_skip)
  have e: "check_type ?m = check_type m" "check_enum ?m = check_enum m" "check_length ?m = check_length m"
    "check_number ?m = check_number m" "check_shape ?m = check_shape m" "check_counts ?m = check_counts m"
    "prop_schema ?m = prop_schema m"
    by (intro ext, simp add: check_type_def check_enum_def check_length_def check_number_def check_shape_def
        check_counts_def prop_schema_def kw_get_skip x cong: option.case_cong)+
  have e': "extra_allowed ?m = extra_allowed m" "items_schema ?m = items_schema m"
    by (simp_all add: extra_allowed_def items_schema_def kw_get_skip)
  show "validate_at (JObject ?m) v p = validate_at (JObject m) v p"
    unfolding validate_at.simps [of "JObject ?m"] validate_at.simps [of "JObject m"] jvalue.case e e' by (simp add: kw_get_skip)
qed

section \<open>Properties\<close>


end
