(* ===== verification/RateLimit.thy ===== *)
theory RateLimit
  imports Prelude "HOL-Library.AList" "HOL-Library.Multiset"
begin

text \<open>
  The request rate limiter (\<open>src/server/ratelimit.rs\<close>).  A shard, a \<open>HashMap\<close>, is an
  association list in the order in which the table iterates; \<open>shuffle\<close> is the order after
  the insertion of a key, which the standard library leaves open, and \<open>hash\<close> is the
  \<open>DefaultHasher\<close>, whose algorithm it leaves open too.  The locks make \<open>allow\<close> atomic.
\<close>

section \<open>Definitions\<close>

type_synonym shard = "(string \<times> (u64 \<times> u64)) list"

record limiter =
  rl_enabled :: bool
  rl_max_requests :: u64
  rl_window_ms :: u64
  rl_budget :: nat
  rl_buckets :: "shard list"

definition SHARDS :: nat where
  "SHARDS = 64"

definition MAX_KEYS :: nat where
  "MAX_KEYS = 1000000"

definition MAX_KEYS_PER_SHARD :: nat where
  "MAX_KEYS_PER_SHARD = MAX_KEYS div SHARDS"

definition EVICT_SCAN_BUDGET :: nat where
  "EVICT_SCAN_BUDGET = 512"

definition new_limiter :: "bool \<Rightarrow> u64 \<Rightarrow> u64 \<Rightarrow> limiter" where
  "new_limiter enabled max_requests window_secs =
     \<lparr>rl_enabled = enabled, rl_max_requests = max_requests, rl_window_ms = window_secs * 1000,
      rl_budget = MAX_KEYS_PER_SHARD, rl_buckets = replicate SHARDS []\<rparr>"

definition remove_keys :: "string list \<Rightarrow> shard \<Rightarrow> shard" where
  "remove_keys ks b = fold AList.delete ks b"

definition stale_keys :: "u64 \<Rightarrow> shard \<Rightarrow> string list" where
  "stale_keys window b =
     map fst (filter (\<lambda>(k, w, c). w < window) (take EVICT_SCAN_BUDGET b))"

definition victim_keys :: "shard \<Rightarrow> string list" where
  "victim_keys b = map fst (take EVICT_SCAN_BUDGET b)"

text \<open>The two evictions after an insertion.\<close>

definition evict_stale :: "nat \<Rightarrow> u64 \<Rightarrow> shard \<Rightarrow> shard" where
  "evict_stale budget window b =
     (if budget < length b then remove_keys (stale_keys window b) b else b)"

definition evict_any :: "nat \<Rightarrow> shard \<Rightarrow> shard" where
  "evict_any budget b = (if budget * 2 < length b then remove_keys (victim_keys b) b else b)"

text \<open>The work on one shard: the answer and the new shard.\<close>

definition allow_shard ::
  "(shard \<Rightarrow> shard) \<Rightarrow> u64 \<Rightarrow> nat \<Rightarrow> string \<Rightarrow> u64 \<Rightarrow> shard \<Rightarrow> bool \<times> shard" where
  "allow_shard shuffle max_requests budget key window b =
     (case map_of b key of
        Some (w, n) \<Rightarrow>
          if w = window then
            if max_requests \<le> n then (False, b)
            else (True, AList.update key (w, n + 1) b)
          else (True, AList.update key (window, 1) b)
      | None \<Rightarrow> (True, evict_any budget (evict_stale budget window (shuffle ((key, window, 1) # b)))))"

definition shard_of :: "(string \<Rightarrow> u64) \<Rightarrow> string \<Rightarrow> nat" where
  "shard_of hash key = unat (hash key) mod SHARDS"

definition allow ::
  "(string \<Rightarrow> u64) \<Rightarrow> (shard \<Rightarrow> shard) \<Rightarrow> limiter \<Rightarrow> string \<Rightarrow> u64 \<Rightarrow> bool \<times> limiter" where
  "allow hash shuffle rl key now_ms =
     (if \<not> rl_enabled rl \<or> rl_max_requests rl = 0 then (True, rl)
      else if rl_window_ms rl = 0 then (True, rl)
      else
        let s = shard_of hash key;
            window = now_ms div rl_window_ms rl;
            (ok, b) = allow_shard shuffle (rl_max_requests rl) (rl_budget rl) key window (rl_buckets rl ! s)
        in (ok, rl\<lparr>rl_buckets := (rl_buckets rl)[s := b]\<rparr>))"

text \<open>A sequence of requests, with the time of each.\<close>

fun serve ::
  "(string \<Rightarrow> u64) \<Rightarrow> (shard \<Rightarrow> shard) \<Rightarrow> limiter \<Rightarrow> (string \<times> u64) list \<Rightarrow> bool list \<times> limiter" where
  "serve hash shuffle rl [] = ([], rl)"
| "serve hash shuffle rl ((key, t) # cs) =
     (let (ok, rl') = allow hash shuffle rl key t;
          (oks, rl'') = serve hash shuffle rl' cs
      in (ok # oks, rl''))"

text \<open>What the limiter promises: a request passes when fewer than the limit came before it from
  the same client in the same window.\<close>

definition earlier :: "u64 \<Rightarrow> (string \<times> u64) list \<Rightarrow> string \<Rightarrow> u64 \<Rightarrow> nat" where
  "earlier window_ms past key window =
     length (filter (\<lambda>(k, t). k = key \<and> t div window_ms = window) past)"

fun quota :: "u64 \<Rightarrow> u64 \<Rightarrow> (string \<times> u64) list \<Rightarrow> (string \<times> u64) list \<Rightarrow> bool list" where
  "quota max_requests window_ms past [] = []"
| "quota max_requests window_ms past ((key, t) # cs) =
     (earlier window_ms past key (t div window_ms) < unat max_requests) #
     quota max_requests window_ms (past @ [(key, t)]) cs"

text \<open>The order of a table is any order of its entries.\<close>

definition any_order :: "(shard \<Rightarrow> shard) \<Rightarrow> bool" where
  "any_order shuffle \<longleftrightarrow> (\<forall>b. mset (shuffle b) = mset b)"

definition shard_inv :: "nat \<Rightarrow> u64 \<Rightarrow> shard \<Rightarrow> bool" where
  "shard_inv budget max_requests b \<longleftrightarrow>
     distinct (map fst b) \<and> length b \<le> 2 * budget \<and> (\<forall>(k, w, c) \<in> set b. 1 \<le> c \<and> c \<le> max_requests)"

definition limiter_inv :: "limiter \<Rightarrow> bool" where
  "limiter_inv rl \<longleftrightarrow>
     length (rl_buckets rl) = SHARDS \<and>
     (\<forall>b \<in> set (rl_buckets rl). shard_inv (rl_budget rl) (rl_max_requests rl) b)"

definition key_count :: "limiter \<Rightarrow> nat" where
  "key_count rl = sum_list (map length (rl_buckets rl))"

text \<open>The limiter after a sequence of requests, as long as no shard overflows: an entry has the
  last window of its key and the number of its requests there, up to the limit.\<close>

definition entry_tracks ::
  "u64 \<Rightarrow> u64 \<Rightarrow> (string \<times> u64) list \<Rightarrow> string \<Rightarrow> (u64 \<times> u64) option \<Rightarrow> bool" where
  "entry_tracks wms max_requests past k e \<longleftrightarrow>
     (case e of
        None \<Rightarrow> k \<notin> fst ` set past
      | Some (w, n) \<Rightarrow>
          unat n = min (earlier wms past k w) (unat max_requests) \<and>
          (\<exists>t. (k, t) \<in> set past \<and> t div wms = w) \<and> (\<forall>t. (k, t) \<in> set past \<longrightarrow> t div wms \<le> w))"

definition tracks :: "(string \<Rightarrow> u64) \<Rightarrow> limiter \<Rightarrow> (string \<times> u64) list \<Rightarrow> bool" where
  "tracks hash rl past \<longleftrightarrow>
     length (rl_buckets rl) = SHARDS \<and>
     (\<forall>i < SHARDS. distinct (map fst (rl_buckets rl ! i)) \<and> fst ` set (rl_buckets rl ! i) \<subseteq> fst ` set past) \<and>
     (\<forall>k. entry_tracks (rl_window_ms rl) (rl_max_requests rl) past k
        (map_of (rl_buckets rl ! shard_of hash k) k))"

section \<open>Shards\<close>

lemma any_orderD:
  assumes "any_order shuffle"
  shows "length (shuffle b) = length b" "set (shuffle b) = set b"
    "distinct (map fst (shuffle b)) \<longleftrightarrow> distinct (map fst b)"
proof -
  have m: "mset (shuffle b) = mset b" using assms by (simp add: any_order_def)
  show "length (shuffle b) = length b" using m by (metis size_mset)
  show "set (shuffle b) = set b" using m by (metis set_mset_mset)
  have "mset (map fst (shuffle b)) = mset (map fst b)" using m by (simp add: mset_map)
  then show "distinct (map fst (shuffle b)) \<longleftrightarrow> distinct (map fst b)" by (rule mset_eq_imp_distinct_iff)
qed

lemma remove_keys_filter: "remove_keys ks b = filter (\<lambda>(k, v). k \<notin> set ks) b"
proof (induction ks arbitrary: b)
  case Nil
  then show ?case by (simp add: remove_keys_def)
next
  case (Cons k ks)
  have "remove_keys (k # ks) b = remove_keys ks (AList.delete k b)" by (simp add: remove_keys_def)
  then show ?case unfolding Cons AList.delete_eq by (auto intro!: filter_cong)
qed

lemma remove_keys_sub: "set (remove_keys ks b) \<subseteq> set b" "length (remove_keys ks b) \<le> length b"
  "distinct (map fst b) \<Longrightarrow> distinct (map fst (remove_keys ks b))"
  by (auto simp: remove_keys_filter distinct_map_filter)

lemma evict_any_bound:
  assumes "length b \<le> 2 * budget + 1"
  shows "length (evict_any budget b) \<le> 2 * budget"
proof (cases "budget * 2 < length b")
  case True
  then obtain x xs where b: "b = x # xs" by (cases b) auto
  have "fst x \<in> set (victim_keys b)" by (simp add: b victim_keys_def EVICT_SCAN_BUDGET_def)
  then have "remove_keys (victim_keys b) b = remove_keys (victim_keys b) xs"
    unfolding remove_keys_filter by (simp add: b split_beta)
  then have "length (remove_keys (victim_keys b) b) \<le> length xs"
    using remove_keys_sub(2) [of "victim_keys b" xs] by simp
  then show ?thesis using True assms by (simp add: evict_any_def b)
next
  case False
  then show ?thesis by (simp add: evict_any_def)
qed

lemma evict_sub:
  "set (evict_any budget b) \<subseteq> set b" "set (evict_stale budget window b) \<subseteq> set b"
  "length (evict_stale budget window b) \<le> length b"
  "distinct (map fst b) \<Longrightarrow> distinct (map fst (evict_any budget b))"
  "distinct (map fst b) \<Longrightarrow> distinct (map fst (evict_stale budget window b))"
  using remove_keys_sub by (auto simp: evict_any_def evict_stale_def)

lemma update_present:
  "distinct (map fst b) \<Longrightarrow> map_of b key = Some v \<Longrightarrow>
   AList.update key x b = map (\<lambda>p. if fst p = key then (key, x) else p) b"
proof (induction b)
  case Nil
  then show ?case by simp
next
  case (Cons p b)
  have "map (\<lambda>p. if fst p = key then (key, x) else p) b = b" if "fst p = key"
    using Cons.prems(1) that by (intro map_idI) (auto simp: image_iff)
  then show ?case using Cons by (cases p) auto
qed

lemma update_inv:
  assumes inv: "shard_inv budget max_requests b" and k: "map_of b key = Some v"
    and n: "1 \<le> n" "n \<le> max_requests"
  shows "shard_inv budget max_requests (AList.update key (w, n) b)"
proof -
  have d: "distinct (map fst b)" using inv by (simp add: shard_inv_def)
  have "map fst (map (\<lambda>p. if fst p = key then (key, w, n) else p) b) = map fst b" by simp
  then have "distinct (map fst (map (\<lambda>p. if fst p = key then (key, w, n) else p) b))"
    using d by (simp only:)
  then show ?thesis
    unfolding update_present [OF d k] shard_inv_def using inv n by (auto simp: shard_inv_def simp del: map_map)
qed

lemma insert_inv:
  assumes ord: "any_order shuffle" and m: "max_requests \<noteq> 0"
    and inv: "shard_inv budget max_requests b" and k: "map_of b key = None"
  shows "shard_inv budget max_requests
    (evict_any budget (evict_stale budget window (shuffle ((key, window, 1) # b))))" (is "shard_inv _ _ ?b")
proof -
  have m1: "1 \<le> max_requests" using m by (simp add: word_le_nat_alt unat_gt_0 Suc_le_eq)
  have "distinct (map fst ((key, window, 1) # b))"
    using inv k by (auto simp: shard_inv_def map_of_eq_None_iff)
  then have "distinct (map fst ?b)" by (intro evict_sub) (simp add: any_orderD [OF ord])
  moreover have "length ?b \<le> 2 * budget"
  proof (rule evict_any_bound)
    show "length (evict_stale budget window (shuffle ((key, window, 1) # b))) \<le> 2 * budget + 1"
      using inv evict_sub(3) [of budget window "shuffle ((key, window, 1) # b)"]
      by (simp add: any_orderD [OF ord] shard_inv_def)
  qed
  moreover have "set ?b \<subseteq> insert (key, window, 1) (set b)"
    using order_trans [OF evict_sub(1) evict_sub(2), of budget budget window "shuffle ((key, window, 1) # b)"]
      any_orderD(2) [OF ord, of "(key, window, 1) # b"]
    by (simp only: list.simps)
  moreover have "\<forall>p \<in> insert (key, window, 1) (set b). 1 \<le> snd (snd p) \<and> snd (snd p) \<le> max_requests"
    using inv m1 by (auto simp: shard_inv_def)
  ultimately have "\<forall>p \<in> set ?b. 1 \<le> snd (snd p) \<and> snd (snd p) \<le> max_requests"
    and "distinct (map fst ?b)" and "length ?b \<le> 2 * budget" by blast+
  then show ?thesis unfolding shard_inv_def by (auto simp: split_beta)
qed

lemma allow_shard_inv:
  assumes ord: "any_order shuffle" and m: "max_requests \<noteq> 0" and inv: "shard_inv budget max_requests b"
  shows "shard_inv budget max_requests (snd (allow_shard shuffle max_requests budget key window b))"
proof (cases "map_of b key")
  case None
  then show ?thesis using insert_inv [OF ord m inv] by (simp add: allow_shard_def)
next
  case (Some v)
  obtain w n where v: "v = (w, n)" by (cases v)
  have n: "1 \<le> n" using inv Some by (auto simp: shard_inv_def v dest!: map_of_SomeD)
  have "1 \<le> n + 1 \<and> n + 1 \<le> max_requests" if "\<not> max_requests \<le> n"
  proof -
    have "n \<noteq> - 1" using that by (auto simp: not_le)
    then show ?thesis using that n by (simp add: word_le_nat_alt unat_Suc_no_wrap)
  qed
  moreover have "1 \<le> max_requests" using m by (simp add: word_le_nat_alt unat_gt_0 Suc_le_eq)
  ultimately show ?thesis
    using inv update_inv [OF inv Some] by (simp add: allow_shard_def Some v)
qed

section \<open>The limiter\<close>

lemma shard_of_less: "shard_of hash key < SHARDS"
  by (simp add: shard_of_def SHARDS_def)

lemma allow_inv:
  assumes ord: "any_order shuffle" and inv: "limiter_inv rl"
  shows "limiter_inv (snd (allow hash shuffle rl key t))"
proof -
  let ?s = "shard_of hash key"
  have "rl_buckets rl ! ?s \<in> set (rl_buckets rl)" using inv shard_of_less by (simp add: limiter_inv_def)
  then have b: "shard_inv (rl_budget rl) (rl_max_requests rl) (rl_buckets rl ! ?s)"
    using inv by (simp add: limiter_inv_def)
  show ?thesis
    using inv allow_shard_inv [OF ord _ b]
    by (auto simp: allow_def Let_def limiter_inv_def split_beta dest!: set_update_subset_insert [THEN subsetD])
qed

lemma allow_config [simp]:
  "rl_budget (snd (allow hash shuffle rl key t)) = rl_budget rl"
  "rl_enabled (snd (allow hash shuffle rl key t)) = rl_enabled rl"
  "rl_max_requests (snd (allow hash shuffle rl key t)) = rl_max_requests rl"
  "rl_window_ms (snd (allow hash shuffle rl key t)) = rl_window_ms rl"
  by (simp_all add: allow_def Let_def split_beta)

lemma serve_inv:
  "any_order shuffle \<Longrightarrow> limiter_inv rl \<Longrightarrow>
   limiter_inv (snd (serve hash shuffle rl cs)) \<and> rl_budget (snd (serve hash shuffle rl cs)) = rl_budget rl"
proof (induction cs arbitrary: rl)
  case Nil
  then show ?case by simp
next
  case (Cons c cs)
  obtain k t where c: "c = (k, t)" by (cases c)
  show ?case using Cons.IH [of "snd (allow hash shuffle rl k t)"] Cons.prems allow_inv [OF Cons.prems, of hash k t]
    by (simp add: c Let_def split_beta)
qed

lemma new_limiter_inv: "limiter_inv (new_limiter enabled max_requests window_secs)"
  by (auto simp: limiter_inv_def new_limiter_def shard_inv_def)

lemma key_count_bound: "limiter_inv rl \<Longrightarrow> key_count rl \<le> SHARDS * (2 * rl_budget rl)"
proof -
  assume inv: "limiter_inv rl"
  have "sum_list (map length bs) \<le> length bs * n" if "\<forall>b \<in> set bs. length b \<le> n" for bs :: "shard list" and n
    using that by (induction bs) auto
  from this [of "rl_buckets rl" "2 * rl_budget rl"] show ?thesis
    using inv by (simp add: limiter_inv_def shard_inv_def key_count_def)
qed

section \<open>Counting\<close>

lemma allow_shard_effect:
  assumes ord: "any_order shuffle" and d: "distinct (map fst b)"
    and room: "map_of b key = None \<Longrightarrow> length b < budget"
    and r: "allow_shard shuffle max_requests budget key window b = (ok, b')"
  shows "distinct (map fst b')" and "fst ` set b' \<subseteq> insert key (fst ` set b)"
    and "ok \<longleftrightarrow> (\<forall>n. map_of b key = Some (window, n) \<longrightarrow> n < max_requests)"
    and "map_of b' = (if ok then (map_of b)(key \<mapsto>
          (window, case map_of b key of Some (w, n) \<Rightarrow> if w = window then n + 1 else 1 | None \<Rightarrow> 1))
        else map_of b)"
proof -
  have "distinct (map fst b') \<and> fst ` set b' \<subseteq> insert key (fst ` set b) \<and>
    (ok \<longleftrightarrow> (\<forall>n. map_of b key = Some (window, n) \<longrightarrow> n < max_requests)) \<and>
    map_of b' = (if ok then (map_of b)(key \<mapsto>
        (window, case map_of b key of Some (w, n) \<Rightarrow> if w = window then n + 1 else 1 | None \<Rightarrow> 1))
      else map_of b)"
  proof (cases "map_of b key")
    case None
    let ?b = "(key, window, 1) # b"
    have "length (shuffle ?b) \<le> budget" using room [OF None] by (simp add: any_orderD [OF ord])
    then have b': "b' = shuffle ?b" "ok"
      using r None by (auto simp: allow_shard_def evict_any_def evict_stale_def)
    have d': "distinct (map fst ?b)" using d None by (simp add: map_of_eq_None_iff)
    then have "map_of (shuffle ?b) = map_of ?b"
      by (subst map_of_inject_set) (simp_all only: any_orderD [OF ord])
    then show ?thesis using b' d' any_orderD(2) [OF ord, of ?b] by (simp add: any_orderD(3) [OF ord] None)
  next
    case (Some v)
    then have k: "key \<in> fst ` set b" by (metis domI dom_map_of_conv_image_fst)
    have u: "distinct (map fst (AList.update key x b))" "fst ` set (AList.update key x b) \<subseteq> insert key (fst ` set b)" for x
      using d by (simp_all add: distinct_update dom_update)
    obtain w n where v: "v = (w, n)" by (cases v)
    show ?thesis
    proof (cases "w = window \<and> max_requests \<le> n")
      case True
      then have "b' = b \<and> \<not> ok" using r by (simp add: allow_shard_def Some v)
      then show ?thesis using True d by (auto simp: Some v)
    next
      case False
      let ?x = "(window, if w = window then n + 1 else 1)"
      have b': "b' = AList.update key ?x b" and ok: ok
        using r False by (auto simp: allow_shard_def Some v split: if_splits)
      show ?thesis unfolding b' update_conv' using u [of ?x] ok False by (simp add: Some v not_le)
    qed
  qed
  then show "distinct (map fst b')" "fst ` set b' \<subseteq> insert key (fst ` set b)"
    "ok \<longleftrightarrow> (\<forall>n. map_of b key = Some (window, n) \<longrightarrow> n < max_requests)"
    "map_of b' = (if ok then (map_of b)(key \<mapsto>
          (window, case map_of b key of Some (w, n) \<Rightarrow> if w = window then n + 1 else 1 | None \<Rightarrow> 1))
        else map_of b)" by blast+
qed

lemma earlier_snoc:
  "earlier wms (past @ [(key, t)]) k w = earlier wms past k w + (if k = key \<and> t div wms = w then 1 else 0)"
  by (simp add: earlier_def)

lemma earlier_none: "(\<And>t. (k, t) \<in> set past \<Longrightarrow> t div wms \<noteq> w) \<Longrightarrow> earlier wms past k w = 0"
  by (auto simp: earlier_def filter_empty_conv)

lemma word_div_mono: "(a :: u64) \<le> b \<Longrightarrow> a div c \<le> b div c"
  by (simp add: word_le_nat_alt unat_div div_le_mono)

lemma tracks_room:
  assumes tr: "tracks hash rl past" and none: "map_of (rl_buckets rl ! shard_of hash key) key = None"
    and room: "card (fst ` set (past @ [(key, t)])) \<le> rl_budget rl"
  shows "length (rl_buckets rl ! shard_of hash key) < rl_budget rl"
proof -
  let ?b = "rl_buckets rl ! shard_of hash key"
  have d: "distinct (map fst ?b)" and sub: "fst ` set ?b \<subseteq> fst ` set past"
    using tr shard_of_less unfolding tracks_def by blast+
  have "entry_tracks (rl_window_ms rl) (rl_max_requests rl) past key (map_of ?b key)"
    using tr unfolding tracks_def by blast
  then have "key \<notin> fst ` set past" unfolding none by (simp add: entry_tracks_def)
  then have "card (fst ` set (past @ [(key, t)])) = Suc (card (fst ` set past))" by simp
  moreover have "length ?b = card (fst ` set ?b)" using distinct_card [OF d] by simp
  moreover have "card (fst ` set ?b) \<le> card (fst ` set past)" using sub by (simp add: card_mono)
  ultimately show ?thesis using room by simp
qed

lemma entry_tracks_other:
  "k \<noteq> key \<Longrightarrow> entry_tracks wms max_requests past k e \<Longrightarrow> entry_tracks wms max_requests (past @ [(key, t)]) k e"
  by (auto simp: entry_tracks_def earlier_snoc split: option.splits)

lemma entry_tracks_step:
  assumes e: "entry_tracks wms max_requests past key e" and m: "max_requests \<noteq> 0"
    and late: "\<forall>p \<in> set past. snd p \<le> t"
    and w: "window = t div wms"
    and ok: "ok \<longleftrightarrow> (\<forall>n. e = Some (window, n) \<longrightarrow> n < max_requests)"
  shows "(ok \<longleftrightarrow> earlier wms past key window < unat max_requests) \<and>
    entry_tracks wms max_requests (past @ [(key, t)]) key
      (if ok then Some (window, case e of Some (w, n) \<Rightarrow> if w = window then n + 1 else 1 | None \<Rightarrow> 1) else e)"
proof (cases "\<exists>n. e = Some (window, n)")
  case True
  then obtain n where n: "e = Some (window, n)" by blast
  have c: "unat n = min (earlier wms past key window) (unat max_requests)"
    and le: "\<And>t'. (key, t') \<in> set past \<Longrightarrow> t' div wms \<le> window"
    and ex: "\<exists>t'. (key, t') \<in> set past \<and> t' div wms = window"
    using e by (auto simp: entry_tracks_def n)
  have o: "ok \<longleftrightarrow> unat n < unat max_requests" using ok by (simp add: n word_less_nat_alt)
  have "unat (n + 1) = Suc (unat n)" if ok
    using that o by (intro unat_Suc_no_wrap) (auto simp: word_less_nat_alt [symmetric])
  then show ?thesis using c o le ex by (auto simp: n entry_tracks_def earlier_snoc w)
next
  case False
  have le: "t' div wms \<le> window" if "(key, t') \<in> set past" for t'
    using late that unfolding w by (intro word_div_mono) force
  have "t' div wms \<noteq> window" if t': "(key, t') \<in> set past" for t'
  proof -
    have "key \<in> fst ` set past" using t' by force
    then have "e \<noteq> None" using e by (cases e) (simp_all add: entry_tracks_def)
    then obtain v n where v: "e = Some (v, n)" by auto
    obtain t'' where "(key, t'') \<in> set past" "t'' div wms = v" "t' div wms \<le> v"
      using e t' by (auto simp: entry_tracks_def v)
    then have "v \<le> window" "v \<noteq> window" "t' div wms \<le> v" using le False v by auto
    then show ?thesis by auto
  qed
  then have z: "earlier wms past key window = 0" by (rule earlier_none)
  have m1: "1 \<le> unat max_requests" using m by (simp add: Suc_le_eq unat_gt_0)
  have o: ok using ok False by blast
  have "(case e of Some (w, n) \<Rightarrow> if w = window then n + 1 else 1 | None \<Rightarrow> 1) = 1"
    using False by (auto split: option.splits)
  then show ?thesis using z m1 o le by (auto simp: entry_tracks_def earlier_snoc w)
qed

lemma tracks_allow:
  assumes ord: "any_order shuffle" and tr: "tracks hash rl past"
    and on: "rl_enabled rl" "rl_max_requests rl \<noteq> 0" "rl_window_ms rl \<noteq> 0"
    and late: "\<forall>p \<in> set past. snd p \<le> t"
    and room: "card (fst ` set (past @ [(key, t)])) \<le> rl_budget rl"
  shows "(fst (allow hash shuffle rl key t) \<longleftrightarrow>
      earlier (rl_window_ms rl) past key (t div rl_window_ms rl) < unat (rl_max_requests rl)) \<and>
    tracks hash (snd (allow hash shuffle rl key t)) (past @ [(key, t)])"
proof -
  let ?s = "shard_of hash key" and ?w = "t div rl_window_ms rl"
  let ?b = "rl_buckets rl ! ?s"
  obtain ok b' where r: "allow_shard shuffle (rl_max_requests rl) (rl_budget rl) key ?w ?b = (ok, b')"
    by fastforce
  have a: "allow hash shuffle rl key t = (ok, rl\<lparr>rl_buckets := (rl_buckets rl)[?s := b']\<rparr>)"
    using on r by (simp add: allow_def Let_def)
  have len: "length (rl_buckets rl) = SHARDS"
    and each: "\<And>i. i < SHARDS \<Longrightarrow> distinct (map fst (rl_buckets rl ! i)) \<and> fst ` set (rl_buckets rl ! i) \<subseteq> fst ` set past"
    and ent: "\<And>k. entry_tracks (rl_window_ms rl) (rl_max_requests rl) past k (map_of (rl_buckets rl ! shard_of hash k) k)"
    using tr unfolding tracks_def by blast+
  note eff = allow_shard_effect [OF ord conjunct1 [OF each [OF shard_of_less]] tracks_room [OF tr _ room] r]
  have st: "(ok \<longleftrightarrow> earlier (rl_window_ms rl) past key ?w < unat (rl_max_requests rl)) \<and>
      entry_tracks (rl_window_ms rl) (rl_max_requests rl) (past @ [(key, t)]) key (map_of b' key)"
    using entry_tracks_step [OF ent [of key] on(2) late refl eff(3)] eff(4) by (simp split: if_splits)
  have other: "map_of b' k = map_of ?b k" if "k \<noteq> key" for k using eff(4) that by simp
  have "entry_tracks (rl_window_ms rl) (rl_max_requests rl) (past @ [(key, t)]) k
      (map_of ((rl_buckets rl)[?s := b'] ! shard_of hash k) k)" for k
  proof (cases "k = key")
    case True
    then show ?thesis using st shard_of_less by (simp add: len)
  next
    case False
    have "map_of ((rl_buckets rl)[?s := b'] ! shard_of hash k) k = map_of (rl_buckets rl ! shard_of hash k) k"
      using other [OF False] shard_of_less by (cases "shard_of hash k = ?s") (simp_all add: len)
    then show ?thesis using entry_tracks_other [OF False ent] by simp
  qed
  moreover have "distinct (map fst ((rl_buckets rl)[?s := b'] ! i)) \<and>
      fst ` set ((rl_buckets rl)[?s := b'] ! i) \<subseteq> fst ` set (past @ [(key, t)])" if i: "i < SHARDS" for i
  proof (cases "i = ?s")
    case True
    have "fst ` set b' \<subseteq> insert key (fst ` set past)" using eff(2) each [OF shard_of_less] by blast
    then show ?thesis using eff(1) i by (simp add: True len)
  next
    case False
    then show ?thesis using each [OF i] by auto
  qed
  ultimately show ?thesis using st len unfolding a tracks_def by simp
qed

lemma serve_quota:
  assumes ord: "any_order shuffle"
  shows "tracks hash rl past \<Longrightarrow> rl_enabled rl \<Longrightarrow> rl_max_requests rl \<noteq> 0 \<Longrightarrow> rl_window_ms rl \<noteq> 0 \<Longrightarrow>
    sorted (map snd (past @ cs)) \<Longrightarrow> card (fst ` set (past @ cs)) \<le> rl_budget rl \<Longrightarrow>
    fst (serve hash shuffle rl cs) = quota (rl_max_requests rl) (rl_window_ms rl) past cs"
proof (induction cs arbitrary: rl past)
  case Nil
  then show ?case by simp
next
  case (Cons c cs)
  obtain k t where c: "c = (k, t)" by (cases c)
  have "card (fst ` set (past @ [(k, t)])) \<le> card (fst ` set (past @ c # cs))"
    by (intro card_mono) (auto simp: c)
  then have room: "card (fst ` set (past @ [(k, t)])) \<le> rl_budget rl" using Cons.prems(6) by linarith
  have late: "\<forall>p \<in> set past. snd p \<le> t" using Cons.prems(5) by (auto simp: sorted_append c)
  note st = tracks_allow [OF ord Cons.prems(1-4) late room]
  show ?case using st Cons.IH [of "snd (allow hash shuffle rl k t)" "past @ [(k, t)]"] Cons.prems
    by (simp add: c Let_def split_beta)
qed

lemma new_tracks: "tracks hash (new_limiter enabled max_requests window_secs) []"
  using shard_of_less by (simp add: tracks_def new_limiter_def entry_tracks_def)

section \<open>Properties\<close>

text \<open>However many clients send requests, every shard stays within twice its budget and the
  limiter within two million keys; every counter stays between one and the limit.\<close>

theorem limiter_bounded:
  assumes "any_order shuffle"
    and "rl = snd (serve hash shuffle (new_limiter enabled max_requests window_secs) requests)"
  shows "limiter_inv rl \<and> key_count rl \<le> 2 * MAX_KEYS"
proof -
  have "limiter_inv rl" "rl_budget rl = MAX_KEYS_PER_SHARD"
    using serve_inv [OF assms(1) new_limiter_inv] unfolding assms(2) by (simp_all add: new_limiter_def)
  then show ?thesis
    using key_count_bound [of rl] by (simp add: SHARDS_def MAX_KEYS_PER_SHARD_def MAX_KEYS_def)
qed

theorem limiter_bounded_witness:
  "limiter_inv (snd (serve (\<lambda>_. 0) id (new_limiter True 1 60) [(''a'', 0), (''b'', 5)])) \<and>
   key_count (snd (serve (\<lambda>_. 0) id (new_limiter True 1 60) [(''a'', 0), (''b'', 5)])) \<le> 2 * MAX_KEYS"
  by (rule limiter_bounded [OF _ refl]) (simp add: any_order_def)

text \<open>C25.  As long as there are no more clients than a shard holds and the clock does not run
  backwards, a request is let through exactly when fewer than the limit came before it from the
  same client in the same window.\<close>

theorem serve_enforces_quota:
  assumes "any_order shuffle" and "max_requests \<noteq> 0" and "window_secs * 1000 \<noteq> 0"
    and "sorted (map snd requests)" and "card (fst ` set requests) \<le> MAX_KEYS_PER_SHARD"
  shows "fst (serve hash shuffle (new_limiter True max_requests window_secs) requests) =
    quota max_requests (window_secs * 1000) [] requests"
  using serve_quota [OF assms(1) new_tracks, of True max_requests window_secs requests] assms
  by (simp add: new_limiter_def)

theorem serve_enforces_quota_witness:
  "fst (serve (\<lambda>_. 7) id (new_limiter True 1 60) [(''a'', 0), (''b'', 5), (''a'', 9), (''a'', 60001)]) =
     [True, True, False, True]"
proof -
  have "fst (serve (\<lambda>_. 7) id (new_limiter True 1 60) [(''a'', 0), (''b'', 5), (''a'', 9), (''a'', 60001)]) =
     quota 1 (60 * 1000) [] [(''a'', 0), (''b'', 5), (''a'', 9), (''a'', 60001)]"
    by (rule serve_enforces_quota)
      (simp_all add: any_order_def MAX_KEYS_PER_SHARD_def MAX_KEYS_def SHARDS_def card_insert_if)
  then show ?thesis by (simp add: earlier_def)
qed

text \<open>A client that was refused is let through again in the next window.\<close>

theorem refused_then_admitted:
  assumes "\<not> fst (allow hash shuffle rl key t)" and "shard_of hash key < length (rl_buckets rl)"
    and "t' div rl_window_ms rl \<noteq> t div rl_window_ms rl"
  shows "fst (allow hash shuffle (snd (allow hash shuffle rl key t)) key t')"
  using assms by (auto simp: allow_def allow_shard_def Let_def split_beta split: option.splits if_splits)

theorem refused_then_admitted_witness:
  "\<not> fst (allow (\<lambda>_. 0) id ((new_limiter True 1 60)\<lparr>rl_buckets := [[(''a'', 0, 1)]]\<rparr>) ''a'' 5) \<and>
   fst (allow (\<lambda>_. 0) id (snd (allow (\<lambda>_. 0) id ((new_limiter True 1 60)\<lparr>rl_buckets := [[(''a'', 0, 1)]]\<rparr>) ''a'' 5))
     ''a'' 60000)"
proof
  show d: "\<not> fst (allow (\<lambda>_. 0) id ((new_limiter True 1 60)\<lparr>rl_buckets := [[(''a'', 0, 1)]]\<rparr>) ''a'' 5)"
    by (simp add: allow_def allow_shard_def new_limiter_def shard_of_def)
  show "fst (allow (\<lambda>_. 0) id (snd (allow (\<lambda>_. 0) id ((new_limiter True 1 60)\<lparr>rl_buckets := [[(''a'', 0, 1)]]\<rparr>) ''a'' 5))
     ''a'' 60000)"
    by (rule refused_then_admitted [OF d]) (simp_all add: new_limiter_def shard_of_def)
qed

end
