(* ===== verification/Text.thy ===== *)
theory Text
  imports Utf8
begin

text \<open>
  The string operations of the standard library that the capability and query code uses:
  \<open>strip_prefix\<close>, \<open>split\<close> on a character, \<open>join\<close>, \<open>lines\<close>, \<open>trim\<close> and the decimal text of an
  integer.  A string is its sequence of UTF-8 bytes.
\<close>

section \<open>Definitions\<close>

definition strip_prefix :: "string \<Rightarrow> string \<Rightarrow> string option" where
  "strip_prefix p s = (if prefix p s then Some (drop (length p) s) else None)"

fun split_on :: "char \<Rightarrow> string \<Rightarrow> string list" where
  "split_on c [] = [[]]"
| "split_on c (x # xs) =
     (if x = c then [] # split_on c xs
      else case split_on c xs of [] \<Rightarrow> [[x]] | y # ys \<Rightarrow> (x # y) # ys)"

fun join :: "string \<Rightarrow> string list \<Rightarrow> string" where
  "join sep [] = []"
| "join sep [x] = x"
| "join sep (x # y # ys) = x @ sep @ join sep (y # ys)"

definition newline :: char where
  "newline = CHR 0x0A"

definition strip_cr :: "string \<Rightarrow> string" where
  "strip_cr s = (if s \<noteq> [] \<and> List.last s = CHR 0x0D then butlast s else s)"

text \<open>\<open>str::lines\<close>: a carriage return is dropped only before a newline, and a final empty line
  is no line.\<close>

definition lines :: "string \<Rightarrow> string list" where
  "lines s =
     (let ps = split_on newline s
      in map strip_cr (butlast ps) @ (if List.last ps = [] then [] else [List.last ps]))"

text \<open>The UTF-8 encodings of the characters with the property \<open>White_Space\<close>.\<close>

definition white_space :: "bytes list" where
  "white_space =
     [[0x09], [0x0A], [0x0B], [0x0C], [0x0D], [0x20], [0xC2, 0x85], [0xC2, 0xA0], [0xE1, 0x9A, 0x80],
      [0xE2, 0x80, 0x80], [0xE2, 0x80, 0x81], [0xE2, 0x80, 0x82], [0xE2, 0x80, 0x83], [0xE2, 0x80, 0x84],
      [0xE2, 0x80, 0x85], [0xE2, 0x80, 0x86], [0xE2, 0x80, 0x87], [0xE2, 0x80, 0x88], [0xE2, 0x80, 0x89],
      [0xE2, 0x80, 0x8A], [0xE2, 0x80, 0xA8], [0xE2, 0x80, 0xA9], [0xE2, 0x80, 0xAF], [0xE2, 0x81, 0x9F],
      [0xE3, 0x80, 0x80]]"

text \<open>The rest of a string after a white-space character at its head; the same at its end.\<close>

definition ws_front :: "bytes list \<Rightarrow> string \<Rightarrow> string option" where
  "ws_front ws s =
     (case filter (\<lambda>w. w \<noteq> [] \<and> prefix w (str_bytes s)) ws of
        [] \<Rightarrow> None
      | w # _ \<Rightarrow> Some (drop (length w) s))"

function strip_front :: "bytes list \<Rightarrow> string \<Rightarrow> string" where
  "strip_front ws s = (case ws_front ws s of None \<Rightarrow> s | Some s' \<Rightarrow> strip_front ws s')"
  by pat_completeness auto
termination
proof (relation "measure (\<lambda>(ws, s). length s)", goal_cases)
  case 1
  then show ?case by simp
next
  case (2 ws s s')
  then obtain w ws' where "filter (\<lambda>w. w \<noteq> [] \<and> prefix w (str_bytes s)) ws = w # ws'" and s': "s' = drop (length w) s"
    by (auto simp: ws_front_def split: list.splits)
  then have "w \<noteq> []" "prefix w (str_bytes s)" by (metis (mono_tags, lifting) filter_eq_ConsD)+
  then have "0 < length w" "length w \<le> length s" by (auto dest: prefix_length_le)
  then have "length (drop (length w) s) < length s" unfolding length_drop by linarith
  then show ?case by (simp only: s' in_measure prod.case)
qed

declare strip_front.simps [simp del]

definition trim :: "string \<Rightarrow> string" where
  "trim s = rev (strip_front (map rev white_space) (rev (strip_front white_space s)))"

text \<open>The decimal digits of a number.\<close>

fun dec_str :: "nat \<Rightarrow> string" where
  "dec_str n = (if n < 10 then [char_of (48 + n)] else dec_str (n div 10) @ [char_of (48 + n mod 10)])"

declare dec_str.simps [simp del]

section \<open>Splitting and joining\<close>

lemma split_on_not_Nil [simp]: "split_on c s \<noteq> []"
  by (cases s) (auto split: list.splits)

lemma join_split: "join [c] (split_on c s) = s"
proof (induction s)
  case Nil
  then show ?case by simp
next
  case (Cons x s)
  obtain y ys where s: "split_on c s = y # ys" by (cases "split_on c s") simp_all
  show ?case using Cons by (cases ys) (auto simp: s)
qed

lemma split_on_free: "c \<notin> set x \<Longrightarrow> split_on c x = [x]"
  by (induction x) auto

lemma split_on_cons: "c \<notin> set x \<Longrightarrow> split_on c (x @ c # s) = x # split_on c s"
  by (induction x) auto

lemma strip_prefix_append [simp]: "strip_prefix p (p @ s) = Some s"
  by (simp add: strip_prefix_def)

lemma strip_prefix_Some: "strip_prefix p s = Some r \<longleftrightarrow> s = p @ r"
  by (auto simp: strip_prefix_def prefix_def)

end
