(* ===== verification/Caps.thy ===== *)
theory Caps
  imports Text Base64 Replication Names
begin

text \<open>
  Identities and capabilities (\<open>src/core/ident.rs\<close>, \<open>src/caps.rs\<close>): public keys, permission sets,
  scopes and their URL form, revocations, the root keyring, signing and verification of a
  capability, and its header form.  The signature scheme (\<open>ed25519_dalek\<close>) and the JSON
  text of serialised structures (\<open>serde_json\<close>) are parameters.
\<close>

section \<open>Definitions\<close>

subsection \<open>Keys\<close>

type_synonym public_key = bytes
type_synonym keypair = bytes

record sign_view =
  sv_scope :: string
  sv_perms :: "string list"
  sv_expiry_ms :: "u64 option"
  sv_nonce :: u64
  sv_issuer :: string
  sv_subject :: string

record cap_wire = sign_view +
  cw_sig :: string

text \<open>Keys and signatures, the JSON bytes of a \<open>SignView\<close>, the JSON text of a string, of a list of
  strings and of an optional number, and the parser of the wire structure.\<close>

record cap_ext =
  ed_public :: "keypair \<Rightarrow> public_key"
  ed_sign :: "keypair \<Rightarrow> bytes \<Rightarrow> bytes"
  ed_verify :: "public_key \<Rightarrow> bytes \<Rightarrow> bytes \<Rightarrow> bool"
  view_json :: "sign_view \<Rightarrow> bytes"
  json_string :: "string \<Rightarrow> string"
  json_strings :: "string list \<Rightarrow> string"
  json_opt :: "u64 option \<Rightarrow> string"
  wire_of :: "string \<Rightarrow> cap_wire option"

definition pk_str :: "extern \<Rightarrow> public_key \<Rightarrow> string" where
  "pk_str ext pk = hex_enc ext pk"

definition parse_pk :: "extern \<Rightarrow> string \<Rightarrow> (string, public_key) result" where
  "parse_pk ext s =
     (case hex_dec ext s of
        None \<Rightarrow> Err ''invalid hex''
      | Some b \<Rightarrow> if length b \<noteq> 32 then Err ''expected 32 bytes'' else Ok b)"

subsection \<open>Tiers, permissions, scopes\<close>

datatype tier = L1 | L2 | L3

definition tier_str :: "tier \<Rightarrow> string" where
  "tier_str t = (case t of L1 \<Rightarrow> ''l1'' | L2 \<Rightarrow> ''l2'' | L3 \<Rightarrow> ''l3'')"

definition tier_parse :: "string \<Rightarrow> tier option" where
  "tier_parse s = (if s = ''l1'' then Some L1 else if s = ''l2'' then Some L2 else if s = ''l3'' then Some L3 else None)"

type_synonym perm_set = byte

definition READ :: perm_set where
  "READ = 1"

definition WRITE :: perm_set where
  "WRITE = 2"

definition ADMIN :: perm_set where
  "ADMIN = 4"

definition perm_contains :: "perm_set \<Rightarrow> perm_set \<Rightarrow> bool" where
  "perm_contains p q = (p AND q = q)"

definition perm_union :: "perm_set \<Rightarrow> perm_set \<Rightarrow> perm_set" where
  "perm_union p q = (p OR q)"

definition perm_names :: "perm_set \<Rightarrow> string list" where
  "perm_names p =
     (if perm_contains p READ then [''read''] else []) @
     (if perm_contains p WRITE then [''write''] else []) @
     (if perm_contains p ADMIN then [''admin''] else [])"

fun parse_list_from :: "perm_set \<Rightarrow> string list \<Rightarrow> (string, perm_set) result" where
  "parse_list_from p [] = Ok p"
| "parse_list_from p (s # ss) =
     (if s = ''read'' then parse_list_from (p OR READ) ss
      else if s = ''write'' then parse_list_from (p OR WRITE) ss
      else if s = ''admin'' then parse_list_from (p OR ADMIN) ss
      else Err (''unknown perm '' @ s))"

definition perm_parse_list :: "string list \<Rightarrow> (string, perm_set) result" where
  "perm_parse_list ss = parse_list_from 0 ss"

record scope =
  sc_host :: string
  sc_tier :: tier
  sc_ns :: string
  sc_prefix :: "string option"

definition to_url :: "scope \<Rightarrow> string" where
  "to_url s =
     ''bmdb://'' @ sc_host s @ ''/'' @ tier_str (sc_tier s) @ ''/'' @ sc_ns s @
     (case sc_prefix s of None \<Rightarrow> [] | Some p \<Rightarrow> ''/'' @ p)"

datatype scope_error = NoScheme | MissingTier | EmptyHost | BadTier string | MissingOwner | MissingNs | EmptyNs

text \<open>The namespace and the prefix of the segments after host and tier.\<close>

definition parse_ns_segs :: "string list \<Rightarrow> (scope_error, string \<times> string option) result" where
  "parse_ns_segs segs =
     (if length segs > 2 \<and> segs ! 2 = ''u'' then
        if length segs > 3 then
          Ok (''u/'' @ segs ! 3, if length segs > 4 then Some (join ''/'' (drop 4 segs)) else None)
        else Err MissingOwner
      else if length segs > 2 then
        Ok (segs ! 2, if length segs > 3 then Some (join ''/'' (drop 3 segs)) else None)
      else Err MissingNs)"

definition scope_parse :: "string \<Rightarrow> (scope_error, scope) result" where
  "scope_parse url =
     (case strip_prefix ''bmdb://'' url of
        None \<Rightarrow> Err NoScheme
      | Some rest \<Rightarrow>
          let segs = split_on (CHR ''/'') rest;
              host = segs ! 0
          in if length segs < 2 then Err MissingTier
             else if host = [] then Err EmptyHost
             else case tier_parse (segs ! 1) of
                    None \<Rightarrow> Err (BadTier (segs ! 1))
                  | Some t \<Rightarrow>
                      (case parse_ns_segs segs of
                         Inl e \<Rightarrow> Err e
                       | Inr (ns, pre) \<Rightarrow>
                           if ns = [] then Err EmptyNs
                           else Ok \<lparr>sc_host = host, sc_tier = t, sc_ns = ns, sc_prefix = pre\<rparr>))"

definition covers :: "scope \<Rightarrow> scope \<Rightarrow> bool" where
  "covers s r =
     (sc_host s = sc_host r \<and> sc_tier s = sc_tier r \<and> sc_ns s = sc_ns r \<and>
      (case (sc_prefix s, sc_prefix r) of
         (Some a, Some b) \<Rightarrow> b = a \<or> prefix (a @ ''/'') b
       | (Some _, None) \<Rightarrow> False
       | (None, _) \<Rightarrow> True))"

subsection \<open>Revocations and the root keyring\<close>

record revocation_set =
  by_principal :: "(string \<times> string) set"
  by_nonce :: "u64 set"

definition new_revocations :: revocation_set where
  "new_revocations = \<lparr>by_principal = {}, by_nonce = {}\<rparr>"

definition revoke_principal :: "scope \<Rightarrow> string \<Rightarrow> revocation_set \<Rightarrow> revocation_set" where
  "revoke_principal s who r = r\<lparr>by_principal := insert (to_url s, who) (by_principal r)\<rparr>"

definition revoke_nonce :: "u64 \<Rightarrow> revocation_set \<Rightarrow> revocation_set" where
  "revoke_nonce n r = r\<lparr>by_nonce := insert n (by_nonce r)\<rparr>"

definition is_revoked :: "revocation_set \<Rightarrow> scope \<Rightarrow> string \<Rightarrow> u64 \<Rightarrow> bool" where
  "is_revoked r s who n = ((to_url s, who) \<in> by_principal r \<or> n \<in> by_nonce r)"

record root_keyring =
  kr_active :: public_key
  kr_retired :: "public_key list"

definition keyring_current :: "public_key \<Rightarrow> root_keyring" where
  "keyring_current pk = \<lparr>kr_active = pk, kr_retired = []\<rparr>"

definition key_for_issuer :: "root_keyring \<Rightarrow> public_key \<Rightarrow> public_key option" where
  "key_for_issuer kr issuer =
     (if issuer = kr_active kr then Some (kr_active kr) else List.find (\<lambda>k. k = issuer) (kr_retired kr))"

definition accepts_issuer :: "root_keyring \<Rightarrow> public_key \<Rightarrow> bool" where
  "accepts_issuer kr issuer = (key_for_issuer kr issuer \<noteq> None)"

definition to_chain_bytes :: "extern \<Rightarrow> root_keyring \<Rightarrow> bytes" where
  "to_chain_bytes ext kr = concat (map (\<lambda>k. str_bytes (pk_str ext k @ [newline])) (kr_retired kr))"

definition parse_chain :: "extern \<Rightarrow> bytes \<Rightarrow> public_key list" where
  "parse_chain ext bs =
     concat (map (\<lambda>l. let line = trim l in
                if line = [] then []
                else case parse_pk ext line of Inl _ \<Rightarrow> [] | Inr k \<Rightarrow> [k])
       (lines (bytes_str (from_utf8_lossy bs))))"

subsection \<open>Capabilities\<close>

record capability =
  c_scope :: scope
  c_perms :: perm_set
  c_expiry_ms :: "u64 option"
  c_nonce :: u64
  c_issuer :: public_key
  c_subject :: public_key
  c_sig :: bytes

datatype cap_error = BadIssuer | BadSig | Expired | Revoked | Malformed

definition view_of :: "extern \<Rightarrow> scope \<Rightarrow> perm_set \<Rightarrow> u64 option \<Rightarrow> u64 \<Rightarrow> public_key \<Rightarrow> public_key \<Rightarrow> sign_view" where
  "view_of ext s perms expiry nonce issuer subject =
     \<lparr>sv_scope = to_url s, sv_perms = perm_names perms, sv_expiry_ms = expiry, sv_nonce = nonce,
      sv_issuer = pk_str ext issuer, sv_subject = pk_str ext subject\<rparr>"

definition sign_for ::
  "extern \<Rightarrow> cap_ext \<Rightarrow> scope \<Rightarrow> perm_set \<Rightarrow> u64 option \<Rightarrow> u64 \<Rightarrow> public_key \<Rightarrow> keypair \<Rightarrow> capability" where
  "sign_for ext cx s perms expiry nonce subject kp =
     (let canonical = view_json cx (view_of ext s perms expiry nonce (ed_public cx kp) subject)
      in \<lparr>c_scope = s, c_perms = perms, c_expiry_ms = expiry, c_nonce = nonce, c_issuer = ed_public cx kp,
          c_subject = subject, c_sig = ed_sign cx kp canonical\<rparr>)"

definition cap_sign ::
  "extern \<Rightarrow> cap_ext \<Rightarrow> scope \<Rightarrow> perm_set \<Rightarrow> u64 option \<Rightarrow> u64 \<Rightarrow> keypair \<Rightarrow> capability" where
  "cap_sign ext cx s perms expiry nonce kp =
     (let subject = ed_public cx kp;
          canonical = view_json cx (view_of ext s perms expiry nonce subject subject)
      in \<lparr>c_scope = s, c_perms = perms, c_expiry_ms = expiry, c_nonce = nonce, c_issuer = subject,
          c_subject = subject, c_sig = ed_sign cx kp canonical\<rparr>)"

definition canonical_bytes :: "extern \<Rightarrow> cap_ext \<Rightarrow> capability \<Rightarrow> bytes" where
  "canonical_bytes ext cx c =
     view_json cx (view_of ext (c_scope c) (c_perms c) (c_expiry_ms c) (c_nonce c) (c_issuer c) (c_subject c))"

definition digest_hex :: "extern \<Rightarrow> cap_ext \<Rightarrow> capability \<Rightarrow> string" where
  "digest_hex ext cx c = hex_enc ext (sha256 ext (canonical_bytes ext cx c @ c_sig c))"

definition expired :: "capability \<Rightarrow> u64 \<Rightarrow> bool" where
  "expired c now_ms = (case c_expiry_ms c of None \<Rightarrow> False | Some e \<Rightarrow> e \<le> now_ms)"

definition verify ::
  "extern \<Rightarrow> cap_ext \<Rightarrow> root_keyring \<Rightarrow> public_key \<Rightarrow> revocation_set \<Rightarrow> u64 \<Rightarrow> capability \<Rightarrow> (cap_error, unit) result" where
  "verify ext cx kr who rv now_ms c =
     (case key_for_issuer kr (c_issuer c) of
        None \<Rightarrow> Err BadIssuer
      | Some issuer \<Rightarrow>
          if \<not> ed_verify cx issuer (canonical_bytes ext cx c) (c_sig c) then Err BadSig
          else if c_subject c \<noteq> who then Err Malformed
          else if expired c now_ms then Err Expired
          else if is_revoked rv (c_scope c) (pk_str ext who) (c_nonce c) then Err Revoked
          else Ok ())"

definition verify_or_cached ::
  "extern \<Rightarrow> cap_ext \<Rightarrow> root_keyring \<Rightarrow> public_key \<Rightarrow> revocation_set \<Rightarrow> u64 \<Rightarrow> bool \<Rightarrow> capability
     \<Rightarrow> (cap_error, unit) result" where
  "verify_or_cached ext cx kr who rv now_ms cached_ok c =
     (if \<not> accepts_issuer kr (c_issuer c) then Err BadIssuer
      else if c_subject c \<noteq> who then Err Malformed
      else if expired c now_ms then Err Expired
      else if cached_ok then Ok ()
      else case key_for_issuer kr (c_issuer c) of
             None \<Rightarrow> Err BadIssuer
           | Some issuer \<Rightarrow>
               if \<not> ed_verify cx issuer (canonical_bytes ext cx c) (c_sig c) then Err BadSig
               else if is_revoked rv (c_scope c) (pk_str ext who) (c_nonce c) then Err Revoked
               else Ok ())"

definition json_key :: "string \<Rightarrow> string" where
  "json_key k = [CHR 0x22] @ k @ [CHR 0x22, CHR '':'']"

definition to_json :: "extern \<Rightarrow> cap_ext \<Rightarrow> capability \<Rightarrow> string" where
  "to_json ext cx c =
     ''{'' @ json_key ''scope'' @ json_string cx (to_url (c_scope c)) @ '','' @
     json_key ''perms'' @ json_strings cx (perm_names (c_perms c)) @ '','' @
     json_key ''expiry_ms'' @ json_opt cx (c_expiry_ms c) @ '','' @
     json_key ''nonce'' @ dec_str (unat (c_nonce c)) @ '','' @
     json_key ''issuer'' @ json_string cx (pk_str ext (c_issuer c)) @ '','' @
     json_key ''subject'' @ json_string cx (pk_str ext (c_subject c)) @ '','' @
     json_key ''sig'' @ json_string cx (b64url_encode (c_sig c)) @ ''}''"

definition to_header :: "extern \<Rightarrow> cap_ext \<Rightarrow> capability \<Rightarrow> string" where
  "to_header ext cx c = ''bmdb-cap:'' @ b64url_encode (str_bytes (to_json ext cx c))"

datatype parse_error =
    BadCapJson | BadScope scope_error | BadPerms string | BadIssuerText string | BadSubjectText string
  | BadSigText string | BadSigLength nat | NoBearer | NoCapToken | BadBase64 string | NotUtf8

definition from_json :: "extern \<Rightarrow> cap_ext \<Rightarrow> string \<Rightarrow> (parse_error, capability) result" where
  "from_json ext cx s =
     (case wire_of cx s of
        None \<Rightarrow> Err BadCapJson
      | Some w \<Rightarrow>
     (case scope_parse (sv_scope w) of
        Inl e \<Rightarrow> Err (BadScope e)
      | Inr sc \<Rightarrow>
     (case perm_parse_list (sv_perms w) of
        Inl e \<Rightarrow> Err (BadPerms e)
      | Inr perms \<Rightarrow>
     (case parse_pk ext (sv_issuer w) of
        Inl e \<Rightarrow> Err (BadIssuerText e)
      | Inr issuer \<Rightarrow>
     (case parse_pk ext (sv_subject w) of
        Inl e \<Rightarrow> Err (BadSubjectText e)
      | Inr subject \<Rightarrow>
     (case b64url_decode (cw_sig w) of
        Inl e \<Rightarrow> Err (BadSigText e)
      | Inr sig \<Rightarrow>
          if length sig \<noteq> 64 then Err (BadSigLength (length sig))
          else Ok \<lparr>c_scope = sc, c_perms = perms, c_expiry_ms = sv_expiry_ms w, c_nonce = sv_nonce w,
                   c_issuer = issuer, c_subject = subject, c_sig = sig\<rparr>))))))"

definition parse_cap_header :: "extern \<Rightarrow> cap_ext \<Rightarrow> string \<Rightarrow> (parse_error, capability) result" where
  "parse_cap_header ext cx h =
     (case strip_prefix ''Bearer '' h of
        None \<Rightarrow> Err NoBearer
      | Some rest \<Rightarrow>
     (case strip_prefix ''bmdb-cap:'' rest of
        None \<Rightarrow> Err NoCapToken
      | Some b64 \<Rightarrow>
     (case b64url_decode b64 of
        Inl e \<Rightarrow> Err (BadBase64 e)
      | Inr bs \<Rightarrow> if utf8_ok bs then from_json ext cx (bytes_str bs) else Err NotUtf8)))"

text \<open>The parse cache of tokens; \<open>lockable\<close> tells whether the lock of a shard was free.\<close>

type_synonym token_cache = "nat \<Rightarrow> (bytes \<rightharpoonup> capability)"

definition token_cache_new :: token_cache where
  "token_cache_new = (\<lambda>_. Map.empty)"

definition token_cache_get :: "bool \<Rightarrow> token_cache \<Rightarrow> bytes \<Rightarrow> capability option" where
  "token_cache_get lockable tc digest = (if lockable then tc (unat (digest ! 0) mod 256) digest else None)"

definition token_cache_put :: "token_cache \<Rightarrow> bytes \<Rightarrow> capability \<Rightarrow> token_cache" where
  "token_cache_put tc digest c =
     (let sh = unat (digest ! 0) mod 256;
          m = (if 4096 \<le> card (dom (tc sh)) then Map.empty else tc sh)
      in tc(sh := m(digest \<mapsto> c)))"

definition token_digest :: "extern \<Rightarrow> string \<Rightarrow> bytes" where
  "token_digest ext token = sha256 ext (str_bytes token)"

text \<open>The type invariants of the fields, and scopes as \<open>scope_parse\<close> produces them.\<close>

definition scope_wf :: "scope \<Rightarrow> bool" where
  "scope_wf s \<longleftrightarrow>
     sc_host s \<noteq> [] \<and> CHR ''/'' \<notin> set (sc_host s) \<and>
     (sc_ns s \<noteq> [] \<and> sc_ns s \<noteq> ''u'' \<and> CHR ''/'' \<notin> set (sc_ns s) \<or>
      (\<exists>pk. sc_ns s = ''u/'' @ pk \<and> CHR ''/'' \<notin> set pk))"

definition cap_wf :: "capability \<Rightarrow> bool" where
  "cap_wf c \<longleftrightarrow>
     scope_wf (c_scope c) \<and> c_perms c < 8 \<and> length (c_issuer c) = 32 \<and> length (c_subject c) = 32 \<and>
     length (c_sig c) = 64"

definition wire_view :: "extern \<Rightarrow> capability \<Rightarrow> cap_wire" where
  "wire_view ext c =
     \<lparr>sv_scope = to_url (c_scope c), sv_perms = perm_names (c_perms c), sv_expiry_ms = c_expiry_ms c,
      sv_nonce = c_nonce c, sv_issuer = pk_str ext (c_issuer c), sv_subject = pk_str ext (c_subject c),
      cw_sig = b64url_encode (c_sig c)\<rparr>"

text \<open>Relied on: \<open>ed25519_dalek\<close> verifies what it signs and has keys of 32 and signatures of 64
  bytes; \<open>serde_json\<close> reads back the object that \<open>to_json\<close> writes, and writes valid UTF-8.\<close>

definition ed_ok :: "cap_ext \<Rightarrow> bool" where
  "ed_ok cx \<longleftrightarrow>
     (\<forall>kp m. length (ed_public cx kp) = 32 \<and> length (ed_sign cx kp m) = 64 \<and>
        ed_verify cx (ed_public cx kp) m (ed_sign cx kp m))"

definition serde_ok :: "extern \<Rightarrow> cap_ext \<Rightarrow> capability \<Rightarrow> bool" where
  "serde_ok ext cx c \<longleftrightarrow>
     wire_of cx (to_json ext cx c) = Some (wire_view ext c) \<and> utf8_ok (str_bytes (to_json ext cx c))"

text \<open>A capability that passes: issuer, signature, subject, expiry and revocation.\<close>

definition cap_valid ::
  "extern \<Rightarrow> cap_ext \<Rightarrow> root_keyring \<Rightarrow> public_key \<Rightarrow> revocation_set \<Rightarrow> u64 \<Rightarrow> capability \<Rightarrow> bool" where
  "cap_valid ext cx kr who rv now_ms c \<longleftrightarrow>
     c_issuer c \<in> insert (kr_active kr) (set (kr_retired kr)) \<and>
     ed_verify cx (c_issuer c) (canonical_bytes ext cx c) (c_sig c) \<and>
     c_subject c = who \<and> \<not> expired c now_ms \<and> \<not> is_revoked rv (c_scope c) (pk_str ext who) (c_nonce c)"

text \<open>A capability and a choice of the parameters on which the hypotheses hold.\<close>

definition demo_cap :: capability where
  "demo_cap =
     \<lparr>c_scope = \<lparr>sc_host = ''h'', sc_tier = L2, sc_ns = ''n'', sc_prefix = None\<rparr>, c_perms = READ, c_expiry_ms = None,
      c_nonce = 7, c_issuer = zero32, c_subject = zero32, c_sig = replicate 64 0\<rparr>"

definition demo_cx :: cap_ext where
  "demo_cx =
     \<lparr>ed_public = (\<lambda>_. zero32), ed_sign = (\<lambda>_ _. replicate 64 0), ed_verify = (\<lambda>_ _ _. True),
      view_json = (\<lambda>v. str_bytes (sv_scope v)), json_string = (\<lambda>_. []), json_strings = (\<lambda>_. []),
      json_opt = (\<lambda>_. []), wire_of = (\<lambda>_. Some (wire_view demo_ext demo_cap))\<rparr>"

section \<open>Scopes\<close>

lemma tier_parse_str [simp]: "tier_parse (tier_str t) = Some t"
  by (cases t) (simp_all add: tier_parse_def tier_str_def)

lemma tier_str_free: "CHR ''/'' \<notin> set (tier_str t)"
  by (cases t) (simp_all add: tier_str_def)

lemma parse_ns_segs_url:
  assumes "scope_wf s"
  shows "parse_ns_segs (h # t # split_on (CHR ''/'') (sc_ns s @ (case sc_prefix s of None \<Rightarrow> [] | Some p \<Rightarrow> ''/'' @ p))) =
    Inr (sc_ns s, sc_prefix s)"
proof -
  consider "sc_ns s \<noteq> ''u''" "CHR ''/'' \<notin> set (sc_ns s)" | pk where "sc_ns s = ''u/'' @ pk" "CHR ''/'' \<notin> set pk"
    using assms by (auto simp: scope_wf_def)
  then show ?thesis
  proof cases
    case 1
    then show ?thesis
      by (cases "sc_prefix s") (simp_all add: parse_ns_segs_def split_on_free split_on_cons join_split Suc_le_eq)
  next
    case 2
    then show ?thesis
      by (cases "sc_prefix s")
        (simp_all add: parse_ns_segs_def split_on_free split_on_cons join_split Suc_le_eq numeral_eq_Suc)
  qed
qed

lemma scope_parse_to_url: "scope_wf s \<Longrightarrow> scope_parse (to_url s) = Inr s"
proof -
  assume wf: "scope_wf s"
  let ?tl = "sc_ns s @ (case sc_prefix s of None \<Rightarrow> [] | Some p \<Rightarrow> ''/'' @ p)"
  have h: "sc_host s \<noteq> []" "CHR ''/'' \<notin> set (sc_host s)" "sc_ns s \<noteq> []" using wf by (auto simp: scope_wf_def)
  have "strip_prefix ''bmdb://'' (to_url s) = Some (sc_host s @ ''/'' @ tier_str (sc_tier s) @ ''/'' @ ?tl)"
    unfolding to_url_def by (rule strip_prefix_append)
  moreover have "split_on (CHR ''/'') (sc_host s @ ''/'' @ tier_str (sc_tier s) @ ''/'' @ ?tl) =
      sc_host s # tier_str (sc_tier s) # split_on (CHR ''/'') ?tl"
    using h tier_str_free by (simp add: split_on_cons)
  ultimately show ?thesis
    unfolding scope_parse_def Let_def using parse_ns_segs_url [OF wf] h by (simp add: Suc_le_eq)
qed

lemma covers_refl: "covers s s"
  by (auto simp: covers_def split: option.splits)

lemma covers_trans: "covers a b \<Longrightarrow> covers b c \<Longrightarrow> covers a c"
  by (auto simp: covers_def prefix_def split: option.splits)

section \<open>The text of a capability\<close>

lemma perm_roundtrip:
  assumes "p < 8"
  shows "perm_parse_list (perm_names p) = Inr p"
proof -
  define n where "n = unat p"
  have "n < 8" using assms by (simp add: n_def word_less_nat_alt)
  then have "n = 0 \<or> n = 1 \<or> n = 2 \<or> n = 3 \<or> n = 4 \<or> n = 5 \<or> n = 6 \<or> n = 7" by arith
  moreover have "p = of_nat n" by (simp add: n_def)
  ultimately show ?thesis
    by (elim disjE) (simp_all add: perm_names_def perm_contains_def perm_parse_list_def READ_def WRITE_def ADMIN_def)
qed

lemma parse_pk_str: "hex_ok ext \<Longrightarrow> length pk = 32 \<Longrightarrow> parse_pk ext (pk_str ext pk) = Inr pk"
  by (simp add: parse_pk_def pk_str_def hex_ok_def)

lemma b64url_decode_encode: "b64url_decode (b64url_encode bs) = Inr bs"
  using decode_encode [OF alphabet_B64(2), of 0 bs] by (simp add: b64url_decode_def b64url_encode_def)

lemma from_json_to_json:
  assumes "hex_ok ext" "cap_wf c" "serde_ok ext cx c"
  shows "from_json ext cx (to_json ext cx c) = Inr c"
  using assms unfolding from_json_def serde_ok_def cap_wf_def
  by (simp add: wire_view_def scope_parse_to_url perm_roundtrip parse_pk_str b64url_decode_encode)

lemma parse_cap_header_roundtrip:
  assumes "hex_ok ext" "cap_wf c" "serde_ok ext cx c"
  shows "parse_cap_header ext cx (''Bearer '' @ to_header ext cx c) = Inr c"
  using from_json_to_json [OF assms] assms(3)
  unfolding parse_cap_header_def to_header_def strip_prefix_append option.case b64url_decode_encode sum.case
  by (simp add: serde_ok_def)

section \<open>Verification\<close>

lemma find_eq: "List.find (\<lambda>k. k = i) xs = (if i \<in> set xs then Some i else None)"
  by (induction xs) auto

lemma key_for_issuer_eq:
  "key_for_issuer kr i = (if i \<in> insert (kr_active kr) (set (kr_retired kr)) then Some i else None)"
  by (auto simp: key_for_issuer_def find_eq)

lemma verify_valid: "is_ok (verify ext cx kr who rv now_ms c) \<longleftrightarrow> cap_valid ext cx kr who rv now_ms c"
  by (simp add: verify_def cap_valid_def key_for_issuer_eq)

lemma verify_or_cached_valid:
  "is_ok (verify_or_cached ext cx kr who rv now_ms False c) \<longleftrightarrow> cap_valid ext cx kr who rv now_ms c"
  by (auto simp: verify_or_cached_def cap_valid_def key_for_issuer_eq accepts_issuer_def)

lemma verify_or_cached_hit:
  "is_ok (verify_or_cached ext cx kr who rv now_ms True c) \<longleftrightarrow>
   c_issuer c \<in> insert (kr_active kr) (set (kr_retired kr)) \<and> c_subject c = who \<and> \<not> expired c now_ms"
  by (auto simp: verify_or_cached_def key_for_issuer_eq accepts_issuer_def)

lemma sign_for_fields [simp]:
  "c_scope (sign_for ext cx s perms expiry nonce subject kp) = s"
  "c_issuer (sign_for ext cx s perms expiry nonce subject kp) = ed_public cx kp"
  "c_subject (sign_for ext cx s perms expiry nonce subject kp) = subject"
  by (simp_all add: sign_for_def Let_def)

lemma sign_for_wf:
  "ed_ok cx \<Longrightarrow> scope_wf s \<Longrightarrow> perms < 8 \<Longrightarrow> length subject = 32 \<Longrightarrow>
   cap_wf (sign_for ext cx s perms expiry nonce subject kp)"
  by (simp add: sign_for_def cap_wf_def ed_ok_def Let_def)

lemma sign_for_sig:
  "ed_ok cx \<Longrightarrow> ed_verify cx (ed_public cx kp) (canonical_bytes ext cx (sign_for ext cx s perms expiry nonce subject kp))
     (c_sig (sign_for ext cx s perms expiry nonce subject kp))"
  by (simp add: sign_for_def canonical_bytes_def ed_ok_def Let_def)

section \<open>Properties\<close>


lemma demo_cx_ok:
  "ed_ok demo_cx" "sign_for demo_ext demo_cx (c_scope demo_cap) READ None 7 zero32 [] = demo_cap"
  by (simp_all add: ed_ok_def demo_cx_def demo_cap_def sign_for_def)

lemma demo_serde_ok: "serde_ok demo_ext demo_cx demo_cap"
proof -
  have "utf8_ok (str_bytes (to_json demo_ext demo_cx demo_cap))"
    by (rule utf8_ok_ascii)
      (simp add: to_json_def json_key_def demo_cx_def demo_cap_def dec_str.simps str_bytes_def)
  then show ?thesis by (simp add: serde_ok_def demo_cx_def)
qed


end
