(* ===== verification/NsAuth.thy ===== *)
theory NsAuth
  imports Caps StoreOps
begin

text \<open>
  Authorization and quotas (\<open>src/ns.rs\<close>).  The verification cache is a map per shard with its
  tick and epoch counters; \<open>lock\<close> tells for which shards \<open>try_lock\<close> succeeds during a call.
  The state machine at the end composes \<open>authorize_cached\<close> with the revocation endpoint of the
  server, which adds the revocation and increments the epoch under one lock.
\<close>

section \<open>Definitions\<close>

datatype auth_error = Unauthorized string | Forbidden string | QuotaExceeded namespace u64

record cap_cache =
  cc_ticks :: "nat \<Rightarrow> u64"
  cc_shards :: "nat \<Rightarrow> (string \<rightharpoonup> u64)"
  cc_epochs :: "nat \<Rightarrow> u64"

definition cap_cache_new :: cap_cache where
  "cap_cache_new = \<lparr>cc_ticks = (\<lambda>_. 0), cc_shards = (\<lambda>_. Map.empty), cc_epochs = (\<lambda>_. 0)\<rparr>"

definition cache_shard :: "string \<Rightarrow> nat" where
  "cache_shard k = unat (str_bytes k ! 0) mod 256"

definition epoch_ok :: "(nat \<Rightarrow> bool) \<Rightarrow> cap_cache option \<Rightarrow> string \<Rightarrow> u64 \<Rightarrow> bool" where
  "epoch_ok lock cache k epoch =
     (case cache of
        None \<Rightarrow> False
      | Some c \<Rightarrow>
          let sh = cache_shard k
          in if cc_ticks c sh \<noteq> cc_epochs c sh then False
             else if lock sh then cc_shards c sh k = Some epoch else False)"

definition mark_verified :: "cap_cache option \<Rightarrow> string \<Rightarrow> u64 \<Rightarrow> bool \<Rightarrow> cap_cache option" where
  "mark_verified cache k epoch cached_ok =
     (case cache of
        None \<Rightarrow> None
      | Some c \<Rightarrow>
          if cached_ok then Some c
          else
            let sh = cache_shard k;
                c1 = (if 8192 \<le> card (dom (cc_shards c sh))
                      then c\<lparr>cc_shards := (cc_shards c)(sh := Map.empty),
                             cc_ticks := (cc_ticks c)(sh := cc_ticks c sh + 1)\<rparr>
                      else c)
            in Some (c1\<lparr>cc_shards := (cc_shards c1)(sh := (cc_shards c1 sh)(k \<mapsto> epoch))\<rparr>))"

definition tier_ok :: "capability \<Rightarrow> tier \<Rightarrow> bool" where
  "tier_ok c t = (sc_tier (c_scope c) = t \<or> t = L1 \<and> sc_tier (c_scope c) = L1)"

text \<open>What a verified capability must show to grant \<open>perms\<close> on a scope, per tier.\<close>

definition grants :: "extern \<Rightarrow> scope \<Rightarrow> perm_set \<Rightarrow> capability \<Rightarrow> bool" where
  "grants ext s perms c =
     (case sc_tier s of
        L3 \<Rightarrow>
          sc_tier (c_scope c) = L3 \<and> covers (c_scope c) s \<and>
          ''u/'' @ pk_str ext (c_subject c) = sc_ns s \<and> perm_contains (c_perms c) perms
      | L1 \<Rightarrow>
          tier_ok c L1 \<and> sc_tier (c_scope c) = L1 \<and> sc_ns (c_scope c) = ''*'' \<and> perm_contains (c_perms c) ADMIN
      | L2 \<Rightarrow>
          sc_tier (c_scope c) = L2 \<and> covers (c_scope c) s \<and> perm_contains (c_perms c) perms)"

fun auth_loop ::
  "extern \<Rightarrow> cap_ext \<Rightarrow> (nat \<Rightarrow> bool) \<Rightarrow> scope \<Rightarrow> public_key \<Rightarrow> perm_set \<Rightarrow> root_keyring \<Rightarrow> revocation_set \<Rightarrow>
   u64 \<Rightarrow> u64 \<Rightarrow> cap_cache option \<Rightarrow> capability list \<Rightarrow> bool \<times> cap_cache option" where
  "auth_loop ext cx lock s who perms kr rv now_ms epoch cache [] = (False, cache)"
| "auth_loop ext cx lock s who perms kr rv now_ms epoch cache (c # cs) =
     (let ckey = digest_hex ext cx c;
          cached_ok = epoch_ok lock cache ckey epoch
      in if is_ok (verify_or_cached ext cx kr who rv now_ms cached_ok c) \<and> grants ext s perms c
         then (True, mark_verified cache ckey epoch cached_ok)
         else auth_loop ext cx lock s who perms kr rv now_ms epoch cache cs)"

definition denial :: "scope \<Rightarrow> perm_set \<Rightarrow> auth_error" where
  "denial s perms =
     (case sc_tier s of
        L3 \<Rightarrow> Unauthorized (''no capability covers '' @ to_url s @ '' for its owner'')
      | L1 \<Rightarrow> Unauthorized ''no valid L1 admin capability''
      | L2 \<Rightarrow> Unauthorized (''no capability covers '' @ to_url s @ '' with '' @ join '', '' (perm_names perms)))"

definition authorize_cached ::
  "extern \<Rightarrow> cap_ext \<Rightarrow> (nat \<Rightarrow> bool) \<Rightarrow> scope \<Rightarrow> public_key \<Rightarrow> perm_set \<Rightarrow> capability list \<Rightarrow> root_keyring \<Rightarrow>
   revocation_set \<Rightarrow> string \<Rightarrow> u64 \<Rightarrow> cap_cache option \<Rightarrow> u64 \<Rightarrow> (auth_error, unit) result \<times> cap_cache option" where
  "authorize_cached ext cx lock s who perms caps kr rv host_name now_ms cache epoch =
     (if sc_host s \<noteq> host_name then (Err (Unauthorized ''scope host is not this host''), cache)
      else case auth_loop ext cx lock s who perms kr rv now_ms epoch cache caps of
             (True, cache') \<Rightarrow> (Ok (), cache')
           | (False, cache') \<Rightarrow> (Err (denial s perms), cache'))"

definition authorize ::
  "extern \<Rightarrow> cap_ext \<Rightarrow> scope \<Rightarrow> public_key \<Rightarrow> perm_set \<Rightarrow> capability list \<Rightarrow> root_keyring \<Rightarrow>
   revocation_set \<Rightarrow> string \<Rightarrow> u64 \<Rightarrow> (auth_error, unit) result" where
  "authorize ext cx s who perms caps kr rv host_name now_ms =
     fst (authorize_cached ext cx (\<lambda>_. True) s who perms caps kr rv host_name now_ms None 0)"

subsection \<open>Quotas and owner namespaces\<close>

definition bytes_written :: "store \<Rightarrow> namespace \<Rightarrow> u64" where
  "bytes_written st ns =
     (case meta_get st (''quota:'' @ ns) of
        None \<Rightarrow> 0
      | Some v \<Rightarrow> u64_from_le (if length v = 8 then v else replicate 8 0))"

definition account_write :: "namespace \<Rightarrow> u64 \<Rightarrow> u64 \<Rightarrow> store \<Rightarrow> (auth_error, unit) result \<times> store" where
  "account_write ns delta limit st =
     (let t = bytes_written st ns + delta
      in if limit < t then (Err (QuotaExceeded ns limit), st)
         else (Ok (), meta_set (''quota:'' @ ns) (u64_to_le t) st))"

definition ensure_l3_namespace ::
  "extern \<Rightarrow> public_key \<Rightarrow> db \<Rightarrow> (auth_error, namespace) result \<times> db" where
  "ensure_l3_namespace ext who s =
     (let ns = ''u/'' @ pk_str ext who
      in if policy (db_store s) ns = None then
           (case create_namespace ext ns PolicyLww s of
              (Inl e, s') \<Rightarrow> (Err (Unauthorized ''provision L3 namespace''), s')
            | (Inr _, s') \<Rightarrow> (Ok ns, s'))
         else (Ok ns, s))"

subsection \<open>Requests and revocations\<close>

record auth_state =
  as_revocations :: revocation_set
  as_epoch :: u64
  as_cache :: cap_cache

datatype auth_event =
    Request (rq_lock: "nat \<Rightarrow> bool") (rq_scope: scope) (rq_who: public_key) (rq_perms: perm_set)
      (rq_caps: "capability list") (rq_now: u64)
  | Revoke scope public_key

definition auth_start :: auth_state where
  "auth_start = \<lparr>as_revocations = new_revocations, as_epoch = 0, as_cache = cap_cache_new\<rparr>"

fun auth_run ::
  "extern \<Rightarrow> cap_ext \<Rightarrow> root_keyring \<Rightarrow> string \<Rightarrow> auth_state \<Rightarrow> auth_event list \<Rightarrow> bool list" where
  "auth_run ext cx kr host st [] = []"
| "auth_run ext cx kr host st (Request lock s who perms caps now_ms # es) =
     (case authorize_cached ext cx lock s who perms caps kr (as_revocations st) host now_ms
             (Some (as_cache st)) (as_epoch st) of
        (r, cache) \<Rightarrow>
          is_ok r # auth_run ext cx kr host (case cache of None \<Rightarrow> st | Some c \<Rightarrow> st\<lparr>as_cache := c\<rparr>) es)"
| "auth_run ext cx kr host st (Revoke s who # es) =
     auth_run ext cx kr host
       (st\<lparr>as_revocations := revoke_principal s (pk_str ext who) (as_revocations st),
           as_epoch := as_epoch st + 1\<rparr>) es"

text \<open>The same events answered without a cache.\<close>

fun auth_ref ::
  "extern \<Rightarrow> cap_ext \<Rightarrow> root_keyring \<Rightarrow> string \<Rightarrow> revocation_set \<Rightarrow> auth_event list \<Rightarrow> bool list" where
  "auth_ref ext cx kr host rv [] = []"
| "auth_ref ext cx kr host rv (Request lock s who perms caps now_ms # es) =
     is_ok (authorize ext cx s who perms caps kr rv host now_ms) # auth_ref ext cx kr host rv es"
| "auth_ref ext cx kr host rv (Revoke s who # es) =
     auth_ref ext cx kr host (revoke_principal s (pk_str ext who) rv) es"

text \<open>Relied on for the cache: SHA-256 has no collision among the capabilities presented, and the
  JSON bytes of a structure determine its fields.\<close>

definition collision_free :: "extern \<Rightarrow> cap_ext \<Rightarrow> capability set \<Rightarrow> bool" where
  "collision_free ext cx C \<longleftrightarrow>
     (\<forall>c \<in> C. \<forall>d \<in> C.
        sha256 ext (canonical_bytes ext cx c @ c_sig c) = sha256 ext (canonical_bytes ext cx d @ c_sig d) \<longrightarrow>
        canonical_bytes ext cx c @ c_sig c = canonical_bytes ext cx d @ c_sig d)"

definition json_injective :: "extern \<Rightarrow> cap_ext \<Rightarrow> capability set \<Rightarrow> bool" where
  "json_injective ext cx C \<longleftrightarrow>
     inj_on (view_json cx)
       ((\<lambda>c. view_of ext (c_scope c) (c_perms c) (c_expiry_ms c) (c_nonce c) (c_issuer c) (c_subject c)) ` C)"

definition event_caps :: "auth_event list \<Rightarrow> capability set" where
  "event_caps es = (\<Union>e \<in> set es. case e of Request _ _ _ _ caps _ \<Rightarrow> set caps | Revoke _ _ \<Rightarrow> {})"

text \<open>An entry of the current epoch stands for a verification that still holds.\<close>

definition cache_inv :: "extern \<Rightarrow> cap_ext \<Rightarrow> capability set \<Rightarrow> revocation_set \<Rightarrow> u64 \<Rightarrow> cap_cache \<Rightarrow> bool" where
  "cache_inv ext cx C rv epoch cache \<longleftrightarrow>
     (\<forall>sh k e. cc_shards cache sh k = Some e \<longrightarrow>
        e \<le> epoch \<and>
        (e = epoch \<longrightarrow> (\<forall>c \<in> C. digest_hex ext cx c = k \<longrightarrow>
           ed_verify cx (c_issuer c) (canonical_bytes ext cx c) (c_sig c) \<and>
           \<not> is_revoked rv (c_scope c) (pk_str ext (c_subject c)) (c_nonce c))))"

definition holds :: "extern \<Rightarrow> cap_ext \<Rightarrow> revocation_set \<Rightarrow> capability \<Rightarrow> bool" where
  "holds ext cx rv c \<longleftrightarrow>
     ed_verify cx (c_issuer c) (canonical_bytes ext cx c) (c_sig c) \<and>
     \<not> is_revoked rv (c_scope c) (pk_str ext (c_subject c)) (c_nonce c)"

section \<open>Authorization without a cache\<close>

lemma auth_loop_plain:
  "auth_loop ext cx lock s who perms kr rv now_ms epoch None cs =
   (\<exists>c \<in> set cs. cap_valid ext cx kr who rv now_ms c \<and> grants ext s perms c, None)"
  by (induction cs) (auto simp: epoch_ok_def mark_verified_def verify_or_cached_valid Let_def)

lemma authorize_iff:
  "is_ok (authorize ext cx s who perms caps kr rv host now_ms) \<longleftrightarrow>
   sc_host s = host \<and> (\<exists>c \<in> set caps. cap_valid ext cx kr who rv now_ms c \<and> grants ext s perms c)"
  by (auto simp: authorize_def authorize_cached_def auth_loop_plain split: bool.splits)

section \<open>The cache\<close>

lemma same_digest_holds:
  assumes h: "hex_ok ext" "collision_free ext cx C" "json_injective ext cx C"
    and m: "c \<in> C" "d \<in> C" "length (c_sig c) = 64" "length (c_sig d) = 64"
    and eq: "digest_hex ext cx c = digest_hex ext cx d" and v: "holds ext cx rv c"
  shows "holds ext cx rv d"
proof -
  have hex: "a = b" if "hex_enc ext a = hex_enc ext b" for a b
  proof -
    have "Some a = hex_dec ext (hex_enc ext a)" "hex_dec ext (hex_enc ext b) = Some b"
      using h(1) unfolding hex_ok_def by simp_all
    then show ?thesis by (simp add: that)
  qed
  have "sha256 ext (canonical_bytes ext cx c @ c_sig c) = sha256 ext (canonical_bytes ext cx d @ c_sig d)"
    using eq unfolding digest_hex_def by (rule hex)
  then have "canonical_bytes ext cx c @ c_sig c = canonical_bytes ext cx d @ c_sig d"
    using h(2) m unfolding collision_free_def by blast
  then have b: "canonical_bytes ext cx c = canonical_bytes ext cx d" "c_sig c = c_sig d"
    using m by simp_all
  let ?v = "\<lambda>c. view_of ext (c_scope c) (c_perms c) (c_expiry_ms c) (c_nonce c) (c_issuer c) (c_subject c)"
  have "?v c = ?v d"
    by (rule inj_onD [OF h(3) [unfolded json_injective_def] b(1) [unfolded canonical_bytes_def]])
      (use m in simp_all)
  then have "to_url (c_scope c) = to_url (c_scope d)" "c_nonce c = c_nonce d"
    "pk_str ext (c_subject c) = pk_str ext (c_subject d)" "pk_str ext (c_issuer c) = pk_str ext (c_issuer d)"
    by (simp_all add: view_of_def)
  moreover from this(4) have "c_issuer c = c_issuer d" unfolding pk_str_def by (rule hex)
  ultimately show ?thesis using v b by (simp add: holds_def is_revoked_def)
qed

lemma cache_inv_alt:
  "cache_inv ext cx C rv epoch cache \<longleftrightarrow>
     (\<forall>sh k e. cc_shards cache sh k = Some e \<longrightarrow>
        e \<le> epoch \<and> (e = epoch \<longrightarrow> (\<forall>c \<in> C. digest_hex ext cx c = k \<longrightarrow> holds ext cx rv c)))"
  by (simp add: cache_inv_def holds_def)

lemma cap_valid_holds:
  "cap_valid ext cx kr who rv now_ms c \<longleftrightarrow>
   c_issuer c \<in> insert (kr_active kr) (set (kr_retired kr)) \<and> c_subject c = who \<and> \<not> expired c now_ms \<and>
   holds ext cx rv c"
  by (auto simp: cap_valid_def holds_def)

lemma verify_cached:
  assumes "cache_inv ext cx C rv epoch cache" "c \<in> C"
  shows "is_ok (verify_or_cached ext cx kr who rv now_ms
      (epoch_ok lock (Some cache) (digest_hex ext cx c) epoch) c) \<longleftrightarrow> cap_valid ext cx kr who rv now_ms c"
proof (cases "epoch_ok lock (Some cache) (digest_hex ext cx c) epoch")
  case True
  then have "cc_shards cache (cache_shard (digest_hex ext cx c)) (digest_hex ext cx c) = Some epoch"
    by (simp add: epoch_ok_def Let_def split: if_splits)
  then have "holds ext cx rv c" using assms unfolding cache_inv_alt by blast
  then show ?thesis using True by (simp add: verify_or_cached_hit cap_valid_holds)
next
  case False
  then show ?thesis by (simp add: verify_or_cached_valid)
qed

lemma mark_verified_inv:
  assumes inv: "cache_inv ext cx C rv epoch cache"
    and new: "\<And>d. d \<in> C \<Longrightarrow> digest_hex ext cx d = k \<Longrightarrow> holds ext cx rv d"
  obtains cache' where "mark_verified (Some cache) k epoch ok = Some cache'" "cache_inv ext cx C rv epoch cache'"
proof (cases ok)
  case True
  then show ?thesis using that [of cache] inv by (simp add: mark_verified_def)
next
  case False
  obtain c1 where m: "mark_verified (Some cache) k epoch ok =
      Some (c1\<lparr>cc_shards := (cc_shards c1)(cache_shard k := (cc_shards c1 (cache_shard k))(k \<mapsto> epoch))\<rparr>)"
    and c1: "cc_shards c1 = cc_shards cache \<or> cc_shards c1 = (cc_shards cache)(cache_shard k := Map.empty)"
    using False unfolding mark_verified_def by (simp add: Let_def split: if_splits)
  have "cc_shards c1 sh k' = Some e \<Longrightarrow> cc_shards cache sh k' = Some e" for sh k' e
    using c1 by (auto split: if_splits)
  then have "cache_inv ext cx C rv epoch c1" using inv unfolding cache_inv_alt by blast
  then show ?thesis using that [OF m] new unfolding cache_inv_alt by auto
qed

lemma auth_loop_cached:
  assumes h: "hex_ok ext" "collision_free ext cx C" "json_injective ext cx C" "\<forall>c \<in> C. length (c_sig c) = 64"
    and inv: "cache_inv ext cx C rv epoch cache"
  shows "set cs \<subseteq> C \<Longrightarrow> \<exists>cache'.
    auth_loop ext cx lock s who perms kr rv now_ms epoch (Some cache) cs =
      (\<exists>c \<in> set cs. cap_valid ext cx kr who rv now_ms c \<and> grants ext s perms c, Some cache') \<and>
    cache_inv ext cx C rv epoch cache'"
proof (induction cs)
  case Nil
  then show ?case using inv by simp
next
  case (Cons c cs)
  note vc = verify_cached [OF inv, of c kr who now_ms lock]
  show ?case
  proof (cases "cap_valid ext cx kr who rv now_ms c \<and> grants ext s perms c")
    case True
    have "holds ext cx rv d" if "d \<in> C" "digest_hex ext cx d = digest_hex ext cx c" for d
      using same_digest_holds [OF h(1-3) _ that(1) _ _ that(2) [symmetric]] True Cons.prems h(4) that
      by (simp add: cap_valid_holds)
    then obtain cache' where "mark_verified (Some cache) (digest_hex ext cx c) epoch
          (epoch_ok lock (Some cache) (digest_hex ext cx c) epoch) = Some cache'"
        and "cache_inv ext cx C rv epoch cache'"
      using mark_verified_inv [OF inv] by metis
    then show ?thesis using True vc Cons.prems by (simp add: Let_def)
  next
    case False
    then show ?thesis using vc Cons by (auto simp: Let_def)
  qed
qed

lemma authorize_cached_eq:
  assumes h: "hex_ok ext" "collision_free ext cx C" "json_injective ext cx C" "\<forall>c \<in> C. length (c_sig c) = 64"
    and inv: "cache_inv ext cx C rv epoch cache" and caps: "set caps \<subseteq> C"
  obtains cache' where
    "authorize_cached ext cx lock s who perms caps kr rv host now_ms (Some cache) epoch =
      (authorize ext cx s who perms caps kr rv host now_ms, Some cache')"
    "cache_inv ext cx C rv epoch cache'"
proof (cases "sc_host s = host")
  case True
  obtain cache' where "auth_loop ext cx lock s who perms kr rv now_ms epoch (Some cache) caps =
      (\<exists>c \<in> set caps. cap_valid ext cx kr who rv now_ms c \<and> grants ext s perms c, Some cache')"
    and i: "cache_inv ext cx C rv epoch cache'"
    using auth_loop_cached [OF h inv caps] by blast
  then show ?thesis
    using True by (intro that [OF _ i]) (simp add: authorize_def authorize_cached_def auth_loop_plain split: bool.splits)
next
  case False
  then show ?thesis using that [OF _ inv] by (simp add: authorize_def authorize_cached_def)
qed

lemma cache_inv_revoke:
  assumes "cache_inv ext cx C rv epoch cache" "epoch \<noteq> - 1"
  shows "cache_inv ext cx C rv' (epoch + 1) cache"
proof -
  have "e \<le> epoch + 1 \<and> e \<noteq> epoch + 1" if "e \<le> epoch" for e
    using that unat_Suc_no_wrap [OF assms(2)] by (auto simp: word_le_nat_alt)
  then show ?thesis using assms(1) unfolding cache_inv_alt by blast
qed

lemma auth_run_ref:
  assumes h: "hex_ok ext" "collision_free ext cx C" "json_injective ext cx C" "\<forall>c \<in> C. length (c_sig c) = 64"
  shows "cache_inv ext cx C (as_revocations st) (as_epoch st) (as_cache st) \<Longrightarrow> event_caps es \<subseteq> C \<Longrightarrow>
    unat (as_epoch st) + length es < 2 ^ 64 \<Longrightarrow>
    auth_run ext cx kr host st es = auth_ref ext cx kr host (as_revocations st) es"
proof (induction es arbitrary: st)
  case Nil
  then show ?case by simp
next
  case (Cons e es)
  show ?case
  proof (cases e)
    case (Request lock s who perms caps now_ms)
    have c: "set caps \<subseteq> C" "event_caps es \<subseteq> C" using Cons.prems(2) by (auto simp: event_caps_def Request)
    obtain cache' where "authorize_cached ext cx lock s who perms caps kr (as_revocations st) host now_ms
          (Some (as_cache st)) (as_epoch st) =
        (authorize ext cx s who perms caps kr (as_revocations st) host now_ms, Some cache')"
      "cache_inv ext cx C (as_revocations st) (as_epoch st) cache'"
      by (rule authorize_cached_eq [OF h Cons.prems(1) c(1)])
    then show ?thesis using Cons.IH [of "st\<lparr>as_cache := cache'\<rparr>"] c Cons.prems by (simp add: Request)
  next
    case (Revoke s who)
    let ?st = "st\<lparr>as_revocations := revoke_principal s (pk_str ext who) (as_revocations st), as_epoch := as_epoch st + 1\<rparr>"
    have ne: "as_epoch st \<noteq> - 1" using Cons.prems(3) by (auto simp: unsigned_minus_1_eq_mask mask_eq_exp_minus_1)
    have "cache_inv ext cx C (as_revocations ?st) (as_epoch ?st) (as_cache ?st)"
      using cache_inv_revoke [OF Cons.prems(1) ne] by simp
    then show ?thesis using Cons.IH [of ?st] Cons.prems unat_Suc_no_wrap [OF ne]
      by (simp add: Revoke event_caps_def)
  qed
qed

section \<open>Quotas\<close>

lemma bytes_written_account:
  assumes inv: "bt_inv (st_meta st)" and no_wrap: "unat (bytes_written st ns) + unat delta < 2 ^ 64"
    and r: "account_write ns delta limit st = (r, st')"
  shows "is_ok r \<longleftrightarrow> unat (bytes_written st ns) + unat delta \<le> unat limit"
    and "bytes_written st' n = (if n = ns \<and> is_ok r then bytes_written st ns + delta else bytes_written st n)"
proof -
  have u: "unat (bytes_written st ns + delta) = unat (bytes_written st ns) + unat delta"
    using no_wrap by (simp add: unat_add_no_wrap)
  have ok: "is_ok r \<longleftrightarrow> \<not> limit < bytes_written st ns + delta"
    using r by (auto simp: account_write_def Let_def split: if_splits)
  then show "is_ok r \<longleftrightarrow> unat (bytes_written st ns) + unat delta \<le> unat limit"
    by (simp only: word_less_nat_alt u not_less)
  show "bytes_written st' n = (if n = ns \<and> is_ok r then bytes_written st ns + delta else bytes_written st n)"
    using r ok inv
    by (auto simp: account_write_def Let_def bytes_written_def [of st'] meta_get_def meta_set_def bt_get_insert
        bytes_written_def [of st n] split: if_splits)
qed

text \<open>The sum of the ledger and the new bytes is taken modulo \<open>2 ^ 64\<close>: past that the ledger
  starts again from zero.\<close>

lemma quota_wraps:
  assumes "bytes_written st ns = - 1" "limit \<noteq> 0"
  shows "account_write ns 2 limit st = (Ok (), meta_set (''quota:'' @ ns) (u64_to_le 1) st)"
proof -
  have "\<not> limit < 1" using assms(2) by (simp add: word_less_nat_alt unat_gt_0)
  then show ?thesis using assms(1) by (simp add: account_write_def Let_def)
qed

section \<open>Properties\<close>

text \<open>A request is authorized exactly when this host is the one named in the scope and some
  presented capability was issued by a key of the ring, carries a valid signature, belongs to
  the requesting principal, is neither expired nor revoked, and grants the request: at
  level 2 by covering the scope with the permissions, at level 3 also by belonging to the
  owner of the namespace, at level 1 by being an admin capability.\<close>

theorem authorize_exact:
  "is_ok (authorize ext cx s who perms caps kr rv host now_ms) \<longleftrightarrow>
   sc_host s = host \<and>
   (\<exists>c. c \<in> set caps \<and> accepts_issuer kr (c_issuer c) \<and>
      ed_verify cx (c_issuer c) (canonical_bytes ext cx c) (c_sig c) \<and> c_subject c = who \<and>
      \<not> expired c now_ms \<and> \<not> is_revoked rv (c_scope c) (pk_str ext who) (c_nonce c) \<and>
      (if sc_tier s = L1 then sc_tier (c_scope c) = L1 \<and> sc_ns (c_scope c) = ''*'' \<and> perm_contains (c_perms c) ADMIN
       else covers (c_scope c) s \<and> perm_contains (c_perms c) perms \<and>
         (sc_tier s = L2 \<or> sc_ns s = ''u/'' @ pk_str ext who)))"
proof -
  have a: "accepts_issuer kr i \<longleftrightarrow> i \<in> insert (kr_active kr) (set (kr_retired kr))" for i
    by (simp add: accepts_issuer_def key_for_issuer_eq)
  have t: "covers p s \<Longrightarrow> sc_tier p = sc_tier s" for p by (simp add: covers_def)
  have "grants ext s perms c \<longleftrightarrow>
      (if sc_tier s = L1 then sc_tier (c_scope c) = L1 \<and> sc_ns (c_scope c) = ''*'' \<and> perm_contains (c_perms c) ADMIN
       else covers (c_scope c) s \<and> perm_contains (c_perms c) perms \<and>
         (sc_tier s = L2 \<or> sc_ns s = ''u/'' @ pk_str ext (c_subject c)))" for c
    unfolding grants_def tier_ok_def by (cases "sc_tier s") (auto dest: t)
  then show ?thesis unfolding authorize_iff cap_valid_def a by (simp only:) blast
qed

text \<open>C6.  The verification cache is invisible: whatever the sequence of requests and revocations
  and whichever locks are busy, every request gets the answer it would get with all
  signatures and revocations checked afresh, as long as SHA-256 does not collide on the
  capabilities presented.\<close>

theorem cached_authorization_exact:
  assumes "hex_ok ext" "collision_free ext cx (event_caps es)" "json_injective ext cx (event_caps es)"
    and "\<forall>c \<in> event_caps es. length (c_sig c) = 64" and "length es < 2 ^ 64"
  shows "auth_run ext cx kr host auth_start es = auth_ref ext cx kr host new_revocations es"
  using auth_run_ref [OF assms(1-4), of auth_start es kr host] assms(5)
  by (simp add: auth_start_def cache_inv_alt cap_cache_new_def)

theorem cached_authorization_exact_witness:
  "auth_run demo_ext demo_cx (keyring_current zero32) ''h'' auth_start
     [Request (\<lambda>_. True) (c_scope demo_cap) zero32 READ [demo_cap] 5,
      Request (\<lambda>_. True) (c_scope demo_cap) zero32 READ [demo_cap] 6,
      Revoke (c_scope demo_cap) zero32,
      Request (\<lambda>_. True) (c_scope demo_cap) zero32 READ [demo_cap] 7] = [True, True, False]"
    (is "auth_run _ _ _ _ _ ?es = _")
proof -
  have C: "event_caps ?es = {demo_cap}" by (simp add: event_caps_def)
  have "auth_run demo_ext demo_cx (keyring_current zero32) ''h'' auth_start ?es =
      auth_ref demo_ext demo_cx (keyring_current zero32) ''h'' new_revocations ?es"
    by (rule cached_authorization_exact [OF demo_hex_ok], unfold C)
      (simp_all add: collision_free_def json_injective_def demo_cap_def)
  then show ?thesis
    by (simp add: authorize_iff cap_valid_def grants_def demo_cap_def demo_cx_def keyring_current_def expired_def
        is_revoked_def new_revocations_def revoke_principal_def covers_def perm_contains_def READ_def)
qed

end
