(* ===== verification/Query.thy ===== *)
theory Query
  imports Hlc Text StoreOps
begin

text \<open>
  The query language (\<open>src/query/mod.rs\<close>): tokenizer, recursive-descent parser, classification
  and evaluation.  A tokenizer is the rest of the source with its line and column.  The
  parser has a fuel argument; one unit per remaining byte is enough.  \<open>Hlc::now\<close> is the
  field \<open>q_clock\<close>, the values it returns call by call; the JSON text of a list of field names
  is the parameter \<open>fields_json\<close> (\<open>serde_json\<close>).
\<close>

section \<open>Definitions\<close>

datatype qvalue = QNull | QBool bool | QNum u64 | QStr string | QList "qvalue list"

datatype parse_msg =
    EmptyExpression | Unterminated | InvalidEscape byte | UnexpectedChar byte | ExpectedName | ExpectedLParen string
  | MissingRParen | UnexpectedComma | ExpectedArgument | TrailingTokens

datatype type_msg =
    ReadOnlyStore | NotRemote string | WrongArgc string nat nat | ExpectedStr string qvalue | ExpectedNum string qvalue
  | NotANumber string | Usage string

datatype query_error =
    QParse nat nat parse_msg | UnknownFn string | QType type_msg | QEval storage_error

datatype stmt_kind = ReadOnly | Mutating

subsection \<open>Tokenizer\<close>

datatype tok = TIdent string | TStr string | LParen | RParen | Comma

datatype arg = AStr string | ACall call
and call = Call (call_name: string) (call_args: "arg list")

record tokenizer =
  tk_rest :: bytes
  tk_line :: nat
  tk_col :: nat

definition tk_new :: "string \<Rightarrow> tokenizer" where
  "tk_new src = \<lparr>tk_rest = str_bytes src, tk_line = 1, tk_col = 1\<rparr>"

definition tk_err :: "tokenizer \<Rightarrow> parse_msg \<Rightarrow> query_error" where
  "tk_err t m = QParse (tk_line t) (tk_col t) m"

definition peek :: "tokenizer \<Rightarrow> byte option" where
  "peek t = (case tk_rest t of [] \<Rightarrow> None | c # _ \<Rightarrow> Some c)"

text \<open>\<open>bump\<close> past the byte \<open>c\<close>.\<close>

definition past :: "byte \<Rightarrow> bytes \<Rightarrow> tokenizer \<Rightarrow> tokenizer" where
  "past c bs t =
     (if c = 10 then \<lparr>tk_rest = bs, tk_line = tk_line t + 1, tk_col = 1\<rparr>
      else \<lparr>tk_rest = bs, tk_line = tk_line t, tk_col = tk_col t + 1\<rparr>)"

definition bump :: "tokenizer \<Rightarrow> byte option \<times> tokenizer" where
  "bump t = (case tk_rest t of [] \<Rightarrow> (None, t) | c # bs \<Rightarrow> (Some c, past c bs t))"

definition is_ascii_ws :: "byte \<Rightarrow> bool" where
  "is_ascii_ws c = (c = 32 \<or> c = 9 \<or> c = 10 \<or> c = 12 \<or> c = 13)"

definition is_alpha :: "byte \<Rightarrow> bool" where
  "is_alpha c = (65 \<le> c \<and> c \<le> 90 \<or> 97 \<le> c \<and> c \<le> 122)"

definition is_digit :: "byte \<Rightarrow> bool" where
  "is_digit c = (48 \<le> c \<and> c \<le> 57)"

fun skip_ws_from :: "bytes \<Rightarrow> tokenizer \<Rightarrow> tokenizer" where
  "skip_ws_from [] t = t"
| "skip_ws_from (c # bs) t = (if is_ascii_ws c then skip_ws_from bs (past c bs t) else t)"

definition skip_ws :: "tokenizer \<Rightarrow> tokenizer" where
  "skip_ws t = skip_ws_from (tk_rest t) t"

text \<open>The body of a string literal, after the opening quote.\<close>

fun lex_string :: "bytes \<Rightarrow> bytes \<Rightarrow> tokenizer \<Rightarrow> (query_error, bytes \<times> tokenizer) result" where
  "lex_string s [] t = Err (tk_err t Unterminated)"
| "lex_string s (c # bs) t =
     (if c = 34 then Ok (s, past c bs t)
      else if c = 92 then
        (case bs of
           [] \<Rightarrow> Err (tk_err (past c bs t) Unterminated)
         | e # bs' \<Rightarrow>
             let t' = past e bs' (past c bs t) in
             if e = 34 then lex_string (s @ [34]) bs' t'
             else if e = 92 then lex_string (s @ [92]) bs' t'
             else if e = 110 then lex_string (s @ [10]) bs' t'
             else if e = 116 then lex_string (s @ [9]) bs' t'
             else Err (tk_err t' (InvalidEscape e)))
      else lex_string (s @ [c]) bs (past c bs t))"

fun lex_ident :: "bytes \<Rightarrow> bytes \<Rightarrow> tokenizer \<Rightarrow> bytes \<times> tokenizer" where
  "lex_ident name [] t = (name, t)"
| "lex_ident name (c # bs) t =
     (if is_alpha c \<or> is_digit c \<or> c = 95 then lex_ident (name @ [c]) bs (past c bs t) else (name, t))"

definition lossy_str :: "bytes \<Rightarrow> string" where
  "lossy_str bs = bytes_str (from_utf8_lossy bs)"

definition token :: "tokenizer \<Rightarrow> (query_error, tok option \<times> tokenizer) result" where
  "token t0 =
     (let t = skip_ws t0 in
      case tk_rest t of
        [] \<Rightarrow> Ok (None, t)
      | c # bs \<Rightarrow>
          if c = 40 then Ok (Some LParen, past c bs t)
          else if c = 41 then Ok (Some RParen, past c bs t)
          else if c = 44 then Ok (Some Comma, past c bs t)
          else if c = 34 then
            (case lex_string [] bs (past c bs t) of
               Inl e \<Rightarrow> Err e
             | Inr (s, t') \<Rightarrow> Ok (Some (TStr (lossy_str s)), t'))
          else if is_alpha c \<or> c = 95 then
            (let (name, t') = lex_ident [] (c # bs) t in Ok (Some (TIdent (lossy_str name)), t'))
          else Err (tk_err t (UnexpectedChar c)))"

subsection \<open>Parser\<close>

definition expect_lparen :: "string \<Rightarrow> tokenizer \<Rightarrow> (query_error, tokenizer) result" where
  "expect_lparen name t =
     (case token t of
        Inl e \<Rightarrow> Err e
      | Inr (Some LParen, t') \<Rightarrow> Ok t'
      | Inr (_, t') \<Rightarrow> Err (tk_err t' (ExpectedLParen name)))"

fun parse_args :: "nat \<Rightarrow> string \<Rightarrow> arg list \<Rightarrow> tokenizer \<Rightarrow> (query_error, call \<times> tokenizer) result option" where
  "parse_args 0 name args t = None"
| "parse_args (Suc n) name args t =
     (case token t of
        Inl e \<Rightarrow> Some (Err e)
      | Inr (None, t') \<Rightarrow> Some (Err (tk_err t' MissingRParen))
      | Inr (Some RParen, t') \<Rightarrow> Some (Ok (Call name args, t'))
      | Inr (Some Comma, t') \<Rightarrow>
          if args = [] then Some (Err (tk_err t' UnexpectedComma)) else parse_args n name args t'
      | Inr (Some (TStr s), t') \<Rightarrow> parse_args n name (args @ [AStr s]) t'
      | Inr (Some (TIdent m), t') \<Rightarrow>
          (case expect_lparen m t' of
             Inl e \<Rightarrow> Some (Err e)
           | Inr t1 \<Rightarrow>
               (case parse_args n m [] t1 of
                  None \<Rightarrow> None
                | Some (Inl e) \<Rightarrow> Some (Err e)
                | Some (Inr (c, t2)) \<Rightarrow> parse_args n name (args @ [ACall c]) t2))
      | Inr (Some LParen, t') \<Rightarrow> Some (Err (tk_err t' ExpectedArgument)))"

definition parse_named_call :: "nat \<Rightarrow> string \<Rightarrow> tokenizer \<Rightarrow> (query_error, call \<times> tokenizer) result option" where
  "parse_named_call n name t =
     (case expect_lparen name t of Inl e \<Rightarrow> Some (Err e) | Inr t' \<Rightarrow> parse_args n name [] t')"

definition parse_call_inner :: "nat \<Rightarrow> tokenizer \<Rightarrow> (query_error, call \<times> tokenizer) result option" where
  "parse_call_inner n t =
     (case token t of
        Inl e \<Rightarrow> Some (Err e)
      | Inr (Some (TIdent m), t') \<Rightarrow> parse_named_call n m t'
      | Inr (Some _, t') \<Rightarrow> Some (Err (tk_err t' ExpectedName))
      | Inr (None, t') \<Rightarrow> Some (Err (tk_err t' EmptyExpression)))"

definition parse_call :: "nat \<Rightarrow> tokenizer \<Rightarrow> (query_error, call option \<times> tokenizer) result option" where
  "parse_call n t0 =
     (let t = skip_ws t0 in
      if peek t = None then Some (Ok (None, t))
      else case parse_call_inner n t of
             None \<Rightarrow> None
           | Some (Inl e) \<Rightarrow> Some (Err e)
           | Some (Inr (c, t')) \<Rightarrow> Some (Ok (Some c, t')))"

definition expect_end :: "tokenizer \<Rightarrow> (query_error, unit) result" where
  "expect_end t0 = (let t = skip_ws t0 in if peek t \<noteq> None then Err (tk_err t TrailingTokens) else Ok ())"

text \<open>The common start of \<open>eval\<close> and \<open>classify\<close>: one call and nothing after it.\<close>

definition parse_src :: "nat \<Rightarrow> string \<Rightarrow> (query_error, call) result option" where
  "parse_src n src =
     (case parse_call n (tk_new src) of
        None \<Rightarrow> None
      | Some (Inl e) \<Rightarrow> Some (Err e)
      | Some (Inr (None, t)) \<Rightarrow> Some (Err (tk_err t EmptyExpression))
      | Some (Inr (Some c, t)) \<Rightarrow>
          Some (case expect_end t of Inl e \<Rightarrow> Err e | Inr _ \<Rightarrow> Ok c))"

definition is_mutator :: "string \<Rightarrow> bool" where
  "is_mutator name = (name = ''put'' \<or> name = ''del'' \<or> name = ''index_create'' \<or> name = ''index_drop'')"

fun contains_mutator :: "call \<Rightarrow> bool" and arg_mutator :: "arg \<Rightarrow> bool" where
  "contains_mutator (Call name args) = (is_mutator name \<or> list_ex arg_mutator args)"
| "arg_mutator (ACall c) = contains_mutator c"
| "arg_mutator (AStr s) = False"

definition classify :: "nat \<Rightarrow> string \<Rightarrow> (query_error, stmt_kind) result option" where
  "classify n src =
     (case parse_src n src of
        None \<Rightarrow> None
      | Some (Inl e) \<Rightarrow> Some (Err e)
      | Some (Inr c) \<Rightarrow> Some (Ok (if contains_mutator c then Mutating else ReadOnly)))"

subsection \<open>Evaluation\<close>

record qctx =
  q_db :: db
  q_write :: bool
  q_scope :: "namespace option"
  q_host :: bytes
  q_remote :: bool
  q_clock :: "nat \<Rightarrow> hlc"
  q_ticks :: nat

type_synonym 'a qres = "(query_error, 'a) result \<times> qctx"

text \<open>The operator \<open>?\<close>.\<close>

definition q_then :: "'a qres \<Rightarrow> ('a \<Rightarrow> qctx \<Rightarrow> 'b qres) \<Rightarrow> 'b qres" where
  "q_then r k = (case r of (Inl e, ctx) \<Rightarrow> (Err e, ctx) | (Inr x, ctx) \<Rightarrow> k x ctx)"

lemma q_then_cong [fundef_cong]:
  "r = r' \<Longrightarrow> (\<And>x ctx. r' = (Inr x, ctx) \<Longrightarrow> k x ctx = k' x ctx) \<Longrightarrow> q_then r k = q_then r' k'"
  by (auto simp: q_then_def split: prod.splits sum.splits)

text \<open>\<open>Hlc::now()\<close>.\<close>

definition q_now :: "qctx \<Rightarrow> hlc qres" where
  "q_now ctx = (Ok (q_clock ctx (q_ticks ctx)), ctx\<lparr>q_ticks := q_ticks ctx + 1\<rparr>)"

definition q_store :: "qctx \<Rightarrow> store" where
  "q_store ctx = db_store (q_db ctx)"

text \<open>\<open>ctx.store_mut()?.op(..)\<close>.\<close>

definition store_mut :: "(db \<Rightarrow> (storage_error, 'a) result \<times> db) \<Rightarrow> qctx \<Rightarrow> 'a qres" where
  "store_mut f ctx =
     (if q_write ctx then
        (case f (q_db ctx) of
           (Inl e, s) \<Rightarrow> (Err (QEval e), ctx\<lparr>q_db := s\<rparr>)
         | (Inr x, s) \<Rightarrow> (Ok x, ctx\<lparr>q_db := s\<rparr>))
      else (Err (QType ReadOnlyStore), ctx))"

definition scope_of :: "qctx \<Rightarrow> namespace qres" where
  "scope_of ctx = (case q_scope ctx of None \<Rightarrow> (Err (QEval NoScope), ctx) | Some ns \<Rightarrow> (Ok ns, ctx))"

definition argc :: "string \<Rightarrow> arg list \<Rightarrow> nat \<Rightarrow> qctx \<Rightarrow> unit qres" where
  "argc name args n ctx =
     (if length args \<noteq> n then (Err (QType (WrongArgc name n (length args))), ctx) else (Ok (), ctx))"

definition str_arg :: "(call \<Rightarrow> qctx \<Rightarrow> qvalue qres) \<Rightarrow> arg \<Rightarrow> qctx \<Rightarrow> string qres" where
  "str_arg ex a ctx =
     (case a of
        AStr s \<Rightarrow> (Ok s, ctx)
      | ACall c \<Rightarrow> q_then (ex c ctx) (\<lambda>v ctx.
          case v of QStr s \<Rightarrow> (Ok s, ctx) | _ \<Rightarrow> (Err (QType (ExpectedStr (call_name c) v)), ctx)))"

text \<open>\<open>str::parse::<u64>\<close>: an optional plus sign and decimal digits, without overflow.\<close>

definition parse_u64 :: "string \<Rightarrow> u64 option" where
  "parse_u64 s =
     (let ds = map (\<lambda>c. of_char c :: nat) (case s of [] \<Rightarrow> [] | c # cs \<Rightarrow> if c = CHR ''+'' then cs else s);
          v = foldl (\<lambda>n d. 10 * n + (d - 48)) 0 ds
      in if ds \<noteq> [] \<and> list_all (\<lambda>d. 48 \<le> d \<and> d \<le> 57) ds \<and> v < 2 ^ 64 then Some (of_nat v) else None)"

definition num_arg :: "(call \<Rightarrow> qctx \<Rightarrow> qvalue qres) \<Rightarrow> arg \<Rightarrow> qctx \<Rightarrow> u64 qres" where
  "num_arg ex a ctx =
     (case a of
        AStr s \<Rightarrow> (case parse_u64 s of Some n \<Rightarrow> (Ok n, ctx) | None \<Rightarrow> (Err (QType (NotANumber s)), ctx))
      | ACall c \<Rightarrow> q_then (ex c ctx) (\<lambda>v ctx.
          case v of QNum n \<Rightarrow> (Ok n, ctx) | _ \<Rightarrow> (Err (QType (ExpectedNum (call_name c) v)), ctx)))"

fun str_args :: "(call \<Rightarrow> qctx \<Rightarrow> qvalue qres) \<Rightarrow> arg list \<Rightarrow> qctx \<Rightarrow> string list qres" where
  "str_args ex [] ctx = (Ok [], ctx)"
| "str_args ex (a # as) ctx =
     q_then (str_arg ex a ctx) (\<lambda>s ctx. q_then (str_args ex as ctx) (\<lambda>ss ctx. (Ok (s # ss), ctx)))"

lemma str_arg_cong [fundef_cong]:
  "a = b \<Longrightarrow> ctx = ctx' \<Longrightarrow> (\<And>c. b = ACall c \<Longrightarrow> f c ctx' = g c ctx') \<Longrightarrow> str_arg f a ctx = str_arg g b ctx'"
  by (simp add: str_arg_def split: arg.splits)

lemma num_arg_cong [fundef_cong]:
  "a = b \<Longrightarrow> ctx = ctx' \<Longrightarrow> (\<And>c. b = ACall c \<Longrightarrow> f c ctx' = g c ctx') \<Longrightarrow> num_arg f a ctx = num_arg g b ctx'"
  by (simp add: num_arg_def split: arg.splits)

lemma str_args_cong [fundef_cong]:
  "as = bs \<Longrightarrow> ctx = ctx' \<Longrightarrow> (\<And>c x. ACall c \<in> set bs \<Longrightarrow> f c x = g c x) \<Longrightarrow> str_args f as ctx = str_args g bs ctx'"
proof (induction as arbitrary: bs ctx ctx')
  case Nil
  then show ?case by auto
next
  case (Cons a as)
  have "str_arg f a x = str_arg g a x" for x by (rule str_arg_cong) (use Cons.prems in auto)
  then show ?case using Cons by (auto intro!: q_then_cong)
qed

datatype qfn =
    FNow | FHlc | FBefore | FClockSkew | FUse | FCreateNs | FGet | FPut | FDel | FScan | FGetAll
  | FIndexCreate | FIndexFields | FIndexDrop | FByIndex

definition fn_of :: "string \<Rightarrow> qfn option" where
  "fn_of name =
     map_of [(''now'', FNow), (''hlc'', FHlc), (''before'', FBefore), (''clock_skew'', FClockSkew), (''use'', FUse),
       (''create_ns'', FCreateNs), (''get'', FGet), (''put'', FPut), (''del'', FDel), (''scan'', FScan),
       (''get_all'', FGetAll), (''index_create'', FIndexCreate), (''index_fields'', FIndexFields),
       (''index_drop'', FIndexDrop), (''by_index'', FByIndex)] name"

text \<open>The text of the latest version, and the rows of \<open>get_all\<close>.\<close>

definition entry_text :: "entry \<Rightarrow> string" where
  "entry_text e = (case latest_entry_value e of None \<Rightarrow> [] | Some v \<Rightarrow> lossy_str (v_value v))"

definition version_row :: "extern \<Rightarrow> version \<Rightarrow> qvalue list" where
  "version_row ext v = [QStr (hex_enc ext (v_replica v)), QNum (v_hlc v), QStr (lossy_str (v_value v))]"

lemma call_size_mem: "ACall c \<in> set args \<Longrightarrow> size c < size (Call name args)"
  using size_list_estimation' [where f = size and x = "ACall c" and xs = args, OF _ order_refl] by auto

lemma call_size_nth: "args ! i = ACall c \<Longrightarrow> i < length args \<Longrightarrow> size c < size (Call name args)"
  by (metis call_size_mem nth_mem)

lemma argc_length: "argc name args n ctx = (Inr x, ctx') \<Longrightarrow> length args = n \<and> ctx' = ctx"
  by (auto simp: argc_def split: if_splits)

function exec :: "extern \<Rightarrow> (string list \<Rightarrow> bytes) \<Rightarrow> call \<Rightarrow> qctx \<Rightarrow> qvalue qres" where
  "exec ext fields_json (Call name args) ctx =
     (case fn_of name of
        Some FNow \<Rightarrow> q_then (argc name args 0 ctx) (\<lambda>_ ctx. q_then (q_now ctx) (\<lambda>h ctx. (Ok (QNum (ms h)), ctx)))
      | Some FHlc \<Rightarrow> q_then (argc name args 0 ctx) (\<lambda>_ ctx. q_then (q_now ctx) (\<lambda>h ctx. (Ok (QNum h), ctx)))
      | Some FBefore \<Rightarrow>
          q_then (argc name args 2 ctx) (\<lambda>_ ctx.
          q_then (num_arg (\<lambda>c x. exec ext fields_json c x) (args ! 0) ctx) (\<lambda>a ctx.
          q_then (num_arg (\<lambda>c x. exec ext fields_json c x) (args ! 1) ctx) (\<lambda>b ctx. (Ok (QBool (a < b)), ctx))))
      | Some FClockSkew \<Rightarrow>
          q_then (argc name args 1 ctx) (\<lambda>_ ctx.
          q_then (str_arg (\<lambda>c x. exec ext fields_json c x) (args ! 0) ctx) (\<lambda>host ctx.
            case peer_clock (q_store ctx) host of
              Some d \<Rightarrow> (Ok (QNum (of_int (max d 0))), ctx)
            | None \<Rightarrow> (Ok QNull, ctx)))
      | Some FUse \<Rightarrow>
          q_then (argc name args 1 ctx) (\<lambda>_ ctx.
            if q_remote ctx then (Err (QType (NotRemote name)), ctx)
            else q_then (str_arg (\<lambda>c x. exec ext fields_json c x) (args ! 0) ctx) (\<lambda>ns ctx.
              if policy (q_store ctx) ns = None then (Err (QEval (NotFound ns)), ctx)
              else (Ok (QBool True), ctx\<lparr>q_scope := Some ns\<rparr>)))
      | Some FCreateNs \<Rightarrow>
          q_then (argc name args 1 ctx) (\<lambda>_ ctx.
            if q_remote ctx then (Err (QType (NotRemote name)), ctx)
            else q_then (str_arg (\<lambda>c x. exec ext fields_json c x) (args ! 0) ctx) (\<lambda>ns ctx.
              q_then (store_mut (create_namespace ext ns PolicyLww) ctx) (\<lambda>_ ctx. (Ok (QBool True), ctx))))
      | Some FGet \<Rightarrow>
          q_then (argc name args 1 ctx) (\<lambda>_ ctx.
          q_then (scope_of ctx) (\<lambda>ns ctx.
          q_then (str_arg (\<lambda>c x. exec ext fields_json c x) (args ! 0) ctx) (\<lambda>k ctx.
            case store_get (q_store ctx) ns (str_bytes k) of
              None \<Rightarrow> (Ok QNull, ctx)
            | Some e \<Rightarrow> (Ok (QStr (entry_text e)), ctx))))
      | Some FPut \<Rightarrow>
          q_then (argc name args 2 ctx) (\<lambda>_ ctx.
          q_then (scope_of ctx) (\<lambda>ns ctx.
          q_then (str_arg (\<lambda>c x. exec ext fields_json c x) (args ! 0) ctx) (\<lambda>k ctx.
          q_then (str_arg (\<lambda>c x. exec ext fields_json c x) (args ! 1) ctx) (\<lambda>v ctx.
          q_then (q_now ctx) (\<lambda>h ctx.
          q_then (store_mut (store_put ext ns (str_bytes k) (str_bytes v) h (q_host ctx) (q_host ctx) 0) ctx)
            (\<lambda>_ ctx. (Ok (QBool True), ctx)))))))
      | Some FDel \<Rightarrow>
          q_then (argc name args 1 ctx) (\<lambda>_ ctx.
          q_then (scope_of ctx) (\<lambda>ns ctx.
          q_then (str_arg (\<lambda>c x. exec ext fields_json c x) (args ! 0) ctx) (\<lambda>k ctx.
          q_then (q_now ctx) (\<lambda>h ctx.
          q_then (store_mut (store_delete ext ns (str_bytes k) h (q_host ctx) (q_host ctx)) ctx)
            (\<lambda>_ ctx. (Ok (QBool True), ctx))))))
      | Some FScan \<Rightarrow>
          q_then (argc name args 1 ctx) (\<lambda>_ ctx.
          q_then (scope_of ctx) (\<lambda>ns ctx.
          q_then (str_arg (\<lambda>c x. exec ext fields_json c x) (args ! 0) ctx) (\<lambda>p ctx.
            (Ok (QList (concat (map (\<lambda>(k, e). [QStr (lossy_str k), QStr (entry_text e)])
               (scan (q_store ctx) ns (str_bytes p))))), ctx))))
      | Some FGetAll \<Rightarrow>
          q_then (argc name args 1 ctx) (\<lambda>_ ctx.
          q_then (scope_of ctx) (\<lambda>ns ctx.
          q_then (str_arg (\<lambda>c x. exec ext fields_json c x) (args ! 0) ctx) (\<lambda>k ctx.
            case store_get (q_store ctx) ns (str_bytes k) of
              Some (Lww v) \<Rightarrow> (Ok (QList (version_row ext v)), ctx)
            | Some (Register vs) \<Rightarrow> (Ok (QList (concat (map (version_row ext) vs))), ctx)
            | None \<Rightarrow> (Ok QNull, ctx))))
      | Some FIndexCreate \<Rightarrow>
          if args = [] then (Err (QType (Usage name)), ctx)
          else
            q_then (scope_of ctx) (\<lambda>ns ctx.
            q_then (str_args (\<lambda>c x. exec ext fields_json c x) args ctx) (\<lambda>fields ctx.
            q_then (q_now ctx) (\<lambda>h ctx.
            q_then (store_mut (set_index ext ns (Some (fields_json fields)) h (q_host ctx) (q_host ctx)) ctx)
              (\<lambda>_ ctx. (Ok (QBool True), ctx)))))
      | Some FIndexFields \<Rightarrow>
          q_then (scope_of ctx) (\<lambda>ns ctx.
            (Ok (QList (map QStr
               (case index_def (q_store ctx) ns of
                  None \<Rightarrow> []
                | Some b \<Rightarrow>
                    (case json_of ext (from_utf8_lossy b) of
                       None \<Rightarrow> []
                     | Some v \<Rightarrow> (case as_string_list v of None \<Rightarrow> [] | Some fs \<Rightarrow> fs))))), ctx))
      | Some FIndexDrop \<Rightarrow>
          q_then (scope_of ctx) (\<lambda>ns ctx.
          q_then (q_now ctx) (\<lambda>h ctx.
          q_then (store_mut (set_index ext ns None h (q_host ctx) (q_host ctx)) ctx)
            (\<lambda>_ ctx. (Ok (QBool True), ctx))))
      | Some FByIndex \<Rightarrow>
          if length args < 2 \<or> 3 < length args then (Err (QType (Usage name)), ctx)
          else
            q_then (scope_of ctx) (\<lambda>ns ctx.
            q_then (str_arg (\<lambda>c x. exec ext fields_json c x) (args ! 0) ctx) (\<lambda>field ctx.
            q_then (str_arg (\<lambda>c x. exec ext fields_json c x) (args ! 1) ctx) (\<lambda>want ctx.
              (Ok (QList (map (\<lambda>(fv, k). QStr (lossy_str k))
                 (takeWhile (\<lambda>(fv, k). fv = str_bytes want)
                    (index_lookup (q_store ctx) ns field (str_bytes want))))), ctx))))
      | None \<Rightarrow> (Err (UnknownFn name), ctx))"
  by pat_completeness auto
termination
  apply (relation "measure (\<lambda>(ext, fj, c, ctx). size c)")
  apply (rule wf_measure)
  apply (unfold in_measure prod.case)
  by (erule call_size_mem | (erule call_size_nth, force dest!: argc_length))+

declare exec.simps [simp del]

definition eval :: "extern \<Rightarrow> (string list \<Rightarrow> bytes) \<Rightarrow> nat \<Rightarrow> string \<Rightarrow> qctx \<Rightarrow> qvalue qres option" where
  "eval ext fields_json n src ctx =
     (case parse_src n src of
        None \<Rightarrow> None
      | Some (Inl e) \<Rightarrow> Some (Err e, ctx)
      | Some (Inr c) \<Rightarrow> Some (exec ext fields_json c ctx))"

text \<open>The text of a call, and the calls that have a text.\<close>

definition esc :: "byte \<Rightarrow> bytes" where
  "esc c = (if c = 34 \<or> c = 92 then [92, c] else [c])"

fun show_call :: "call \<Rightarrow> bytes" and show_arg :: "arg \<Rightarrow> bytes" and show_tail :: "arg list \<Rightarrow> bytes" where
  "show_call (Call name args) =
     str_bytes name @ [40] @ (case args of [] \<Rightarrow> [] | a # as \<Rightarrow> show_arg a @ show_tail as) @ [41]"
| "show_arg (AStr s) = [34] @ concat (map esc (str_bytes s)) @ [34]"
| "show_arg (ACall c) = show_call c"
| "show_tail [] = []"
| "show_tail (a # as) = [44] @ show_arg a @ show_tail as"

definition show_body :: "arg list \<Rightarrow> bytes" where
  "show_body args = (case args of [] \<Rightarrow> [] | a # as \<Rightarrow> show_arg a @ show_tail as)"

text \<open>Parsing from the opening parenthesis gives the call back.\<close>

definition reads_back :: "call \<Rightarrow> bool" where
  "reads_back c \<longleftrightarrow>
     (\<forall>n t rest. tk_rest t = show_body (call_args c) @ 41 # rest \<longrightarrow> length (tk_rest t) < n \<longrightarrow>
        (\<exists>t'. parse_args n (call_name c) [] t = Some (Ok (c, t')) \<and> tk_rest t' = rest))"

definition ident_char :: "byte \<Rightarrow> bool" where
  "ident_char c = (is_alpha c \<or> is_digit c \<or> c = 95)"

definition ident_ok :: "string \<Rightarrow> bool" where
  "ident_ok s =
     (case str_bytes s of [] \<Rightarrow> False | c # bs \<Rightarrow> (is_alpha c \<or> c = 95) \<and> list_all ident_char bs)"

fun call_wf :: "call \<Rightarrow> bool" and arg_wf :: "arg \<Rightarrow> bool" where
  "call_wf (Call name args) = (ident_ok name \<and> list_all arg_wf args)"
| "arg_wf (AStr s) = utf8_ok (str_bytes s)"
| "arg_wf (ACall c) = call_wf c"

definition demo_ctx :: qctx where
  "demo_ctx =
     \<lparr>q_db = empty_db True, q_write = True, q_scope = Some ''n'', q_host = zero32, q_remote = True,
      q_clock = (\<lambda>_. 65536), q_ticks = 0\<rparr>"

text \<open>A step of a remote query that leaves the database alone and does not depend on the lock.\<close>

definition ro :: "(qctx \<Rightarrow> 'a qres) \<Rightarrow> bool" where
  "ro f \<longleftrightarrow>
     (\<forall>ctx. q_remote ctx \<longrightarrow>
        q_db (snd (f ctx)) = q_db ctx \<and> q_remote (snd (f ctx)) \<and>
        (\<forall>b. f (ctx\<lparr>q_write := b\<rparr>) = (fst (f ctx), (snd (f ctx))\<lparr>q_write := b\<rparr>)))"

section \<open>The tokenizer consumes its input\<close>

lemma past_rest [simp]: "tk_rest (past c bs t) = bs"
  by (simp add: past_def)

lemma skip_ws_rest: "length (tk_rest (skip_ws t)) \<le> length (tk_rest t)"
proof -
  have "tk_rest t = bs \<Longrightarrow> length (tk_rest (skip_ws_from bs t)) \<le> length bs" for bs
    by (induction bs t rule: skip_ws_from.induct) (auto intro: le_SucI)
  then show ?thesis by (simp add: skip_ws_def)
qed

lemma lex_string_rest: "lex_string s bs t = Inr (r, t') \<Longrightarrow> length (tk_rest t') < length bs"
proof (induction s bs t rule: lex_string.induct)
  case (1 s t)
  then show ?case by simp
next
  case (2 s c bs t)
  then show ?case by (auto simp: Let_def split: if_splits list.splits)
qed

lemma lex_ident_rest: "tk_rest t = bs \<Longrightarrow> lex_ident s bs t = (r, t') \<Longrightarrow> length (tk_rest t') \<le> length bs"
  by (induction s bs t rule: lex_ident.induct) (auto split: if_splits intro: le_SucI)

lemma token_rest:
  assumes "token t = Inr (Some k, t')"
  shows "length (tk_rest t') < length (tk_rest t)"
proof -
  let ?t = "skip_ws t"
  obtain c bs where r: "tk_rest ?t = c # bs"
    using assms by (cases "tk_rest ?t") (simp_all add: token_def Let_def)
  consider "tk_rest t' = bs" | s where "lex_string [] bs (past c bs ?t) = Inr (s, t')"
    | name where "is_alpha c \<or> c = 95" "lex_ident [] (c # bs) ?t = (name, t')"
    using assms r by (auto simp: token_def Let_def split: if_splits sum.splits prod.splits)
  then have "length (tk_rest t') < length (c # bs)"
  proof cases
    case 2
    then show ?thesis using lex_string_rest by (simp add: less_SucI)
  next
    case 3
    then have "lex_ident [c] bs (past c bs ?t) = (name, t')" by auto
    then show ?thesis using lex_ident_rest [of "past c bs ?t" bs "[c]" name t'] by simp
  qed simp
  then show ?thesis using skip_ws_rest [of t] r by simp
qed

lemma expect_lparen_rest: "expect_lparen name t = Inr t' \<Longrightarrow> length (tk_rest t') < length (tk_rest t)"
  by (auto simp: expect_lparen_def split: sum.splits option.splits tok.splits prod.splits dest: token_rest)

lemma parse_args_total:
  "length (tk_rest t) < n \<Longrightarrow>
   \<exists>r. parse_args n name args t = Some r \<and> (\<forall>c t'. r = Inr (c, t') \<longrightarrow> length (tk_rest t') < length (tk_rest t))"
proof (induction n arbitrary: name args t)
  case 0
  then show ?case by simp
next
  case (Suc n)
  have IH: "\<exists>r. parse_args n m as t1 = Some r \<and> (\<forall>c t'. r = Inr (c, t') \<longrightarrow> length (tk_rest t') < length (tk_rest t))"
    if "length (tk_rest t1) < length (tk_rest t)" for m as t1
    using Suc.IH [of t1 m as] Suc.prems that by fastforce
  show ?case
  proof (cases "token t")
    case (Inl e)
    then show ?thesis by simp
  next
    case (Inr p)
    obtain k t' where p: "token t = Inr (k, t')" using Inr by (cases p) auto
    show ?thesis
    proof (cases k)
      case None
      then show ?thesis using p by simp
    next
      case (Some kk)
      have lt: "length (tk_rest t') < length (tk_rest t)" using token_rest p Some by simp
      show ?thesis
      proof (cases kk)
        case (TIdent m)
        show ?thesis
        proof (cases "expect_lparen m t'")
          case (Inl e)
          then show ?thesis using p Some TIdent by simp
        next
          case (Inr t1)
          then have l1: "length (tk_rest t1) < length (tk_rest t)" using expect_lparen_rest [OF Inr] lt by simp
          obtain r where r: "parse_args n m [] t1 = Some r"
              "\<forall>c t'. r = Inr (c, t') \<longrightarrow> length (tk_rest t') < length (tk_rest t)"
            using IH [OF l1] by blast
          then show ?thesis using p Some TIdent Inr IH by (cases r) auto
        qed
      qed (use p Some lt IH [OF lt] in auto)
    qed
  qed
qed

lemma parse_named_call_total:
  "length (tk_rest t) < n \<Longrightarrow> parse_named_call n m t \<noteq> None"
proof (cases "expect_lparen m t")
  case (Inr t')
  assume "length (tk_rest t) < n"
  then have "length (tk_rest t') < n" using expect_lparen_rest [OF Inr] by simp
  then show ?thesis using parse_args_total [of t' n m "[]"] Inr by (auto simp: parse_named_call_def)
qed (simp add: parse_named_call_def)

lemma parse_call_inner_total:
  assumes "length (tk_rest t) < n"
  shows "parse_call_inner n t \<noteq> None"
proof (cases "token t")
  case (Inl e)
  then show ?thesis by (simp add: parse_call_inner_def)
next
  case (Inr p)
  obtain k t' where p: "p = (k, t')" by (cases p)
  show ?thesis
  proof (cases k)
    case None
    then show ?thesis using Inr p by (simp add: parse_call_inner_def)
  next
    case (Some kk)
    then have "length (tk_rest t') < n" using token_rest [of t kk t'] Inr p assms by simp
    then have "parse_named_call n m t' \<noteq> None" for m by (rule parse_named_call_total)
    then show ?thesis using Inr p Some by (cases kk) (simp_all add: parse_call_inner_def)
  qed
qed

lemma parse_src_total: "length src < n \<Longrightarrow> \<exists>r. parse_src n src = Some r"
proof -
  assume n: "length src < n"
  let ?t = "skip_ws (tk_new src)"
  have "length (tk_rest ?t) \<le> length src"
    using skip_ws_rest [of "tk_new src"] by (simp add: tk_new_def)
  then have "parse_call_inner n ?t \<noteq> None" using n by (intro parse_call_inner_total) simp
  then have "parse_call n (tk_new src) \<noteq> None"
    by (auto simp: parse_call_def Let_def split: option.splits sum.splits)
  then obtain r where "parse_call n (tk_new src) = Some r" by blast
  then show ?thesis by (auto simp: parse_src_def split: sum.splits option.splits prod.splits)
qed

section \<open>The parser inverts printing\<close>

lemma ident_char_bounds: "ident_char c \<Longrightarrow> c < 128" "ident_char c \<Longrightarrow> \<not> is_ascii_ws c"
  "ident_char c \<Longrightarrow> c \<noteq> 34" "ident_char c \<Longrightarrow> c \<noteq> 40" "ident_char c \<Longrightarrow> c \<noteq> 41" "ident_char c \<Longrightarrow> c \<noteq> 44"
  by (auto simp: ident_char_def is_alpha_def is_digit_def is_ascii_ws_def word_le_nat_alt word_less_nat_alt)

lemma lex_ident_stop:
  "tk_rest t = bs @ d # rest \<Longrightarrow> list_all ident_char bs \<Longrightarrow> \<not> ident_char d \<Longrightarrow>
   \<exists>t'. lex_ident s (bs @ d # rest) t = (s @ bs, t') \<and> tk_rest t' = d # rest"
proof (induction bs arbitrary: s t)
  case Nil
  then show ?case by (auto simp: ident_char_def)
next
  case (Cons c bs)
  then show ?case using Cons.IH [of "past c (bs @ d # rest) t" "s @ [c]"]
    by (simp add: ident_char_def)
qed

lemma skip_ws_none: "tk_rest t = c # bs \<Longrightarrow> \<not> is_ascii_ws c \<Longrightarrow> skip_ws t = t"
  by (simp add: skip_ws_def)

lemma lossy_ascii: "\<forall>b \<in> set bs. b < 128 \<Longrightarrow> lossy_str bs = bytes_str bs"
  by (simp add: lossy_str_def lossy_id utf8_ok_ascii)

lemma token_ident:
  assumes "ident_ok name" "tk_rest t = str_bytes name @ 40 # rest"
  shows "\<exists>t'. token t = Inr (Some (TIdent name), t') \<and> tk_rest t' = 40 # rest"
proof -
  obtain c bs where n: "str_bytes name = c # bs" "is_alpha c \<or> c = 95" "list_all ident_char bs"
    using assms(1) by (auto simp: ident_ok_def split: list.splits)
  have c: "ident_char c" using n(2) by (auto simp: ident_char_def)
  have all: "list_all ident_char (c # bs)" using n c by simp
  have "\<not> ident_char 40" by (simp add: ident_char_def is_alpha_def is_digit_def)
  then obtain t' where t': "lex_ident [] (c # bs @ 40 # rest) t = (c # bs, t')" "tk_rest t' = 40 # rest"
    using lex_ident_stop [of t "c # bs" 40 rest "[]"] all assms(2) n(1) by auto
  have "lossy_str (c # bs) = name"
    using lossy_ascii [of "c # bs"] all ident_char_bounds(1) n(1) by (metis bytes_str_bytes list_all_iff)
  moreover have "skip_ws t = t" using skip_ws_none [of t c] assms(2) n(1) ident_char_bounds(2) [OF c] by simp
  ultimately show ?thesis
    using assms(2) n c t' ident_char_bounds [OF c] by (simp add: token_def Let_def)
qed

lemma lex_string_esc:
  "tk_rest t = concat (map esc bs) @ 34 # rest \<Longrightarrow>
   \<exists>t'. lex_string s (concat (map esc bs) @ 34 # rest) t = Inr (s @ bs, t') \<and> tk_rest t' = rest"
proof (induction bs arbitrary: s t)
  case Nil
  then show ?case by simp
next
  case (Cons c bs)
  let ?r = "concat (map esc bs) @ 34 # rest"
  show ?case
  proof (cases "c = 34 \<or> c = 92")
    case True
    then have e: "esc c = [92, c]" by (simp add: esc_def)
    have "lex_string s (92 # c # ?r) t = lex_string (s @ [c]) ?r (past c ?r (past 92 (c # ?r) t))"
      using True by (auto simp: Let_def)
    then show ?thesis using Cons.IH [of "past c ?r (past 92 (c # ?r) t)" "s @ [c]"] by (simp add: e)
  next
    case False
    then have e: "esc c = [c]" by (simp add: esc_def)
    have "lex_string s (c # ?r) t = lex_string (s @ [c]) ?r (past c ?r t)" using False by simp
    then show ?thesis using Cons.IH [of "past c ?r t" "s @ [c]"] by (simp add: e)
  qed
qed

lemma token_str:
  assumes "utf8_ok (str_bytes s)" "tk_rest t = show_arg (AStr s) @ rest"
  shows "\<exists>t'. token t = Inr (Some (TStr s), t') \<and> tk_rest t' = rest"
proof -
  let ?b = "concat (map esc (str_bytes s)) @ 34 # rest"
  have r: "tk_rest t = 34 # ?b" using assms(2) by simp
  have "skip_ws t = t" using skip_ws_none [OF r] by (simp add: is_ascii_ws_def)
  moreover obtain t' where "lex_string [] ?b (past 34 ?b t) = Inr (str_bytes s, t')" "tk_rest t' = rest"
    using lex_string_esc [of "past 34 ?b t" "str_bytes s" rest "[]"] by auto
  moreover have "lossy_str (str_bytes s) = s" using assms(1) by (simp add: lossy_str_def lossy_id)
  ultimately show ?thesis using r by (simp add: token_def Let_def)
qed

lemma token_punct:
  assumes "tk_rest t = c # rest" "(c, k) \<in> {(40, LParen), (41, RParen), (44, Comma)}"
  shows "token t = Inr (Some k, past c rest t)"
proof -
  have "skip_ws t = t" using skip_ws_none [OF assms(1)] assms(2) by (auto simp: is_ascii_ws_def)
  then show ?thesis using assms by (auto simp: token_def Let_def)
qed

lemma show_call_body: "show_call (Call name args) = str_bytes name @ 40 # show_body args @ [41]"
  by (simp add: show_body_def)

lemma expect_lparen_ok: "tk_rest t = 40 # rest \<Longrightarrow> \<exists>t'. expect_lparen name t = Inr t' \<and> tk_rest t' = rest"
  using token_punct [of t 40 rest LParen] by (simp add: expect_lparen_def)

lemma arg_step:
  assumes wf: "arg_wf a" and rb: "\<And>c. a = ACall c \<Longrightarrow> reads_back c"
    and r: "tk_rest t = show_arg a @ rest" and n: "length (tk_rest t) < Suc n"
  shows "\<exists>t'. parse_args (Suc n) name acc t = parse_args n name (acc @ [a]) t' \<and> tk_rest t' = rest"
proof (cases a)
  case (AStr s)
  then show ?thesis using token_str [of s t rest] wf r by auto
next
  case (ACall c)
  obtain m as where c: "c = Call m as" by (cases c)
  have wm: "ident_ok m" using wf by (simp add: ACall c)
  have r1: "tk_rest t = str_bytes m @ 40 # show_body as @ 41 # rest"
    using r by (simp only: ACall c show_arg.simps show_call_body) simp
  obtain t1 where t1: "token t = Inr (Some (TIdent m), t1)" "tk_rest t1 = 40 # show_body as @ 41 # rest"
    using token_ident [OF wm r1] by blast
  obtain t2 where t2: "expect_lparen m t1 = Inr t2" "tk_rest t2 = show_body as @ 41 # rest"
    using expect_lparen_ok [OF t1(2)] by blast
  have "length (tk_rest t2) < n" using n r1 t2(2) by simp
  then obtain t3 where "parse_args n m [] t2 = Some (Ok (c, t3))" "tk_rest t3 = rest"
    using rb [OF ACall, unfolded reads_back_def, rule_format, of t2 rest n] t2(2) by (auto simp: c)
  then show ?thesis using t1 t2 by (intro exI [of _ t3]) (simp add: ACall)
qed

lemma show_arg_nonempty: "1 \<le> length (show_arg a)"
  by (cases a; cases "case a of ACall c \<Rightarrow> c") auto

lemma tail_reads_back:
  assumes "\<forall>a \<in> set as. arg_wf a \<and> (\<forall>c. a = ACall c \<longrightarrow> reads_back c)"
  shows "acc \<noteq> [] \<Longrightarrow> tk_rest t = show_tail as @ 41 # rest \<Longrightarrow> length (tk_rest t) < n \<Longrightarrow>
    \<exists>t'. parse_args n name acc t = Some (Ok (Call name (acc @ as), t')) \<and> tk_rest t' = rest"
  using assms
proof (induction as arbitrary: acc t n)
  case Nil
  then obtain k where "n = Suc k" by (cases n) auto
  then show ?case using token_punct [of t 41 rest RParen] Nil by simp
next
  case (Cons a as)
  let ?r = "show_tail as @ 41 # rest"
  obtain k where n: "n = Suc (Suc k)" using Cons.prems(2,3) by (cases n; cases "n - 1") auto
  have "token t = Inr (Some Comma, past 44 (show_arg a @ ?r) t)"
    using token_punct [of t 44 "show_arg a @ ?r" Comma] Cons.prems(2) by simp
  then have s: "parse_args n name acc t = parse_args (Suc k) name acc (past 44 (show_arg a @ ?r) t)"
    using Cons.prems(1) by (simp add: n)
  obtain t1 where t1: "parse_args (Suc k) name acc (past 44 (show_arg a @ ?r) t) = parse_args k name (acc @ [a]) t1"
      "tk_rest t1 = ?r"
    using arg_step [of a "past 44 (show_arg a @ ?r) t" ?r k name acc] Cons.prems n by auto
  have "length (tk_rest t1) < k"
    using Cons.prems(2,3) t1(2) show_arg_nonempty [of a] unfolding n by (simp del: length_greater_0_conv One_nat_def)
  then show ?case using Cons.IH [of "acc @ [a]" t1 k] t1 s Cons.prems(4) by simp
qed

lemma call_reads_back: "call_wf c \<Longrightarrow> reads_back c"
proof (induction "size c" arbitrary: c rule: less_induct)
  case less
  obtain name args where c: "c = Call name args" by (cases c)
  have sub: "\<forall>a \<in> set args. arg_wf a \<and> (\<forall>d. a = ACall d \<longrightarrow> reads_back d)"
  proof (intro ballI conjI allI impI)
    fix a assume a: "a \<in> set args"
    show wf: "arg_wf a" using less.prems a by (auto simp: c list_all_iff)
    fix d assume "a = ACall d"
    then show "reads_back d" using less.hyps [of d] call_size_mem [of d args name] a wf by (simp add: c)
  qed
  show ?case unfolding reads_back_def
  proof (intro allI impI)
    fix n and t :: tokenizer and rest
    assume r: "tk_rest t = show_body (call_args c) @ 41 # rest" and n: "length (tk_rest t) < n"
    obtain k where k: "n = Suc k" using n by (cases n) auto
    show "\<exists>t'. parse_args n (call_name c) [] t = Some (Ok (c, t')) \<and> tk_rest t' = rest"
    proof (cases args)
      case Nil
      then show ?thesis using token_punct [of t 41 rest RParen] r by (simp add: c k show_body_def)
    next
      case (Cons a as)
      let ?r = "show_tail as @ 41 # rest"
      have r1: "tk_rest t = show_arg a @ ?r" using r by (simp add: c Cons show_body_def)
      obtain t1 where t1: "parse_args (Suc k) name [] t = parse_args k name [a] t1" "tk_rest t1 = ?r"
        using arg_step [OF _ _ r1, of k name "[]"] sub n k Cons by auto
      have "length (tk_rest t1) < k"
        using n r1 t1(2) show_arg_nonempty [of a] unfolding k by simp
      then show ?thesis using tail_reads_back [of as "[a]" t1 rest k name] sub t1 Cons by (simp add: c k)
    qed
  qed
qed

lemma parse_src_show:
  assumes wf: "call_wf c" and n: "length (show_call c) < n"
  shows "parse_src n (bytes_str (show_call c)) = Some (Ok c)"
proof -
  obtain name args where c: "c = Call name args" by (cases c)
  let ?t = "tk_new (bytes_str (show_call c))"
  have r: "tk_rest ?t = str_bytes name @ 40 # show_body args @ 41 # []"
    by (simp add: tk_new_def c show_call_body del: show_call.simps)
  have id: "ident_ok name" using wf by (simp add: c)
  then obtain b bs where b: "str_bytes name = b # bs" "ident_char b"
    by (auto simp: ident_ok_def ident_char_def split: list.splits)
  have sk: "skip_ws ?t = ?t" and pk: "peek ?t \<noteq> None"
    using skip_ws_none [of ?t b] r b ident_char_bounds(2) by (auto simp: peek_def)
  obtain t1 where t1: "token ?t = Inr (Some (TIdent name), t1)" "tk_rest t1 = 40 # show_body args @ 41 # []"
    using token_ident [OF id r] by blast
  obtain t2 where t2: "expect_lparen name t1 = Inr t2" "tk_rest t2 = show_body args @ 41 # []"
    using expect_lparen_ok [OF t1(2)] by blast
  have "length (tk_rest t2) < n" using n t2(2) by (simp add: c show_call_body del: show_call.simps)
  then obtain t3 where t3: "parse_args n name [] t2 = Some (Ok (c, t3))" "tk_rest t3 = []"
    using call_reads_back [OF wf, unfolded reads_back_def, rule_format, of t2 "[]" n] t2(2) by (auto simp: c)
  have "expect_end t3 = Ok ()" using t3(2) by (simp add: expect_end_def skip_ws_def peek_def Let_def)
  then show ?thesis
    using sk pk t1 t2 t3 by (simp add: parse_src_def parse_call_def parse_call_inner_def parse_named_call_def Let_def)
qed

section \<open>Read-only statements\<close>

lemma reads_pure [intro!]: "ro (\<lambda>ctx. (r, ctx))"
  by (simp add: ro_def)

lemma reads_argc [intro!]: "ro (argc name args n)"
  by (simp add: ro_def argc_def)

lemma reads_now [intro!]: "ro q_now"
  by (simp add: ro_def q_now_def)

lemma reads_scope [intro!]: "ro scope_of"
  by (auto simp: ro_def scope_of_def split: option.splits)

lemma reads_store [intro!]: "ro (\<lambda>ctx. (g (q_store ctx), ctx))"
  by (simp add: ro_def q_store_def)

lemma reads_then [intro!]:
  assumes f: "ro f" and k: "\<And>x. ro (k x)"
  shows "ro (\<lambda>ctx. q_then (f ctx) k)"
  unfolding ro_def
proof (intro allI impI)
  fix ctx :: qctx assume r: "q_remote ctx"
  obtain x c where fx: "f ctx = (x, c)" by (cases "f ctx")
  have c: "q_db c = q_db ctx" "q_remote c" "\<And>b. f (ctx\<lparr>q_write := b\<rparr>) = (x, c\<lparr>q_write := b\<rparr>)"
    using f r unfolding ro_def by (auto simp: fx)
  show "q_db (snd (q_then (f ctx) k)) = q_db ctx \<and> q_remote (snd (q_then (f ctx) k)) \<and>
      (\<forall>b. q_then (f (ctx\<lparr>q_write := b\<rparr>)) k =
        (fst (q_then (f ctx) k), (snd (q_then (f ctx) k))\<lparr>q_write := b\<rparr>))"
    using k c unfolding ro_def by (cases x) (simp_all add: q_then_def fx)
qed

lemma q_store_write [simp]: "q_store (ctx\<lparr>q_write := b\<rparr>) = q_store ctx"
  by (simp add: q_store_def)

lemma reads_view: "(\<And>ctx b. g (ctx\<lparr>q_write := b\<rparr>) = g ctx) \<Longrightarrow> ro (\<lambda>ctx. (g ctx, ctx))"
  by (simp add: ro_def)

lemma reads_case: "ro f \<Longrightarrow> (\<And>x. ro (k x)) \<Longrightarrow>
    ro (\<lambda>ctx. case h (q_store ctx) of None \<Rightarrow> f ctx | Some x \<Rightarrow> k x ctx)"
  by (auto simp: ro_def split: option.splits)

lemma reads_on_entry: "(\<And>v. ro (f v)) \<Longrightarrow> (\<And>vs. ro (g vs)) \<Longrightarrow>
    ro (\<lambda>ctx. case e of Lww v \<Rightarrow> f v ctx | Register vs \<Rightarrow> g vs ctx)"
  by (cases e) simp_all

lemma reads_remote: "ro (\<lambda>ctx. if q_remote ctx then (r, ctx) else f ctx)"
  by (simp add: ro_def)

lemma reads_str_arg: "(\<And>c. a = ACall c \<Longrightarrow> ro (ex c)) \<Longrightarrow> ro (str_arg ex a)"
proof (cases a)
  case (ACall c)
  assume "\<And>c. a = ACall c \<Longrightarrow> ro (ex c)"
  then have "ro (ex c)" using ACall by blast
  moreover have "ro (\<lambda>ctx. case v of QStr s \<Rightarrow> (Ok s, ctx) | _ \<Rightarrow> (Err (QType (ExpectedStr (call_name c) v)), ctx))" for v
    by (cases v) auto
  moreover have "str_arg ex a = (\<lambda>ctx. q_then (ex c ctx) (\<lambda>v ctx.
      case v of QStr s \<Rightarrow> (Ok s, ctx) | _ \<Rightarrow> (Err (QType (ExpectedStr (call_name c) v)), ctx)))"
    by (rule ext) (simp add: str_arg_def ACall)
  ultimately show ?thesis by (simp only:) (rule reads_then)
next
  case (AStr s)
  have "str_arg ex a = (\<lambda>ctx. (Ok s, ctx))" by (rule ext) (simp add: str_arg_def AStr)
  then show ?thesis by auto
qed

lemma reads_num_arg: "(\<And>c. a = ACall c \<Longrightarrow> ro (ex c)) \<Longrightarrow> ro (num_arg ex a)"
proof (cases a)
  case (ACall c)
  assume "\<And>c. a = ACall c \<Longrightarrow> ro (ex c)"
  then have "ro (ex c)" using ACall by blast
  moreover have "ro (\<lambda>ctx. case v of QNum n \<Rightarrow> (Ok n, ctx) | _ \<Rightarrow> (Err (QType (ExpectedNum (call_name c) v)), ctx))" for v
    by (cases v) auto
  moreover have "num_arg ex a = (\<lambda>ctx. q_then (ex c ctx) (\<lambda>v ctx.
      case v of QNum n \<Rightarrow> (Ok n, ctx) | _ \<Rightarrow> (Err (QType (ExpectedNum (call_name c) v)), ctx)))"
    by (rule ext) (simp add: num_arg_def ACall)
  ultimately show ?thesis by (simp only:) (rule reads_then)
next
  case (AStr s)
  have "num_arg ex a = (\<lambda>ctx. (case parse_u64 s of Some n \<Rightarrow> Ok n | None \<Rightarrow> Err (QType (NotANumber s)), ctx))"
    by (rule ext) (simp add: num_arg_def AStr split: option.splits)
  then show ?thesis by auto
qed

lemma fn_of_mutator: "fn_of name = Some f \<Longrightarrow> f \<in> {FPut, FDel, FIndexCreate, FIndexDrop} \<Longrightarrow> is_mutator name"
  by (auto simp: fn_of_def is_mutator_def split: if_splits)

lemma reads_argc_fail: "length args \<noteq> n \<Longrightarrow> ro (\<lambda>ctx. q_then (argc name args n ctx) k)"
  by (simp add: ro_def q_then_def argc_def)

lemma exec_reads: "\<not> contains_mutator c \<Longrightarrow> ro (exec ext fields_json c)"
proof (induction "size c" arbitrary: c rule: less_induct)
  case less
  obtain name args where c: "c = Call name args" by (cases c)
  have sub: "ro (exec ext fields_json d)" if "ACall d \<in> set args" for d
    using less.hyps [of d] call_size_mem [OF that, of name] less.prems that by (auto simp: c list_ex_iff)
  have sa: "ro (str_arg (\<lambda>c x. exec ext fields_json c x) (args ! i))"
    and na: "ro (num_arg (\<lambda>c x. exec ext fields_json c x) (args ! i))" if "i < length args" for i
    using reads_str_arg [of "args ! i" "exec ext fields_json"] reads_num_arg [of "args ! i" "exec ext fields_json"]
      sub that by (metis nth_mem)+
  show ?case
  proof (cases "fn_of name")
    case None
    then have "exec ext fields_json c = (\<lambda>ctx. (Err (UnknownFn name), ctx))" by (intro ext) (simp add: c exec.simps)
    then show ?thesis by auto
  next
    case (Some f)
    have nm: "f \<notin> {FPut, FDel, FIndexCreate, FIndexDrop}"
      using fn_of_mutator [OF Some] less.prems by (auto simp: c)
    have e: "exec ext fields_json c = (\<lambda>ctx. exec ext fields_json (Call name args) ctx)" by (simp add: c)
    have ro_argc: "(length args = n \<Longrightarrow> P) \<Longrightarrow> (length args \<noteq> n \<Longrightarrow> P) \<Longrightarrow> P" for n P by blast
    note ri = reads_then reads_argc reads_now reads_scope reads_pure reads_remote reads_case reads_on_entry reads_view sa na
    show ?thesis
    proof (cases f)
      case FBefore
      show ?thesis unfolding e exec.simps Some option.case FBefore qfn.case
        by (rule ro_argc [where n = 2], (auto intro!: ri)[1], rule reads_argc_fail)
    next
      case FClockSkew
      show ?thesis unfolding e exec.simps Some option.case FClockSkew qfn.case
        by (rule ro_argc [where n = 1], (auto intro!: ri)[1], rule reads_argc_fail)
    next
      case FGet
      show ?thesis unfolding e exec.simps Some option.case FGet qfn.case
        by (rule ro_argc [where n = 1], (auto intro!: ri)[1], rule reads_argc_fail)
    next
      case FScan
      show ?thesis unfolding e exec.simps Some option.case FScan qfn.case
        by (rule ro_argc [where n = 1], (auto intro!: ri)[1], rule reads_argc_fail)
    next
      case FGetAll
      show ?thesis unfolding e exec.simps Some option.case FGetAll qfn.case
        by (rule ro_argc [where n = 1], (auto intro!: ri)[1], rule reads_argc_fail)
    next
      case FIndexFields
      show ?thesis unfolding e exec.simps Some option.case FIndexFields qfn.case by (auto intro!: ri)
    next
      case FByIndex
      show ?thesis unfolding e exec.simps Some option.case FByIndex qfn.case
        by (cases "length args < 2 \<or> 3 < length args") (auto intro!: ri)
    next
      case FNow
      show ?thesis unfolding e exec.simps Some option.case FNow qfn.case by (auto intro!: ri)
    next
      case FHlc
      show ?thesis unfolding e exec.simps Some option.case FHlc qfn.case by (auto intro!: ri)
    next
      case FUse
      show ?thesis unfolding e exec.simps Some option.case FUse qfn.case by (auto intro!: ri)
    next
      case FCreateNs
      show ?thesis unfolding e exec.simps Some option.case FCreateNs qfn.case by (auto intro!: ri)
    qed (use nm in auto)
  qed
qed

section \<open>Properties\<close>



text \<open>Parsing inverts printing: the text of a well-formed call, nested to any depth and with any
  quotes and backslashes in its strings, parses to exactly that call.\<close>

theorem query_roundtrip:
  assumes "call_wf c"
  shows "parse_src (Suc (length (show_call c))) (bytes_str (show_call c)) = Some (Ok c)"
  using parse_src_show [OF assms] by simp

theorem query_roundtrip_witness:
  "parse_src (Suc (length (show_call (Call ''get'' [ACall (Call ''put'' [AStr [CHR 0x22], AStr ''v'']), AStr []])))) (bytes_str (show_call (Call ''get'' [ACall (Call ''put'' [AStr [CHR 0x22], AStr ''v'']), AStr []]))) =
   Some (Ok (Call ''get'' [ACall (Call ''put'' [AStr [CHR 0x22], AStr ''v'']), AStr []]))" (is "parse_src _ (bytes_str (show_call ?c)) = _")
proof -
  have "call_wf ?c"
    by (simp add: ident_ok_def is_alpha_def ident_char_def str_bytes_def utf8_ok_ascii)
  then show ?thesis by (rule query_roundtrip)
qed

text \<open>C15.  A statement classified as read-only does not write: evaluated for a remote caller it leaves
  the database as it is, and gives the same result under the read lock as under the write
  lock.\<close>

theorem read_only_query_pure:
  assumes "classify n src = Some (Ok ReadOnly)" "q_remote ctx"
    and "eval ext fields_json n src ctx = Some (r, ctx')"
  shows "q_db ctx' = q_db ctx \<and>
    eval ext fields_json n src (ctx\<lparr>q_write := b\<rparr>) = Some (r, ctx'\<lparr>q_write := b\<rparr>)"
proof -
  obtain c where c: "parse_src n src = Some (Inr c)" "\<not> contains_mutator c"
    using assms(1) by (auto simp: classify_def split: option.splits sum.splits if_splits)
  have "exec ext fields_json c ctx = (r, ctx')" using assms(3) by (simp add: eval_def c)
  then show ?thesis using exec_reads [OF c(2), of ext fields_json] assms(2) unfolding ro_def
    by (simp add: eval_def c) (metis fst_conv snd_conv)
qed

theorem read_only_query_pure_witness:
  "classify 6 ''now()'' = Some (Ok ReadOnly) \<and>
   eval demo_ext (\<lambda>_. []) 6 ''now()'' (demo_ctx\<lparr>q_write := False\<rparr>) =
     Some (Ok (QNum 1), demo_ctx\<lparr>q_ticks := 1, q_write := False\<rparr>)"
proof -
  let ?c = "Call ''now'' []"
  have wf: "call_wf ?c" by (simp add: ident_ok_def is_alpha_def ident_char_def str_bytes_def)
  have sh: "show_call ?c = str_bytes ''now()''" by (simp add: str_bytes_def)
  have p: "parse_src 6 ''now()'' = Some (Ok ?c)"
    using parse_src_show [OF wf, of 6] unfolding sh bytes_str_bytes by simp
  have cl: "classify 6 ''now()'' = Some (Ok ReadOnly)" by (simp add: classify_def p is_mutator_def)
  have "eval demo_ext (\<lambda>_. []) 6 ''now()'' demo_ctx = Some (Ok (QNum 1), demo_ctx\<lparr>q_ticks := 1\<rparr>)"
    by (simp add: eval_def p exec.simps fn_of_def argc_def q_then_def q_now_def demo_ctx_def ms_def PHYS_SHIFT_def drop_bit_eq_div)
  from read_only_query_pure [OF cl _ this, of False] show ?thesis using cl by (simp add: demo_ctx_def)
qed

end
