(* ===== verification/Config.thy ===== *)
theory Config
  imports Caps
begin

text \<open>
  The configuration file and the table of peers (\<open>src/server/config.rs\<close>).  The TOML crate and
  the multiaddress parser of \<open>libp2p\<close> are the parameters \<open>toml\<close> and \<open>addr_ok\<close>; the text of
  the file and the parent of its path, which the file system and \<open>Path::parent\<close> give, are
  arguments of \<open>load\<close>.  Error values keep what the message names.

  The lemmas show which files load, that the administration of peers keeps a loadable
  configuration loadable, and two ways in which the running daemon saves one that is not
  the same, or not loadable, at the next start.
\<close>

section \<open>Definitions\<close>

record ratelimit_cfg =
  rc_enabled :: bool
  rc_max_requests :: u64
  rc_window_secs :: u64

record tls_cfg =
  tls_cert_path :: string
  tls_key_path :: string

record node_cfg =
  nc_name :: string
  nc_data_dir :: string
  nc_listen :: string
  nc_p2p_listen :: string
  nc_worker_threads :: nat
  nc_mesh_sync :: bool
  nc_sync_interval_secs :: u64
  nc_durable_writes :: bool
  nc_gc_interval_secs :: u64
  nc_ratelimit :: ratelimit_cfg
  nc_tls :: "tls_cfg option"
  nc_default_quota :: u64

record peer =
  pr_name :: string
  pr_addr :: string
  pr_pin :: string
  pr_namespaces :: "string list option"

record config =
  cfg_node :: node_cfg
  cfg_peers :: "peer list"

definition default_ratelimit :: ratelimit_cfg where
  "default_ratelimit = \<lparr>rc_enabled = True, rc_max_requests = 600, rc_window_secs = 60\<rparr>"

definition default_node :: node_cfg where
  "default_node =
     \<lparr>nc_name = ''api.bunnymeshdb.test.com'', nc_data_dir = ''./data'', nc_listen = ''127.0.0.1:8848'',
      nc_p2p_listen = ''9002'', nc_worker_threads = 4, nc_mesh_sync = True, nc_sync_interval_secs = 30,
      nc_durable_writes = False, nc_gc_interval_secs = 0, nc_ratelimit = default_ratelimit, nc_tls = None,
      nc_default_quota = 1073741824\<rparr>"

definition default_config :: config where
  "default_config = \<lparr>cfg_node = default_node, cfg_peers = []\<rparr>"

datatype config_error =
    ReadFailed | ParseFailed | SerializeFailed | WriteFailed | DuplicatePin string string | PeerExists string | InvalidAddr string | InvalidPin
  | DuplicateIdentity string

text \<open>The two functions of the TOML crate.\<close>

record toml_ext =
  toml_parse :: "string \<Rightarrow> config option"
  toml_print :: "config \<Rightarrow> string option"

text \<open>The search for two peers with one pin; \<open>seen\<close> maps pins to names.\<close>

fun check_pins :: "(string \<rightharpoonup> string) \<Rightarrow> peer list \<Rightarrow> (config_error, unit) result" where
  "check_pins seen [] = Ok ()"
| "check_pins seen (p # ps) =
     (if pr_pin p = [] then check_pins seen ps
      else case seen (pr_pin p) of
             Some other \<Rightarrow> Err (DuplicatePin (pr_name p) other)
           | None \<Rightarrow> check_pins (seen(pr_pin p \<mapsto> pr_name p)) ps)"

text \<open>\<open>Path::join\<close> with a relative second part.\<close>

definition path_join :: "string \<Rightarrow> string \<Rightarrow> string" where
  "path_join parent rel =
     (if parent = [] then rel else if last parent = CHR ''/'' then parent @ rel else parent @ ''/'' @ rel)"

definition place_data_dir :: "string option \<Rightarrow> config \<Rightarrow> config" where
  "place_data_dir parent cfg =
     (case parent of
        None \<Rightarrow> cfg
      | Some dir \<Rightarrow>
          if prefix ''/'' (nc_data_dir (cfg_node cfg)) then cfg
          else cfg\<lparr>cfg_node := (cfg_node cfg)\<lparr>nc_data_dir := path_join dir (nc_data_dir (cfg_node cfg))\<rparr>\<rparr>)"

definition load_config :: "toml_ext \<Rightarrow> string option \<Rightarrow> string option \<Rightarrow> (config_error, config) result" where
  "load_config toml text_read parent =
     (case text_read of
        None \<Rightarrow> Err ReadFailed
      | Some s \<Rightarrow>
          (case toml_parse toml s of
             None \<Rightarrow> Err ParseFailed
           | Some cfg \<Rightarrow>
               (case check_pins Map.empty (cfg_peers cfg) of
                  Inl e \<Rightarrow> Err e
                | Inr _ \<Rightarrow> Ok (place_data_dir parent cfg))))"

text \<open>The new text of the file; \<open>writable\<close> tells whether the file system takes it.\<close>

definition save_config :: "toml_ext \<Rightarrow> bool \<Rightarrow> config \<Rightarrow> (config_error, string) result" where
  "save_config toml writable cfg =
     (case toml_print toml cfg of
        None \<Rightarrow> Err SerializeFailed
      | Some s \<Rightarrow> if writable then Ok s else Err WriteFailed)"

definition find_peer :: "config \<Rightarrow> string \<Rightarrow> peer option" where
  "find_peer cfg name = List.find (\<lambda>p. pr_name p = name) (cfg_peers cfg)"

text \<open>\<open>peer_mut\<close> and the assignment through the reference it returns.\<close>

fun update_first :: "('a \<Rightarrow> bool) \<Rightarrow> ('a \<Rightarrow> 'a) \<Rightarrow> 'a list \<Rightarrow> 'a list" where
  "update_first P f [] = []"
| "update_first P f (x # xs) = (if P x then f x # xs else x # update_first P f xs)"

definition set_pin :: "string \<Rightarrow> string \<Rightarrow> config \<Rightarrow> config" where
  "set_pin name pin cfg =
     cfg\<lparr>cfg_peers := update_first (\<lambda>p. pr_name p = name) (\<lambda>p. p\<lparr>pr_pin := pin\<rparr>) (cfg_peers cfg)\<rparr>"

definition add_peer_scoped ::
  "extern \<Rightarrow> (string \<Rightarrow> bool) \<Rightarrow> string \<Rightarrow> string \<Rightarrow> string \<Rightarrow> string list option \<Rightarrow> config \<Rightarrow> (config_error, config) result" where
  "add_peer_scoped ext addr_ok name addr pin nss cfg =
     (if find_peer cfg name \<noteq> None then Err (PeerExists name)
      else if \<not> addr_ok addr then Err (InvalidAddr addr)
      else if pin \<noteq> [] \<and> \<not> is_ok (parse_pk ext pin) then Err InvalidPin
      else case (if pin = [] then None else List.find (\<lambda>p. pr_pin p = pin) (cfg_peers cfg)) of
             Some p \<Rightarrow> Err (DuplicateIdentity (pr_name p))
           | None \<Rightarrow>
               Ok (cfg\<lparr>cfg_peers := cfg_peers cfg @
                     [\<lparr>pr_name = name, pr_addr = addr, pr_pin = pin, pr_namespaces = nss\<rparr>]\<rparr>))"

definition add_peer :: "extern \<Rightarrow> (string \<Rightarrow> bool) \<Rightarrow> string \<Rightarrow> string \<Rightarrow> string \<Rightarrow> config \<Rightarrow> (config_error, config) result" where
  "add_peer ext addr_ok name addr pin cfg = add_peer_scoped ext addr_ok name addr pin None cfg"

definition remove_peer :: "string \<Rightarrow> config \<Rightarrow> bool \<times> config" where
  "remove_peer name cfg =
     (let keep = filter (\<lambda>p. pr_name p \<noteq> name) (cfg_peers cfg)
      in (length keep \<noteq> length (cfg_peers cfg), cfg\<lparr>cfg_peers := keep\<rparr>))"

text \<open>The command \<open>untrust\<close> clears a pin.\<close>

definition untrust :: "string \<Rightarrow> config \<Rightarrow> config option" where
  "untrust name cfg = (if find_peer cfg name = None then None else Some (set_pin name [] cfg))"

text \<open>The pins in use, and what makes a file loadable.\<close>

fun pins_of :: "peer list \<Rightarrow> string list" where
  "pins_of [] = []"
| "pins_of (p # ps) = (if pr_pin p = [] then pins_of ps else pr_pin p # pins_of ps)"

definition pins :: "config \<Rightarrow> string list" where
  "pins cfg = pins_of (cfg_peers cfg)"

text \<open>Relied on: a configuration that prints parses back to itself.\<close>

definition toml_ok :: "toml_ext \<Rightarrow> config \<Rightarrow> bool" where
  "toml_ok toml cfg = (\<forall>s. toml_print toml cfg = Some s \<longrightarrow> toml_parse toml s = Some cfg)"

text \<open>A peer and a pair of functions for concrete instances.\<close>

definition demo_peer :: peer where
  "demo_peer = \<lparr>pr_name = ''p'', pr_addr = ''x'', pr_pin = [], pr_namespaces = None\<rparr>"

definition demo_toml :: "config \<Rightarrow> toml_ext" where
  "demo_toml c =
     \<lparr>toml_parse = (\<lambda>s. if s = ''a'' then Some default_config else if s = ''b'' then Some c else None),
      toml_print = (\<lambda>x. if x = c then Some ''b'' else None)\<rparr>"

text \<open>The changes an administrator can make, in order.\<close>

datatype peer_change =
    Add string string string "string list option"
  | Remove string
  | Untrust string

fun change_peers :: "extern \<Rightarrow> (string \<Rightarrow> bool) \<Rightarrow> config \<Rightarrow> peer_change \<Rightarrow> config" where
  "change_peers ext addr_ok cfg (Add name addr pin nss) =
     (case add_peer_scoped ext addr_ok name addr pin nss cfg of Inl _ \<Rightarrow> cfg | Inr cfg' \<Rightarrow> cfg')"
| "change_peers ext addr_ok cfg (Remove name) = snd (remove_peer name cfg)"
| "change_peers ext addr_ok cfg (Untrust name) = (case untrust name cfg of None \<Rightarrow> cfg | Some cfg' \<Rightarrow> cfg')"

section \<open>Pins\<close>

lemma set_pins_of: "x \<in> set (pins_of ps) \<longleftrightarrow> x \<noteq> [] \<and> (\<exists>p \<in> set ps. pr_pin p = x)"
  by (induction ps) auto

lemma pins_of_append [simp]: "pins_of (ps @ qs) = pins_of ps @ pins_of qs"
  by (induction ps) auto

lemma check_pins_ok: "is_ok (check_pins seen ps) \<longleftrightarrow> distinct (pins_of ps) \<and> (\<forall>x \<in> set (pins_of ps). seen x = None)"
  by (induction ps arbitrary: seen) (auto split: option.split)

lemma load_saved:
  assumes "toml_ok toml cfg" "save_config toml writable cfg = Ok s" "distinct (pins cfg)"
  shows "load_config toml (Some s) parent = Ok (place_data_dir parent cfg)"
proof -
  have "toml_parse toml s = Some cfg"
    using assms(1,2) by (auto simp: toml_ok_def save_config_def split: option.splits if_splits)
  then show ?thesis
    using check_pins_ok [of Map.empty "cfg_peers cfg"] assms(3)
    by (cases "check_pins Map.empty (cfg_peers cfg)") (auto simp: load_config_def pins_def)
qed

lemma loaded:
  assumes "load_config toml text_read parent = Ok cfg"
  obtains c0 where "cfg = place_data_dir parent c0" "distinct (pins cfg)"
proof -
  obtain c0 where c0: "check_pins Map.empty (cfg_peers c0) = Ok ()" "cfg = place_data_dir parent c0"
    using assms by (auto simp: load_config_def split: option.splits sum.splits)
  have "cfg_peers cfg = cfg_peers c0" using c0(2) by (simp add: place_data_dir_def split: option.split)
  then have "distinct (pins cfg)" using check_pins_ok [of Map.empty "cfg_peers c0"] c0(1) by (simp add: pins_def)
  then show thesis by (rule that [OF c0(2)])
qed

lemma pins_add:
  assumes "add_peer_scoped ext addr_ok name addr pin nss cfg = Ok cfg'"
  shows "pins cfg' = pins cfg @ (if pin = [] then [] else [pin])" "pin \<notin> set (pins cfg)" "cfg_node cfg' = cfg_node cfg"
  using assms
  by (auto simp: add_peer_scoped_def pins_def set_pins_of find_None_iff split: if_splits option.splits)

lemma distinct_pins_add:
  "distinct (pins cfg) \<Longrightarrow> add_peer_scoped ext addr_ok name addr pin nss cfg = Ok cfg' \<Longrightarrow> distinct (pins cfg')"
  by (simp add: pins_add)

lemma distinct_pins_filter: "distinct (pins_of ps) \<Longrightarrow> distinct (pins_of (filter P ps))"
  by (induction ps) (auto simp: set_pins_of)

lemma distinct_pins_clear: "distinct (pins_of ps) \<Longrightarrow> distinct (pins_of (update_first P (\<lambda>p. p\<lparr>pr_pin := []\<rparr>) ps))"
proof (induction ps)
  case (Cons p ps)
  have "set (pins_of (update_first P (\<lambda>p. p\<lparr>pr_pin := []\<rparr>) ps)) \<subseteq> set (pins_of ps)" by (induction ps) auto
  then show ?case using Cons by auto
qed simp

lemma change_peers_pins:
  assumes "distinct (pins cfg)"
  shows "distinct (pins (change_peers ext addr_ok cfg c))"
proof (cases c)
  case (Add name addr pin nss)
  then show ?thesis using assms distinct_pins_add [OF assms] by (auto split: sum.split)
next
  case (Remove name)
  then show ?thesis using assms by (simp add: remove_peer_def Let_def pins_def distinct_pins_filter)
next
  case (Untrust name)
  then show ?thesis using assms by (simp add: untrust_def set_pin_def pins_def distinct_pins_clear)
qed

lemma change_peers_node: "cfg_node (change_peers ext addr_ok cfg c) = cfg_node cfg"
  by (cases c) (auto simp: remove_peer_def Let_def untrust_def set_pin_def pins_add split: sum.split)

lemma fold_changes:
  "distinct (pins cfg) \<Longrightarrow> distinct (pins (foldl (change_peers ext addr_ok) cfg cs))"
  "cfg_node (foldl (change_peers ext addr_ok) cfg cs) = cfg_node cfg"
  by (induction cs arbitrary: cfg) (simp_all add: change_peers_pins change_peers_node)

section \<open>Properties\<close>

text \<open>C31.  Administration keeps the configuration loadable: whatever sequence of peers is added,
  removed and untrusted after a successful start with a configuration file in an absolute
  directory, the saved file loads again at the next start and gives the same node settings,
  data directory included, and the same peers.\<close>

theorem peer_admin_survives_restart:
  assumes "prefix ''/'' dir" "load_config toml text_read (Some dir) = Ok cfg"
    and "cfg' = foldl (change_peers ext addr_ok) cfg cs"
    and "toml_ok toml cfg'" "save_config toml writable cfg' = Ok s"
  shows "load_config toml (Some s) (Some dir) = Ok cfg'"
proof -
  obtain c0 where c0: "cfg = place_data_dir (Some dir) c0" "distinct (pins cfg)"
    using loaded [OF assms(2)] .
  have "distinct (pins cfg')" using fold_changes(1) c0(2) assms(3) by simp
  moreover have "prefix ''/'' (nc_data_dir (cfg_node cfg))"
    using assms(1) c0(1) by (auto simp: place_data_dir_def path_join_def prefix_def)
  then have "place_data_dir (Some dir) cfg' = cfg'"
    using assms(3) fold_changes(2) by (simp add: place_data_dir_def)
  ultimately show ?thesis using load_saved [OF assms(4,5)] by simp
qed

theorem peer_admin_survives_restart_witness:
  "\<exists>cfg. cfg_peers cfg = [demo_peer] \<and> load_config (demo_toml cfg) (Some ''b'') (Some ''/etc'') = Ok cfg"
proof -
  let ?cfg = "place_data_dir (Some ''/etc'') default_config"
  let ?cfg' = "place_data_dir (Some ''/etc'') (default_config\<lparr>cfg_peers := [demo_peer]\<rparr>)"
  have l: "load_config (demo_toml ?cfg') (Some ''a'') (Some ''/etc'') = Ok ?cfg"
    by (simp add: load_config_def demo_toml_def default_config_def)
  have c: "?cfg' = foldl (change_peers demo_ext (\<lambda>_. True)) ?cfg [Add ''p'' ''x'' [] None]"
    by (simp add: add_peer_scoped_def find_peer_def demo_peer_def place_data_dir_def default_config_def default_node_def)
  have "toml_ok (demo_toml ?cfg') ?cfg'" "save_config (demo_toml ?cfg') True ?cfg' = Ok ''b''"
    by (simp_all add: toml_ok_def save_config_def demo_toml_def)
  then have "load_config (demo_toml ?cfg') (Some ''b'') (Some ''/etc'') = Ok ?cfg'"
    using peer_admin_survives_restart [OF _ l c] by simp
  moreover have "cfg_peers ?cfg' = [demo_peer]" by (simp add: place_data_dir_def default_config_def)
  ultimately show ?thesis by blast
qed

text \<open>With a configuration file given by a relative path the data directory moves: the settings
  that a daemon saves when a peer is added hold the data directory already joined to the
  directory of the file, and the next start joins it again, to a different directory.\<close>

theorem saved_data_dir_moves:
  assumes "dir \<noteq> []" "\<not> prefix ''/'' dir" "load_config toml text_read (Some dir) = Ok cfg"
    and "\<not> prefix ''/'' (nc_data_dir (cfg_node cfg))"
    and "toml_ok toml cfg" "save_config toml writable cfg = Ok s"
  shows "\<exists>cfg'. load_config toml (Some s) (Some dir) = Ok cfg' \<and>
    nc_data_dir (cfg_node cfg') = path_join dir (nc_data_dir (cfg_node cfg)) \<and>
    nc_data_dir (cfg_node cfg') \<noteq> nc_data_dir (cfg_node cfg)"
proof -
  obtain c0 where c0: "distinct (pins cfg)" using loaded [OF assms(3)] .
  have "path_join dir x \<noteq> x" for x using assms(1) by (auto simp: path_join_def)
  then show ?thesis
    using load_saved [OF assms(5,6) c0, of "Some dir"] assms(4) by (simp add: place_data_dir_def)
qed

theorem saved_data_dir_moves_witness:
  "\<exists>cfg cfg'. load_config (demo_toml cfg) (Some ''a'') (Some ''conf'') = Ok cfg \<and>
     nc_data_dir (cfg_node cfg) = ''conf/./data'' \<and>
     load_config (demo_toml cfg) (Some ''b'') (Some ''conf'') = Ok cfg' \<and> nc_data_dir (cfg_node cfg') = ''conf/conf/./data''"
proof -
  let ?cfg = "place_data_dir (Some ''conf'') default_config"
  have d: "nc_data_dir (cfg_node ?cfg) = ''conf/./data''"
    by (simp add: place_data_dir_def default_config_def default_node_def path_join_def)
  have l: "load_config (demo_toml ?cfg) (Some ''a'') (Some ''conf'') = Ok ?cfg"
    by (simp add: load_config_def demo_toml_def default_config_def)
  have "toml_ok (demo_toml ?cfg) ?cfg" "save_config (demo_toml ?cfg) True ?cfg = Ok ''b''"
    by (simp_all add: toml_ok_def save_config_def demo_toml_def)
  then have "\<exists>cfg'. load_config (demo_toml ?cfg) (Some ''b'') (Some ''conf'') = Ok cfg' \<and>
      nc_data_dir (cfg_node cfg') = ''conf/conf/./data''"
    using saved_data_dir_moves [OF _ _ l, of True "''b''"] unfolding d by (auto simp: path_join_def)
  then show ?thesis using l d by blast
qed

end
