(* ===== verification/Server.thy ===== *)
theory Server
  imports NsAuth Query RateLimit Schema Snapshot Config
begin

text \<open>
  The HTTP layer (\<open>src/server/mod.rs\<close>): authentication, the data routes, batches, queries and the
  admin routes, as functions from a request and the application state to a response and the
  new state.  Each handler runs as one step; the store lock it holds makes its database
  accesses atomic.  The clocks \<open>now_ms\<close> and \<open>Hlc::now\<close> are the sequences of values they
  return.  Routing, header extraction and the encoding of responses are the \<open>axum\<close> crate.
\<close>

section \<open>Definitions\<close>

text \<open>The parameters: external code, hashing and iteration order of the limiter, whether the
  lock of a cache shard is free, and whether the configuration file can be written.\<close>

record world =
  w_ext :: extern
  w_cx :: cap_ext
  w_fields_json :: "string list \<Rightarrow> bytes"
  w_hash :: "string \<Rightarrow> u64"
  w_shuffle :: "shard \<Rightarrow> shard"
  w_lock :: "nat \<Rightarrow> bool"
  w_toml :: toml_ext
  w_addr_ok :: "string \<Rightarrow> bool"
  w_writable :: bool

record app =
  ap_db :: db
  ap_root :: public_key
  ap_keyring :: root_keyring
  ap_kp :: keypair
  ap_revocations :: revocation_set
  ap_host :: string
  ap_quota :: u64
  ap_epoch :: u64
  ap_cache :: cap_cache
  ap_tokens :: token_cache
  ap_requests :: u64
  ap_writes :: u64
  ap_limiter :: limiter
  ap_syncs :: nat
  ap_changes :: "namespace list"
  ap_wall :: "nat \<Rightarrow> u64"
  ap_wall_at :: nat
  ap_hlc :: "nat \<Rightarrow> hlc"
  ap_hlc_at :: nat
  ap_cfg :: config
  ap_cfg_file :: string
  ap_streams :: nat

datatype response = Resp nat jvalue | Raw bytes | Answer qvalue | EventStream u64 | Panicked

datatype http_method = GET | PUT | DELETE | OtherMethod

definition err_json :: "nat \<Rightarrow> string \<Rightarrow> response" where
  "err_json code error = Resp code (JObject [(''error'', JString error)])"

definition ok_json :: "(string \<times> jvalue) list \<Rightarrow> response" where
  "ok_json m = Resp 200 (JObject m)"

definition jnat :: "nat \<Rightarrow> jvalue" where
  "jnat n = JNumber (PosInt (of_nat n))"

definition auth_to_response :: "auth_error \<Rightarrow> response" where
  "auth_to_response e =
     (case e of QuotaExceeded _ _ \<Rightarrow> err_json 409 ''quota_exceeded'' | _ \<Rightarrow> err_json 403 ''forbidden'')"

definition app_now_ms :: "app \<Rightarrow> u64 \<times> app" where
  "app_now_ms st = (ap_wall st (ap_wall_at st), st\<lparr>ap_wall_at := ap_wall_at st + 1\<rparr>)"

definition app_hlc_now :: "app \<Rightarrow> hlc \<times> app" where
  "app_hlc_now st = (ap_hlc st (ap_hlc_at st), st\<lparr>ap_hlc_at := ap_hlc_at st + 1\<rparr>)"

definition app_store :: "app \<Rightarrow> store" where
  "app_store st = db_store (ap_db st)"

text \<open>\<open>notify_sync\<close>, \<open>bump_writes\<close> and \<open>notify_change\<close> after a write.\<close>

definition wrote :: "namespace \<Rightarrow> app \<Rightarrow> app" where
  "wrote ns st =
     st\<lparr>ap_syncs := ap_syncs st + 1, ap_writes := ap_writes st + 1, ap_changes := ap_changes st @ [ns]\<rparr>"

subsection \<open>Authentication\<close>

definition auth_l1_l2 ::
  "world \<Rightarrow> capability list option \<Rightarrow> scope \<Rightarrow> perm_set \<Rightarrow> u64 \<Rightarrow> app \<Rightarrow> (response, public_key) result \<times> app" where
  "auth_l1_l2 w caps s perms now st =
     (case caps of
        None \<Rightarrow> (Err (err_json 401 ''invalid_capability''), st)
      | Some [] \<Rightarrow> (Err (err_json 401 ''invalid_capability''), st)
      | Some (c # cs) \<Rightarrow>
          (case authorize_cached (w_ext w) (w_cx w) (w_lock w) s (c_subject c) perms (c # cs) (ap_keyring st)
                  (ap_revocations st) (ap_host st) now (Some (ap_cache st)) (ap_epoch st) of
             (r, cache) \<Rightarrow>
               let st' = (case cache of None \<Rightarrow> st | Some cc \<Rightarrow> st\<lparr>ap_cache := cc\<rparr>)
               in (case r of Inl e \<Rightarrow> (Err (auth_to_response e), st') | Inr _ \<Rightarrow> (Ok (c_subject c), st'))))"

text \<open>The capability of a header, through the parse cache of tokens.\<close>

definition token_cap :: "world \<Rightarrow> string \<Rightarrow> app \<Rightarrow> (parse_error, capability) result \<times> app" where
  "token_cap w h st =
     (let digest = token_digest (w_ext w) h
      in case token_cache_get (w_lock w (unat (digest ! 0) mod 256)) (ap_tokens st) digest of
           Some c \<Rightarrow> (Ok c, st)
         | None \<Rightarrow>
             (case parse_cap_header (w_ext w) (w_cx w) h of
                Inr c \<Rightarrow> (Ok c, st\<lparr>ap_tokens := token_cache_put (ap_tokens st) digest c\<rparr>)
              | Inl e \<Rightarrow> (Err e, st)))"

definition limited :: "world \<Rightarrow> string \<Rightarrow> u64 \<Rightarrow> (response, 'a) result \<Rightarrow> app \<Rightarrow> (response, 'a) result \<times> app" where
  "limited w key now r st =
     (let (ok, rl) = allow (w_hash w) (w_shuffle w) (ap_limiter st) key now
      in (if ok then r else Err (err_json 429 ''rate_limited''), st\<lparr>ap_limiter := rl\<rparr>))"

text \<open>The middleware: a response of its own, or the capabilities handed to the handler.\<close>

definition auth_mw :: "world \<Rightarrow> string option \<Rightarrow> app \<Rightarrow> (response, capability list option) result \<times> app" where
  "auth_mw w header st =
     (let (now, st) = app_now_ms (st\<lparr>ap_requests := ap_requests st + 1\<rparr>)
      in case header of
           None \<Rightarrow> limited w ''anon'' now (Ok None) st
         | Some h \<Rightarrow>
             (case token_cap w h st of
                (Inr c, st) \<Rightarrow>
                  limited w (if sc_host (c_scope c) = ap_host st then hex_enc (w_ext w) (token_digest (w_ext w) h)
                             else ''anon'') now (Ok (Some [c])) st
              | (Inl e, st) \<Rightarrow> limited w ''anon'' now (Err (err_json 401 ''invalid_capability'')) st))"

definition trim_slashes :: "string \<Rightarrow> string" where
  "trim_slashes s = dropWhile (\<lambda>c. c = CHR ''/'') s"

definition rfind :: "char \<Rightarrow> string \<Rightarrow> nat option" where
  "rfind c s = (if c \<in> set s then Some (length s - 1 - length (takeWhile (\<lambda>x. x \<noteq> c) (rev s))) else None)"

definition data_scope :: "tier \<Rightarrow> namespace \<Rightarrow> string \<Rightarrow> string \<Rightarrow> scope" where
  "data_scope t ns key host =
     (let k = trim_slashes key
      in \<lparr>sc_host = host, sc_tier = t, sc_ns = ns,
          sc_prefix = (case rfind (CHR ''/'') k of Some i \<Rightarrow> if 0 < i then Some (take i k) else None | None \<Rightarrow> None)\<rparr>)"

definition l1_scope :: "app \<Rightarrow> scope" where
  "l1_scope st = \<lparr>sc_host = ap_host st, sc_tier = L1, sc_ns = ''*'', sc_prefix = None\<rparr>"

definition data_auth ::
  "world \<Rightarrow> capability list option \<Rightarrow> namespace \<Rightarrow> string \<Rightarrow> perm_set \<Rightarrow> app \<Rightarrow> (response, public_key \<times> tier) result \<times> app" where
  "data_auth w caps ns key perms st =
     (let t = (if prefix ''u/'' ns then L3 else L2);
          s = data_scope t ns key (ap_host st);
          (now, st) = app_now_ms st
      in case auth_l1_l2 w caps s perms now st of
           (Inl r, st) \<Rightarrow> (Err r, st)
         | (Inr p, st) \<Rightarrow> (Ok (p, t), st))"

subsection \<open>Reading\<close>

definition live :: "version \<Rightarrow> u64 \<Rightarrow> bool" where
  "live v now = (v_expires_at v = 0 \<or> now < v_expires_at v)"

definition latest_value :: "entry \<Rightarrow> u64 \<Rightarrow> bytes option" where
  "latest_value e now =
     (case e of
        Lww v \<Rightarrow> if live v now then Some (v_value v) else None
      | Register vs \<Rightarrow> map_option v_value (max_version (filter (\<lambda>v. live v now) vs)))"

definition entry_expires_at :: "entry \<Rightarrow> u64" where
  "entry_expires_at e =
     (case e of
        Lww v \<Rightarrow> v_expires_at v
      | Register vs \<Rightarrow> (case max_version vs of None \<Rightarrow> 0 | Some v \<Rightarrow> v_expires_at v))"

definition version_json :: "extern \<Rightarrow> version \<Rightarrow> jvalue" where
  "version_json ext v =
     JObject [(''hlc'', JNumber (PosInt (v_hlc v))), (''replica'', JString (hex_enc ext (v_replica v))),
       (''seq'', jnat (v_seq v)), (''expires_at'', JNumber (PosInt (v_expires_at v))),
       (''value_b64'', JString (b64_encode (v_value v)))]"

text \<open>The rows of a scan that are not expired.\<close>

definition scan_entries :: "store \<Rightarrow> namespace \<Rightarrow> bytes \<Rightarrow> u64 \<Rightarrow> jvalue list" where
  "scan_entries st ns p now =
     map (\<lambda>(k, e). JObject [(''key'', JString (lossy_str k)),
            (''value_b64'', JString (b64_encode (case latest_value e now of None \<Rightarrow> [] | Some v \<Rightarrow> v))),
            (''expires_at'', JNumber (PosInt (entry_expires_at e)))])
       (filter (\<lambda>(k, e). latest_value e now \<noteq> None) (scan st ns p))"

definition handle_scan ::
  "world \<Rightarrow> capability list option \<Rightarrow> namespace \<Rightarrow> (string \<rightharpoonup> string) \<Rightarrow> app \<Rightarrow> response \<times> app" where
  "handle_scan w caps ns query st =
     (case query ''prefix'' of
        None \<Rightarrow> (err_json 400 ''bad_request'', st)
      | Some p \<Rightarrow>
          (case data_auth w caps ns [] READ st of
             (Inl r, st) \<Rightarrow> (r, st)
           | (Inr _, st) \<Rightarrow>
               let (now, st) = app_now_ms st
               in (ok_json [(''entries'', JArray (scan_entries (app_store st) ns (str_bytes p) now))], st)))"

definition data_get ::
  "world \<Rightarrow> capability list option \<Rightarrow> namespace \<Rightarrow> bytes \<Rightarrow> tier \<Rightarrow> (string \<rightharpoonup> string) \<Rightarrow> app \<Rightarrow> response \<times> app" where
  "data_get w caps ns k t query st =
     (case query ''prefix'' of
        Some p \<Rightarrow>
          let (now, st) = app_now_ms st in
          (case auth_l1_l2 w caps \<lparr>sc_host = ap_host st, sc_tier = t, sc_ns = ns, sc_prefix = Some p\<rparr> READ now st of
             (Inl r, st) \<Rightarrow> (r, st)
           | (Inr _, st) \<Rightarrow>
               let (now, st) = app_now_ms st
               in (ok_json [(''entries'', JArray (scan_entries (app_store st) ns (str_bytes p) now))], st))
      | None \<Rightarrow>
          if query ''versions'' = Some ''true'' then
            (case store_get (app_store st) ns k of
               Some (Lww v) \<Rightarrow>
                 (ok_json [(''key'', JString (lossy_str k)), (''versions'', JArray [version_json (w_ext w) v])], st)
             | Some (Register vs) \<Rightarrow>
                 (ok_json [(''key'', JString (lossy_str k)), (''versions'', JArray (map (version_json (w_ext w)) vs))], st)
             | None \<Rightarrow> (err_json 404 ''not_found'', st))
          else
            let (now, st) = app_now_ms st in
            (case store_get (app_store st) ns k of
               Some e \<Rightarrow>
                 (case latest_value e now of Some v \<Rightarrow> (Raw v, st) | None \<Rightarrow> (err_json 404 ''not_found'', st))
             | None \<Rightarrow> (err_json 404 ''not_found'', st)))"

subsection \<open>Writing\<close>

text \<open>Whether the schema of the namespace refuses a value, with the text of the refusal; the
  description of the violation inside the text is left out.\<close>

definition schema_refusal :: "extern \<Rightarrow> bytes option \<Rightarrow> bytes \<Rightarrow> string option" where
  "schema_refusal ext schema_bytes body =
     (case schema_bytes of
        None \<Rightarrow> None
      | Some bs \<Rightarrow>
          let sch = (case json_of ext (from_utf8_lossy bs) of None \<Rightarrow> JNull | Some v \<Rightarrow> v)
          in (case json_of ext (from_utf8_lossy body) of
                Some value \<Rightarrow>
                  (case validate_schema sch value of Inr _ \<Rightarrow> None | Inl msg \<Rightarrow> Some ''schema_violation'')
              | None \<Rightarrow> Some ''schema_violation: value is not valid JSON''))"

text \<open>The namespace must exist; the namespace of an owner is made on the first write.\<close>

definition ready_namespace :: "world \<Rightarrow> tier \<Rightarrow> namespace \<Rightarrow> public_key \<Rightarrow> app \<Rightarrow> response option \<times> app" where
  "ready_namespace w t ns who st =
     (if t = L3 then
        (case ensure_l3_namespace (w_ext w) who (ap_db st) of
           (Inl e, s) \<Rightarrow> (Some (auth_to_response e), st\<lparr>ap_db := s\<rparr>)
         | (Inr _, s) \<Rightarrow> (None, st\<lparr>ap_db := s\<rparr>))
      else if policy (app_store st) ns = None then (Some (err_json 404 ''namespace_not_found''), st)
      else (None, st))"

definition charge :: "namespace \<Rightarrow> u64 \<Rightarrow> app \<Rightarrow> (auth_error, unit) result \<times> app" where
  "charge ns n st =
     (case account_write ns n (ap_quota st) (app_store st) of
        (r, s) \<Rightarrow> (r, st\<lparr>ap_db := (ap_db st)\<lparr>db_store := s\<rparr>\<rparr>))"

text \<open>\<open>now_ms() + secs * 1000\<close>, with the wrap-around of the release build.\<close>

definition expiry :: "u64 option \<Rightarrow> app \<Rightarrow> u64 \<times> app" where
  "expiry ttl st =
     (case ttl of
        Some secs \<Rightarrow>
          if 0 < secs then (let (now, st) = app_now_ms st in (now + secs * 1000, st)) else (0, st)
      | None \<Rightarrow> (0, st))"

definition query_ttl :: "(string \<rightharpoonup> string) \<Rightarrow> u64 option" where
  "query_ttl query = (case query ''ttl'' of None \<Rightarrow> None | Some s \<Rightarrow> parse_u64 s)"

definition data_put ::
  "world \<Rightarrow> namespace \<Rightarrow> bytes \<Rightarrow> public_key \<Rightarrow> tier \<Rightarrow> (string \<rightharpoonup> string) \<Rightarrow> bytes \<Rightarrow> app \<Rightarrow> response \<times> app" where
  "data_put w ns k who t query body st =
     (case ready_namespace w t ns who st of
        (Some r, st) \<Rightarrow> (r, st)
      | (None, st) \<Rightarrow>
          (case schema_refusal (w_ext w) (schema (app_store st) ns) body of
             Some msg \<Rightarrow> (err_json 400 msg, st)
           | None \<Rightarrow>
               (case charge ns (of_nat (length body)) st of
                  (Inl e, st) \<Rightarrow> (auth_to_response e, st)
                | (Inr _, st) \<Rightarrow>
                    let (h, st) = app_hlc_now st;
                        (expires_at, st) = expiry (query_ttl query) st
                    in (case store_put (w_ext w) ns k body h (ap_root st) who expires_at (ap_db st) of
                          (Inl e, s) \<Rightarrow> (err_json 500 ''internal'', st\<lparr>ap_db := s\<rparr>)
                        | (Inr sq, s) \<Rightarrow>
                            (ok_json [(''ok'', JBool True), (''seq'', jnat sq),
                               (''expires_at'', JNumber (PosInt expires_at))],
                             wrote ns (st\<lparr>ap_db := s\<rparr>))))))"

definition data_delete :: "world \<Rightarrow> namespace \<Rightarrow> bytes \<Rightarrow> public_key \<Rightarrow> app \<Rightarrow> response \<times> app" where
  "data_delete w ns k who st =
     (if policy (app_store st) ns = None then (err_json 404 ''namespace_not_found'', st)
      else
        let (h, st) = app_hlc_now st
        in (case store_delete (w_ext w) ns k h (ap_root st) who (ap_db st) of
              (Inl e, s) \<Rightarrow> (err_json 500 ''internal'', st\<lparr>ap_db := s\<rparr>)
            | (Inr _, s) \<Rightarrow> (ok_json [(''ok'', JBool True)], wrote ns (st\<lparr>ap_db := s\<rparr>))))"

definition handle_data ::
  "world \<Rightarrow> capability list option \<Rightarrow> namespace \<Rightarrow> string \<Rightarrow> http_method \<Rightarrow> (string \<rightharpoonup> string) \<Rightarrow> bytes \<Rightarrow> app \<Rightarrow>
   response \<times> app" where
  "handle_data w caps ns key m query body st =
     (case data_auth w caps ns key (if m = GET then READ else WRITE) st of
        (Inl r, st) \<Rightarrow> (r, st)
      | (Inr (who, t), st) \<Rightarrow>
          (let k = str_bytes key in
           case m of
             GET \<Rightarrow> data_get w caps ns k t query st
           | PUT \<Rightarrow> data_put w ns k who t query body st
           | DELETE \<Rightarrow> data_delete w ns k who st
           | OtherMethod \<Rightarrow> (err_json 405 ''method_not_allowed'', st)))"

subsection \<open>Batches\<close>

definition MAX_BATCH :: nat where
  "MAX_BATCH = 1000"

definition MAX_BATCH_RECORD_BYTES :: nat where
  "MAX_BATCH_RECORD_BYTES = 6 * 1024 * 1024"

definition MAX_BATCH_GET_BYTES :: nat where
  "MAX_BATCH_GET_BYTES = 8 * 1024 * 1024"

text \<open>\<open>Value::get\<close>, \<open>as_u64\<close>.\<close>

definition member :: "jvalue \<Rightarrow> string \<Rightarrow> jvalue option" where
  "member v k = (case as_object v of None \<Rightarrow> None | Some m \<Rightarrow> map_of m k)"

definition member_str :: "jvalue \<Rightarrow> string \<Rightarrow> string option" where
  "member_str v k = (case member v k of None \<Rightarrow> None | Some x \<Rightarrow> as_str x)"

definition as_u64 :: "jvalue \<Rightarrow> u64 option" where
  "as_u64 v = (case v of JNumber (PosInt n) \<Rightarrow> Some n | _ \<Rightarrow> None)"

definition op_ttl :: "jvalue \<Rightarrow> u64 option" where
  "op_ttl op = (case member op ''ttl'' of None \<Rightarrow> None | Some v \<Rightarrow> as_u64 v)"

definition op_name :: "jvalue \<Rightarrow> string" where
  "op_name op = (case member_str op ''op'' of None \<Rightarrow> [] | Some s \<Rightarrow> s)"

text \<open>The bound on the size of the record, from the lengths of the texts.\<close>

definition op_estimate :: "jvalue \<Rightarrow> nat" where
  "op_estimate op =
     (let key_len = (case member_str op ''key'' of None \<Rightarrow> 0 | Some k \<Rightarrow> length k)
      in if op_name op = ''put'' then
           93 + key_len + (case member_str op ''value_b64'' of None \<Rightarrow> 0 | Some s \<Rightarrow> (length s + 3) div 4 * 3)
         else if op_name op = ''del'' then 85 + key_len
         else 0)"

definition op_failed :: "string \<Rightarrow> jvalue" where
  "op_failed e = JObject [(''ok'', JBool False), (''error'', JString e)]"

text \<open>The outcome of the first pass on one operation.\<close>

datatype batch_op = Failed string | Read bytes | Write log_record

definition batch_pass :: "world \<Rightarrow> bytes option \<Rightarrow> bytes \<Rightarrow> jvalue \<Rightarrow> app \<Rightarrow> batch_op \<times> app" where
  "batch_pass w sch who op st =
     (case member_str op ''key'' of
        None \<Rightarrow> (Failed ''missing_key'', st)
      | Some key \<Rightarrow>
          if op_name op = ''get'' then (Read (str_bytes key), st)
          else if op_name op = ''put'' then
            (case member_str op ''value_b64'' of
               None \<Rightarrow> (Failed ''missing_value_b64'', st)
             | Some s \<Rightarrow>
                 (case b64_decode s of
                    Inl _ \<Rightarrow> (Failed ''bad_value_b64'', st)
                  | Inr value \<Rightarrow>
                      (case schema_refusal (w_ext w) sch value of
                         Some msg \<Rightarrow> (Failed msg, st)
                       | None \<Rightarrow>
                           let (expires_at, st) = expiry (op_ttl op) st;
                               (h, st) = app_hlc_now st
                           in (Write (Record (if expires_at = 0 then TAG_PUT else TAG_PUT_TTL) (str_bytes key)
                                 h (ap_root st) who value expires_at []), st))))
          else if op_name op = ''del'' then
            (let (h, st) = app_hlc_now st
             in (Write (Record TAG_DEL (str_bytes key) h (ap_root st) who [] 0 []), st))
          else (Failed ''unknown_op'', st))"

fun batch_validate :: "world \<Rightarrow> bytes option \<Rightarrow> bytes \<Rightarrow> jvalue list \<Rightarrow> app \<Rightarrow> batch_op list \<times> app" where
  "batch_validate w sch who [] st = ([], st)"
| "batch_validate w sch who (op # ops) st =
     (let (o1, st) = batch_pass w sch who op st;
          (os, st) = batch_validate w sch who ops st
      in (o1 # os, st))"

text \<open>Each accepted write is charged its value; one over the quota fails in place.\<close>

fun batch_charge :: "namespace \<Rightarrow> batch_op list \<Rightarrow> app \<Rightarrow> batch_op list \<times> app" where
  "batch_charge ns [] st = ([], st)"
| "batch_charge ns (Write r # os) st =
     (case charge ns (of_nat (length (r_value r))) st of
        (Inr _, st) \<Rightarrow> (let (os, st) = batch_charge ns os st in (Write r # os, st))
      | (Inl e, st) \<Rightarrow> (let (os, st) = batch_charge ns os st in (Failed ''quota_exceeded'' # os, st)))"
| "batch_charge ns (x # os) st = (let (os, st) = batch_charge ns os st in (x # os, st))"

fun written :: "batch_op list \<Rightarrow> log_record list" where
  "written [] = []"
| "written (Write r # os) = r # written os"
| "written (_ # os) = written os"

text \<open>The reads, after the writes, with the budget on what they return; and the result of the
  writes, which share the sequence number of the batch record.\<close>

fun batch_results :: "store \<Rightarrow> namespace \<Rightarrow> u64 \<Rightarrow> jvalue \<Rightarrow> nat option \<Rightarrow> batch_op list \<Rightarrow> jvalue list" where
  "batch_results st ns now done budget [] = []"
| "batch_results st ns now done budget (Failed e # os) = op_failed e # batch_results st ns now done budget os"
| "batch_results st ns now done budget (Write r # os) = done # batch_results st ns now done budget os"
| "batch_results st ns now done None (Read k # os) =
     op_failed ''batch_get_response_too_large'' # batch_results st ns now done None os"
| "batch_results st ns now done (Some b) (Read k # os) =
     (case (case store_get st ns k of None \<Rightarrow> None | Some e \<Rightarrow> latest_value e now) of
        Some v \<Rightarrow>
          if length v \<le> b then
            JObject [(''ok'', JBool True), (''value_b64'', JString (b64_encode v))]
              # batch_results st ns now done (Some (b - length v)) os
          else op_failed ''batch_get_response_too_large'' # batch_results st ns now done None os
      | None \<Rightarrow>
          JObject [(''ok'', JBool True), (''value_b64'', JNull)] # batch_results st ns now done (Some b) os)"

definition batch_apply :: "world \<Rightarrow> namespace \<Rightarrow> batch_op list \<Rightarrow> app \<Rightarrow> jvalue \<times> app" where
  "batch_apply w ns os st =
     (if written os = [] then (JNull, st)
      else
        (case put_batch (w_ext w) ns (written os) (ap_db st) of
           (Inr sq, s) \<Rightarrow>
             (JObject [(''ok'', JBool True), (''seq'', jnat sq)],
              st\<lparr>ap_db := s, ap_writes := ap_writes st + of_nat (length (written os)),
                ap_syncs := ap_syncs st + 1, ap_changes := ap_changes st @ [ns]\<rparr>)
         | (Inl e, s) \<Rightarrow> (op_failed ''storage'', st\<lparr>ap_db := s\<rparr>)))"

text \<open>A batch once it is authorized.\<close>

definition batch_run :: "world \<Rightarrow> namespace \<Rightarrow> jvalue list \<Rightarrow> public_key \<times> tier \<Rightarrow> app \<Rightarrow> response \<times> app" where
  "batch_run w ns ops p st =
     (if MAX_BATCH_RECORD_BYTES < sum_list (map op_estimate ops) then (err_json 413 ''batch_too_large'', st)
      else
        (let (os, st) = batch_validate w (schema (app_store st) ns) (fst p) ops st in
         case ready_namespace w (snd p) ns (fst p) st of
           (Some r, st) \<Rightarrow> (r, st)
         | (None, st) \<Rightarrow>
             let (os, st) = batch_charge ns os st;
                 (done, st) = batch_apply w ns os st;
                 (now, st) = app_now_ms st
             in (ok_json [(''results'', JArray (batch_results (app_store st) ns now done
                   (Some MAX_BATCH_GET_BYTES) os))], st)))"

definition handle_batch :: "world \<Rightarrow> capability list option \<Rightarrow> namespace \<Rightarrow> bytes \<Rightarrow> app \<Rightarrow> response \<times> app" where
  "handle_batch w caps ns body st =
     (case json_of (w_ext w) body of
        None \<Rightarrow> (err_json 400 ''bad_request'', st)
      | Some parsed \<Rightarrow>
          (case (case member parsed ''ops'' of None \<Rightarrow> None | Some o1 \<Rightarrow> as_array o1) of
             None \<Rightarrow> (err_json 400 ''missing_ops'', st)
           | Some ops \<Rightarrow>
               if ops = [] then (err_json 400 ''empty_batch'', st)
               else if MAX_BATCH < length ops then (err_json 400 ''batch_too_large'', st)
               else
                 (case data_auth w caps ns [] WRITE st of
                    (Inl r, st) \<Rightarrow> (r, st)
                  | (Inr p, st) \<Rightarrow> batch_run w ns ops p st)))"

subsection \<open>Queries\<close>

text \<open>The parser of a query of \<open>n\<close> bytes needs no more than \<open>n + 1\<close> units of fuel.\<close>

definition ql_fuel :: "string \<Rightarrow> nat" where
  "ql_fuel expr = Suc (length expr)"

definition ql_ctx :: "namespace \<Rightarrow> bool \<Rightarrow> app \<Rightarrow> qctx" where
  "ql_ctx ns mutates st =
     \<lparr>q_db = ap_db st, q_write = mutates, q_scope = Some ns, q_host = ap_root st, q_remote = True,
      q_clock = ap_hlc st, q_ticks = ap_hlc_at st\<rparr>"

text \<open>The reply is the JSON text of the answer, which is kept as a value here.\<close>

definition ql_reply :: "world \<Rightarrow> string \<Rightarrow> qctx \<Rightarrow> app \<Rightarrow> response \<times> app" where
  "ql_reply w expr ctx st =
     (case eval (w_ext w) (w_fields_json w) (ql_fuel expr) expr ctx of
        None \<Rightarrow> (err_json 400 ''query_error'', st)
      | Some (r, ctx) \<Rightarrow>
          ((case r of Inr v \<Rightarrow> Answer v | Inl e \<Rightarrow> err_json 400 ''query_error''),
           st\<lparr>ap_db := q_db ctx, ap_hlc_at := q_ticks ctx\<rparr>))"

definition run_ql :: "world \<Rightarrow> capability list option \<Rightarrow> namespace \<Rightarrow> string \<Rightarrow> app \<Rightarrow> response \<times> app" where
  "run_ql w caps ns expr st =
     (case data_auth w caps ns [] WRITE st of
        (Inl r, st) \<Rightarrow> (r, st)
      | (Inr _, st) \<Rightarrow>
          (case classify (ql_fuel expr) expr of
             Some (Inr Mutating) \<Rightarrow> ql_reply w expr (ql_ctx ns True st) st
           | Some (Inr ReadOnly) \<Rightarrow> ql_reply w expr (ql_ctx ns False st) st
           | _ \<Rightarrow> (err_json 400 ''query_error'', st)))"

subsection \<open>The change feed and the conflicts\<close>

definition MAX_CHANGES :: nat where
  "MAX_CHANGES = 10000"

definition head_json :: "extern \<Rightarrow> nat \<times> bytes \<Rightarrow> (string \<times> jvalue) list" where
  "head_json ext h = [(''seq'', jnat (fst h)), (''hash'', JString (hex_enc ext (snd h)))]"

definition handle_head :: "world \<Rightarrow> capability list option \<Rightarrow> namespace \<Rightarrow> app \<Rightarrow> response \<times> app" where
  "handle_head w caps ns st =
     (case data_auth w caps ns [] READ st of
        (Inl r, st) \<Rightarrow> (r, st)
      | (Inr _, st) \<Rightarrow>
          (case store_head (app_store st) ns of
             Some h \<Rightarrow> (ok_json (head_json (w_ext w) h), st)
           | None \<Rightarrow> (err_json 404 ''namespace_not_found'', st)))"

definition change_json :: "nat \<times> bytes \<Rightarrow> jvalue" where
  "change_json row =
     (case LogRecord.parse_chain (snd row) None of
        Inr (r, _) \<Rightarrow>
          JObject [(''seq'', jnat (fst row)), (''key_b64'', JString (b64_encode (r_key r))),
            (''value_b64'', JString (b64_encode (r_value r))), (''del'', JBool (r_tag r = TAG_DEL)),
            (''ttl'', JBool (r_expires_at r \<noteq> 0)), (''expires_at'', JNumber (PosInt (r_expires_at r))),
            (''hlc'', JNumber (PosInt (r_hlc r))), (''batch'', JBool (r_tag r = TAG_BATCH)),
            (''ops'', jnat (length (r_ops r)))]
      | Inl _ \<Rightarrow> JObject [(''seq'', jnat (fst row)), (''parse_error'', JBool True)])"

definition feed_rows :: "extern \<Rightarrow> db \<Rightarrow> namespace \<Rightarrow> u64 \<Rightarrow> (nat \<times> bytes) list" where
  "feed_rows ext s ns since =
     (case log_records ext s ns (unat (since + 1)) MAX_CHANGES of Inl _ \<Rightarrow> [] | Inr rows \<Rightarrow> take MAX_CHANGES rows)"

definition since_param :: "(string \<rightharpoonup> string) \<Rightarrow> u64" where
  "since_param query =
     (case query ''since'' of None \<Rightarrow> 0 | Some s \<Rightarrow> (case parse_u64 s of None \<Rightarrow> 0 | Some n \<Rightarrow> n))"

definition handle_changes ::
  "world \<Rightarrow> capability list option \<Rightarrow> namespace \<Rightarrow> (string \<rightharpoonup> string) \<Rightarrow> app \<Rightarrow> response \<times> app" where
  "handle_changes w caps ns query st =
     (case data_auth w caps ns [] READ st of
        (Inl r, st) \<Rightarrow> (r, st)
      | (Inr _, st) \<Rightarrow>
          let since = since_param query
          in if policy (app_store st) ns = None then (err_json 404 ''namespace_not_found'', st)
             else
               (ok_json [(''since'', JNumber (PosInt since)),
                  (''head'', (case store_head (app_store st) ns of
                     None \<Rightarrow> JNull | Some h \<Rightarrow> JObject (head_json (w_ext w) h))),
                  (''changes'', JArray (map change_json (feed_rows (w_ext w) (ap_db st) ns since)))], st))"

definition conflict_row :: "extern \<Rightarrow> key \<times> entry \<Rightarrow> jvalue option" where
  "conflict_row ext row =
     (case snd row of
        Register vs \<Rightarrow>
          if 1 < length vs then
            Some (JObject [(''key'', JString (lossy_str (fst row))), (''count'', jnat (length vs)),
              (''versions'', JArray (map (version_json ext) vs))])
          else None
      | Lww _ \<Rightarrow> None)"

definition handle_conflicts :: "world \<Rightarrow> capability list option \<Rightarrow> namespace \<Rightarrow> app \<Rightarrow> response \<times> app" where
  "handle_conflicts w caps ns st =
     (case data_auth w caps ns [] READ st of
        (Inl r, st) \<Rightarrow> (r, st)
      | (Inr _, st) \<Rightarrow>
          (ok_json [(''conflicts'', JArray (List.map_filter (conflict_row (w_ext w)) (scan (app_store st) ns [])))], st))"

subsection \<open>Event streams\<close>

definition MAX_SSE_CONNS :: nat where
  "MAX_SSE_CONNS = 256"

text \<open>The exchange that reserves a slot of the global counter, and its release when the stream ends.\<close>

definition acquire_sse_slot :: "nat \<Rightarrow> nat option" where
  "acquire_sse_slot conns = (if MAX_SSE_CONNS \<le> conns then None else Some (conns + 1))"

definition release_sse_slot :: "nat \<Rightarrow> nat" where
  "release_sse_slot conns = conns - 1"

text \<open>One step of the stream: the next record after the cursor as an event, if there is one.\<close>

definition sse_event :: "extern \<Rightarrow> db \<Rightarrow> namespace \<Rightarrow> u64 \<Rightarrow> (u64 \<times> jvalue) option" where
  "sse_event ext s ns cursor =
     (case log_records ext s ns (unat (cursor + 1)) 1 of
        Inr ((sq, bs) # _) \<Rightarrow>
          let prev = (case LogRecord.parse_chain bs None of Inr (_, prev) \<Rightarrow> prev | Inl _ \<Rightarrow> zero32)
          in Some (of_nat sq, JObject [(''ns'', JString ns), (''seq'', jnat sq),
               (''hash'', JString (hex_enc ext (record_hash (sha256 ext) prev bs)))])
      | _ \<Rightarrow> None)"

text \<open>The events of a stream up to the end of the log; the argument bounds their number.\<close>

fun sse_drain :: "extern \<Rightarrow> db \<Rightarrow> namespace \<Rightarrow> nat \<Rightarrow> u64 \<Rightarrow> (u64 \<times> jvalue) list" where
  "sse_drain ext s ns 0 cursor = []"
| "sse_drain ext s ns (Suc n) cursor =
     (case sse_event ext s ns cursor of
        None \<Rightarrow> []
      | Some (c, ev) \<Rightarrow> (c, ev) # sse_drain ext s ns n c)"

definition handle_events ::
  "world \<Rightarrow> capability list option \<Rightarrow> namespace \<Rightarrow> (string \<rightharpoonup> string) \<Rightarrow> app \<Rightarrow> response \<times> app" where
  "handle_events w caps ns query st =
     (case data_auth w caps ns [] READ st of
        (Inl r, st) \<Rightarrow> (r, st)
      | (Inr _, st) \<Rightarrow>
          (case acquire_sse_slot (ap_streams st) of
             None \<Rightarrow> (err_json 503 ''too_many_streams'', st)
           | Some n \<Rightarrow> (EventStream (since_param query), st\<lparr>ap_streams := n\<rparr>)))"

subsection \<open>Administration\<close>

definition l1_auth :: "world \<Rightarrow> capability list option \<Rightarrow> app \<Rightarrow> (response, public_key) result \<times> app" where
  "l1_auth w caps st =
     (let s = l1_scope st; (now, st) = app_now_ms st in auth_l1_l2 w caps s ADMIN now st)"

definition metrics_json :: "app \<Rightarrow> response" where
  "metrics_json st =
     ok_json [(''requests'', JNumber (PosInt (ap_requests st))), (''writes'', JNumber (PosInt (ap_writes st))),
       (''namespaces'', jnat (length (namespaces (app_store st))))]"

definition policy_str :: "conflict_policy \<Rightarrow> string" where
  "policy_str p = (case p of PolicyLww \<Rightarrow> ''lww'' | CrdtRegister \<Rightarrow> ''register'')"

definition l1_list_namespaces :: "world \<Rightarrow> capability list option \<Rightarrow> app \<Rightarrow> response \<times> app" where
  "l1_list_namespaces w caps st =
     (case l1_auth w caps st of
        (Inl r, st) \<Rightarrow> (r, st)
      | (Inr _, st) \<Rightarrow>
          (Resp 200 (JArray (map (\<lambda>(name, p).
             JObject [(''name'', JString name), (''policy'', JString (policy_str p))]) (namespaces (app_store st)))), st))"

definition l1_create_namespace :: "world \<Rightarrow> capability list option \<Rightarrow> string \<Rightarrow> string \<Rightarrow> app \<Rightarrow> response \<times> app" where
  "l1_create_namespace w caps name pol st =
     (case l1_auth w caps st of
        (Inl r, st) \<Rightarrow> (r, st)
      | (Inr _, st) \<Rightarrow>
          if prefix ''u/'' name then (err_json 403 ''forbidden'', st)
          else
            (case (if pol = ''lww'' then Some PolicyLww else if pol = ''register'' then Some CrdtRegister else None) of
               None \<Rightarrow> (err_json 400 ''bad_request'', st)
             | Some p \<Rightarrow>
                 (case create_namespace (w_ext w) name p (ap_db st) of
                    (r, s) \<Rightarrow>
                      ((case r of
                          Inr _ \<Rightarrow> ok_json [(''ok'', JBool True)]
                        | Inl (NamespaceExists _) \<Rightarrow> err_json 409 ''namespace_exists''
                        | Inl (BadName _) \<Rightarrow> err_json 400 ''bad_request''
                        | Inl _ \<Rightarrow> err_json 500 ''internal''),
                       st\<lparr>ap_db := s\<rparr>))))"

text \<open>The peers are changed in memory before the file is saved.\<close>

definition save_peers :: "world \<Rightarrow> config \<Rightarrow> app \<Rightarrow> response \<times> app" where
  "save_peers w cfg st =
     (case save_config (w_toml w) (w_writable w) cfg of
        Inr s \<Rightarrow> (ok_json [(''ok'', JBool True)], st\<lparr>ap_cfg := cfg, ap_cfg_file := s\<rparr>)
      | Inl e \<Rightarrow> (err_json 500 ''config_save_failed'', st\<lparr>ap_cfg := cfg\<rparr>))"

definition l1_peers_list :: "world \<Rightarrow> capability list option \<Rightarrow> app \<Rightarrow> response \<times> app" where
  "l1_peers_list w caps st =
     (case l1_auth w caps st of
        (Inl r, st) \<Rightarrow> (r, st)
      | (Inr _, st) \<Rightarrow>
          (ok_json [(''peers'', JArray (map (\<lambda>p. JObject [(''name'', JString (pr_name p)),
             (''addr'', JString (pr_addr p)), (''pin'', JString (pr_pin p))]) (cfg_peers (ap_cfg st))))], st))"

definition l1_peers_add ::
  "world \<Rightarrow> capability list option \<Rightarrow> string \<Rightarrow> string \<Rightarrow> string \<Rightarrow> string list option \<Rightarrow> app \<Rightarrow> response \<times> app" where
  "l1_peers_add w caps name addr pin nss st =
     (case l1_auth w caps st of
        (Inl r, st) \<Rightarrow> (r, st)
      | (Inr _, st) \<Rightarrow>
          (case add_peer_scoped (w_ext w) (w_addr_ok w) name addr pin nss (ap_cfg st) of
             Inl e \<Rightarrow> (err_json 400 ''invalid_peer'', st)
           | Inr cfg \<Rightarrow> save_peers w cfg st))"

definition l1_peers_remove :: "world \<Rightarrow> capability list option \<Rightarrow> string \<Rightarrow> app \<Rightarrow> response \<times> app" where
  "l1_peers_remove w caps name st =
     (case l1_auth w caps st of
        (Inl r, st) \<Rightarrow> (r, st)
      | (Inr _, st) \<Rightarrow>
          (case remove_peer name (ap_cfg st) of
             (False, cfg) \<Rightarrow> (err_json 404 ''peer_not_found'', st\<lparr>ap_cfg := cfg\<rparr>)
           | (True, cfg) \<Rightarrow> save_peers w cfg st))"

text \<open>A definition of the namespace as JSON: its schema or its index.\<close>

definition l1_def_get ::
  "world \<Rightarrow> (store \<Rightarrow> namespace \<Rightarrow> bytes option) \<Rightarrow> string \<Rightarrow> capability list option \<Rightarrow> namespace \<Rightarrow> app \<Rightarrow> response \<times> app" where
  "l1_def_get w look missing caps ns st =
     (case l1_auth w caps st of
        (Inl r, st) \<Rightarrow> (r, st)
      | (Inr _, st) \<Rightarrow>
          (case look (app_store st) ns of
             Some bs \<Rightarrow>
               (Resp 200 (case json_of (w_ext w) (from_utf8_lossy bs) of None \<Rightarrow> JNull | Some v \<Rightarrow> v), st)
           | None \<Rightarrow> (err_json 404 missing, st)))"

definition l1_schema_get :: "world \<Rightarrow> capability list option \<Rightarrow> namespace \<Rightarrow> app \<Rightarrow> response \<times> app" where
  "l1_schema_get w = l1_def_get w schema ''no_schema''"

definition l1_index_get :: "world \<Rightarrow> capability list option \<Rightarrow> namespace \<Rightarrow> app \<Rightarrow> response \<times> app" where
  "l1_index_get w = l1_def_get w index_def ''no_index''"

text \<open>The common end of the handlers that set or clear a definition.\<close>

definition l1_store_def ::
  "(namespace \<Rightarrow> bytes option \<Rightarrow> u64 \<Rightarrow> bytes \<Rightarrow> bytes \<Rightarrow> db \<Rightarrow> (storage_error, nat) result \<times> db) \<Rightarrow> namespace \<Rightarrow>
   bytes option \<Rightarrow> (string \<times> jvalue) list \<Rightarrow> app \<Rightarrow> response \<times> app" where
  "l1_store_def upd ns value extra st =
     (if policy (app_store st) ns = None then (err_json 404 ''namespace_not_found'', st)
      else
        let (h, st) = app_hlc_now st
        in (case upd ns value h (ap_root st) (ap_root st) (ap_db st) of
              (Inr sq, s) \<Rightarrow>
                (ok_json ([(''ok'', JBool True), (''seq'', jnat sq)] @ extra), wrote ns (st\<lparr>ap_db := s\<rparr>))
            | (Inl e, s) \<Rightarrow> (err_json 500 ''internal'', st\<lparr>ap_db := s\<rparr>)))"

definition l1_schema_set :: "world \<Rightarrow> capability list option \<Rightarrow> namespace \<Rightarrow> bytes \<Rightarrow> app \<Rightarrow> response \<times> app" where
  "l1_schema_set w caps ns body st =
     (case l1_auth w caps st of
        (Inl r, st) \<Rightarrow> (r, st)
      | (Inr _, st) \<Rightarrow>
          (case json_of (w_ext w) (from_utf8_lossy body) of
             None \<Rightarrow> (err_json 400 ''bad_json'', st)
           | Some v \<Rightarrow>
               (case check_supported v of
                  Inl msg \<Rightarrow> (err_json 400 ''unsupported_schema'', st)
                | Inr _ \<Rightarrow> l1_store_def (set_schema (w_ext w)) ns (Some body) [] st)))"

definition l1_schema_clear :: "world \<Rightarrow> capability list option \<Rightarrow> namespace \<Rightarrow> app \<Rightarrow> response \<times> app" where
  "l1_schema_clear w caps ns st =
     (case l1_auth w caps st of
        (Inl r, st) \<Rightarrow> (r, st)
      | (Inr _, st) \<Rightarrow> l1_store_def (set_schema (w_ext w)) ns None [] st)"

fun dedup_fields :: "string list \<Rightarrow> string list \<Rightarrow> string list" where
  "dedup_fields seen [] = seen"
| "dedup_fields seen (f # fs) =
     (if f = [] \<or> f \<in> set seen then dedup_fields seen fs else dedup_fields (seen @ [f]) fs)"

definition l1_index_set :: "world \<Rightarrow> capability list option \<Rightarrow> namespace \<Rightarrow> bytes \<Rightarrow> app \<Rightarrow> response \<times> app" where
  "l1_index_set w caps ns body st =
     (case l1_auth w caps st of
        (Inl r, st) \<Rightarrow> (r, st)
      | (Inr _, st) \<Rightarrow>
          (case (case json_of (w_ext w) (from_utf8_lossy body) of None \<Rightarrow> None | Some v \<Rightarrow> as_string_list v) of
             None \<Rightarrow> (err_json 400 ''bad_index_def'', st)
           | Some fs \<Rightarrow>
               let seen = dedup_fields [] fs
               in l1_store_def (set_index (w_ext w)) ns (Some (w_fields_json w seen))
                    [(''fields'', JArray (map JString seen))] st))"

definition l1_index_clear :: "world \<Rightarrow> capability list option \<Rightarrow> namespace \<Rightarrow> app \<Rightarrow> response \<times> app" where
  "l1_index_clear w caps ns st =
     (case l1_auth w caps st of
        (Inl r, st) \<Rightarrow> (r, st)
      | (Inr _, st) \<Rightarrow> l1_store_def (set_index (w_ext w)) ns None [] st)"

subsection \<open>Capabilities and revocations\<close>

text \<open>A ledger is a text in the metadata to which lines are appended.\<close>

definition ledger :: "store \<Rightarrow> string \<Rightarrow> string" where
  "ledger st name = (case meta_get st name of None \<Rightarrow> [] | Some v \<Rightarrow> lossy_str v)"

definition push_ledger :: "string \<Rightarrow> string \<Rightarrow> app \<Rightarrow> app" where
  "push_ledger name line st =
     st\<lparr>ap_db := (ap_db st)\<lparr>db_store :=
        meta_set name (str_bytes (ledger (app_store st) name @ line @ [newline])) (app_store st)\<rparr>\<rparr>"

definition l1_issue_cap ::
  "world \<Rightarrow> capability list option \<Rightarrow> string \<Rightarrow> string list \<Rightarrow> u64 option \<Rightarrow> string option \<Rightarrow> u64 \<Rightarrow> app \<Rightarrow> response \<times> app" where
  "l1_issue_cap w caps s perms expiry_ms to nonce st =
     (case l1_auth w caps st of
        (Inl r, st) \<Rightarrow> (r, st)
      | (Inr who, st) \<Rightarrow>
          (case scope_parse s of
             Inl _ \<Rightarrow> (err_json 400 ''bad_request'', st)
           | Inr target \<Rightarrow>
               if \<not> ((sc_tier target = L2 \<or> sc_tier target = L3) \<and> sc_host target = ap_host st)
               then (err_json 400 ''bad_request'', st)
               else
                 (case perm_parse_list perms of
                    Inl _ \<Rightarrow> (err_json 400 ''bad_request'', st)
                  | Inr p \<Rightarrow>
                      (case (case to of None \<Rightarrow> Ok who | Some hex \<Rightarrow> parse_pk (w_ext w) hex) of
                         Inl _ \<Rightarrow> (err_json 400 ''bad_request'', st)
                       | Inr subject \<Rightarrow>
                           let c = sign_for (w_ext w) (w_cx w) target p expiry_ms nonce subject (ap_kp st);
                               j = to_json (w_ext w) (w_cx w) c
                           in ((case json_of (w_ext w) (str_bytes j) of None \<Rightarrow> Panicked | Some v \<Rightarrow> Resp 200 v),
                               push_ledger ''sys/caps'' j st)))))"

definition l1_list_caps :: "world \<Rightarrow> capability list option \<Rightarrow> app \<Rightarrow> response \<times> app" where
  "l1_list_caps w caps st =
     (case l1_auth w caps st of
        (Inl r, st) \<Rightarrow> (r, st)
      | (Inr _, st) \<Rightarrow>
          (Resp 200 (JArray (List.map_filter (\<lambda>line. json_of (w_ext w) (str_bytes line))
             (filter (\<lambda>line. trim line \<noteq> []) (lines (ledger (app_store st) ''sys/caps''))))), st))"

definition l1_revoke :: "world \<Rightarrow> capability list option \<Rightarrow> string \<Rightarrow> string \<Rightarrow> app \<Rightarrow> response \<times> app" where
  "l1_revoke w caps s to st =
     (case l1_auth w caps st of
        (Inl r, st) \<Rightarrow> (r, st)
      | (Inr _, st) \<Rightarrow>
          (case scope_parse s of
             Inl _ \<Rightarrow> (err_json 400 ''bad_request'', st)
           | Inr target \<Rightarrow>
               (case parse_pk (w_ext w) to of
                  Inl _ \<Rightarrow> (err_json 400 ''bad_request'', st)
                | Inr pk \<Rightarrow>
                    let st = st\<lparr>ap_revocations := revoke_principal target (pk_str (w_ext w) pk) (ap_revocations st),
                                ap_epoch := ap_epoch st + 1\<rparr>
                    in (ok_json [(''ok'', JBool True)],
                        push_ledger ''sys/revocations'' (to_url target @ [CHR 0x09] @ pk_str (w_ext w) pk) st))))"

subsection \<open>Requests\<close>

text \<open>The routes, with the extracted parts of the request.  An owner route \<open>/l3/u/{pk}\<close> is the
  route of the namespace \<open>u/{pk}\<close>.\<close>

datatype request =
    Data namespace string http_method "string \<rightharpoonup> string" bytes
  | Scan namespace "string \<rightharpoonup> string"
  | Batch namespace bytes
  | Ql namespace string
  | Head namespace
  | Changes namespace "string \<rightharpoonup> string"
  | Conflicts namespace
  | Events namespace "string \<rightharpoonup> string"
  | ListNamespaces
  | CreateNamespace string string
  | SchemaGet namespace
  | SchemaSet namespace bytes
  | SchemaClear namespace
  | IndexGet namespace
  | IndexSet namespace bytes
  | IndexClear namespace
  | IssueCap string "string list" "u64 option" "string option" u64
  | ListCaps
  | PeersList
  | PeersAdd string string string "string list option"
  | PeersRemove string
  | Revoke string string

fun route :: "world \<Rightarrow> capability list option \<Rightarrow> request \<Rightarrow> app \<Rightarrow> response \<times> app" where
  "route w caps (Data ns key m query body) st = handle_data w caps ns key m query body st"
| "route w caps (Scan ns query) st = handle_scan w caps ns query st"
| "route w caps (Batch ns body) st = handle_batch w caps ns body st"
| "route w caps (Ql ns expr) st = run_ql w caps ns expr st"
| "route w caps (Head ns) st = handle_head w caps ns st"
| "route w caps (Changes ns query) st = handle_changes w caps ns query st"
| "route w caps (Conflicts ns) st = handle_conflicts w caps ns st"
| "route w caps (Events ns query) st = handle_events w caps ns query st"
| "route w caps ListNamespaces st = l1_list_namespaces w caps st"
| "route w caps (CreateNamespace name pol) st = l1_create_namespace w caps name pol st"
| "route w caps (SchemaGet ns) st = l1_schema_get w caps ns st"
| "route w caps (SchemaSet ns body) st = l1_schema_set w caps ns body st"
| "route w caps (SchemaClear ns) st = l1_schema_clear w caps ns st"
| "route w caps (IndexGet ns) st = l1_index_get w caps ns st"
| "route w caps (IndexSet ns body) st = l1_index_set w caps ns body st"
| "route w caps (IndexClear ns) st = l1_index_clear w caps ns st"
| "route w caps (IssueCap s perms expiry_ms to nonce) st = l1_issue_cap w caps s perms expiry_ms to nonce st"
| "route w caps PeersList st = l1_peers_list w caps st"
| "route w caps (PeersAdd name addr pin nss) st = l1_peers_add w caps name addr pin nss st"
| "route w caps (PeersRemove name) st = l1_peers_remove w caps name st"
| "route w caps ListCaps st = l1_list_caps w caps st"
| "route w caps (Revoke s to) st = l1_revoke w caps s to st"

definition handle :: "world \<Rightarrow> string option \<Rightarrow> request \<Rightarrow> app \<Rightarrow> response \<times> app" where
  "handle w header req st =
     (case auth_mw w header st of
        (Inl r, st) \<Rightarrow> (r, st)
      | (Inr caps, st) \<Rightarrow> route w caps req st)"

fun handle_all :: "world \<Rightarrow> (string option \<times> request) list \<Rightarrow> app \<Rightarrow> response list \<times> app" where
  "handle_all w [] st = ([], st)"
| "handle_all w ((h, req) # rs) st =
     (let (r, st) = handle w h req st; (out, st) = handle_all w rs st in (r # out, st))"

text \<open>Parameters and a started server for concrete instances.\<close>

definition demo_world :: world where
  "demo_world =
     \<lparr>w_ext = demo_ext, w_cx = demo_cx, w_fields_json = (\<lambda>_. []), w_hash = (\<lambda>_. 0), w_shuffle = id, w_lock = (\<lambda>_. True),
      w_toml = demo_toml default_config, w_addr_ok = (\<lambda>_. True), w_writable = True\<rparr>"

definition demo_app :: "db \<Rightarrow> app" where
  "demo_app s =
     \<lparr>ap_db = s, ap_root = zero32, ap_keyring = keyring_current zero32, ap_kp = [], ap_revocations = new_revocations,
      ap_host = ''h'', ap_quota = 100, ap_epoch = 0, ap_cache = cap_cache_new, ap_tokens = token_cache_new,
      ap_requests = 0, ap_writes = 0, ap_limiter = new_limiter False 0 1, ap_syncs = 0, ap_changes = [],
      ap_wall = (\<lambda>_. 5), ap_wall_at = 0, ap_hlc = (\<lambda>n. of_nat n + 7), ap_hlc_at = 0,
      ap_cfg = default_config, ap_cfg_file = [], ap_streams = 0\<rparr>"

end
