(* ===== verification/ServerAuth.thy ===== *)
theory ServerAuth
  imports Server
begin

text \<open>
  Authorization of the HTTP layer as a whole: the middleware, the two caches and the check of
  each route, over any sequence of requests.  A handler is \<open>guarded\<close> when it keeps the caches
  sound and, without a capability that permits the request, only refuses.
\<close>

section \<open>Definitions\<close>

subsection \<open>What the properties speak about\<close>

text \<open>The scope and the permissions a route demands.\<close>

definition ns_scope :: "app \<Rightarrow> namespace \<Rightarrow> string \<Rightarrow> scope" where
  "ns_scope st ns key = data_scope (if prefix ''u/'' ns then L3 else L2) ns key (ap_host st)"

fun demand :: "app \<Rightarrow> request \<Rightarrow> scope \<times> perm_set" where
  "demand st (Data ns key m _ _) = (ns_scope st ns key, if m = GET then READ else WRITE)"
| "demand st (Scan ns _) = (ns_scope st ns [], READ)"
| "demand st (Batch ns _) = (ns_scope st ns [], WRITE)"
| "demand st (Ql ns _) = (ns_scope st ns [], WRITE)"
| "demand st (Head ns) = (ns_scope st ns [], READ)"
| "demand st (Changes ns _) = (ns_scope st ns [], READ)"
| "demand st (Conflicts ns) = (ns_scope st ns [], READ)"
| "demand st (Events ns _) = (ns_scope st ns [], READ)"
| "demand st _ = (l1_scope st, ADMIN)"

text \<open>The capability of the header, if it has one.\<close>

definition header_cap :: "world \<Rightarrow> string option \<Rightarrow> capability option" where
  "header_cap w header =
     (case header of
        None \<Rightarrow> None
      | Some h \<Rightarrow> (case parse_cap_header (w_ext w) (w_cx w) h of Inl _ \<Rightarrow> None | Inr c \<Rightarrow> Some c))"

definition cap_permits :: "world \<Rightarrow> app \<Rightarrow> u64 \<Rightarrow> scope \<Rightarrow> perm_set \<Rightarrow> capability \<Rightarrow> bool" where
  "cap_permits w st now s perms c \<longleftrightarrow>
     cap_valid (w_ext w) (w_cx w) (ap_keyring st) (c_subject c) (ap_revocations st) now c \<and> grants (w_ext w) s perms c"

definition permitted :: "world \<Rightarrow> app \<Rightarrow> string option \<Rightarrow> request \<Rightarrow> bool" where
  "permitted w st header req \<longleftrightarrow>
     (\<exists>c. header_cap w header = Some c \<and>
        cap_permits w st (ap_wall st (ap_wall_at st + 1)) (fst (demand st req)) (snd (demand st req)) c)"

definition is_refusal :: "response \<Rightarrow> bool" where
  "is_refusal r \<longleftrightarrow> (\<exists>code e. code \<in> {400, 401, 403, 429} \<and> r = err_json code e)"

text \<open>Relied on for the caches: SHA-256 has no collision among the tokens and the capabilities
  presented, and the JSON bytes of a structure determine its fields.\<close>

definition presented :: "world \<Rightarrow> string set \<Rightarrow> capability set" where
  "presented w H = {c. \<exists>h \<in> H. parse_cap_header (w_ext w) (w_cx w) h = Inr c}"

definition trusted :: "world \<Rightarrow> string set \<Rightarrow> bool" where
  "trusted w H \<longleftrightarrow>
     hex_ok (w_ext w) \<and> inj_on (token_digest (w_ext w)) H \<and>
     collision_free (w_ext w) (w_cx w) (presented w H) \<and> json_injective (w_ext w) (w_cx w) (presented w H)"

definition caches_ok :: "world \<Rightarrow> string set \<Rightarrow> app \<Rightarrow> bool" where
  "caches_ok w H st \<longleftrightarrow>
     cache_inv (w_ext w) (w_cx w) (presented w H) (ap_revocations st) (ap_epoch st) (ap_cache st) \<and>
     (\<forall>h \<in> H. \<forall>sh c. ap_tokens st sh (token_digest (w_ext w) h) = Some c \<longrightarrow>
        parse_cap_header (w_ext w) (w_cx w) h = Inr c)"

text \<open>The state on which authorization depends is the same, up to the caches.\<close>

definition same_auth :: "app \<Rightarrow> app \<Rightarrow> bool" where
  "same_auth st st' \<longleftrightarrow>
     ap_keyring st' = ap_keyring st \<and> ap_revocations st' = ap_revocations st \<and> ap_host st' = ap_host st \<and>
     ap_epoch st' = ap_epoch st \<and> ap_cache st' = ap_cache st \<and> ap_tokens st' = ap_tokens st"

definition same_data :: "app \<Rightarrow> app \<Rightarrow> bool" where
  "same_data st st' \<longleftrightarrow>
     ap_keyring st' = ap_keyring st \<and> ap_revocations st' = ap_revocations st \<and> ap_host st' = ap_host st \<and>
     ap_epoch st' = ap_epoch st \<and> ap_db st' = ap_db st \<and> ap_wall st' = ap_wall st \<and> ap_root st' = ap_root st \<and>
     ap_hlc st' = ap_hlc st \<and> ap_hlc_at st' = ap_hlc_at st \<and> ap_quota st' = ap_quota st \<and>
     ap_cfg st' = ap_cfg st \<and> ap_cfg_file st' = ap_cfg_file st \<and> ap_streams st' = ap_streams st"

definition header_set :: "(string option \<times> request) list \<Rightarrow> string set" where
  "header_set rs = {h. \<exists>req. (Some h, req) \<in> set rs}"

text \<open>What a handler does after its check leaves the authorization state alone; the revocation
  route takes the next epoch.\<close>

definition cont_ok :: "world \<Rightarrow> string set \<Rightarrow> app \<Rightarrow> app \<Rightarrow> bool" where
  "cont_ok w H st st' \<longleftrightarrow>
     caches_ok w H st' \<and> ap_keyring st' = ap_keyring st \<and> ap_host st' = ap_host st \<and>
     (ap_epoch st' = ap_epoch st \<or> ap_epoch st' = ap_epoch st + 1)"

definition guarded :: "world \<Rightarrow> string set \<Rightarrow> capability option \<Rightarrow> scope \<times> perm_set \<Rightarrow> app \<Rightarrow> response \<times> app \<Rightarrow> bool" where
  "guarded w H co d st out \<longleftrightarrow>
     cont_ok w H st (snd out) \<and>
     (\<not> (\<exists>c. co = Some c \<and> cap_permits w st (ap_wall st (ap_wall_at st)) (fst d) (snd d) c) \<longrightarrow>
        is_refusal (fst out) \<and> same_data st (snd out))"

text \<open>A capability for the keys below \<open>a\<close>, and a node that holds a key outside of them.\<close>

definition sibling_cap :: capability where
  "sibling_cap = demo_cap\<lparr>c_scope := (c_scope demo_cap)\<lparr>sc_prefix := Some ''a''\<rparr>\<rparr>"

definition sibling_world :: world where
  "sibling_world = demo_world\<lparr>w_cx := demo_cx\<lparr>wire_of := (\<lambda>_. Some (wire_view demo_ext sibling_cap))\<rparr>\<rparr>"

definition sibling_app :: app where
  "sibling_app = demo_app ((empty_db False)\<lparr>db_store := (empty_store False)\<lparr>st_index :=
     [((''n'', str_bytes ''ab/x''), Lww \<lparr>v_hlc = 1, v_replica = zero32, v_author = zero32, v_value = [7], v_seq = 1, v_expires_at = 0\<rparr>)]\<rparr>\<rparr>)"

section \<open>Authorization\<close>

lemma refusal_codes [simp]:
  "is_refusal (err_json 400 e)" "is_refusal (err_json 401 e)" "is_refusal (err_json 403 e)" "is_refusal (err_json 429 e)"
  unfolding is_refusal_def by blast+

lemma parse_cap_header_sig: "parse_cap_header ext cx h = Inr c \<Longrightarrow> length (c_sig c) = 64"
  by (auto simp: parse_cap_header_def from_json_def split: option.splits sum.splits if_splits)

lemma caches_ok_same: "same_auth st st' \<Longrightarrow> caches_ok w H st' = caches_ok w H st"
  by (simp add: caches_ok_def same_auth_def)

lemma same_auth_trans [trans]: "same_auth a b \<Longrightarrow> same_auth b c \<Longrightarrow> same_auth a c"
  by (simp add: same_auth_def)

lemma same_data_trans [trans]: "same_data a b \<Longrightarrow> same_data b c \<Longrightarrow> same_data a c"
  by (simp add: same_data_def)

lemma same_refl [simp]: "same_auth st st" "same_data st st"
  by (simp_all add: same_auth_def same_data_def)

lemma authorize_ok_single:
  "authorize ext cx s (c_subject c) perms [c] kr rv host now_ms = Inr u \<longleftrightarrow>
     sc_host s = host \<and> cap_valid ext cx kr (c_subject c) rv now_ms c \<and> grants ext s perms c"
  using authorize_iff [of ext cx s "c_subject c" perms "[c]" kr rv host now_ms]
  by (cases "authorize ext cx s (c_subject c) perms [c] kr rv host now_ms") auto

text \<open>The middleware hands over the capability of the header, whatever the parse cache holds.\<close>

lemma token_cap_effect:
  assumes t: "trusted w H" and ok: "caches_ok w H st" and hd: "h \<in> H" and tc: "token_cap w h st = (r, st')"
  shows "caches_ok w H st' \<and> same_data st st' \<and> ap_wall_at st' = ap_wall_at st \<and>
    (case r of Inr c \<Rightarrow> parse_cap_header (w_ext w) (w_cx w) h = Inr c
             | Inl _ \<Rightarrow> \<exists>e. parse_cap_header (w_ext w) (w_cx w) h = Inl e)"
proof (cases "token_cache_get (w_lock w (unat (token_digest (w_ext w) h ! 0) mod 256)) (ap_tokens st)
    (token_digest (w_ext w) h)")
  case (Some c)
  then have "parse_cap_header (w_ext w) (w_cx w) h = Inr c"
    using ok hd unfolding caches_ok_def token_cache_get_def by (simp split: if_splits)
  then show ?thesis using tc ok Some by (auto simp: token_cap_def split: sum.splits)
next
  case None
  show ?thesis
  proof (cases "parse_cap_header (w_ext w) (w_cx w) h")
    case (Inl e)
    then show ?thesis using tc ok None by (auto simp: token_cap_def split: sum.splits)
  next
    case (Inr c)
    have inj: "h' = h" if "h' \<in> H" "token_digest (w_ext w) h' = token_digest (w_ext w) h" for h'
      using t that hd unfolding trusted_def inj_on_def by blast
    have "parse_cap_header (w_ext w) (w_cx w) h' = Inr c'"
      if "h' \<in> H" "token_cache_put (ap_tokens st) (token_digest (w_ext w) h) c sh (token_digest (w_ext w) h') = Some c'"
      for h' sh c'
      using that Inr inj [OF that(1)] ok
      by (auto simp: token_cache_put_def caches_ok_def Let_def split: if_splits)
    then show ?thesis using tc ok None Inr by (auto simp: token_cap_def Let_def caches_ok_def same_data_def split: sum.splits)
  qed
qed

lemma limited_effect:
  assumes "limited w key now r st = (r', st')"
  shows "caches_ok w H st' = caches_ok w H st" "same_data st st'" "ap_wall_at st' = ap_wall_at st"
    "r' = r \<or> (\<exists>e. r' = Inl e \<and> is_refusal e)"
  using assms
  by (auto simp: limited_def caches_ok_def same_data_def split: prod.splits if_splits)

lemma auth_mw_effect:
  assumes t: "trusted w H" and ok: "caches_ok w H st" and hd: "set_option header \<subseteq> H"
    and mw: "auth_mw w header st = (r, st')"
  shows "caches_ok w H st' \<and> same_data st st' \<and> ap_wall_at st' = ap_wall_at st + 1 \<and>
    (case r of Inr caps \<Rightarrow> caps = map_option (\<lambda>c. [c]) (header_cap w header) | Inl e \<Rightarrow> is_refusal e)"
proof -
  define st1 where "st1 = snd (app_now_ms (st\<lparr>ap_requests := ap_requests st + 1\<rparr>))"
  have now: "app_now_ms (st\<lparr>ap_requests := ap_requests st + 1\<rparr>) = (ap_wall st (ap_wall_at st), st1)"
    by (simp add: st1_def app_now_ms_def)
  have s1: "caches_ok w H st1" "same_data st st1" "ap_wall_at st1 = ap_wall_at st + 1"
    using ok by (simp_all add: st1_def app_now_ms_def caches_ok_def same_data_def)
  show ?thesis
  proof (cases header)
    case None
    with mw now have "limited w ''anon'' (ap_wall st (ap_wall_at st)) (Ok None) st1 = (r, st')" by (simp add: auth_mw_def)
    from limited_effect(1) [OF this, of H] limited_effect(2-4) [OF this] s1 None show ?thesis
      by (auto simp: header_cap_def dest: same_data_trans)
  next
    case (Some h)
    obtain rc st2 where tc: "token_cap w h st1 = (rc, st2)" by fastforce
    have s2: "caches_ok w H st2" "same_data st st2" "ap_wall_at st2 = ap_wall_at st + 1"
      and rc: "case rc of Inr c \<Rightarrow> parse_cap_header (w_ext w) (w_cx w) h = Inr c
             | Inl _ \<Rightarrow> \<exists>e. parse_cap_header (w_ext w) (w_cx w) h = Inl e"
      using token_cap_effect [OF t s1(1) _ tc] hd Some s1 by (auto dest: same_data_trans)
    obtain key x where l: "limited w key (ap_wall st (ap_wall_at st)) x st2 = (r, st')"
        and x: "case x of Inr caps \<Rightarrow> caps = map_option (\<lambda>c. [c]) (header_cap w header) | Inl e \<Rightarrow> is_refusal e"
      using mw now Some tc rc
      by (cases rc) (auto simp: auth_mw_def header_cap_def split: if_splits)
    show ?thesis
      using limited_effect(1) [OF l, of H] limited_effect(2-4) [OF l] s2 x by (auto dest: same_data_trans)
  qed
qed

text \<open>A check succeeds exactly when the capability handed over permits it, whatever the
  verification cache holds.\<close>

lemma auth_l1_l2_effect:
  assumes t: "trusted w H" and ok: "caches_ok w H st" and hd: "set_option co \<subseteq> presented w H"
    and a: "auth_l1_l2 w (map_option (\<lambda>c. [c]) co) s perms now st = (r, st')"
  shows "caches_ok w H st' \<and> same_data st st' \<and> ap_wall_at st' = ap_wall_at st \<and>
    (case r of
       Inr p \<Rightarrow> (\<exists>c. co = Some c \<and> p = c_subject c \<and> sc_host s = ap_host st \<and> cap_permits w st now s perms c)
     | Inl e \<Rightarrow> is_refusal e \<and>
         \<not> (\<exists>c. co = Some c \<and> sc_host s = ap_host st \<and> cap_permits w st now s perms c))"
proof (cases co)
  case None
  then show ?thesis using a ok by (auto simp: auth_l1_l2_def)
next
  case (Some c)
  have sig: "\<forall>c \<in> presented w H. length (c_sig c) = 64"
    by (auto simp: presented_def dest: parse_cap_header_sig)
  have h: "hex_ok (w_ext w)" "collision_free (w_ext w) (w_cx w) (presented w H)"
      "json_injective (w_ext w) (w_cx w) (presented w H)"
    and inv: "cache_inv (w_ext w) (w_cx w) (presented w H) (ap_revocations st) (ap_epoch st) (ap_cache st)"
    and sub: "set [c] \<subseteq> presented w H"
    using t ok hd Some by (auto simp: trusted_def caches_ok_def)
  let ?auth = "authorize (w_ext w) (w_cx w) s (c_subject c) perms [c] (ap_keyring st) (ap_revocations st) (ap_host st) now"
  obtain cache' where e: "authorize_cached (w_ext w) (w_cx w) (w_lock w) s (c_subject c) perms [c] (ap_keyring st)
      (ap_revocations st) (ap_host st) now (Some (ap_cache st)) (ap_epoch st) = (?auth, Some cache')"
      and c: "cache_inv (w_ext w) (w_cx w) (presented w H) (ap_revocations st) (ap_epoch st) cache'"
    by (rule authorize_cached_eq [OF h sig inv sub])
  have st': "st' = st\<lparr>ap_cache := cache'\<rparr>"
    and r: "r = (case ?auth of Inl e \<Rightarrow> Err (auth_to_response e) | Inr _ \<Rightarrow> Ok (c_subject c))"
    using a e Some by (auto simp: auth_l1_l2_def Let_def split: sum.splits)
  have "is_refusal (auth_to_response e)" if "?auth = Inl e" for e
    using that
    by (auto simp: authorize_def authorize_cached_def denial_def auth_to_response_def
        split: if_splits prod.splits bool.splits tier.splits)
  moreover have "caches_ok w H st'" "same_data st st'" "ap_wall_at st' = ap_wall_at st"
    using ok c by (simp_all add: st' caches_ok_def same_data_def)
  ultimately show ?thesis
    using r Some authorize_ok_single [of "w_ext w" "w_cx w" s c perms "ap_keyring st" "ap_revocations st" "ap_host st" now]
    by (cases ?auth) (auto simp: cap_permits_def)
qed

lemma cap_permits_same: "same_data st st' \<Longrightarrow> cap_permits w st' now s perms c = cap_permits w st now s perms c"
  by (simp add: cap_permits_def same_data_def)

lemma app_now_ms_effect:
  "app_now_ms st = (n, st') \<Longrightarrow>
     n = ap_wall st (ap_wall_at st) \<and> same_auth st st' \<and> same_data st st' \<and> ap_wall_at st' = ap_wall_at st + 1"
  by (auto simp: app_now_ms_def same_auth_def same_data_def)

lemma data_auth_effect:
  assumes t: "trusted w H" and ok: "caches_ok w H st" and hd: "set_option co \<subseteq> presented w H"
    and a: "data_auth w (map_option (\<lambda>c. [c]) co) ns key perms st = (r, st')"
  shows "caches_ok w H st' \<and> same_data st st' \<and>
    (case r of
       Inr (p, tr) \<Rightarrow> (\<exists>c. co = Some c \<and> p = c_subject c \<and>
         cap_permits w st (ap_wall st (ap_wall_at st)) (ns_scope st ns key) perms c) \<and>
         tr = (if prefix ''u/'' ns then L3 else L2)
     | Inl e \<Rightarrow> is_refusal e \<and>
         \<not> (\<exists>c. co = Some c \<and> cap_permits w st (ap_wall st (ap_wall_at st)) (ns_scope st ns key) perms c))"
proof -
  obtain n st1 where n: "app_now_ms st = (n, st1)" by fastforce
  note e = app_now_ms_effect [OF n]
  have ok1: "caches_ok w H st1" using e ok caches_ok_same [of st st1] by simp
  obtain r2 st2 where a2: "auth_l1_l2 w (map_option (\<lambda>c. [c]) co) (ns_scope st ns key) perms n st1 = (r2, st2)" by fastforce
  have hst: "sc_host (ns_scope st ns key) = ap_host st1"
    using e by (simp add: ns_scope_def data_scope_def Let_def same_data_def)
  have st': "st' = st2" and r: "r = (case r2 of Inl e \<Rightarrow> Err e | Inr p \<Rightarrow> Ok (p, if prefix ''u/'' ns then L3 else L2))"
    using a n a2 by (auto simp: data_auth_def ns_scope_def Let_def split: sum.splits)
  show ?thesis
    using auth_l1_l2_effect [OF t ok1 hd a2] e hst cap_permits_same [of st st1]
    unfolding st' r by (cases r2) (auto dest: same_data_trans)
qed

lemma l1_auth_effect:
  assumes t: "trusted w H" and ok: "caches_ok w H st" and hd: "set_option co \<subseteq> presented w H"
    and a: "l1_auth w (map_option (\<lambda>c. [c]) co) st = (r, st')"
  shows "caches_ok w H st' \<and> same_data st st' \<and>
    (case r of
       Inr p \<Rightarrow> (\<exists>c. co = Some c \<and> p = c_subject c \<and> cap_permits w st (ap_wall st (ap_wall_at st)) (l1_scope st) ADMIN c)
     | Inl e \<Rightarrow> is_refusal e \<and>
         \<not> (\<exists>c. co = Some c \<and> cap_permits w st (ap_wall st (ap_wall_at st)) (l1_scope st) ADMIN c))"
proof -
  obtain n st1 where n: "app_now_ms st = (n, st1)" by fastforce
  note e = app_now_ms_effect [OF n]
  have ok1: "caches_ok w H st1" using e ok caches_ok_same [of st st1] by simp
  have a2: "auth_l1_l2 w (map_option (\<lambda>c. [c]) co) (l1_scope st) ADMIN n st1 = (r, st')"
    using a n by (simp add: l1_auth_def Let_def)
  have "sc_host (l1_scope st) = ap_host st1" using e by (simp add: l1_scope_def same_data_def)
  then show ?thesis
    using auth_l1_l2_effect [OF t ok1 hd a2] e cap_permits_same [of st st1]
    by (cases r) (auto dest: same_data_trans)
qed

section \<open>Handlers\<close>

lemma cont_ok_same: "caches_ok w H st \<Longrightarrow> same_auth st st' \<Longrightarrow> cont_ok w H st st'"
  by (simp add: cont_ok_def caches_ok_same [of st st']) (simp add: same_auth_def)

lemma cont_ok_after: "same_data a b \<Longrightarrow> cont_ok w H b c \<Longrightarrow> cont_ok w H a c"
  by (simp add: cont_ok_def same_data_def)

lemma guarded_data:
  assumes "trusted w H" "caches_ok w H st" "set_option co \<subseteq> presented w H"
    and k: "\<And>p st1. caches_ok w H st1 \<Longrightarrow> cont_ok w H st1 (snd (k p st1))"
  shows "guarded w H co (ns_scope st ns key, perms) st
    (case data_auth w (map_option (\<lambda>c. [c]) co) ns key perms st of (Inl r, st1) \<Rightarrow> (r, st1) | (Inr p, st1) \<Rightarrow> k p st1)"
proof -
  obtain r st1 where a: "data_auth w (map_option (\<lambda>c. [c]) co) ns key perms st = (r, st1)" by fastforce
  note e = data_auth_effect [OF assms(1-3) a]
  show ?thesis
  proof (cases r)
    case (Inl x)
    then show ?thesis using a e cont_ok_after [of st st1 w H st1] cont_ok_same [of w H st1 st1]
      by (simp add: guarded_def)
  next
    case (Inr p)
    then show ?thesis using a e cont_ok_after [of st st1 w H "snd (k p st1)"] k [of st1 p]
      by (cases p) (auto simp: guarded_def)
  qed
qed

lemma guarded_l1:
  assumes "trusted w H" "caches_ok w H st" "set_option co \<subseteq> presented w H"
    and k: "\<And>p st1. caches_ok w H st1 \<Longrightarrow> ap_epoch st1 = ap_epoch st \<Longrightarrow> cont_ok w H st1 (snd (k p st1))"
  shows "guarded w H co (l1_scope st, ADMIN) st
    (case l1_auth w (map_option (\<lambda>c. [c]) co) st of (Inl r, st1) \<Rightarrow> (r, st1) | (Inr p, st1) \<Rightarrow> k p st1)"
proof -
  obtain r st1 where a: "l1_auth w (map_option (\<lambda>c. [c]) co) st = (r, st1)" by fastforce
  note e = l1_auth_effect [OF assms(1-3) a]
  show ?thesis
  proof (cases r)
    case (Inl x)
    then show ?thesis using a e cont_ok_after [of st st1 w H st1] cont_ok_same [of w H st1 st1]
      by (simp add: guarded_def)
  next
    case (Inr p)
    have "ap_epoch st1 = ap_epoch st" using e by (simp add: same_data_def)
    then show ?thesis using a e cont_ok_after [of st st1 w H "snd (k p st1)"] k [of st1 p] Inr
      by (auto simp: guarded_def)
  qed
qed

lemma same_auth_steps:
  "same_auth st (st\<lparr>ap_db := s\<rparr>)" "same_auth st (snd (app_now_ms st))" "same_auth st (snd (app_hlc_now st))"
  "same_auth st (wrote ns st)" "same_auth st (push_ledger name line st)" "same_auth st (snd (charge ns n st))"
  by (simp_all add: same_auth_def app_now_ms_def app_hlc_now_def wrote_def push_ledger_def charge_def split_beta)

lemma same_auth_expiry: "same_auth st (snd (expiry ttl st))"
  by (auto simp: expiry_def app_now_ms_def same_auth_def split: option.split)

lemma same_auth_ready: "same_auth st (snd (ready_namespace w t ns who st))"
  by (auto simp: ready_namespace_def same_auth_def split: prod.split sum.split)

lemma same_auth_store_def: "same_auth st (snd (l1_store_def upd ns value extra st))"
  by (auto simp: l1_store_def_def Let_def app_hlc_now_def wrote_def same_auth_def split: prod.split sum.split)

lemma same_auth_put: "same_auth st (snd (data_put w ns k who t query body st))"
proof -
  obtain r1 st1 where 1: "ready_namespace w t ns who st = (r1, st1)" by fastforce
  obtain r2 st2 where 2: "charge ns (of_nat (length body)) st1 = (r2, st2)" by fastforce
  obtain h st3 where 3: "app_hlc_now st2 = (h, st3)" by fastforce
  obtain e st4 where 4: "expiry (query_ttl query) st3 = (e, st4)" by fastforce
  have s: "same_auth st st1" "same_auth st1 st2" "same_auth st2 st3" "same_auth st3 st4"
    using same_auth_ready [of st w t ns who] same_auth_steps(6) [of st1 ns "of_nat (length body)"] same_auth_steps(3) [of st2]
      same_auth_expiry [of st3] 1 2 3 4 by (metis snd_conv)+
  have s': "same_auth st st2" "same_auth st st4" using s by (blast intro: same_auth_trans)+
  have w: "same_auth st (wrote ns (st4\<lparr>ap_db := d\<rparr>))" "same_auth st (st4\<lparr>ap_db := d\<rparr>)" for d
    using s'(2) by (simp_all add: same_auth_def wrote_def)
  show ?thesis
    using s(1) s' w by (auto simp: data_put_def 1 2 3 4 split: option.split sum.split prod.split)
qed

lemma same_auth_delete: "same_auth st (snd (data_delete w ns k who st))"
  by (auto simp: data_delete_def Let_def app_hlc_now_def wrote_def same_auth_def split: prod.split sum.split)

lemma same_auth_ql: "same_auth st (snd (ql_reply w expr ctx st))"
  by (auto simp: ql_reply_def same_auth_def split: option.split)

lemma same_auth_batch_pass: "same_auth st (snd (batch_pass w sch who op st))"
proof -
  obtain e st1 where 1: "expiry (op_ttl op) st = (e, st1)" by fastforce
  have "same_auth st st1" using same_auth_expiry [of st] 1 by (metis snd_conv)
  moreover have "same_auth st1 (snd (app_hlc_now st1))" "same_auth st (snd (app_hlc_now st))"
    by (rule same_auth_steps)+
  ultimately show ?thesis
    by (auto simp: batch_pass_def Let_def 1 split_beta split: option.split sum.split dest: same_auth_trans)
qed

lemma same_auth_batch_validate: "same_auth st (snd (batch_validate w sch who ops st))"
proof (induction ops arbitrary: st)
  case (Cons op ops)
  then show ?case
    using same_auth_trans [OF same_auth_batch_pass [of st w sch who op] Cons] by (simp add: Let_def split_beta)
qed simp

lemma same_auth_batch_charge: "same_auth st (snd (batch_charge ns os st))"
proof (induction os arbitrary: st)
  case (Cons x os)
  have c: "same_auth st (snd (batch_charge ns os (snd (charge ns n st))))" for n
    by (rule same_auth_trans [OF same_auth_steps(6) Cons])
  show ?case
  proof (cases x)
    case (Write r)
    then show ?thesis
      using c [of "of_nat (length (r_value r))"]
      by (cases "charge ns (of_nat (length (r_value r))) st") (simp add: split_beta split: sum.split)
  qed (use Cons in \<open>simp_all add: split_beta\<close>)
qed simp

lemma same_auth_batch_apply: "same_auth st (snd (batch_apply w ns os st))"
  by (auto simp: batch_apply_def same_auth_def split: prod.split sum.split)

lemma guarded_early:
  "caches_ok w H st \<Longrightarrow> guarded w H co d st (err_json 400 e, st)"
  using cont_ok_same [of w H st st] by (simp add: guarded_def)

lemma same_auth_batch_run: "same_auth st (snd (batch_run w ns ops p st))"
proof -
  let ?a = "snd (batch_validate w (schema (app_store st) ns) (fst p) ops st)"
  obtain r st2 where r: "ready_namespace w (snd p) ns (fst p) ?a = (r, st2)" by fastforce
  have a: "same_auth st st2"
    using same_auth_trans [OF same_auth_batch_validate same_auth_ready] r by (metis snd_conv)
  have b: "same_auth st2 (snd (app_now_ms (snd (batch_apply w ns os (snd (batch_charge ns os' st2))))))" for os os'
    by (rule same_auth_trans [OF same_auth_trans [OF same_auth_batch_charge same_auth_batch_apply] same_auth_steps(2)])
  show ?thesis
    using a same_auth_trans [OF a b] r by (auto simp: batch_run_def Let_def split_beta split: option.split)
qed

lemma handle_batch_guarded:
  assumes "trusted w H" "caches_ok w H st" "set_option co \<subseteq> presented w H"
  shows "guarded w H co (ns_scope st ns [], WRITE) st (handle_batch w (map_option (\<lambda>c. [c]) co) ns body st)"
proof -
  have g: "guarded w H co (ns_scope st ns [], WRITE) st
     (case data_auth w (map_option (\<lambda>c. [c]) co) ns [] WRITE st of
        (Inl r, st) \<Rightarrow> (r, st) | (Inr p, st) \<Rightarrow> batch_run w ns ops p st)" for ops
    by (rule guarded_data [OF assms]) (blast intro: cont_ok_same same_auth_batch_run)
  show ?thesis
    unfolding handle_batch_def using g guarded_early [OF assms(2)] by (auto split: option.split)
qed

lemma cont_ok_get:
  assumes "trusted w H" "caches_ok w H st" "set_option co \<subseteq> presented w H"
  shows "cont_ok w H st (snd (data_get w (map_option (\<lambda>c. [c]) co) ns k t query st))"
proof -
  have now: "cont_ok w H st1 (snd (app_now_ms st1))" if "caches_ok w H st1" for st1
    using that same_auth_steps(2) by (rule cont_ok_same)
  show ?thesis
  proof (cases "query ''prefix''")
    case None
    then show ?thesis
      using now [OF assms(2)] cont_ok_same [OF assms(2), of st]
      by (auto simp: data_get_def Let_def split_beta split: option.split entry.split)
  next
    case (Some p)
    obtain n st1 where n: "app_now_ms st = (n, st1)" by fastforce
    note e = app_now_ms_effect [OF n]
    have ok1: "caches_ok w H st1" using e assms(2) caches_ok_same [of st st1] by simp
    obtain r st2 where a: "auth_l1_l2 w (map_option (\<lambda>c. [c]) co)
        \<lparr>sc_host = ap_host st1, sc_tier = t, sc_ns = ns, sc_prefix = Some p\<rparr> READ n st1 = (r, st2)" by fastforce
    have f: "caches_ok w H st2" "same_data st st2"
      using auth_l1_l2_effect [OF assms(1) ok1 assms(3) a] e by (auto dest: same_data_trans)
    then show ?thesis
      using Some n a cont_ok_after [OF f(2) now [OF f(1)]] cont_ok_after [OF f(2) cont_ok_same [OF f(1), of st2]]
      by (auto simp: data_get_def Let_def split_beta split: sum.split)
  qed
qed

lemma handle_data_guarded:
  assumes "trusted w H" "caches_ok w H st" "set_option co \<subseteq> presented w H"
  shows "guarded w H co (ns_scope st ns key, if m = GET then READ else WRITE) st
    (handle_data w (map_option (\<lambda>c. [c]) co) ns key m query body st)"
proof -
  let ?caps = "map_option (\<lambda>c. [c]) co"
  define k where "k p st = (case m of
      GET \<Rightarrow> data_get w ?caps ns (str_bytes key) (snd p) query st
    | PUT \<Rightarrow> data_put w ns (str_bytes key) (fst p) (snd p) query body st
    | DELETE \<Rightarrow> data_delete w ns (str_bytes key) (fst p) st
    | OtherMethod \<Rightarrow> (err_json 405 ''method_not_allowed'', st))" for p :: "public_key \<times> tier" and st
  have "cont_ok w H st1 (snd (k p st1))" if "caches_ok w H st1" for p st1
    using cont_ok_get [OF assms(1) that assms(3)] cont_ok_same [OF that] same_auth_put same_auth_delete
    by (cases m) (simp_all add: k_def)
  moreover have "handle_data w ?caps ns key m query body st =
      (case data_auth w ?caps ns key (if m = GET then READ else WRITE) st of
         (Inl r, st1) \<Rightarrow> (r, st1) | (Inr p, st1) \<Rightarrow> k p st1)"
    by (cases m) (auto simp: handle_data_def k_def Let_def split: prod.split sum.split)
  ultimately show ?thesis using guarded_data [OF assms, of k ns key] by simp
qed

lemma handle_reads_guarded:
  assumes "trusted w H" "caches_ok w H st" "set_option co \<subseteq> presented w H"
  shows "guarded w H co (ns_scope st ns [], READ) st (handle_scan w (map_option (\<lambda>c. [c]) co) ns query st)"
    and "guarded w H co (ns_scope st ns [], READ) st (handle_head w (map_option (\<lambda>c. [c]) co) ns st)"
    and "guarded w H co (ns_scope st ns [], READ) st (handle_changes w (map_option (\<lambda>c. [c]) co) ns query st)"
    and "guarded w H co (ns_scope st ns [], READ) st (handle_conflicts w (map_option (\<lambda>c. [c]) co) ns st)"
    and "guarded w H co (ns_scope st ns [], READ) st (handle_events w (map_option (\<lambda>c. [c]) co) ns query st)"
proof -
  note g = guarded_data [OF assms, of _ ns "[]" READ]
  have i: "cont_ok w H st1 st1" "cont_ok w H st1 (snd (app_now_ms st1))" if "caches_ok w H st1" for st1
    using that same_auth_steps(2) by (auto intro: cont_ok_same)
  show "guarded w H co (ns_scope st ns [], READ) st (handle_head w (map_option (\<lambda>c. [c]) co) ns st)"
    unfolding handle_head_def by (rule g) (auto dest: i split: option.split)
  show "guarded w H co (ns_scope st ns [], READ) st (handle_changes w (map_option (\<lambda>c. [c]) co) ns query st)"
    unfolding handle_changes_def by (rule g) (auto simp: Let_def dest: i)
  show "guarded w H co (ns_scope st ns [], READ) st (handle_conflicts w (map_option (\<lambda>c. [c]) co) ns st)"
    unfolding handle_conflicts_def by (rule g) (auto dest: i)
  have "cont_ok w H st1 (st1\<lparr>ap_streams := n\<rparr>)" if "caches_ok w H st1" for st1 n
    using that by (rule cont_ok_same) (simp add: same_auth_def)
  then show "guarded w H co (ns_scope st ns [], READ) st (handle_events w (map_option (\<lambda>c. [c]) co) ns query st)"
    unfolding handle_events_def by (intro g) (auto dest: i split: option.split)
  show "guarded w H co (ns_scope st ns [], READ) st (handle_scan w (map_option (\<lambda>c. [c]) co) ns query st)"
  proof (cases "query ''prefix''")
    case None
    then show ?thesis using guarded_early [OF assms(2)] by (simp add: handle_scan_def)
  next
    case (Some p)
    show ?thesis
      unfolding handle_scan_def Some option.case by (rule g) (auto simp: Let_def split_beta dest: i)
  qed
qed

lemma run_ql_guarded:
  assumes "trusted w H" "caches_ok w H st" "set_option co \<subseteq> presented w H"
  shows "guarded w H co (ns_scope st ns [], WRITE) st (run_ql w (map_option (\<lambda>c. [c]) co) ns expr st)"
  unfolding run_ql_def
  by (rule guarded_data [OF assms])
    (auto split: option.split sum.split stmt_kind.split intro!: cont_ok_same same_auth_ql)

lemma l1_guarded:
  assumes "trusted w H" "caches_ok w H st" "set_option co \<subseteq> presented w H"
  defines "caps \<equiv> map_option (\<lambda>c. [c]) co"
  shows "guarded w H co (l1_scope st, ADMIN) st (l1_list_namespaces w caps st)"
    and "guarded w H co (l1_scope st, ADMIN) st (l1_create_namespace w caps name pol st)"
    and "guarded w H co (l1_scope st, ADMIN) st (l1_def_get w look missing caps ns st)"
    and "guarded w H co (l1_scope st, ADMIN) st (l1_schema_set w caps ns body st)"
    and "guarded w H co (l1_scope st, ADMIN) st (l1_schema_clear w caps ns st)"
    and "guarded w H co (l1_scope st, ADMIN) st (l1_index_set w caps ns body st)"
    and "guarded w H co (l1_scope st, ADMIN) st (l1_index_clear w caps ns st)"
    and "guarded w H co (l1_scope st, ADMIN) st (l1_issue_cap w caps s perms expiry_ms to nonce st)"
    and "guarded w H co (l1_scope st, ADMIN) st (l1_list_caps w caps st)"
    and "guarded w H co (l1_scope st, ADMIN) st (l1_peers_list w caps st)"
    and "guarded w H co (l1_scope st, ADMIN) st (l1_peers_add w caps name addr pin nss st)"
    and "guarded w H co (l1_scope st, ADMIN) st (l1_peers_remove w caps name st)"
proof -
  note g = guarded_l1 [OF assms(1-3)] and f = cont_ok_same same_auth_store_def same_auth_steps same_refl
  show "guarded w H co (l1_scope st, ADMIN) st (l1_list_namespaces w caps st)"
    unfolding l1_list_namespaces_def caps_def by (rule g) (auto intro!: f)
  show "guarded w H co (l1_scope st, ADMIN) st (l1_create_namespace w caps name pol st)"
    unfolding l1_create_namespace_def caps_def by (rule g) (auto split: option.split prod.split intro!: f)
  show "guarded w H co (l1_scope st, ADMIN) st (l1_def_get w look missing caps ns st)"
    unfolding l1_def_get_def caps_def by (rule g) (auto split: option.split intro!: f)
  show "guarded w H co (l1_scope st, ADMIN) st (l1_schema_set w caps ns body st)"
    unfolding l1_schema_set_def caps_def by (rule g) (auto split: option.split sum.split intro!: f)
  show "guarded w H co (l1_scope st, ADMIN) st (l1_schema_clear w caps ns st)"
    unfolding l1_schema_clear_def caps_def by (rule g) (auto intro!: f)
  show "guarded w H co (l1_scope st, ADMIN) st (l1_index_set w caps ns body st)"
    unfolding l1_index_set_def caps_def by (rule g) (auto simp: Let_def split: option.split intro!: f)
  show "guarded w H co (l1_scope st, ADMIN) st (l1_index_clear w caps ns st)"
    unfolding l1_index_clear_def caps_def by (rule g) (auto intro!: f)
  show "guarded w H co (l1_scope st, ADMIN) st (l1_issue_cap w caps s perms expiry_ms to nonce st)"
    unfolding l1_issue_cap_def caps_def by (rule g) (auto simp: Let_def split: option.split sum.split intro!: f)
  show "guarded w H co (l1_scope st, ADMIN) st (l1_list_caps w caps st)"
    unfolding l1_list_caps_def caps_def by (rule g) (auto intro!: f)
  have p: "same_auth st1 (snd (save_peers w cfg st1))" "same_auth st1 (st1\<lparr>ap_cfg := cfg\<rparr>)" for st1 cfg
    by (auto simp: save_peers_def same_auth_def split: sum.split)
  show "guarded w H co (l1_scope st, ADMIN) st (l1_peers_list w caps st)"
    unfolding l1_peers_list_def caps_def by (rule g) (auto intro!: f)
  show "guarded w H co (l1_scope st, ADMIN) st (l1_peers_add w caps name addr pin nss st)"
    unfolding l1_peers_add_def caps_def by (rule g) (auto split: sum.split intro!: f p)
  show "guarded w H co (l1_scope st, ADMIN) st (l1_peers_remove w caps name st)"
    unfolding l1_peers_remove_def caps_def by (rule g) (auto split: prod.split bool.split intro!: f p)
qed

lemma l1_revoke_guarded:
  assumes "trusted w H" "caches_ok w H st" "set_option co \<subseteq> presented w H" "ap_epoch st \<noteq> - 1"
  shows "guarded w H co (l1_scope st, ADMIN) st (l1_revoke w (map_option (\<lambda>c. [c]) co) s to st)"
  unfolding l1_revoke_def
proof (rule guarded_l1 [OF assms(1-3)])
  fix p :: public_key and st1
  assume ok: "caches_ok w H st1" and e: "ap_epoch st1 = ap_epoch st"
  have r: "cont_ok w H st1 (push_ledger name line (st1\<lparr>ap_revocations := rv, ap_epoch := ap_epoch st1 + 1\<rparr>))"
    for name line rv
    using ok cache_inv_revoke [of "w_ext w" "w_cx w" "presented w H" "ap_revocations st1" "ap_epoch st1" "ap_cache st1"] e assms(4)
    by (simp add: cont_ok_def caches_ok_def push_ledger_def)
  show "cont_ok w H st1 (snd (case scope_parse s of
             Inl _ \<Rightarrow> (err_json 400 ''bad_request'', st1)
           | Inr target \<Rightarrow>
               (case parse_pk (w_ext w) to of
                  Inl _ \<Rightarrow> (err_json 400 ''bad_request'', st1)
                | Inr pk \<Rightarrow>
                    let st = st1\<lparr>ap_revocations := revoke_principal target (pk_str (w_ext w) pk) (ap_revocations st1),
                                ap_epoch := ap_epoch st1 + 1\<rparr>
                    in (ok_json [(''ok'', JBool True)],
                        push_ledger ''sys/revocations'' (to_url target @ [CHR 0x09] @ pk_str (w_ext w) pk) st))))"
    using r cont_ok_same [OF ok, of st1] by (auto simp: Let_def split: sum.split)
qed

lemma route_guarded:
  assumes "trusted w H" "caches_ok w H st" "set_option co \<subseteq> presented w H" "ap_epoch st \<noteq> - 1"
  shows "guarded w H co (demand st req) st (route w (map_option (\<lambda>c. [c]) co) req st)"
  using handle_data_guarded [OF assms(1-3)] handle_batch_guarded [OF assms(1-3)] handle_reads_guarded [OF assms(1-3)]
    run_ql_guarded [OF assms(1-3)] l1_guarded [OF assms(1-3)] l1_revoke_guarded [OF assms]
  by (cases req) (simp_all add: l1_schema_get_def l1_index_get_def)

lemma demand_same: "same_data st st' \<Longrightarrow> demand st' req = demand st req"
  by (cases req) (simp_all add: ns_scope_def l1_scope_def same_data_def)

text \<open>One request: the caches stay sound, and without a permitting capability nothing changes.\<close>

lemma handle_guarded:
  assumes "trusted w H" "caches_ok w H st" "set_option header \<subseteq> H" "ap_epoch st \<noteq> - 1"
    and h: "handle w header req st = (r, st')"
  shows "cont_ok w H st st'" "\<not> permitted w st header req \<Longrightarrow> is_refusal r \<and> same_data st st'"
proof -
  obtain x st1 where mw: "auth_mw w header st = (x, st1)" by fastforce
  note e = auth_mw_effect [OF assms(1-3) mw]
  have co: "set_option (header_cap w header) \<subseteq> presented w H"
    using assms(3) by (auto simp: header_cap_def presented_def split: option.splits sum.splits)
  have ep: "ap_epoch st1 \<noteq> - 1" using e assms(4) by (simp add: same_data_def)
  have *: "cont_ok w H st st' \<and> (\<not> permitted w st header req \<longrightarrow> is_refusal r \<and> same_data st st')"
  proof (cases x)
    case (Inl y)
    then show ?thesis
      using h mw e cont_ok_after [of st st1 w H st1] cont_ok_same [of w H st1 st1] by (auto simp: handle_def)
  next
    case (Inr caps)
    have g: "guarded w H (header_cap w header) (demand st1 req) st1 (r, st')"
      using route_guarded [OF assms(1) _ co ep, of req] e h mw Inr by (simp add: handle_def)
    have "(\<exists>c. header_cap w header = Some c \<and>
        cap_permits w st1 (ap_wall st1 (ap_wall_at st1)) (fst (demand st1 req)) (snd (demand st1 req)) c) \<longleftrightarrow>
        permitted w st header req"
      using e demand_same [of st st1 req] by (simp add: permitted_def cap_permits_def same_data_def)
    then show ?thesis
      using g e cont_ok_after [of st st1 w H st'] same_data_trans [of st st1 st'] unfolding guarded_def by simp
  qed
  from * show "cont_ok w H st st'" "\<not> permitted w st header req \<Longrightarrow> is_refusal r \<and> same_data st st'" by blast+
qed

lemma header_set_Cons: "header_set ((h, req) # rs) = set_option h \<union> header_set rs"
  by (auto simp: header_set_def)

lemma handle_all_ok:
  assumes "trusted w H" "caches_ok w H st" "header_set rs \<subseteq> H" "unat (ap_epoch st) + length rs < 2 ^ 64"
    and "handle_all w rs st = (out, st')"
  shows "caches_ok w H st' \<and> unat (ap_epoch st') \<le> unat (ap_epoch st) + length rs"
  using assms(2-5)
proof (induction rs arbitrary: st out)
  case (Cons x rs)
  obtain h req where x: "x = (h, req)" by fastforce
  obtain r st1 where 1: "handle w h req st = (r, st1)" by fastforce
  obtain out' where 2: "handle_all w rs st1 = (out', st')"
    using Cons.prems(4) x 1 by (auto simp: Let_def split: prod.splits)
  have "unat (- 1 :: u64) = 2 ^ 64 - 1" by (simp add: unsigned_minus_1_eq_mask mask_eq_exp_minus_1)
  then have ep: "ap_epoch st \<noteq> - 1" using Cons.prems(3) by auto
  have c: "cont_ok w H st st1"
    using handle_guarded(1) [OF assms(1) Cons.prems(1) _ ep 1] Cons.prems(2) x by (simp add: header_set_Cons)
  have le: "unat (ap_epoch st1) \<le> unat (ap_epoch st) + 1"
    using c ep unat_Suc_no_wrap [OF ep] by (auto simp: cont_ok_def)
  have "caches_ok w H st' \<and> unat (ap_epoch st') \<le> unat (ap_epoch st1) + length rs"
  proof (rule Cons.IH [OF _ _ _ 2])
    show "caches_ok w H st1" using c by (simp add: cont_ok_def)
    show "header_set rs \<subseteq> H" using Cons.prems(2) x by (simp add: header_set_Cons)
    show "unat (ap_epoch st1) + length rs < 2 ^ 64" using le Cons.prems(3) by simp
  qed
  then show ?case using le by simp
qed simp

section \<open>Properties\<close>

text \<open>C1.  The server does what a caller asks only for a caller with the right to it: at any
  point of any sequence of requests, served from the state of a started server, a request
  whose header does not carry a capability that is validly signed by a key of the ring,
  unexpired, unrevoked and sufficient for the route is answered with an error status, and
  the database, the revocations and the table of peers stay as they are.  The two caches on
  the way make no difference as long as SHA-256 does not collide on what was presented.\<close>

theorem unauthorized_request_refused:
  assumes "trusted w (header_set (rs @ [(header, req)]))"
    and "ap_cache st = cap_cache_new" "ap_tokens st = token_cache_new" "ap_epoch st = 0" "length rs + 1 < 2 ^ 64"
    and "handle_all w rs st = (out, st1)" "\<not> permitted w st1 header req"
  shows "is_refusal (fst (handle w header req st1)) \<and>
    ap_db (snd (handle w header req st1)) = ap_db st1 \<and>
    ap_revocations (snd (handle w header req st1)) = ap_revocations st1 \<and>
    ap_cfg (snd (handle w header req st1)) = ap_cfg st1"
proof -
  let ?H = "header_set (rs @ [(header, req)])"
  have ok: "caches_ok w ?H st"
    using assms(2-4) by (simp add: caches_ok_def cache_inv_def cap_cache_new_def token_cache_new_def)
  have H: "header_set rs \<subseteq> ?H" "set_option header \<subseteq> ?H" by (auto simp: header_set_def)
  have "unat (- 1 :: u64) = 2 ^ 64 - 1" by (simp add: unsigned_minus_1_eq_mask mask_eq_exp_minus_1)
  moreover have e: "caches_ok w ?H st1 \<and> unat (ap_epoch st1) \<le> length rs"
    using handle_all_ok [OF assms(1) ok H(1) _ assms(6)] assms(4,5) by simp
  ultimately have "ap_epoch st1 \<noteq> - 1" using assms(5) by auto
  then have "is_refusal (fst (handle w header req st1)) \<and> same_data st1 (snd (handle w header req st1))"
    using handle_guarded(2) [OF assms(1) _ H(2) _ prod.collapse [symmetric] assms(7)] e by blast
  then show ?thesis by (simp add: same_data_def)
qed

theorem unauthorized_request_refused_witness:
  "is_refusal (fst (handle demo_world (Some (''Bearer '' @ to_header demo_ext demo_cx demo_cap))
       (Data ''n'' ''k'' PUT Map.empty [1]) (demo_app (empty_db False)))) \<and>
   ap_db (snd (handle demo_world (Some (''Bearer '' @ to_header demo_ext demo_cx demo_cap))
       (Data ''n'' ''k'' PUT Map.empty [1]) (demo_app (empty_db False)))) = empty_db False"
proof -
  let ?h = "''Bearer '' @ to_header demo_ext demo_cx demo_cap" and ?st = "demo_app (empty_db False)"
  let ?req = "Data ''n'' ''k'' PUT Map.empty [1]"
  have wf: "cap_wf demo_cap" by (simp add: cap_wf_def demo_cap_def scope_wf_def READ_def)
  have p: "parse_cap_header demo_ext demo_cx ?h = Inr demo_cap"
    by (rule parse_cap_header_roundtrip [OF demo_hex_ok wf demo_serde_ok])
  have H: "header_set ([] @ [(Some ?h, ?req)]) = {?h}" by (auto simp: header_set_def)
  have t: "trusted demo_world (header_set ([] @ [(Some ?h, ?req)]))"
    unfolding H using demo_hex_ok p
    by (simp add: trusted_def presented_def collision_free_def json_injective_def demo_world_def)
  have "\<not> permitted demo_world ?st (Some ?h) ?req"
    using p by (simp add: permitted_def header_cap_def demo_world_def cap_permits_def grants_def ns_scope_def
        data_scope_def Let_def perm_contains_def demo_cap_def READ_def WRITE_def)
  then show ?thesis
    using unauthorized_request_refused [OF t, of ?st "[]" ?st] by (simp add: demo_app_def)
qed

lemma rfind_at:
  assumes "rfind c s = Some i"
  shows "i < length s \<and> s ! i = c"
proof -
  let ?t = "takeWhile (\<lambda>x. x \<noteq> c) (rev s)"
  have "c \<in> set (rev s)" and i: "i = length s - 1 - length ?t" using assms by (auto simp: rfind_def split: if_splits)
  then have "dropWhile (\<lambda>x. x \<noteq> c) (rev s) \<noteq> []" by auto
  then have "length ?t < length (rev s)" "rev s ! length ?t = c"
    using takeWhile_dropWhile_id [of "\<lambda>x. x \<noteq> c" "rev s"] hd_dropWhile [of "\<lambda>x. x \<noteq> c" "rev s"]
    by (metis length_append length_greater_0_conv less_add_same_cancel1, metis hd_conv_nth nth_append_length_plus add_0_right)
  then show ?thesis using i by (auto simp: rev_nth)
qed

lemma sibling_uncovered:
  assumes "p \<noteq> []" "hd p \<noteq> CHR ''/''" "q \<noteq> []" "hd q \<noteq> CHR ''/''" "sc_prefix s = Some p"
  shows "\<not> covers s (data_scope t ns (p @ q) h)"
proof
  assume a: "covers s (data_scope t ns (p @ q) h)"
  have tr: "trim_slashes (p @ q) = p @ q" using assms(1,2) by (cases p) (simp_all add: trim_slashes_def)
  obtain i where i: "rfind (CHR ''/'') (p @ q) = Some i" "take i (p @ q) = p \<or> prefix (p @ ''/'') (take i (p @ q))"
    using a assms(5) by (auto simp: covers_def data_scope_def tr Let_def split: option.splits if_splits)
  note r = rfind_at [OF i(1)]
  have "(p @ q) ! length p \<noteq> CHR ''/''" using assms(3,4) by (simp add: nth_append hd_conv_nth)
  moreover have "(p @ q) ! length p = CHR ''/''" if "prefix (p @ ''/'') (take i (p @ q))"
    using prefix_order.trans [OF that take_is_prefix] by (auto simp: prefix_def nth_append)
  moreover have "(p @ q) ! length p = CHR ''/''" if "take i (p @ q) = p"
  proof -
    have "length (take i (p @ q)) = i" using r by (metis length_take min.absorb2 less_imp_le)
    then have "i = length p" by (simp only: that)
    then show ?thesis using r by blast
  qed
  ultimately show False using i(2) by blast
qed

lemma below_scope:
  assumes "p \<noteq> []" "hd p \<noteq> CHR ''/''"
  shows "data_scope t ns (p @ ''/x'') h = \<lparr>sc_host = h, sc_tier = t, sc_ns = ns, sc_prefix = Some p\<rparr>"
proof -
  have "trim_slashes (p @ ''/x'') = p @ ''/x''" using assms by (cases p) (simp_all add: trim_slashes_def)
  moreover have "rfind (CHR ''/'') (p @ ''/x'') = Some (length p)" by (simp add: rfind_def)
  ultimately show ?thesis using assms(1) by (simp add: data_scope_def)
qed

text \<open>C35.  A scan leaves the prefix of its capability: with a capability for the prefix \<open>p\<close> a key \<open>pq\<close> whose next
  segment does not begin after \<open>p\<close> is refused when it is read directly, whatever the query; but a
  request for a key below \<open>p\<close> with the query \<open>prefix=p\<close> lists it with its value.\<close>

theorem prefix_scan_leaves_scope:
  assumes "trusted w H" "caches_ok w H st" "c \<in> presented w H" "bt_inv (st_index (app_store st))"
    and "c_scope c = \<lparr>sc_host = ap_host st, sc_tier = L2, sc_ns = ns, sc_prefix = Some p\<rparr>" "perm_contains (c_perms c) READ"
    and "\<forall>n. cap_valid (w_ext w) (w_cx w) (ap_keyring st) (c_subject c) (ap_revocations st) (ap_wall st n) c"
    and "\<not> prefix ''u/'' ns" "p \<noteq> []" "hd p \<noteq> CHR ''/''" "q \<noteq> []" "hd q \<noteq> CHR ''/''"
    and "bt_get (st_index (app_store st)) (ns, str_bytes (p @ q)) = Some e" "\<forall>n. latest_value e (ap_wall st n) = Some v"
  shows "is_refusal (fst (handle_data w (Some [c]) ns (p @ q) GET query body st)) \<and>
    (\<exists>es. fst (handle_data w (Some [c]) ns (p @ ''/x'') GET [''prefix'' \<mapsto> p] [] st) = ok_json [(''entries'', JArray es)] \<and>
       JObject [(''key'', JString (lossy_str (str_bytes (p @ q)))), (''value_b64'', JString (b64_encode v)),
         (''expires_at'', JNumber (PosInt (entry_expires_at e)))] \<in> set es)"
proof
  have hd: "set_option (Some c) \<subseteq> presented w H" using assms(3) by simp
  obtain r st1 where a: "data_auth w (map_option (\<lambda>c. [c]) (Some c)) ns (p @ q) READ st = (r, st1)" by fastforce
  have "\<not> cap_permits w st now (ns_scope st ns (p @ q)) READ c" for now
    using sibling_uncovered [OF assms(9-12), of "c_scope c"] assms(5,8)
    by (simp add: cap_permits_def grants_def ns_scope_def data_scope_def Let_def)
  then have "\<exists>x. r = Inl x \<and> is_refusal x"
    using data_auth_effect [OF assms(1,2) hd a] by (cases r) auto
  then show "is_refusal (fst (handle_data w (Some [c]) ns (p @ q) GET query body st))" using a by (auto simp: handle_data_def)
next
  have hd: "set_option (Some c) \<subseteq> presented w H" using assms(3) by simp
  let ?s = "\<lparr>sc_host = ap_host st, sc_tier = L2, sc_ns = ns, sc_prefix = Some p\<rparr>"
  have sc: "ns_scope st ns (p @ ''/x'') = ?s" using below_scope [OF assms(9,10)] assms(8) by (simp add: ns_scope_def)
  have ok: "cap_permits w st (ap_wall st n) ?s READ c" for n
    using assms(5-7) by (simp add: cap_permits_def grants_def covers_def)
  obtain r st1 where a: "data_auth w (map_option (\<lambda>c. [c]) (Some c)) ns (p @ ''/x'') READ st = (r, st1)" by fastforce
  have r: "r = Inr (c_subject c, L2)" "caches_ok w H st1" "same_data st st1"
    using data_auth_effect [OF assms(1,2) hd a] ok assms(8) unfolding sc by (cases r; auto)+
  obtain n st2 where n: "app_now_ms st1 = (n, st2)" by fastforce
  note e2 = app_now_ms_effect [OF n]
  obtain r3 st3 where a3: "auth_l1_l2 w (map_option (\<lambda>c. [c]) (Some c)) ?s READ n st2 = (r3, st3)" by fastforce
  have sd: "same_data st st2" using r(3) e2 same_data_trans by blast
  have c2: "caches_ok w H st2" using e2 r(2) caches_ok_same by blast
  have "cap_permits w st2 n ?s READ c"
    using ok [of "ap_wall_at st1"] e2 r(3) cap_permits_same [OF sd] by (simp add: same_data_def)
  then have r3: "r3 = Inr (c_subject c)" "same_data st2 st3"
    using auth_l1_l2_effect [OF assms(1) c2 hd a3] sd by (cases r3; auto simp: same_data_def)+
  obtain m st4 where m: "app_now_ms st3 = (m, st4)" by fastforce
  note e4 = app_now_ms_effect [OF m]
  have s4: "same_data st st4" using sd r3(2) e4 same_data_trans by blast
  have mv: "latest_value e m = Some v" "app_store st4 = app_store st" "ap_host st2 = ap_host st"
    using assms(14) e4 sd r3(2) s4 by (auto simp: same_data_def app_store_def)
  let ?es = "scan_entries (app_store st) ns (str_bytes p) m"
  have "fst (handle_data w (Some [c]) ns (p @ ''/x'') GET [''prefix'' \<mapsto> p] [] st) = ok_json [(''entries'', JArray ?es)]"
    using a a3 r(1) r3(1) n m mv by (simp add: handle_data_def data_get_def)
  moreover have "(str_bytes (p @ q), e) \<in> set (scan (app_store st) ns (str_bytes p))"
    using assms(4,13) by (simp add: scan_iff str_bytes_def)
  then have "JObject [(''key'', JString (lossy_str (str_bytes (p @ q)))), (''value_b64'', JString (b64_encode v)),
         (''expires_at'', JNumber (PosInt (entry_expires_at e)))] \<in> set ?es"
    using mv(1) by (force simp: scan_entries_def image_iff)
  ultimately show "\<exists>es. fst (handle_data w (Some [c]) ns (p @ ''/x'') GET [''prefix'' \<mapsto> p] [] st) = ok_json [(''entries'', JArray es)] \<and>
       JObject [(''key'', JString (lossy_str (str_bytes (p @ q)))), (''value_b64'', JString (b64_encode v)),
         (''expires_at'', JNumber (PosInt (entry_expires_at e)))] \<in> set es" by blast
qed

theorem prefix_scan_leaves_scope_witness:
  "is_refusal (fst (handle_data sibling_world (Some [sibling_cap]) ''n'' ''ab/x'' GET Map.empty [] sibling_app)) \<and>
   (\<exists>es. fst (handle_data sibling_world (Some [sibling_cap]) ''n'' ''a/x'' GET [''prefix'' \<mapsto> ''a''] [] sibling_app) = ok_json [(''entries'', JArray es)] \<and>
      JObject [(''key'', JString (lossy_str (str_bytes ''ab/x''))), (''value_b64'', JString (b64_encode [7])),
         (''expires_at'', JNumber (PosInt 0))] \<in> set es)"
proof -
  let ?cx = "w_cx sibling_world" and ?h = "''Bearer '' @ to_header demo_ext (w_cx sibling_world) sibling_cap"
  have "utf8_ok (str_bytes (to_json demo_ext ?cx sibling_cap))"
    by (rule utf8_ok_ascii)
      (simp add: to_json_def json_key_def sibling_world_def sibling_cap_def demo_world_def demo_cx_def demo_cap_def dec_str.simps str_bytes_def)
  then have sd: "serde_ok demo_ext ?cx sibling_cap" by (simp add: serde_ok_def sibling_world_def)
  have wf: "cap_wf sibling_cap" by (simp add: cap_wf_def sibling_cap_def demo_cap_def scope_wf_def READ_def)
  have p: "parse_cap_header demo_ext ?cx ?h = Inr sibling_cap"
    by (rule parse_cap_header_roundtrip [OF demo_hex_ok wf sd])
  have w: "w_ext sibling_world = demo_ext" by (simp add: sibling_world_def demo_world_def)
  have t: "trusted sibling_world {?h}" and pr: "sibling_cap \<in> presented sibling_world {?h}"
    using demo_hex_ok p by (simp_all add: trusted_def presented_def collision_free_def json_injective_def w)
  have c: "caches_ok sibling_world {?h} sibling_app"
    by (simp add: caches_ok_def cache_inv_def sibling_app_def demo_app_def cap_cache_new_def token_cache_new_def)
  let ?e = "Lww \<lparr>v_hlc = 1, v_replica = zero32, v_author = zero32, v_value = [7], v_seq = 1, v_expires_at = 0\<rparr>"
  have ix: "st_index (app_store sibling_app) = [((''n'', str_bytes (''a'' @ ''b/x'')), ?e)]"
    by (simp add: sibling_app_def demo_app_def app_store_def)
  have a: "bt_inv (st_index (app_store sibling_app))" "perm_contains (c_perms sibling_cap) READ"
      "c_scope sibling_cap = \<lparr>sc_host = ap_host sibling_app, sc_tier = L2, sc_ns = ''n'', sc_prefix = Some ''a''\<rparr>"
      "bt_get (st_index (app_store sibling_app)) (''n'', str_bytes (''a'' @ ''b/x'')) = Some ?e"
      "\<forall>n. latest_value ?e (ap_wall sibling_app n) = Some [7]"
    unfolding ix by (simp_all add: bt_inv_def bt_get_def latest_value_def live_def sibling_cap_def demo_cap_def sibling_app_def demo_app_def perm_contains_def)
  have v: "\<forall>n. cap_valid (w_ext sibling_world) ?cx (ap_keyring sibling_app) (c_subject sibling_cap) (ap_revocations sibling_app)
      (ap_wall sibling_app n) sibling_cap"
    by (simp add: cap_valid_def sibling_world_def sibling_app_def demo_app_def demo_cx_def sibling_cap_def demo_cap_def
        keyring_current_def expired_def is_revoked_def new_revocations_def)
  have n: "\<not> prefix ''u/'' ''n''" "''a'' \<noteq> []" "hd ''a'' \<noteq> CHR ''/''" "''b/x'' \<noteq> []" "hd ''b/x'' \<noteq> CHR ''/''" by simp_all
  from prefix_scan_leaves_scope [OF t c pr a(1,3,2) v n a(4,5), of Map.empty "[]"] show ?thesis by (simp add: entry_expires_at_def)
qed

end
