(* ===== verification/Mesh.thy ===== *)
theory Mesh
  imports Hlc Config StoreOpen Base64
begin

text \<open>
  Replication between nodes (\<open>src/net/mod.rs\<close>) and the verification of what a peer sends
  (\<open>src/net/merge.rs\<close>).  The engine is a state and one function per callback; dials, requests
  and responses it hands to \<open>libp2p\<close> are the list of actions it leaves.  The identity that
  \<open>libp2p\<close> derives from a key (\<open>None\<close> where it refuses the key, on which the source panics),
  the parser of multiaddresses and the state of connections are parameters.  Hash maps over
  peers are association lists in their order of iteration.  A panic of a callback ends the
  engine and is the result \<open>None\<close>.
\<close>

section \<open>Definitions\<close>

subsection \<open>Verification of a batch\<close>

datatype merge_error = CorruptBatch nat storage_error | NonMonotonicHlc nat | UnknownNamespace string

fun verify_rows ::
  "(bytes \<Rightarrow> bytes) \<Rightarrow> bytes option \<Rightarrow> (nat \<times> bytes) list \<Rightarrow> (merge_error, log_record list) result option" where
  "verify_rows h prev_hash [] = Some (Ok [])"
| "verify_rows h prev_hash ((sq, bs) # rows) =
     (case LogRecord.parse_chain bs prev_hash of
        Inl Panic \<Rightarrow> None
      | Inl e \<Rightarrow> Some (Err (CorruptBatch sq e))
      | Inr (r, prev) \<Rightarrow>
          if r_tag r \<in> {TAG_PUT, TAG_PUT_TTL, TAG_DEL, TAG_SCHEMA, TAG_INDEX, TAG_BATCH} then
            (case verify_rows h (Some (record_hash h prev bs)) rows of
               None \<Rightarrow> None
             | Some (Inl e) \<Rightarrow> Some (Err e)
             | Some (Inr rs) \<Rightarrow> Some (Ok (r # rs)))
          else Some (Err (CorruptBatch sq (Corrupt None ''bad tag''))))"

definition verify_batch :: "(bytes \<Rightarrow> bytes) \<Rightarrow> (nat \<times> bytes) list \<Rightarrow> (merge_error, log_record list) result option" where
  "verify_batch h rows = verify_rows h None rows"

subsection \<open>Messages and state\<close>

type_synonym peer_id = bytes

datatype sync_request = Hello | Pull namespace nat

record ns_head =
  nh_ns :: namespace
  nh_seq :: nat
  nh_hash :: string

record hello_response =
  hr_host_id :: string
  hr_hlc :: u64
  hr_namespaces :: "ns_head list"

record wire_rec =
  wr_seq :: nat
  wr_payload :: string

datatype sync_response = HelloIs hello_response | Records namespace "wire_rec list" | Denied

definition MAX_RECORDS :: nat where
  "MAX_RECORDS = 1000"

definition MAX_FRAME_BYTES :: nat where
  "MAX_FRAME_BYTES = 960 * 1024"

definition CHECKPOINT_EVERY :: nat where
  "CHECKPOINT_EVERY = 1000"

definition MAX_CHUNKS_PER_TICK :: nat where
  "MAX_CHUNKS_PER_TICK = 32"

definition MAX_SINGLE_RECORD_B64 :: nat where
  "MAX_SINGLE_RECORD_B64 = 8 * 1024 * 1024"

datatype phase = Idle | WaitingDial | AwaitingHello | Pulling namespace nat | Done | Bad string

record peer_ctx =
  px_addr :: string
  px_pid :: "peer_id option"
  px_pin :: "public_key option"
  px_phase :: phase
  px_chunks :: nat

datatype inbound_access = Deny | HelloOnly string | Full string

datatype action =
    DialAddr string
  | DialPeer peer_id
  | Request peer_id sync_request
  | Respond peer_id sync_response

record mesh_env =
  mx_ext :: extern
  mx_toml :: toml_ext
  mx_pid :: "public_key \<Rightarrow> peer_id option"
  mx_addr :: "string \<Rightarrow> string option"

text \<open>What the network and the file system answer during one callback.\<close>

record net =
  nt_connected :: "peer_id \<Rightarrow> bool"
  nt_dial_ok :: bool
  nt_writable :: bool

record mesh =
  ms_db :: db
  ms_host :: public_key
  ms_cfg :: config
  ms_cfg_file :: string
  ms_skew :: "string \<rightharpoonup> int list"
  ms_peers :: "(string \<times> peer_ctx) list"
  ms_round_applied :: nat
  ms_dials :: "string \<rightharpoonup> string"
  ms_pulls :: "string \<rightharpoonup> (namespace \<times> nat) list"
  ms_changes :: "namespace list"
  ms_now :: "nat \<Rightarrow> int"
  ms_now_at :: nat
  ms_hlc :: "nat \<Rightarrow> hlc"
  ms_hlc_at :: nat
  ms_out :: "action list"

definition emit :: "action \<Rightarrow> mesh \<Rightarrow> mesh" where
  "emit a m = m\<lparr>ms_out := ms_out m @ [a]\<rparr>"

text \<open>\<open>peer.get\<close>, \<open>peer.get_mut\<close> with an assignment, \<open>peer.insert\<close>.\<close>

definition ctx_of :: "mesh \<Rightarrow> string \<Rightarrow> peer_ctx option" where
  "ctx_of m name = map_of (ms_peers m) name"

definition ctx_upd :: "string \<Rightarrow> (peer_ctx \<Rightarrow> peer_ctx) \<Rightarrow> mesh \<Rightarrow> mesh" where
  "ctx_upd name f m = m\<lparr>ms_peers := map (\<lambda>(n, c). if n = name then (n, f c) else (n, c)) (ms_peers m)\<rparr>"

definition phase_set :: "string \<Rightarrow> phase \<Rightarrow> mesh \<Rightarrow> mesh" where
  "phase_set name ph m = ctx_upd name (\<lambda>c. c\<lparr>px_phase := ph\<rparr>) m"

definition name_for_pid :: "mesh \<Rightarrow> peer_id \<Rightarrow> string option" where
  "name_for_pid m pid = map_option fst (List.find (\<lambda>(n, c). px_pid c = Some pid) (ms_peers m))"

subsection \<open>Starting a round\<close>

definition in_flight :: "phase \<Rightarrow> bool" where
  "in_flight ph = (case ph of AwaitingHello \<Rightarrow> True | Pulling _ _ \<Rightarrow> True | WaitingDial \<Rightarrow> True | _ \<Rightarrow> False)"

definition load_pin :: "mesh_env \<Rightarrow> mesh \<Rightarrow> string \<Rightarrow> public_key option" where
  "load_pin mx m name =
     (case find_peer (ms_cfg m) name of
        None \<Rightarrow> None
      | Some p \<Rightarrow> (case parse_pk (mx_ext mx) (pr_pin p) of Inr pk \<Rightarrow> Some pk | Inl _ \<Rightarrow> None))"

definition send_hello :: "string \<Rightarrow> peer_id \<Rightarrow> mesh \<Rightarrow> mesh" where
  "send_hello name pid m = phase_set name AwaitingHello (emit (Request pid Hello) m)"

definition kick :: "net \<Rightarrow> string \<Rightarrow> mesh \<Rightarrow> mesh" where
  "kick nt name m =
     (case ctx_of m name of
        None \<Rightarrow> m
      | Some c \<Rightarrow>
          if in_flight (px_phase c) then m
          else
            (case px_pid c of
               Some pid \<Rightarrow>
                 if \<not> nt_connected nt pid then phase_set name WaitingDial (emit (DialPeer pid) m)
                 else send_hello name pid m
             | None \<Rightarrow>
                 let m = m\<lparr>ms_dials := (ms_dials m)(px_addr c := None)\<rparr>
                 in if nt_dial_ok nt
                    then phase_set name WaitingDial
                           (emit (DialAddr (px_addr c)) (m\<lparr>ms_dials := (ms_dials m)(px_addr c \<mapsto> name)\<rparr>))
                    else phase_set name Idle m))"

definition kick_peer :: "mesh_env \<Rightarrow> net \<Rightarrow> mesh \<Rightarrow> string \<times> string \<Rightarrow> mesh" where
  "kick_peer mx nt m na =
     (case mx_addr mx (snd na) of
        None \<Rightarrow> m
      | Some addr \<Rightarrow>
          (case ctx_of m (fst na) of
             Some c \<Rightarrow>
               let m = ctx_upd (fst na) (\<lambda>c. c\<lparr>px_addr := addr, px_chunks := 0\<rparr>) m
               in if in_flight (px_phase c) then m else kick nt (fst na) (phase_set (fst na) Idle m)
           | None \<Rightarrow>
               kick nt (fst na) (m\<lparr>ms_peers := ms_peers m @
                 [(fst na, \<lparr>px_addr = addr, px_pid = None, px_pin = load_pin mx m (fst na), px_phase = Idle,
                    px_chunks = 0\<rparr>)]\<rparr>)))"

definition kick_all :: "mesh_env \<Rightarrow> net \<Rightarrow> mesh \<Rightarrow> mesh" where
  "kick_all mx nt m =
     foldl (kick_peer mx nt) (m\<lparr>ms_round_applied := 0\<rparr>) (map (\<lambda>p. (pr_name p, pr_addr p)) (cfg_peers (ms_cfg m)))"

subsection \<open>Responses of a peer\<close>

definition persist_pin :: "mesh_env \<Rightarrow> net \<Rightarrow> string \<Rightarrow> public_key \<Rightarrow> mesh \<Rightarrow> mesh" where
  "persist_pin mx nt name pk m =
     (let cfg = set_pin name (pk_str (mx_ext mx) pk) (ms_cfg m)
      in case save_config (mx_toml mx) (nt_writable nt) cfg of
           Inr s \<Rightarrow> m\<lparr>ms_cfg := cfg, ms_cfg_file := s\<rparr>
         | Inl _ \<Rightarrow> phase_set name (Bad ''pin persist failed'') (m\<lparr>ms_cfg := cfg\<rparr>))"

text \<open>The decision about the key a peer claims: \<open>None\<close> is the panic on a key that \<open>libp2p\<close> refuses,
  \<open>Some (Inl m)\<close> the early return, \<open>Some (Inr m)\<close> the continuation.\<close>

definition check_identity ::
  "mesh_env \<Rightarrow> net \<Rightarrow> string \<Rightarrow> peer_id \<Rightarrow> string \<Rightarrow> mesh \<Rightarrow> (mesh, mesh) result option" where
  "check_identity mx nt name pid host_id m =
     (case parse_pk (mx_ext mx) host_id of
        Inl _ \<Rightarrow> Some (Inl (phase_set name (Bad ''bad host_id'') m))
      | Inr pk \<Rightarrow>
          (case ctx_of m name of
             None \<Rightarrow> None
           | Some c \<Rightarrow>
               (case px_pin c of
                  None \<Rightarrow>
                    (case mx_pid mx pk of
                       None \<Rightarrow> None
                     | Some advertised \<Rightarrow>
                         if pid \<noteq> advertised
                         then Some (Inl (phase_set name (Bad ''host_id/connection mismatch'') m))
                         else Some (Inr (persist_pin mx nt name pk
                                (ctx_upd name (\<lambda>c. c\<lparr>px_pin := Some pk, px_pid := Some advertised\<rparr>) m))))
                | Some existing \<Rightarrow>
                    if existing \<noteq> pk then Some (Inl (phase_set name (Bad ''pin mismatch'') m)) else Some (Inr m))))"

text \<open>The median of the last eight samples.\<close>

definition push_sample :: "int list \<Rightarrow> int \<Rightarrow> int list" where
  "push_sample buf x = (if length buf = 8 then tl buf else buf) @ [x]"

definition median :: "int list \<Rightarrow> int" where
  "median buf = sort buf ! (length buf div 2)"

definition note_clock :: "string \<Rightarrow> u64 \<Rightarrow> mesh \<Rightarrow> mesh" where
  "note_clock name hlc m =
     (let sample = uint (drop_bit 16 hlc) - ms_now m (ms_now_at m);
          buf = push_sample (case ms_skew m name of None \<Rightarrow> [] | Some b \<Rightarrow> b) sample
      in m\<lparr>ms_now_at := ms_now_at m + 1, ms_skew := (ms_skew m)(name \<mapsto> buf),
           ms_db := (ms_db m)\<lparr>db_store := set_peer_clock name (median buf) (db_store (ms_db m))\<rparr>\<rparr>)"

text \<open>The namespaces to pull: hosted here, and the peer is ahead.\<close>

definition pull_target :: "store \<Rightarrow> ns_head \<Rightarrow> (namespace \<times> nat) option" where
  "pull_target st nh =
     (if policy st (nh_ns nh) = None then None
      else case store_head st (nh_ns nh) of
             None \<Rightarrow> None
           | Some (local_seq, _) \<Rightarrow>
               let target = min (nh_seq nh) (local_seq + MAX_RECORDS * MAX_CHUNKS_PER_TICK * 2)
               in if local_seq < nh_seq nh \<and> local_seq < target then Some (nh_ns nh, target) else None)"

definition send_pull :: "string \<Rightarrow> namespace \<Rightarrow> nat \<Rightarrow> mesh \<Rightarrow> mesh option" where
  "send_pull name ns target m =
     (case ctx_of m name of
        None \<Rightarrow> None
      | Some c \<Rightarrow>
          (case px_pid c of
             None \<Rightarrow> None
           | Some pid \<Rightarrow>
               let from_seq = (case store_head (db_store (ms_db m)) ns of None \<Rightarrow> 1 | Some (sq, _) \<Rightarrow> sq + 1)
               in Some (phase_set name (Pulling ns target) (emit (Request pid (Pull ns from_seq)) m))))"

definition start_pulls :: "string \<Rightarrow> (namespace \<times> nat) list \<Rightarrow> mesh \<Rightarrow> mesh option" where
  "start_pulls name pulls m =
     (case pulls of
        [] \<Rightarrow> Some (phase_set name Done m)
      | (ns, target) # rest \<Rightarrow> send_pull name ns target (m\<lparr>ms_pulls := (ms_pulls m)(name \<mapsto> rest)\<rparr>))"

definition on_hello :: "mesh_env \<Rightarrow> net \<Rightarrow> peer_id \<Rightarrow> hello_response \<Rightarrow> mesh \<Rightarrow> mesh option" where
  "on_hello mx nt pid resp m =
     (case name_for_pid m pid of
        None \<Rightarrow> Some m
      | Some name \<Rightarrow>
          (case check_identity mx nt name pid (hr_host_id resp) m of
             None \<Rightarrow> None
           | Some (Inl m) \<Rightarrow> Some m
           | Some (Inr m) \<Rightarrow>
               let m = note_clock name (hr_hlc resp) m
               in start_pulls name (List.map_filter (pull_target (db_store (ms_db m))) (hr_namespaces resp)) m))"

text \<open>Whether the peer may contribute to a namespace.\<close>

definition may_contribute :: "mesh \<Rightarrow> string \<Rightarrow> namespace \<Rightarrow> bool" where
  "may_contribute m name ns =
     (case find_peer (ms_cfg m) name of
        None \<Rightarrow> True
      | Some p \<Rightarrow> (case pr_namespaces p of None \<Rightarrow> True | Some l \<Rightarrow> ns \<in> set l))"

fun decode_rows :: "wire_rec list \<Rightarrow> (nat \<times> bytes) list option" where
  "decode_rows [] = Some []"
| "decode_rows (r # rs) =
     (case b64_decode (wr_payload r) of
        Inl _ \<Rightarrow> None
      | Inr bs \<Rightarrow> map_option (\<lambda>rows. (wr_seq r, bs) # rows) (decode_rows rs))"

text \<open>After the records are applied: the next chunk, the next namespace or the end of the round.\<close>

definition after_chunk :: "string \<Rightarrow> namespace \<Rightarrow> nat \<Rightarrow> nat \<Rightarrow> mesh \<Rightarrow> mesh option" where
  "after_chunk name ns target applied m =
     (if applied = 0 then Some (phase_set name Done m)
      else
        let m = ctx_upd name (\<lambda>c. c\<lparr>px_chunks := px_chunks c + 1\<rparr>) m;
            local_seq = (case store_head (db_store (ms_db m)) ns of None \<Rightarrow> 0 | Some (sq, _) \<Rightarrow> sq)
        in case ctx_of m name of
             None \<Rightarrow> None
           | Some c \<Rightarrow>
               if MAX_CHUNKS_PER_TICK \<le> px_chunks c then Some (phase_set name Done m)
               else if local_seq < target then send_pull name ns target m
               else
                 (case ms_pulls m name of
                    Some ((next_ns, next_target) # rest) \<Rightarrow>
                      send_pull name next_ns next_target (m\<lparr>ms_pulls := (ms_pulls m)(name \<mapsto> rest)\<rparr>)
                  | _ \<Rightarrow> Some (phase_set name Done (m\<lparr>ms_pulls := (ms_pulls m)(name := None)\<rparr>))))"

definition apply_chunk :: "mesh_env \<Rightarrow> string \<Rightarrow> namespace \<Rightarrow> nat \<Rightarrow> log_record list \<Rightarrow> mesh \<Rightarrow> mesh option" where
  "apply_chunk mx name ns target parsed m =
     (case apply_synced_batch (mx_ext mx) ns parsed (ms_db m) of
        (Inl _, s) \<Rightarrow> Some (phase_set name Idle (m\<lparr>ms_db := s\<rparr>))
      | (Inr n, s) \<Rightarrow>
          let total_applied = ms_round_applied m + n;
              s = (if 0 < total_applied \<and> total_applied mod CHECKPOINT_EVERY \<le> length parsed then snd (checkpoint s) else s)
          in after_chunk name ns target n
               (m\<lparr>ms_db := s, ms_round_applied := total_applied, ms_changes := ms_changes m @ [ns]\<rparr>))"

definition on_records :: "mesh_env \<Rightarrow> peer_id \<Rightarrow> namespace \<Rightarrow> wire_rec list \<Rightarrow> mesh \<Rightarrow> mesh option" where
  "on_records mx pid got_ns recs m =
     (case name_for_pid m pid of
        None \<Rightarrow> Some m
      | Some name \<Rightarrow>
          (case map_option px_phase (ctx_of m name) of
             Some (Pulling ns target) \<Rightarrow>
               if got_ns \<noteq> ns then Some (phase_set name Idle m)
               else if \<not> may_contribute m name ns then Some (phase_set name Done m)
               else
                 (case decode_rows recs of
                    None \<Rightarrow> Some (phase_set name Idle m)
                  | Some rows \<Rightarrow>
                      (case verify_batch (sha256 (mx_ext mx)) rows of
                         None \<Rightarrow> None
                       | Some (Inl _) \<Rightarrow> Some (phase_set name Done m)
                       | Some (Inr parsed) \<Rightarrow> apply_chunk mx name ns target parsed m))
           | _ \<Rightarrow> Some m))"

subsection \<open>Requests of a peer\<close>

text \<open>The first configured peer whose pin is the key of the connection; \<open>None\<close> is the panic on a
  pin that \<open>libp2p\<close> refuses.\<close>

fun pinned_peer :: "mesh_env \<Rightarrow> peer_id \<Rightarrow> peer list \<Rightarrow> string option option" where
  "pinned_peer mx pid [] = Some None"
| "pinned_peer mx pid (p # ps) =
     (if pr_pin p = [] then pinned_peer mx pid ps
      else
        (case parse_pk (mx_ext mx) (pr_pin p) of
           Inl _ \<Rightarrow> pinned_peer mx pid ps
         | Inr pk \<Rightarrow>
             (case mx_pid mx pk of
                None \<Rightarrow> None
              | Some q \<Rightarrow> if q = pid then Some (Some (pr_name p)) else pinned_peer mx pid ps)))"

definition inbound_access :: "mesh_env \<Rightarrow> mesh \<Rightarrow> peer_id \<Rightarrow> inbound_access option" where
  "inbound_access mx m pid =
     (case pinned_peer mx pid (cfg_peers (ms_cfg m)) of
        None \<Rightarrow> None
      | Some (Some name) \<Rightarrow> Some (Full name)
      | Some None \<Rightarrow>
          (case name_for_pid m pid of
             Some name \<Rightarrow>
               (case find_peer (ms_cfg m) name of
                  Some p \<Rightarrow> if pr_pin p = [] then Some (HelloOnly name) else Some Deny
                | None \<Rightarrow> Some Deny)
           | None \<Rightarrow> Some Deny))"

definition serve_hello :: "mesh_env \<Rightarrow> peer_id \<Rightarrow> mesh \<Rightarrow> mesh" where
  "serve_hello mx pid m =
     emit (Respond pid (HelloIs \<lparr>hr_host_id = pk_str (mx_ext mx) (ms_host m), hr_hlc = ms_hlc m (ms_hlc_at m),
         hr_namespaces = map (\<lambda>(ns, sq, h). \<lparr>nh_ns = ns, nh_seq = sq, nh_hash = hex_enc (mx_ext mx) h\<rparr>)
           (namespaces_with_head (db_store (ms_db m)))\<rparr>))
       (m\<lparr>ms_hlc_at := ms_hlc_at m + 1\<rparr>)"

text \<open>The records of one chunk; \<open>None\<close> is a record too large to serve.\<close>

fun chunk :: "nat \<Rightarrow> nat \<Rightarrow> (nat \<times> bytes) list \<Rightarrow> wire_rec list option" where
  "chunk n used [] = Some []"
| "chunk n used ((sq, payload) # rows) =
     (let row = \<lparr>wr_seq = sq, wr_payload = b64_encode payload\<rparr>
      in if MAX_SINGLE_RECORD_B64 < (length payload + 2) div 3 * 4 then None
         else if MAX_FRAME_BYTES < length payload then Some (if n = 0 then [row] else [])
         else if MAX_RECORDS \<le> n \<or> MAX_FRAME_BYTES < used + length payload then Some []
         else map_option ((#) row) (chunk (n + 1) (used + length payload) rows))"

definition pull_records :: "extern \<Rightarrow> db \<Rightarrow> namespace \<Rightarrow> nat \<Rightarrow> wire_rec list" where
  "pull_records ext s ns from_seq =
     (case log_records ext s ns from_seq MAX_RECORDS of
        Inl _ \<Rightarrow> []
      | Inr rows \<Rightarrow> (case chunk 0 0 rows of None \<Rightarrow> [] | Some out \<Rightarrow> out))"

definition serve_pull :: "mesh_env \<Rightarrow> peer_id \<Rightarrow> namespace \<Rightarrow> nat \<Rightarrow> mesh \<Rightarrow> mesh" where
  "serve_pull mx pid ns from_seq m =
     emit (Respond pid (Records ns (pull_records (mx_ext mx) (ms_db m) ns from_seq))) m"

definition on_request :: "mesh_env \<Rightarrow> peer_id \<Rightarrow> sync_request \<Rightarrow> mesh \<Rightarrow> mesh option" where
  "on_request mx pid req m =
     (case inbound_access mx m pid of
        None \<Rightarrow> None
      | Some Deny \<Rightarrow> Some (emit (Respond pid Denied) m)
      | Some (HelloOnly _) \<Rightarrow>
          (case req of
             Hello \<Rightarrow> Some (serve_hello mx pid m)
           | Pull _ _ \<Rightarrow> Some (emit (Respond pid Denied) m))
      | Some (Full _) \<Rightarrow>
          (case req of
             Hello \<Rightarrow> Some (serve_hello mx pid m)
           | Pull ns from_seq \<Rightarrow> Some (serve_pull mx pid ns from_seq m)))"

subsection \<open>The event loop\<close>

datatype event =
    Tick
  | Connected peer_id string
  | Closed peer_id
  | DialFailed "peer_id option"
  | Inbound peer_id sync_request
  | Answer peer_id sync_response
  | OutboundFailure peer_id

text \<open>A connection we dialled binds the identity to the name the dial was for.\<close>

definition on_connected :: "peer_id \<Rightarrow> string \<Rightarrow> mesh \<Rightarrow> mesh" where
  "on_connected pid addr m =
     (let name = (case ms_dials m addr of
            Some n \<Rightarrow> Some n
          | None \<Rightarrow> map_option fst (List.find (\<lambda>(n, c). px_phase c = WaitingDial \<and> px_pid c = None) (ms_peers m)));
          m = m\<lparr>ms_dials := (ms_dials m)(addr := None)\<rparr>
      in case name of
           None \<Rightarrow> m
         | Some name \<Rightarrow>
             let m = ctx_upd name (\<lambda>c. c\<lparr>px_pid := Some pid\<rparr>) m
             in if map_option px_phase (ctx_of m name) = Some WaitingDial then send_hello name pid m else m)"

definition on_closed :: "peer_id \<Rightarrow> mesh \<Rightarrow> mesh" where
  "on_closed pid m =
     (case name_for_pid m pid of
        None \<Rightarrow> m
      | Some name \<Rightarrow>
          if map_option px_phase (ctx_of m name) = Some WaitingDial then phase_set name Idle m else m)"

definition on_dial_failed :: "peer_id option \<Rightarrow> mesh \<Rightarrow> mesh" where
  "on_dial_failed pid m =
     (case pid of
        Some pid \<Rightarrow> (case name_for_pid m pid of None \<Rightarrow> m | Some name \<Rightarrow> phase_set name Idle m)
      | None \<Rightarrow>
          m\<lparr>ms_dials := Map.empty,
            ms_peers := map (\<lambda>(n, c). (n, if px_phase c = WaitingDial then c\<lparr>px_phase := Idle\<rparr> else c)) (ms_peers m)\<rparr>)"

definition to_idle :: "peer_id \<Rightarrow> mesh \<Rightarrow> mesh" where
  "to_idle pid m = (case name_for_pid m pid of None \<Rightarrow> m | Some name \<Rightarrow> phase_set name Idle m)"

fun mesh_step :: "mesh_env \<Rightarrow> net \<Rightarrow> event \<Rightarrow> mesh \<Rightarrow> mesh option" where
  "mesh_step mx nt Tick m = Some (kick_all mx nt m)"
| "mesh_step mx nt (Connected pid addr) m = Some (on_connected pid addr m)"
| "mesh_step mx nt (Closed pid) m = Some (on_closed pid m)"
| "mesh_step mx nt (DialFailed pid) m = Some (on_dial_failed pid m)"
| "mesh_step mx nt (Inbound pid req) m = on_request mx pid req m"
| "mesh_step mx nt (Answer pid (HelloIs resp)) m = on_hello mx nt pid resp m"
| "mesh_step mx nt (Answer pid (Records ns recs)) m = on_records mx pid ns recs m"
| "mesh_step mx nt (Answer pid Denied) m = Some (to_idle pid m)"
| "mesh_step mx nt (OutboundFailure pid) m = Some (to_idle pid m)"

text \<open>The engine over a sequence of events, until a callback panics.\<close>

fun mesh_run :: "mesh_env \<Rightarrow> (net \<times> event) list \<Rightarrow> mesh \<Rightarrow> mesh option" where
  "mesh_run mx [] m = Some m"
| "mesh_run mx ((nt, ev) # evs) m = (case mesh_step mx nt ev m of None \<Rightarrow> None | Some m' \<Rightarrow> mesh_run mx evs m')"

end
