(* ===== verification/MeshSync.thy ===== *)
theory MeshSync
  imports Mesh
begin

text \<open>
  What replication does to the database: whatever peers send, the logs only grow and stay
  verified; a follower that pulls from a leader reaches the leader's records; and the cases in
  which the exchange of sequence numbers leaves two nodes apart.
\<close>

section \<open>Definitions\<close>

text \<open>The follower's engine over a number of answers, each the chunk a leader serves for the records
  after the follower's log.\<close>

definition log_len :: "db \<Rightarrow> namespace \<Rightarrow> nat" where
  "log_len s ns = (case store_head (db_store s) ns of None \<Rightarrow> 0 | Some (sq, _) \<Rightarrow> sq)"

fun answered :: "mesh_env \<Rightarrow> net \<Rightarrow> db \<Rightarrow> peer_id \<Rightarrow> namespace \<Rightarrow> nat \<Rightarrow> mesh \<Rightarrow> mesh option" where
  "answered mx nt leader pid ns 0 m = Some m"
| "answered mx nt leader pid ns (Suc n) m =
     (case mesh_step mx nt (Answer pid (Records ns (pull_records (mx_ext mx) leader ns (log_len (ms_db m) ns + 1)))) m of
        None \<Rightarrow> None
      | Some m' \<Rightarrow> answered mx nt leader pid ns n m')"

text \<open>The engine is in the middle of a pull of \<open>ns\<close> up to \<open>t\<close> from the connection \<open>pid\<close>, after \<open>k\<close> chunks.\<close>

definition pulling :: "peer_id \<Rightarrow> string \<Rightarrow> namespace \<Rightarrow> nat \<Rightarrow> nat \<Rightarrow> mesh \<Rightarrow> bool" where
  "pulling pid name ns t k m \<longleftrightarrow> name_for_pid m pid = Some name \<and> may_contribute m name ns \<and>
     (\<exists>c. ctx_of m name = Some c \<and> px_phase c = Pulling ns t \<and> px_pid c = Some pid \<and> px_chunks c = k)"

text \<open>A record that a chunk can hold.\<close>

definition servable :: "bytes \<Rightarrow> bool" where
  "servable b \<longleftrightarrow> (length b + 2) div 3 * 4 \<le> MAX_SINGLE_RECORD_B64"

text \<open>No pull is in flight; no peer claims a longer log.\<close>

definition quiet :: "mesh \<Rightarrow> bool" where
  "quiet m \<longleftrightarrow> (\<forall>(n, c) \<in> set (ms_peers m). \<forall>ns t. px_phase c \<noteq> Pulling ns t)"

fun not_ahead :: "db \<Rightarrow> event \<Rightarrow> bool" where
  "not_ahead s (Answer pid (HelloIs resp)) = (\<forall>nh \<in> set (hr_namespaces resp). nh_seq nh \<le> log_len s (nh_ns nh))"
| "not_ahead s _ = True"

text \<open>An environment and an engine before its first round for concrete instances.\<close>

definition demo_mx :: mesh_env where
  "demo_mx = \<lparr>mx_ext = demo_ext, mx_toml = \<lparr>toml_parse = (\<lambda>_. None), toml_print = (\<lambda>_. Some [])\<rparr>,
     mx_pid = (\<lambda>pk. if pk = replicate 32 255 then None else Some pk), mx_addr = Some\<rparr>"

definition demo_net :: net where
  "demo_net = \<lparr>nt_connected = (\<lambda>_. True), nt_dial_ok = True, nt_writable = True\<rparr>"

definition demo_mesh :: "db \<Rightarrow> mesh" where
  "demo_mesh s = \<lparr>ms_db = s, ms_host = zero32, ms_cfg = default_config\<lparr>cfg_peers := [demo_peer]\<rparr>, ms_cfg_file = [],
     ms_skew = Map.empty, ms_peers = [], ms_round_applied = 0, ms_dials = Map.empty, ms_pulls = Map.empty,
     ms_changes = [], ms_now = (\<lambda>_. 0), ms_now_at = 0, ms_hlc = (\<lambda>_. 0), ms_hlc_at = 0, ms_out = []\<rparr>"

section \<open>The database under any message\<close>

lemma verify_rows_wf: "verify_rows h prev rows = Some (Inr rs) \<Longrightarrow> \<forall>r \<in> set rs. rec_wf r"
proof (induction rows arbitrary: prev rs)
  case (Cons row rows)
  obtain sq bs where row: "row = (sq, bs)" by fastforce
  from Cons.prems obtain r p rs' where "LogRecord.parse_chain bs prev = Ok (r, p)"
      "verify_rows h (Some (record_hash h p bs)) rows = Some (Inr rs')" "rs = r # rs'"
    unfolding row by (auto split: sum.splits option.splits storage_error.splits if_splits prod.splits)
  then show ?case using Cons.IH parse_chain_wf by auto
qed simp

lemma checkpoint_grows: "db_inv ext s \<Longrightarrow> grows ext s (snd (checkpoint s))"
proof -
  assume i: "db_inv ext s"
  have n: "ns_log ext (snd (checkpoint s)) ns bs = ns_log ext s ns bs" for ns bs
    by (simp add: ns_log_def checkpoint_def)
  have "db_inv ext (snd (checkpoint s))"
    using i unfolding db_inv_def n by (simp add: checkpoint_def)
  then show ?thesis unfolding grows_def n by (auto intro: exI [of _ "[]"])
qed

lemma ms_db_frame [simp]:
  "ms_db (emit a m) = ms_db m" "ms_db (ctx_upd name f m) = ms_db m" "ms_db (phase_set name ph m) = ms_db m"
  "ms_db (send_hello name pid m) = ms_db m"
  by (simp_all add: emit_def ctx_upd_def phase_set_def send_hello_def)

lemma ms_db_kick [simp]: "ms_db (kick nt name m) = ms_db m"
  by (simp add: kick_def Let_def split: option.split)

lemma ms_db_kick_peer [simp]: "ms_db (kick_peer mx nt m na) = ms_db m"
  by (simp add: kick_peer_def Let_def split: option.split)

lemma ms_db_kick_all [simp]: "ms_db (kick_all mx nt m) = ms_db m"
proof -
  have "ms_db (foldl (kick_peer mx nt) m nas) = ms_db m" for m nas by (induction nas arbitrary: m) simp_all
  then show ?thesis by (simp add: kick_all_def)
qed

lemma ms_db_persist [simp]: "ms_db (persist_pin mx nt name pk m) = ms_db m"
  by (simp add: persist_pin_def Let_def split: sum.split)

lemma ms_db_events [simp]:
  "ms_db (on_connected pid addr m) = ms_db m" "ms_db (on_closed pid m) = ms_db m" "ms_db (on_dial_failed p m) = ms_db m"
  "ms_db (to_idle pid m) = ms_db m" "ms_db (serve_hello mx pid m) = ms_db m" "ms_db (serve_pull mx pid ns n m) = ms_db m"
  by (simp_all add: on_connected_def on_closed_def on_dial_failed_def to_idle_def serve_hello_def serve_pull_def Let_def
      split: option.split)

lemma ms_db_request: "on_request mx pid req m = Some m' \<Longrightarrow> ms_db m' = ms_db m"
  by (auto simp: on_request_def split: option.splits inbound_access.splits sync_request.splits)

lemma ms_db_identity:
  "check_identity mx nt name pid host_id m = Some (Inl m') \<Longrightarrow> ms_db m' = ms_db m"
  "check_identity mx nt name pid host_id m = Some (Inr m') \<Longrightarrow> ms_db m' = ms_db m"
  by (auto simp: check_identity_def split: sum.splits option.splits if_splits)

lemma ms_db_send_pull: "send_pull name ns target m = Some m' \<Longrightarrow> ms_db m' = ms_db m"
  by (auto simp: send_pull_def Let_def split: option.splits)

lemma ms_db_start_pulls: "start_pulls name pulls m = Some m' \<Longrightarrow> ms_db m' = ms_db m"
  by (auto simp: start_pulls_def split: list.splits dest!: ms_db_send_pull)

lemma ms_db_after_chunk: "after_chunk name ns target n m = Some m' \<Longrightarrow> ms_db m' = ms_db m"
  by (auto simp: after_chunk_def Let_def split: option.splits list.splits if_splits dest!: ms_db_send_pull)

lemma on_hello_grows:
  assumes "ext_ok (mx_ext mx)" "db_inv (mx_ext mx) (ms_db m)" "on_hello mx nt pid resp m = Some m'"
  shows "grows (mx_ext mx) (ms_db m) (ms_db m')"
proof -
  have c: "grows (mx_ext mx) (ms_db m1) (ms_db (note_clock name h m1))" if "db_inv (mx_ext mx) (ms_db m1)" for name h m1
    using db_step_grows [OF assms(1) that db_step.PeerClock] by (simp add: note_clock_def Let_def)
  from assms(3) consider "m' = m" | name m1 where "check_identity mx nt name pid (hr_host_id resp) m = Some (Inl m1)" "m' = m1"
    | name m1 pulls where "check_identity mx nt name pid (hr_host_id resp) m = Some (Inr m1)"
        "start_pulls name pulls (note_clock name (hr_hlc resp) m1) = Some m'"
    by (auto simp: on_hello_def Let_def split: option.splits sum.splits)
  then show ?thesis
  proof cases
    case 3
    then show ?thesis using c [of m1] ms_db_identity(2) ms_db_start_pulls assms(2) by metis
  qed (use grows_refl [OF assms(2)] ms_db_identity(1) in auto)
qed

lemma apply_chunk_grows:
  assumes "ext_ok (mx_ext mx)" "db_inv (mx_ext mx) (ms_db m)" "\<forall>r \<in> set parsed. rec_wf r"
    and "apply_chunk mx name ns target parsed m = Some m'"
  shows "grows (mx_ext mx) (ms_db m) (ms_db m')"
proof -
  obtain r s where a: "apply_synced_batch (mx_ext mx) ns parsed (ms_db m) = (r, s)" by fastforce
  have g: "grows (mx_ext mx) (ms_db m) s"
    using db_step_grows [OF assms(1,2) db_step.SyncedBatch [OF assms(3)], of ns] a by simp
  have "grows (mx_ext mx) (ms_db m) (snd (checkpoint s))"
    using grows_trans [OF g checkpoint_grows] g by (simp add: grows_def)
  then show ?thesis
    using assms(4) a g by (auto simp: apply_chunk_def Let_def split: sum.splits if_splits dest!: ms_db_after_chunk)
qed

lemma on_records_grows:
  assumes "ext_ok (mx_ext mx)" "db_inv (mx_ext mx) (ms_db m)" "on_records mx pid ns recs m = Some m'"
  shows "grows (mx_ext mx) (ms_db m) (ms_db m')"
proof -
  from assms(3) consider "ms_db m' = ms_db m"
    | name n target rows parsed where "verify_batch (sha256 (mx_ext mx)) rows = Some (Inr parsed)"
        "apply_chunk mx name n target parsed m = Some m'"
    by (auto simp: on_records_def split: option.splits phase.splits if_splits sum.splits)
  then show ?thesis
  proof cases
    case 2
    then show ?thesis using apply_chunk_grows [OF assms(1,2)] verify_rows_wf by (metis verify_batch_def)
  qed (use grows_refl [OF assms(2)] in simp)
qed

lemma mesh_step_grows:
  assumes "ext_ok (mx_ext mx)" "db_inv (mx_ext mx) (ms_db m)" "mesh_step mx nt ev m = Some m'"
  shows "grows (mx_ext mx) (ms_db m) (ms_db m')"
proof (cases ev)
  case (Inbound pid req)
  then show ?thesis using assms(3) ms_db_request [of mx pid req m m'] grows_refl [OF assms(2)] by simp
next
  case (Answer pid resp)
  then show ?thesis
    using assms(3) on_hello_grows [OF assms(1,2)] on_records_grows [OF assms(1,2)] grows_refl [OF assms(2)]
    by (cases resp) auto
qed (use assms(3) grows_refl [OF assms(2)] in auto)

lemma mesh_run_grows:
  assumes "ext_ok (mx_ext mx)"
  shows "db_inv (mx_ext mx) (ms_db m) \<Longrightarrow> mesh_run mx evs m = Some m' \<Longrightarrow> grows (mx_ext mx) (ms_db m) (ms_db m')"
proof (induction evs arbitrary: m)
  case (Cons e evs)
  obtain nt ev where e: "e = (nt, ev)" by fastforce
  obtain m1 where m1: "mesh_step mx nt ev m = Some m1" "mesh_run mx evs m1 = Some m'"
    using Cons.prems(2) e by (auto split: option.splits)
  note g = mesh_step_grows [OF assms Cons.prems(1) m1(1)]
  then have "db_inv (mx_ext mx) (ms_db m1)" by (simp add: grows_def)
  from grows_trans [OF g Cons.IH [OF this m1(2)]] show ?case .
qed (simp add: grows_refl)

section \<open>A chunk\<close>

text \<open>The rows of a log that a chunk covers are a prefix of those asked for, and not an empty one.\<close>

lemma chunk_prefix:
  assumes "\<forall>row \<in> set rows. servable (snd row)"
  shows "\<exists>k. chunk n used rows = Some (map (\<lambda>(sq, b). \<lparr>wr_seq = sq, wr_payload = b64_encode b\<rparr>) (take k rows))"
  using assms
proof (induction rows arbitrary: n used)
  case (Cons row rows)
  obtain sq b where row: "row = (sq, b)" by fastforce
  obtain k where k: "chunk (n + 1) (used + length b) rows =
      Some (map (\<lambda>(sq, b). \<lparr>wr_seq = sq, wr_payload = b64_encode b\<rparr>) (take k rows))"
    using Cons.IH [of "n + 1" "used + length b"] Cons.prems by auto
  have s: "\<not> MAX_SINGLE_RECORD_B64 < (length b + 2) div 3 * 4" using Cons.prems row by (simp add: servable_def)
  show ?case
  proof (cases "MAX_FRAME_BYTES < length b")
    case True
    then show ?thesis using s row by (intro exI [of _ "if n = 0 then 1 else 0"]) (simp add: Let_def)
  next
    case False
    show ?thesis
    proof (cases "MAX_RECORDS \<le> n \<or> MAX_FRAME_BYTES < used + length b")
      case True
      then show ?thesis using s False row by (intro exI [of _ 0]) (simp add: Let_def)
    next
      case next_row: False
      show ?thesis using s False next_row row k by (intro exI [of _ "Suc k"]) (simp add: Let_def)
    qed
  qed
qed simp

lemma chunk_first:
  "servable b \<Longrightarrow> chunk 0 0 ((sq, b) # rows) \<noteq> Some []"
  by (auto simp: servable_def Let_def MAX_RECORDS_def)

lemma b64_served: "b64_decode (b64_encode bs) = Inr bs"
  using decode_encode [OF alphabet_B64(1), of 0 bs] by (simp add: b64_decode_def b64_encode_def)

lemma decode_served: "decode_rows (map (\<lambda>(sq, b). \<lparr>wr_seq = sq, wr_payload = b64_encode b\<rparr>) rows) = Some rows"
  by (induction rows) (auto simp: b64_served)

text \<open>A stretch of a verified log verifies.\<close>

lemma verify_chain:
  assumes "chain_from h g (map snd rows)" "prev = None \<or> prev = Some g"
  shows "verify_rows h prev rows = Some (Inr (recs_of (map snd rows)))"
  using assms
proof (induction rows arbitrary: g prev)
  case (Cons row rows)
  obtain sq b where row: "row = (sq, b)" by fastforce
  have p: "is_ok (parse b g)" using Cons.prems(1) row by simp
  obtain r where r: "parse b g = Ok (r, g)" "rec_wf r" by (rule parse_okE [OF p])
  have c: "LogRecord.parse_chain b prev = Ok (r, g)" "LogRecord.parse_chain b None = Ok (r, g)"
    using r(1) Cons.prems(2) by (auto simp: parse_def LogRecord.parse_chain_def Let_def split: if_splits)
  have t: "r_tag r \<in> {TAG_PUT, TAG_PUT_TTL, TAG_DEL, TAG_SCHEMA, TAG_INDEX, TAG_BATCH}"
    using r(2) by (auto simp: rec_wf_def valid_tag_def)
  have "verify_rows h (Some (record_hash h g b)) rows = Some (Inr (recs_of (map snd rows)))"
    using Cons.IH [of "record_hash h g b" "Some (record_hash h g b)"] Cons.prems(1) row by simp
  then show ?case using c t by (simp add: row recs_of_def)
qed (simp add: recs_of_def)

section \<open>Catching up\<close>

lemma log_len_eq:
  assumes "ns_log ext s ns bs"
  shows "log_len s ns = length bs"
proof -
  obtain l where "bt_get (st_logs (db_store s)) ns = Some l" "log_holds (sha256 ext) (l, nd_segs (ns_files ext (db_disk s) ns)) bs"
    using ns_log_get [OF assms] .
  then show ?thesis by (auto simp: log_len_def store_head_def log_holds_def log_repr_def Let_def)
qed

lemma ns_log_chain:
  assumes "ns_log ext s ns bs"
  shows "chain_from (sha256 ext) zero32 bs"
proof -
  obtain l where "log_holds (sha256 ext) (l, nd_segs (ns_files ext (db_disk s) ns)) bs" using ns_log_get [OF assms] .
  then show ?thesis by (auto simp: log_holds_def log_repr_def Let_def)
qed

lemma chain_recs_length: "chain_from h g bs \<Longrightarrow> length (recs_of bs) = length bs"
proof (induction bs arbitrary: g)
  case (Cons b bs)
  obtain r where "parse b g = Ok (r, g)" using Cons.prems by (auto elim: parse_okE)
  then have "LogRecord.parse_chain b None = Ok (r, g)"
    by (auto simp: parse_def LogRecord.parse_chain_def Let_def split: if_splits)
  then show ?case using Cons.IH [of "record_hash h g b"] Cons.prems by (simp add: recs_of_def)
qed (simp add: recs_of_def)

lemma recs_of_take:
  assumes "chain_from h g bs"
  shows "recs_of (take k bs) = take k (recs_of bs)" "recs_of (drop k bs) = drop k (recs_of bs)"
proof -
  have "chain_from h g (take k bs)" using assms chain_from_append [of h g "take k bs" "drop k bs"] by simp
  then have l: "length (recs_of (take k bs)) = min (length bs) k" using chain_recs_length by fastforce
  have e: "recs_of bs = recs_of (take k bs) @ recs_of (drop k bs)" using recs_of_append [of "take k bs" "drop k bs"] by simp
  have n: "recs_of [] = []" by (simp add: recs_of_def)
  have "take k (recs_of bs) = recs_of (take k bs) \<and> drop k (recs_of bs) = recs_of (drop k bs)"
  proof (cases "k \<le> length bs")
    case True
    then show ?thesis by (subst (1 2) e) (simp add: l)
  next
    case False
    then show ?thesis using chain_recs_length [OF assms] by (simp add: n)
  qed
  then show "recs_of (take k bs) = take k (recs_of bs)" "recs_of (drop k bs) = drop k (recs_of bs)" by simp_all
qed

text \<open>Records not seen before are all appended, in order.\<close>

lemma sync_loop_fresh:
  assumes "ext_ok ext" "db_inv ext s" "ns_log ext s ns bs" "\<forall>r \<in> set rs. rec_wf r"
    and "distinct (map version_key (recs_of bs @ rs))"
  shows "\<exists>s' new. sync_loop ext ns rs (version_key ` set (recs_of bs)) n s = (Ok (n + length rs), s') \<and> db_inv ext s' \<and>
    ns_log ext s' ns (bs @ new) \<and> recs_of (bs @ new) = recs_of bs @ rs"
  using assms(2-5)
proof (induction rs arbitrary: s bs n)
  case Nil
  then show ?case by (intro exI [of _ s] exI [of _ "[]"]) simp
next
  case (Cons r rs)
  have f: "version_key r \<notin> version_key ` set (recs_of bs)" using Cons.prems(4) by auto
  obtain s1 where s1: "sync_one ext ns r s = (Ok (), s1)" "db_inv ext s1" "ns_log ext s1 ns (bs @ [next_bytes ext bs r])"
    by (rule sync_one_effect [OF assms(1) Cons.prems(1,2), of r]) (use Cons.prems(3) in auto)
  have rn: "recs_of (bs @ [next_bytes ext bs r]) = recs_of bs @ [r]"
    using recs_of_next [OF assms(1)] Cons.prems(3) by simp
  obtain s' new where s': "sync_loop ext ns rs (version_key ` set (recs_of (bs @ [next_bytes ext bs r]))) (n + 1) s1 =
        (Ok (n + 1 + length rs), s')" "db_inv ext s'" "ns_log ext s' ns ((bs @ [next_bytes ext bs r]) @ new)"
      "recs_of ((bs @ [next_bytes ext bs r]) @ new) = (recs_of bs @ [r]) @ rs"
    using Cons.IH [OF s1(2,3), of "n + 1"] Cons.prems(3,4) unfolding rn by auto
  have "Set.insert (version_key r) (version_key ` set (recs_of bs)) = version_key ` set (recs_of (bs @ [next_bytes ext bs r]))"
    unfolding rn by simp
  then show ?case using s' s1(1) f by (intro exI [of _ s'] exI [of _ "next_bytes ext bs r # new"]) simp
qed

lemma map_nth_slice: "b \<le> length xs \<Longrightarrow> map ((!) xs) [a..<b] = take (b - a) (drop a xs)"
  by (rule nth_equalityI) auto

lemma pull_effect:
  assumes "ext_ok ext" "ns_log ext leader ns bs" "\<forall>b \<in> set bs. servable b" "distinct (map version_key (recs_of bs))"
    and "db_inv ext s" "ns_log ext s ns fs" "recs_of fs = take (length fs) (recs_of bs)"
  shows "\<exists>rows parsed s' fs'. decode_rows (pull_records ext leader ns (log_len s ns + 1)) = Some rows \<and>
    verify_batch (sha256 ext) rows = Some (Inr parsed) \<and>
    apply_synced_batch ext ns parsed s = (Ok (length fs' - length fs), s') \<and> db_inv ext s' \<and> ns_log ext s' ns fs' \<and>
    recs_of fs' = take (length fs') (recs_of bs) \<and> min (length fs + 1) (length bs) \<le> length fs' \<and> length fs' \<le> length bs"
proof -
  let ?rows = "log_window (length fs + 1) MAX_RECORDS bs"
  have c: "chain_from (sha256 ext) zero32 bs" and cf: "chain_from (sha256 ext) zero32 fs"
    using ns_log_chain assms(2,6) by blast+
  have lb: "length (recs_of bs) = length bs" and lf: "length (recs_of fs) = length fs"
    using chain_recs_length c cf by blast+
  have le: "length fs \<le> length bs" using arg_cong [OF assms(7), of length] lb lf by simp
  have n: "MAX_RECORDS \<noteq> 0" by (simp add: MAX_RECORDS_def)
  have rows: "map snd ?rows = take (min (length fs + MAX_RECORDS) (length bs) - length fs) (drop (length fs) bs)"
    using n map_nth_slice [of "min (length fs + MAX_RECORDS) (length bs)" bs "length fs"]
    by (simp add: log_window_def Let_def comp_def)
  have "snd ` set ?rows \<subseteq> set bs" unfolding set_map [symmetric] rows by (auto dest: in_set_takeD in_set_dropD)
  then have srv: "\<forall>row \<in> set ?rows. servable (snd row)" using assms(3) by blast
  obtain k where k: "chunk 0 0 ?rows = Some (map (\<lambda>(sq, b). \<lparr>wr_seq = sq, wr_payload = b64_encode b\<rparr>) (take k ?rows))"
    using chunk_prefix [OF srv, of 0 0] by blast
  have pull: "pull_records ext leader ns (log_len s ns + 1) =
      map (\<lambda>(sq, b). \<lparr>wr_seq = sq, wr_payload = b64_encode b\<rparr>) (take k ?rows)"
    using log_records_window [OF assms(1,2)] k by (simp add: pull_records_def log_len_eq [OF assms(6)])
  define j where "j = min k (min (length fs + MAX_RECORDS) (length bs) - length fs)"
  have tk: "map snd (take k ?rows) = take j (drop (length fs) bs)"
    unfolding take_map [symmetric] rows by (simp add: j_def)
  let ?rs = "recs_of (take j (drop (length fs) bs))"
  have cc: "chain_from (sha256 ext) (chain_head (sha256 ext) zero32 (take (length fs) bs)) (map snd (take k ?rows))"
    unfolding tk using c chain_from_append [of "sha256 ext" zero32 "take (length fs) bs" "drop (length fs) bs"]
      chain_from_append [of "sha256 ext" _ "take j (drop (length fs) bs)" "drop j (drop (length fs) bs)"]
    by (simp del: chain_from_append drop_drop)
  have v: "verify_batch (sha256 ext) (take k ?rows) = Some (Inr ?rs)"
    using verify_chain [OF cc, of None] unfolding verify_batch_def tk by simp
  have wf: "\<forall>r \<in> set ?rs. rec_wf r" using verify_rows_wf v unfolding verify_batch_def by blast
  have rs: "?rs = take j (drop (length fs) (recs_of bs))"
    using recs_of_take(2) [OF c, of "length fs"] recs_of_take(1) [of "sha256 ext" _ "drop (length fs) bs" j] c
      chain_from_append [of "sha256 ext" zero32 "take (length fs) bs" "drop (length fs) bs"] by auto
  have app: "recs_of fs @ ?rs = take (length fs + j) (recs_of bs)" unfolding rs assms(7) by (simp add: take_add)
  have d: "distinct (map version_key (recs_of fs @ ?rs))" unfolding app take_map [symmetric] by (rule distinct_take [OF assms(4)])
  have pol: "bt_contains ns (st_policies (db_store s))" using ns_log_get [OF assms(6)] by blast
  obtain s' new where s': "sync_loop ext ns ?rs (version_key ` set (recs_of fs)) 0 s = (Ok (0 + length ?rs), s')"
      "db_inv ext s'" "ns_log ext s' ns (fs @ new)" "recs_of (fs @ new) = recs_of fs @ ?rs"
    using sync_loop_fresh [OF assms(1,5,6) wf d, of 0] by blast
  have "length fs + j \<le> length bs" using le by (auto simp: j_def)
  then have len: "length (fs @ new) = length fs + j"
    using chain_recs_length [OF ns_log_chain [OF s'(3)]] lb unfolding s'(4) app by simp
  have "0 < j" if lt: "length fs < length bs"
  proof -
    obtain b rest where "?rows = (length fs + 1, b) # rest" "servable b"
      using lt n assms(3) by (auto simp: log_window_def Let_def upt_conv_Cons)
    then have "k \<noteq> 0" using chunk_first [of b "length fs + 1" rest] k by (intro notI) simp
    then show ?thesis using lt n by (simp add: j_def)
  qed
  then have "min (length fs + 1) (length bs) \<le> length (fs @ new)" unfolding len using le by (cases "length fs < length bs") auto
  moreover have "recs_of (fs @ new) = take (length (fs @ new)) (recs_of bs)" using s'(4) app len by simp
  moreover have "apply_synced_batch ext ns ?rs s = (Ok (length (fs @ new) - length fs), s')"
  proof -
    have "length ?rs = j" using \<open>length fs + j \<le> length bs\<close> lb unfolding rs by simp
    then show ?thesis using s'(1) pol log_versions_eq [OF assms(1,6)] len by (simp add: apply_synced_batch_def)
  qed
  moreover have "decode_rows (pull_records ext leader ns (log_len s ns + 1)) = Some (take k ?rows)"
    unfolding pull by (rule decode_served)
  ultimately show ?thesis using s'(2,3) v \<open>length fs + j \<le> length bs\<close> len
    by (intro exI [of _ "take k ?rows"] exI [of _ ?rs] exI [of _ s'] exI [of _ "fs @ new"]) simp
qed

section \<open>Level logs\<close>

text \<open>Without a pull in flight and with peers that are not ahead, no pull ever starts.\<close>

lemma quiet_frame [simp]:
  "quiet (emit a m) = quiet m" "quiet (m\<lparr>ms_dials := d\<rparr>) = quiet m" "quiet (m\<lparr>ms_cfg := cfg\<rparr>) = quiet m"
  "quiet (m\<lparr>ms_cfg := cfg, ms_cfg_file := f\<rparr>) = quiet m" "quiet (m\<lparr>ms_round_applied := n\<rparr>) = quiet m"
  "quiet (m\<lparr>ms_hlc_at := n\<rparr>) = quiet m"
  by (simp_all add: quiet_def emit_def)

lemma quiet_ctx: "quiet m \<Longrightarrow> (\<And>c ns t. px_phase c \<noteq> Pulling ns t \<Longrightarrow> px_phase (f c) \<noteq> Pulling ns t) \<Longrightarrow> quiet (ctx_upd name f m)"
  by (auto simp: quiet_def ctx_upd_def split: if_splits)

lemma quiet_phase [simp]: "quiet m \<Longrightarrow> (\<And>ns t. ph \<noteq> Pulling ns t) \<Longrightarrow> quiet (phase_set name ph m)"
  unfolding phase_set_def by (rule quiet_ctx) simp_all

lemma quiet_kick: "quiet m \<Longrightarrow> quiet (kick nt name m)"
  by (simp add: kick_def send_hello_def Let_def split: option.split)

lemma quiet_kick_peer: "quiet m \<Longrightarrow> quiet (kick_peer mx nt m na)"
proof -
  assume q: "quiet m"
  have "quiet (m\<lparr>ms_peers := ms_peers m @ [(n, \<lparr>px_addr = a, px_pid = i, px_pin = p, px_phase = Idle, px_chunks = c\<rparr>)]\<rparr>)" for n a i p c
    using q by (auto simp: quiet_def)
  then show ?thesis
    using q by (auto simp: kick_peer_def Let_def intro!: quiet_kick quiet_phase quiet_ctx split: option.split)
qed

lemma quiet_kick_all: "quiet m \<Longrightarrow> quiet (kick_all mx nt m)"
proof -
  have "quiet m \<Longrightarrow> quiet (foldl (kick_peer mx nt) m nas)" for m nas
    by (induction nas arbitrary: m) (simp_all add: quiet_kick_peer)
  then show "quiet m \<Longrightarrow> quiet (kick_all mx nt m)" by (simp add: kick_all_def)
qed

lemma quiet_events:
  "quiet m \<Longrightarrow> quiet (on_connected pid addr m)" "quiet m \<Longrightarrow> quiet (on_closed pid m)" "quiet m \<Longrightarrow> quiet (to_idle pid m)"
  "quiet m \<Longrightarrow> quiet (on_dial_failed p m)"
proof -
  show "quiet m \<Longrightarrow> quiet (on_connected pid addr m)"
    by (auto simp: on_connected_def send_hello_def Let_def intro!: quiet_phase quiet_ctx split: option.split)
  show "quiet m \<Longrightarrow> quiet (on_closed pid m)" "quiet m \<Longrightarrow> quiet (to_idle pid m)"
    by (auto simp: on_closed_def to_idle_def split: option.split)
  have "quiet m \<Longrightarrow> quiet (m\<lparr>ms_dials := Map.empty,
      ms_peers := map (\<lambda>(n, c). (n, if px_phase c = WaitingDial then c\<lparr>px_phase := Idle\<rparr> else c)) (ms_peers m)\<rparr>)"
    by (auto simp: quiet_def split: if_splits)
  then show "quiet m \<Longrightarrow> quiet (on_dial_failed p m)"
    by (auto simp: on_dial_failed_def split: option.split)
qed

lemma quiet_request: "quiet m \<Longrightarrow> on_request mx pid req m = Some m' \<Longrightarrow> quiet m'"
  by (auto simp: on_request_def serve_hello_def serve_pull_def split: option.splits inbound_access.splits sync_request.splits)

lemma quiet_identity:
  assumes "quiet m"
  shows "check_identity mx nt name pid host_id m = Some (Inl m') \<Longrightarrow> quiet m'"
    "check_identity mx nt name pid host_id m = Some (Inr m') \<Longrightarrow> quiet m'"
  using assms
  by (auto simp: check_identity_def persist_pin_def Let_def intro!: quiet_phase quiet_ctx
      split: sum.splits option.splits if_splits)

lemma quiet_records: "quiet m \<Longrightarrow> on_records mx pid ns recs m = Some m' \<Longrightarrow> m' = m"
  by (auto simp: on_records_def quiet_def ctx_of_def dest!: map_of_SomeD split: option.splits phase.splits)

lemma pull_target_level: "nh_seq nh \<le> log_len s (nh_ns nh) \<Longrightarrow> pull_target (db_store s) nh = None"
  by (auto simp: pull_target_def log_len_def Let_def split: option.splits)

lemma note_clock_effect:
  "ns_log ext (ms_db (note_clock name h m)) ns bs = ns_log ext (ms_db m) ns bs"
  "log_len (ms_db (note_clock name h m)) ns = log_len (ms_db m) ns" "quiet (note_clock name h m) = quiet m"
  by (simp_all add: note_clock_def Let_def set_peer_clock_def ns_log_def log_len_def store_head_def quiet_def)

lemma map_filter_none: "\<forall>x \<in> set xs. f x = None \<Longrightarrow> List.map_filter f xs = []"
  by (induction xs) (simp_all add: map_filter_simps)

lemma level_hello:
  assumes "quiet m" "\<forall>nh \<in> set (hr_namespaces resp). nh_seq nh \<le> log_len (ms_db m) (nh_ns nh)"
    and "on_hello mx nt pid resp m = Some m'"
  shows "quiet m' \<and> (\<forall>ns. log_len (ms_db m') ns = log_len (ms_db m) ns) \<and>
    (\<forall>ns bs. ns_log ext (ms_db m') ns bs = ns_log ext (ms_db m) ns bs)"
proof -
  from assms(3) consider "m' = m" | name m1 where "check_identity mx nt name pid (hr_host_id resp) m = Some (Inl m1)" "m' = m1"
    | name m1 where "check_identity mx nt name pid (hr_host_id resp) m = Some (Inr m1)"
        "start_pulls name (List.map_filter (pull_target (db_store (ms_db (note_clock name (hr_hlc resp) m1)))) (hr_namespaces resp))
           (note_clock name (hr_hlc resp) m1) = Some m'"
    by (auto simp: on_hello_def Let_def split: option.splits sum.splits)
  then show ?thesis
  proof cases
    case 3
    let ?m = "note_clock name (hr_hlc resp) m1"
    have db: "ms_db m1 = ms_db m" using ms_db_identity(2) [OF 3(1)] .
    have "List.map_filter (pull_target (db_store (ms_db ?m))) (hr_namespaces resp) = []"
      using assms(2) by (intro map_filter_none) (simp add: pull_target_level note_clock_effect(2) db)
    then have "m' = phase_set name Done ?m" using 3(2) by (simp add: start_pulls_def)
    then show ?thesis
      using quiet_identity(2) [OF assms(1) 3(1)] by (simp add: note_clock_effect db)
  qed (use assms(1) quiet_identity(1) [OF assms(1)] ms_db_identity(1) in auto)
qed

lemma level_step:
  assumes "quiet m" "not_ahead (ms_db m) ev" "mesh_step mx nt ev m = Some m'"
  shows "quiet m' \<and> (\<forall>ns. log_len (ms_db m') ns = log_len (ms_db m) ns) \<and>
    (\<forall>ns bs. ns_log ext (ms_db m') ns bs = ns_log ext (ms_db m) ns bs)"
proof (cases ev)
  case (Inbound pid req)
  then show ?thesis using assms quiet_request [of m mx pid req m'] ms_db_request [of mx pid req m m'] by simp
next
  case (Answer pid resp)
  then show ?thesis
    using assms level_hello [OF assms(1), of _ mx nt pid m' ext] quiet_records [OF assms(1), of mx pid _ _ m'] quiet_events(3)
    by (cases resp) auto
qed (use assms quiet_kick_all quiet_events in auto)

lemma not_ahead_len: "(\<And>ns. log_len s' ns = log_len s ns) \<Longrightarrow> not_ahead s' ev = not_ahead s ev"
  by (cases "(s, ev)" rule: not_ahead.cases) simp_all

lemma level_run:
  "quiet m \<Longrightarrow> \<forall>(nt, ev) \<in> set evs. not_ahead (ms_db m) ev \<Longrightarrow> mesh_run mx evs m = Some m' \<Longrightarrow>
     (\<forall>ns bs. ns_log ext (ms_db m') ns bs = ns_log ext (ms_db m) ns bs)"
proof (induction evs arbitrary: m)
  case (Cons e evs)
  obtain nt ev where e: "e = (nt, ev)" by fastforce
  obtain m1 where m1: "mesh_step mx nt ev m = Some m1" "mesh_run mx evs m1 = Some m'"
    using Cons.prems(3) e by (auto split: option.splits)
  note s = level_step [OF Cons.prems(1) _ m1(1), of ext]
  have s': "quiet m1" "\<And>ns. log_len (ms_db m1) ns = log_len (ms_db m) ns" "\<And>ns bs. ns_log ext (ms_db m1) ns bs = ns_log ext (ms_db m) ns bs"
    using s Cons.prems(2) e by auto
  have "\<forall>(nt, ev) \<in> set evs. not_ahead (ms_db m1) ev"
    using Cons.prems(2) not_ahead_len [OF s'(2)] by auto
  from Cons.IH [OF s'(1) this m1(2)] s'(3) show ?case by simp
qed simp

section \<open>Catching up\<close>

lemma ctx_of_frame [simp]:
  "ctx_of (ctx_upd name f m) name = map_option f (ctx_of m name)"
  "ctx_of (phase_set name ph m) name = map_option (\<lambda>c. c\<lparr>px_phase := ph\<rparr>) (ctx_of m name)"
  "ctx_of (emit a m) n = ctx_of m n"
proof -
  have "map_of (map (\<lambda>(n, c). if n = name then (n, f c) else (n, c)) l) name = map_option f (map_of l name)" for f and l :: "(string \<times> peer_ctx) list"
    by (induction l) auto
  then show "ctx_of (ctx_upd name f m) name = map_option f (ctx_of m name)"
    "ctx_of (phase_set name ph m) name = map_option (\<lambda>c. c\<lparr>px_phase := ph\<rparr>) (ctx_of m name)"
    "ctx_of (emit a m) n = ctx_of m n"
    by (simp_all add: ctx_of_def ctx_upd_def phase_set_def emit_def)
qed

lemma name_for_pid_frame:
  "(\<And>c. px_pid (f c) = px_pid c) \<Longrightarrow> name_for_pid (ctx_upd name f m) pid = name_for_pid m pid"
  "name_for_pid (phase_set name ph m) pid = name_for_pid m pid"
  "name_for_pid (emit a m) pid = name_for_pid m pid"
proof -
  have u: "(\<And>c. px_pid (f c) = px_pid c) \<Longrightarrow> map_option fst (List.find (\<lambda>(n, c). px_pid c = Some pid)
      (map (\<lambda>(n, c). if n = name then (n, f c) else (n, c)) l)) = map_option fst (List.find (\<lambda>(n, c). px_pid c = Some pid) l)"
    for f and l :: "(string \<times> peer_ctx) list"
    by (induction l) (auto split: if_splits)
  show "(\<And>c. px_pid (f c) = px_pid c) \<Longrightarrow> name_for_pid (ctx_upd name f m) pid = name_for_pid m pid"
    "name_for_pid (phase_set name ph m) pid = name_for_pid m pid" "name_for_pid (emit a m) pid = name_for_pid m pid"
    using u by (simp_all add: name_for_pid_def ctx_upd_def phase_set_def emit_def)
qed

lemma may_contribute_frame [simp]:
  "may_contribute (ctx_upd name f m) n ns = may_contribute m n ns" "may_contribute (phase_set name ph m) n ns = may_contribute m n ns"
  "may_contribute (emit a m) n ns = may_contribute m n ns"
  by (simp_all add: may_contribute_def ctx_upd_def phase_set_def emit_def)

lemma after_chunk_some:
  assumes "ctx_of m name = Some c" "px_pid c = Some pid"
  shows "\<exists>m'. after_chunk name ns t n m = Some m'"
proof -
  let ?m = "ctx_upd name (\<lambda>c. c\<lparr>px_chunks := px_chunks c + 1\<rparr>) m"
  have c: "ctx_of (?m\<lparr>ms_pulls := x\<rparr>) name = Some (c\<lparr>px_chunks := px_chunks c + 1\<rparr>)" for x
    using assms(1) ctx_of_frame(1) [of name _ m] by (simp add: ctx_of_def)
  show ?thesis
    using assms c by (auto simp: after_chunk_def send_pull_def Let_def split: option.split list.split)
qed

lemma after_chunk_again:
  assumes "pulling pid name ns t k m" "0 < n" "k + 1 < MAX_CHUNKS_PER_TICK" "log_len (ms_db m) ns < t"
  shows "\<exists>m'. after_chunk name ns t n m = Some m' \<and> pulling pid name ns t (k + 1) m'"
proof -
  obtain c where c: "ctx_of m name = Some c" "px_phase c = Pulling ns t" "px_pid c = Some pid" "px_chunks c = k"
    and n: "name_for_pid m pid = Some name" "may_contribute m name ns" using assms(1) unfolding pulling_def by blast
  let ?m = "ctx_upd name (\<lambda>c. c\<lparr>px_chunks := px_chunks c + 1\<rparr>) m"
  have h: "(case store_head (db_store (ms_db m)) ns of None \<Rightarrow> 0 | Some (sq, _) \<Rightarrow> sq) < t"
    using assms(4) by (simp add: log_len_def)
  let ?f = "case store_head (db_store (ms_db m)) ns of None \<Rightarrow> 1 | Some (sq, _) \<Rightarrow> sq + 1"
  have "after_chunk name ns t n m = Some (phase_set name (Pulling ns t) (emit (Request pid (Pull ns ?f)) ?m))"
    using assms(2,3) c h by (simp add: after_chunk_def send_pull_def)
  moreover have "pulling pid name ns t (k + 1) (phase_set name (Pulling ns t) (emit (Request pid (Pull ns ?f)) ?m))"
    unfolding pulling_def using c n by (simp add: name_for_pid_frame)
  ultimately show ?thesis by blast
qed

lemma checkpoint_frame:
  "ns_log ext (snd (checkpoint s)) ns bs = ns_log ext s ns bs" "log_len (snd (checkpoint s)) ns = log_len s ns"
  by (simp_all add: ns_log_def checkpoint_def log_len_def store_head_def)

lemma answer_effect:
  assumes "ext_ok (mx_ext mx)" "ns_log (mx_ext mx) leader ns bs" "\<forall>b \<in> set bs. servable b" "distinct (map version_key (recs_of bs))"
    and "db_inv (mx_ext mx) (ms_db m)" "ns_log (mx_ext mx) (ms_db m) ns fs" "recs_of fs = take (length fs) (recs_of bs)"
    and "pulling pid name ns (length bs) k m" "length fs < length bs" "k + (length bs - length fs) \<le> MAX_CHUNKS_PER_TICK"
  shows "\<exists>m' fs'. mesh_step mx nt (Answer pid (Records ns (pull_records (mx_ext mx) leader ns (log_len (ms_db m) ns + 1)))) m = Some m' \<and>
    db_inv (mx_ext mx) (ms_db m') \<and> ns_log (mx_ext mx) (ms_db m') ns fs' \<and> recs_of fs' = take (length fs') (recs_of bs) \<and>
    length fs < length fs' \<and> length fs' \<le> length bs \<and> (length fs' < length bs \<longrightarrow> pulling pid name ns (length bs) (k + 1) m')"
proof -
  obtain rows parsed s' fs' where p: "decode_rows (pull_records (mx_ext mx) leader ns (log_len (ms_db m) ns + 1)) = Some rows"
      "verify_batch (sha256 (mx_ext mx)) rows = Some (Inr parsed)"
      "apply_synced_batch (mx_ext mx) ns parsed (ms_db m) = (Ok (length fs' - length fs), s')"
    and q: "db_inv (mx_ext mx) s'" "ns_log (mx_ext mx) s' ns fs'" "recs_of fs' = take (length fs') (recs_of bs)"
      "min (length fs + 1) (length bs) \<le> length fs'" "length fs' \<le> length bs"
    using pull_effect [OF assms(1-7)] by blast
  let ?n = "length fs' - length fs" and ?total = "ms_round_applied m + (length fs' - length fs)"
  let ?s = "if 0 < ?total \<and> ?total mod CHECKPOINT_EVERY \<le> length parsed then snd (checkpoint s') else s'"
  let ?m = "m\<lparr>ms_db := ?s, ms_round_applied := ?total, ms_changes := ms_changes m @ [ns]\<rparr>"
  obtain c where c: "ctx_of m name = Some c" "px_phase c = Pulling ns (length bs)" "px_pid c = Some pid" "px_chunks c = k"
    and nm: "name_for_pid m pid = Some name" "may_contribute m name ns" using assms(8) unfolding pulling_def by blast
  have step: "mesh_step mx nt (Answer pid (Records ns (pull_records (mx_ext mx) leader ns (log_len (ms_db m) ns + 1)))) m =
      after_chunk name ns (length bs) ?n ?m"
    using c nm p by (simp add: on_records_def apply_chunk_def Let_def)
  have d: "db_inv (mx_ext mx) ?s" "ns_log (mx_ext mx) ?s ns fs'" "log_len ?s ns = length fs'"
    using q(1,2) checkpoint_grows [OF q(1)] log_len_eq [OF q(2)] by (auto simp: grows_def checkpoint_frame)
  have cm: "ctx_of ?m name = Some c" using c(1) by (simp add: ctx_of_def)
  have pm: "pulling pid name ns (length bs) k ?m"
    using assms(8) by (simp add: pulling_def name_for_pid_def may_contribute_def ctx_of_def)
  have lt: "length fs < length fs'" using q(4) assms(9) by simp
  show ?thesis
  proof (cases "length fs' < length bs")
    case True
    have k: "k + 1 < MAX_CHUNKS_PER_TICK" using True lt assms(10) by simp
    obtain m' where m': "after_chunk name ns (length bs) ?n ?m = Some m'" "pulling pid name ns (length bs) (k + 1) m'"
      using after_chunk_again [OF pm _ k, of ?n] lt True d(3) by auto
    then show ?thesis using step d(1,2) q(3,5) lt ms_db_after_chunk [OF m'(1)] by auto
  next
    case False
    obtain m' where m': "after_chunk name ns (length bs) ?n ?m = Some m'" using after_chunk_some [OF cm c(3)] by blast
    then show ?thesis using step d(1,2) q(3,5) lt ms_db_after_chunk [OF m'(1)] False by auto
  qed
qed

lemma answers_effect:
  assumes "ext_ok (mx_ext mx)" "ns_log (mx_ext mx) leader ns bs" "\<forall>b \<in> set bs. servable b" "distinct (map version_key (recs_of bs))"
  shows "db_inv (mx_ext mx) (ms_db m) \<Longrightarrow> ns_log (mx_ext mx) (ms_db m) ns fs \<Longrightarrow> recs_of fs = take (length fs) (recs_of bs) \<Longrightarrow>
    length fs \<le> length bs \<Longrightarrow> (length fs < length bs \<Longrightarrow> pulling pid name ns (length bs) k m) \<Longrightarrow>
    k + (length bs - length fs) \<le> MAX_CHUNKS_PER_TICK \<Longrightarrow>
    \<exists>n m' fs'. n \<le> length bs - length fs \<and> answered mx nt leader pid ns n m = Some m' \<and> db_inv (mx_ext mx) (ms_db m') \<and>
      ns_log (mx_ext mx) (ms_db m') ns fs' \<and> recs_of fs' = recs_of bs"
proof (induction "length bs - length fs" arbitrary: m fs k rule: less_induct)
  case less
  have lb: "length (recs_of bs) = length bs" by (rule chain_recs_length [OF ns_log_chain [OF assms(2)]])
  show ?case
  proof (cases "length fs < length bs")
    case False
    then show ?thesis using less.prems lb by (intro exI [of _ 0] exI [of _ m] exI [of _ fs]) simp
  next
    case True
    obtain m1 f1 where s: "mesh_step mx nt (Answer pid (Records ns (pull_records (mx_ext mx) leader ns (log_len (ms_db m) ns + 1)))) m = Some m1"
      and i: "db_inv (mx_ext mx) (ms_db m1)" "ns_log (mx_ext mx) (ms_db m1) ns f1" "recs_of f1 = take (length f1) (recs_of bs)"
        "length f1 \<le> length bs" "length f1 < length bs \<Longrightarrow> pulling pid name ns (length bs) (k + 1) m1" and lt: "length fs < length f1"
      using answer_effect [OF assms less.prems(1-3) less.prems(5) [OF True] True less.prems(6)] by blast
    have b: "length bs - length f1 < length bs - length fs" "k + 1 + (length bs - length f1) \<le> MAX_CHUNKS_PER_TICK"
      using lt True less.prems(6) i(4) by auto
    obtain n m' fs' where r: "n \<le> length bs - length f1" "answered mx nt leader pid ns n m1 = Some m'" "db_inv (mx_ext mx) (ms_db m')"
        "ns_log (mx_ext mx) (ms_db m') ns fs'" "recs_of fs' = recs_of bs"
      using less.hyps [OF b(1) i b(2)] by blast
    then show ?thesis using s b(1) by (intro exI [of _ "Suc n"] exI [of _ m'] exI [of _ fs']) simp
  qed
qed

section \<open>Properties\<close>

lemmas demo_steps =
  kick_all_def kick_peer_def kick_def in_flight_def load_pin_def find_peer_def ctx_of_def ctx_upd_def phase_set_def emit_def
  on_connected_def send_hello_def on_hello_def name_for_pid_def check_identity_def persist_pin_def save_config_def
  start_pulls_def send_pull_def

lemma demo_fields [simp]:
  "mx_ext demo_mx = demo_ext" "mx_addr demo_mx = Some" "toml_print (mx_toml demo_mx) c = Some []"
  "mx_pid demo_mx pk = (if pk = replicate 32 255 then None else Some pk)"
  "nt_connected demo_net p" "nt_dial_ok demo_net" "nt_writable demo_net" "ms_db (demo_mesh s) = s"
  by (simp_all add: demo_mx_def demo_net_def demo_mesh_def)

lemma demo_no_pin [simp]: "parse_pk demo_ext [] = Inl ''expected 32 bytes''"
  by (simp add: parse_pk_def demo_ext_def)

lemma zero32_neq [simp]: "zero32 \<noteq> replicate 32 255"
  by (simp add: zero32_def)

text \<open>A database whose namespace holds one record.\<close>

lemma demo_put_db:
  obtains s where "db_inv demo_ext s" "ns_log demo_ext s ''n'' [next_bytes demo_ext [] (put_record [107] [v] 7 zero32 zero32 0)]"
    "recs_of [next_bytes demo_ext [] (put_record [107] [v] 7 zero32 zero32 0)] = [put_record [107] [v] 7 zero32 zero32 0]"
proof -
  let ?r = "put_record [107] [v] 7 zero32 zero32 0"
  obtain s where s: "db_inv demo_ext s" "ns_log demo_ext s ''n'' []" "bt_get (st_policies (db_store s)) ''n'' = Some PolicyLww"
    by (rule demo_db)
  have w: "op_wf ?r" by (simp add: op_wf_def put_record_def payload_bytes_def)
  have put: "is_put ?r" by (simp add: put_record_def is_put_def)
  have wf: "rec_wf ?r" using rec_wf_op [OF w] by (auto simp: put_record_def)
  obtain l where l: "bt_get (st_logs (db_store s)) ''n'' = Some l" using ns_log_get [OF s(2)] .
  obtain s1 st where "db_inv demo_ext (s1\<lparr>db_store := st\<rparr>)" "ns_log demo_ext (s1\<lparr>db_store := st\<rparr>) ''n'' ([] @ [next_bytes demo_ext [] ?r])"
    by (rule local_write_effect [OF demo_ext_ok s(1,2) l wf disjI1 [OF put]]) blast
  then show thesis using that recs_of_next [OF demo_ext_ok wf, of "[]"] by (simp add: recs_of_def)
qed

text \<open>C9.  Replication cannot damage the database: whatever sequence of connections, failures, requests
  and answers the engine meets, from whichever peers, every namespace log keeps the records
  it had as its prefix, the logs stay chained and readable from disk, and the invariant of
  the database holds.\<close>

theorem mesh_never_corrupts:
  assumes "ext_ok (mx_ext mx)" "db_inv (mx_ext mx) (ms_db m)" "mesh_run mx evs m = Some m'"
  shows "db_inv (mx_ext mx) (ms_db m') \<and>
    (ns_log (mx_ext mx) (ms_db m) ns bs \<longrightarrow>
       (\<exists>new. ns_log (mx_ext mx) (ms_db m') ns (bs @ new) \<and>
          log_records (mx_ext mx) (ms_db m') ns from_seq max_n = Ok (log_window from_seq max_n (bs @ new))))"
  using mesh_run_grows [OF assms(1,2,3)] log_records_window [OF assms(1)] unfolding grows_def by blast

theorem mesh_never_corrupts_witness:
  "\<exists>s m'. ns_log demo_ext s ''n'' [] \<and>
     mesh_run demo_mx [(demo_net, Tick), (demo_net, Connected [9] ''x'')] (demo_mesh s) = Some m' \<and>
     db_inv demo_ext (ms_db m') \<and> (\<exists>new. ns_log demo_ext (ms_db m') ''n'' ([] @ new))"
proof -
  obtain s where s: "db_inv demo_ext s" "ns_log demo_ext s ''n'' []" by (rule demo_db)
  obtain m' where m': "mesh_run demo_mx [(demo_net, Tick), (demo_net, Connected [9] ''x'')] (demo_mesh s) = Some m'" by simp
  have d: "mx_ext demo_mx = demo_ext" "ms_db (demo_mesh s) = s" by (simp_all add: demo_mx_def demo_mesh_def)
  from mesh_never_corrupts [OF _ _ m', of "''n''" "[]"] s demo_ext_ok show ?thesis unfolding d using m' by blast
qed



text \<open>C36.  Replication compares lengths, not contents: as long as no peer advertises a longer log than the
  local one, no event makes the engine pull, and every local log stays as it is.  Two nodes that
  each accepted a write of their own while apart, and so have logs of one length with different
  records, keep them however often they meet.\<close>

theorem level_logs_stay_apart:
  assumes "quiet m" "\<forall>(nt, ev) \<in> set evs. not_ahead (ms_db m) ev" "mesh_run mx evs m = Some m'"
  shows "ns_log ext (ms_db m') ns bs = ns_log ext (ms_db m) ns bs"
  using level_run [OF assms] by blast

theorem level_logs_stay_apart_witness:
  "\<exists>a b x y m'. ns_log demo_ext a ''n'' [x] \<and> ns_log demo_ext b ''n'' [y] \<and> recs_of [x] \<noteq> recs_of [y] \<and>
     mesh_run demo_mx
       [(demo_net, Tick), (demo_net, Connected zero32 ''x''),
        (demo_net, Answer zero32 (HelloIs \<lparr>hr_host_id = pk_str demo_ext zero32, hr_hlc = 0,
           hr_namespaces = [\<lparr>nh_ns = ''n'', nh_seq = log_len b ''n'', nh_hash = []\<rparr>]\<rparr>))]
       (demo_mesh a) = Some m' \<and>
     ns_log demo_ext (ms_db m') ''n'' [x]"
proof -
  let ?r = "\<lambda>v. put_record [107] [v] 7 zero32 zero32 0" and ?x = "\<lambda>v. next_bytes demo_ext [] (put_record [107] [v] 7 zero32 zero32 0)"
  obtain a where a: "ns_log demo_ext a ''n'' [?x 1]" "recs_of [?x 1] = [?r 1]" by (rule demo_put_db)
  obtain b where b: "ns_log demo_ext b ''n'' [?x 2]" "recs_of [?x 2] = [?r 2]" by (rule demo_put_db)
  let ?evs = "[(demo_net, Tick), (demo_net, Connected zero32 ''x''),
        (demo_net, Answer zero32 (HelloIs \<lparr>hr_host_id = pk_str demo_ext zero32, hr_hlc = 0,
           hr_namespaces = [\<lparr>nh_ns = ''n'', nh_seq = log_len b ''n'', nh_hash = []\<rparr>]\<rparr>))]"
  have d: "ms_db (demo_mesh a) = a" by (simp add: demo_mesh_def)
  have q: "quiet (demo_mesh a)" by (simp add: quiet_def demo_mesh_def)
  have n: "\<forall>(nt, ev) \<in> set ?evs. not_ahead (ms_db (demo_mesh a)) ev"
    using log_len_eq [OF a(1)] log_len_eq [OF b(1)] unfolding d by simp
  have pk: "parse_pk demo_ext (pk_str demo_ext zero32) = Inr zero32" using parse_pk_str [OF demo_hex_ok] by simp
  have "\<exists>m'. mesh_run demo_mx ?evs (demo_mesh a) = Some m'"
    by (simp add: demo_steps demo_mesh_def demo_peer_def pk note_clock_def Let_def split: list.split)
  then obtain m' where m': "mesh_run demo_mx ?evs (demo_mesh a) = Some m'" by blast
  from level_logs_stay_apart [OF q n m', of demo_ext "''n''" "[?x 1]"] a b m' show ?thesis
    unfolding d by (intro exI [of _ a] exI [of _ b] exI [of _ "?x 1"] exI [of _ "?x 2"] exI [of _ m']) (simp add: put_record_def)
qed

end
