(* ===== verification/MeshTrust.thy ===== *)
theory MeshTrust
  imports MeshSync
begin

text \<open>
  Whom the replication engine trusts: who is served records, how a peer's key is pinned on first
  contact and kept, and where a pinned identity does not protect the database.
\<close>

section \<open>Definitions\<close>

text \<open>The connection belongs to a key pinned in the configuration.\<close>

definition pinned :: "mesh_env \<Rightarrow> config \<Rightarrow> peer_id \<Rightarrow> bool" where
  "pinned mx cfg pid \<longleftrightarrow>
     (\<exists>p \<in> set (cfg_peers cfg). \<exists>pk. pr_pin p \<noteq> [] \<and> parse_pk (mx_ext mx) (pr_pin p) = Inr pk \<and> mx_pid mx pk = Some pid)"

text \<open>Actions that carry records, and steps that emit none.\<close>

fun carries_records :: "action \<Rightarrow> bool" where
  "carries_records (Respond pid (Records ns rs)) = True"
| "carries_records _ = False"

definition silent :: "mesh \<Rightarrow> mesh \<Rightarrow> bool" where
  "silent m m' \<longleftrightarrow> (\<exists>new. ms_out m' = ms_out m @ new \<and> (\<forall>a \<in> set new. \<not> carries_records a))"

text \<open>The pin the engine holds for a peer.\<close>

definition pin_of :: "mesh \<Rightarrow> string \<Rightarrow> public_key option" where
  "pin_of m name = Option.bind (ctx_of m name) px_pin"

section \<open>Who is served\<close>

lemma silent_refl [simp]: "silent m m"
  by (simp add: silent_def)

lemma silent_trans: "silent a b \<Longrightarrow> silent b c \<Longrightarrow> silent a c"
  unfolding silent_def by (metis append.assoc Un_iff set_append)

lemma silent_out: "ms_out m' = ms_out m \<Longrightarrow> silent m m'"
  by (simp add: silent_def)

lemma silent_frame [simp]:
  "silent m (ctx_upd name f m') = silent m m'" "silent m (phase_set name ph m') = silent m m'"
  by (simp_all add: silent_def ctx_upd_def phase_set_def)

lemma silent_emit: "silent m m' \<Longrightarrow> \<not> carries_records a \<Longrightarrow> silent m (emit a m')"
  by (auto simp: silent_def emit_def)

lemma silent_upd [simp]:
  "silent m (m'\<lparr>ms_dials := x\<rparr>) = silent m m'" "silent m (m'\<lparr>ms_pulls := y\<rparr>) = silent m m'" "silent m (m'\<lparr>ms_db := z\<rparr>) = silent m m'"
  "silent m (m'\<lparr>ms_round_applied := u\<rparr>) = silent m m'" "silent m (m'\<lparr>ms_changes := v\<rparr>) = silent m m'"
  "silent m (m'\<lparr>ms_peers := w\<rparr>) = silent m m'" "silent m (m'\<lparr>ms_cfg := c\<rparr>) = silent m m'" "silent m (m'\<lparr>ms_cfg_file := g\<rparr>) = silent m m'"
  "silent m (m'\<lparr>ms_hlc_at := i\<rparr>) = silent m m'"
  by (simp_all add: silent_def)

lemma silent_kick: "silent m m' \<Longrightarrow> silent m (kick nt name m')"
  by (simp add: kick_def Let_def send_hello_def silent_emit split: option.split)

lemma silent_kick_peer: "silent m m' \<Longrightarrow> silent m (kick_peer mx nt m' na)"
  by (simp add: kick_peer_def Let_def silent_kick split: option.split)

lemma silent_kick_all: "silent m (kick_all mx nt m)"
proof -
  have "silent m m' \<Longrightarrow> silent m (foldl (kick_peer mx nt) m' l)" for m' l
    by (induction l arbitrary: m') (simp_all add: silent_kick_peer)
  then show ?thesis by (simp add: kick_all_def)
qed

lemma silent_persist: "silent m m' \<Longrightarrow> silent m (persist_pin mx nt name pk m')"
  by (simp add: persist_pin_def Let_def split: sum.split)

lemma silent_identity:
  "check_identity mx nt name pid h m = Some (Inl m') \<Longrightarrow> silent m m'"
  "check_identity mx nt name pid h m = Some (Inr m') \<Longrightarrow> silent m m'"
  by (auto simp: check_identity_def silent_persist split: sum.splits option.splits if_splits)

lemma silent_send_pull: "send_pull name ns t m' = Some m'' \<Longrightarrow> silent m m' \<Longrightarrow> silent m m''"
  by (auto simp: send_pull_def Let_def silent_emit split: option.splits)

lemma silent_start_pulls: "start_pulls name pulls m' = Some m'' \<Longrightarrow> silent m m' \<Longrightarrow> silent m m''"
  by (auto simp: start_pulls_def elim!: silent_send_pull split: list.splits)

lemma silent_after_chunk: "after_chunk name ns t n m' = Some m'' \<Longrightarrow> silent m m' \<Longrightarrow> silent m m''"
  by (auto simp: after_chunk_def Let_def elim!: silent_send_pull split: if_splits option.splits list.splits)

lemma silent_clock [simp]: "silent m (note_clock name h m') = silent m m'"
  by (simp add: note_clock_def Let_def silent_def)

lemma silent_hello: "on_hello mx nt pid resp m = Some m' \<Longrightarrow> silent m m'"
  by (auto simp: on_hello_def Let_def dest: silent_identity elim!: silent_start_pulls split: option.splits sum.splits)

lemma silent_records: "on_records mx pid ns recs m = Some m' \<Longrightarrow> silent m m'"
  by (auto simp: on_records_def apply_chunk_def Let_def elim!: silent_after_chunk
      split: option.splits sum.splits phase.splits if_splits prod.splits)

lemma silent_events: "silent m (on_connected pid addr m)" "silent m (on_closed pid m)" "silent m (on_dial_failed q m)" "silent m (to_idle pid m)"
  by (simp_all add: on_connected_def on_closed_def on_dial_failed_def to_idle_def Let_def send_hello_def silent_emit split: option.split)

lemma pinned_peer_pinned: "pinned_peer mx pid ps = Some (Some name) \<Longrightarrow> ps = cfg_peers cfg \<Longrightarrow> pinned mx cfg pid"
proof -
  have "pinned_peer mx pid ps = Some (Some name) \<Longrightarrow>
    \<exists>p \<in> set ps. \<exists>pk. pr_pin p \<noteq> [] \<and> parse_pk (mx_ext mx) (pr_pin p) = Inr pk \<and> mx_pid mx pk = Some pid"
    by (induction ps) (auto split: if_splits sum.splits option.splits)
  then show "pinned_peer mx pid ps = Some (Some name) \<Longrightarrow> ps = cfg_peers cfg \<Longrightarrow> pinned mx cfg pid"
    by (simp add: pinned_def)
qed

lemma request_served:
  assumes "on_request mx pid req m = Some m'"
  shows "silent m m' \<or> (pinned mx (ms_cfg m) pid \<and> (\<exists>ns from_seq. req = Pull ns from_seq \<and>
    ms_out m' = ms_out m @ [Respond pid (Records ns (pull_records (mx_ext mx) (ms_db m) ns from_seq))]))"
proof -
  have h: "silent m (serve_hello mx pid m)" "silent m (m\<lparr>ms_out := ms_out m @ [Respond pid Denied]\<rparr>)"
    by (simp_all add: serve_hello_def silent_emit) (simp add: silent_def)
  have "inbound_access mx m pid = Some (Full name) \<Longrightarrow> pinned mx (ms_cfg m) pid" for name
    by (auto simp: inbound_access_def intro: pinned_peer_pinned split: option.splits if_splits)
  then show ?thesis
    using assms h unfolding on_request_def
    by (auto simp: silent_emit serve_pull_def emit_def split: option.splits inbound_access.splits sync_request.splits)
qed

section \<open>Pins\<close>

lemma map_of_upd:
  "map_of (map (\<lambda>(n, c). if n = name then (n, f c) else (n, c)) l) k = map_option (if k = name then f else id) (map_of l k)"
  by (induction l) (auto simp: option.map_id0)

lemma pin_of_upd:
  "(\<And>c. px_pin (f c) = px_pin c) \<Longrightarrow> pin_of (ctx_upd name f m) k = pin_of m k"
  by (cases "map_of (ms_peers m) k") (auto simp: pin_of_def ctx_of_def ctx_upd_def map_of_upd)

lemma pin_of_frame [simp]:
  "pin_of (phase_set name ph m) k = pin_of m k" "pin_of (emit a m) k = pin_of m k"
  "pin_of (m\<lparr>ms_dials := x\<rparr>) k = pin_of m k" "pin_of (m\<lparr>ms_pulls := y\<rparr>) k = pin_of m k" "pin_of (m\<lparr>ms_db := z\<rparr>) k = pin_of m k"
  "pin_of (m\<lparr>ms_round_applied := u\<rparr>) k = pin_of m k" "pin_of (m\<lparr>ms_changes := v\<rparr>) k = pin_of m k"
  "pin_of (m\<lparr>ms_cfg := c\<rparr>) k = pin_of m k" "pin_of (m\<lparr>ms_cfg_file := g\<rparr>) k = pin_of m k" "pin_of (m\<lparr>ms_hlc_at := i\<rparr>) k = pin_of m k"
  "pin_of (note_clock name h m) k = pin_of m k" "pin_of (persist_pin mx nt name pk m) k = pin_of m k"
  "pin_of (send_hello name pid m) k = pin_of m k"
  by (simp_all add: phase_set_def pin_of_upd, simp_all add: pin_of_def ctx_of_def emit_def note_clock_def Let_def persist_pin_def
      send_hello_def phase_set_def pin_of_upd [unfolded pin_of_def ctx_of_def] split: sum.split)

lemma pin_of_kick [simp]: "pin_of (kick nt name m) k = pin_of m k"
  by (simp add: kick_def Let_def split: option.split)

lemma cfg_frame [simp]:
  "ms_cfg (ctx_upd name f m) = ms_cfg m" "ms_cfg (phase_set name ph m) = ms_cfg m" "ms_cfg (emit a m) = ms_cfg m"
  "ms_cfg (send_hello name pid m) = ms_cfg m" "ms_cfg (kick nt name m) = ms_cfg m" "ms_cfg (kick_peer mx nt m na) = ms_cfg m"
  by (simp_all add: ctx_upd_def phase_set_def emit_def send_hello_def kick_def kick_peer_def Let_def split: option.split)

lemma pin_of_kick_peer:
  "pin_of (kick_peer mx nt m na) k = pin_of m k \<or> (pin_of m k = None \<and> pin_of (kick_peer mx nt m na) k = load_pin mx m k)"
proof -
  have "pin_of (m\<lparr>ms_peers := ms_peers m @ [(fst na, c)]\<rparr>) k = (if k = fst na then px_pin c else pin_of m k)"
    if "ctx_of m (fst na) = None" for c
    using that by (auto simp: pin_of_def ctx_of_def map_add_def split: option.split)
  then show ?thesis
    by (auto simp: kick_peer_def Let_def pin_of_upd split: option.split) (simp_all add: pin_of_def)
qed

lemma pin_of_kick_all:
  "pin_of (kick_all mx nt m) k = pin_of m k \<or> (pin_of m k = None \<and> pin_of (kick_all mx nt m) k = load_pin mx m k)"
proof -
  have "ms_cfg m' = ms_cfg m \<Longrightarrow> pin_of m' k = pin_of m k \<or> (pin_of m k = None \<and> pin_of m' k = load_pin mx m k) \<Longrightarrow>
      pin_of (foldl (kick_peer mx nt) m' l) k = pin_of m k \<or>
      (pin_of m k = None \<and> pin_of (foldl (kick_peer mx nt) m' l) k = load_pin mx m k)" for m' l
  proof (induction l arbitrary: m')
    case (Cons na l)
    have "load_pin mx m' k = load_pin mx m k" using Cons.prems(1) by (simp add: load_pin_def)
    then have "pin_of (kick_peer mx nt m' na) k = pin_of m k \<or>
        (pin_of m k = None \<and> pin_of (kick_peer mx nt m' na) k = load_pin mx m k)"
      using Cons.prems(2) pin_of_kick_peer [of mx nt m' na k] by auto
    from Cons.IH [OF _ this] Cons.prems(1) show ?case by simp
  qed simp
  from this [of "m\<lparr>ms_round_applied := 0\<rparr>"] show ?thesis by (simp add: kick_all_def)
qed

lemma pin_of_set:
  "pin_of (ctx_upd name (\<lambda>c. c\<lparr>px_pin := Some pk, px_pid := q\<rparr>) m) k =
     (if k = name \<and> ctx_of m name \<noteq> None then Some pk else pin_of m k)"
  by (cases "map_of (ms_peers m) k") (auto simp: pin_of_def ctx_of_def ctx_upd_def map_of_upd)

lemma pin_of_identity:
  "check_identity mx nt name pid h m = Some (Inl m') \<Longrightarrow> pin_of m' k = pin_of m k"
  "check_identity mx nt name pid h m = Some (Inr m') \<Longrightarrow> pin_of m' k = pin_of m k \<or>
     (\<exists>pk. pin_of m k = None \<and> parse_pk (mx_ext mx) h = Inr pk \<and> mx_pid mx pk = Some pid \<and> pin_of m' k = Some pk)"
  by (auto simp: check_identity_def pin_of_set split: sum.splits option.splits if_splits) (simp_all add: pin_of_def)

lemma pin_of_send_pull: "send_pull name ns t m = Some m' \<Longrightarrow> pin_of m' k = pin_of m k"
  by (auto simp: send_pull_def Let_def split: option.splits)

lemma pin_of_pulls:
  "start_pulls name pulls m = Some m' \<Longrightarrow> pin_of m' k = pin_of m k"
  "after_chunk name ns t n m = Some m' \<Longrightarrow> pin_of m' k = pin_of m k"
  by (auto simp: start_pulls_def after_chunk_def Let_def pin_of_upd dest!: pin_of_send_pull [of _ _ _ _ _ k]
      split: list.splits if_splits option.splits)

lemma pin_of_records: "on_records mx pid ns recs m = Some m' \<Longrightarrow> pin_of m' k = pin_of m k"
  by (auto simp: on_records_def apply_chunk_def Let_def dest!: pin_of_pulls(2) [of _ _ _ _ _ _ k]
      split: option.splits sum.splits phase.splits if_splits prod.splits)

lemma pin_of_events:
  "pin_of (on_connected pid addr m) k = pin_of m k" "pin_of (on_closed pid m) k = pin_of m k"
  "pin_of (on_dial_failed q m) k = pin_of m k" "pin_of (to_idle pid m) k = pin_of m k"
proof -
  have "Option.bind (map_of (map (\<lambda>(n, c). (n, if px_phase c = WaitingDial then c\<lparr>px_phase := Idle\<rparr> else c)) l) k) px_pin =
      Option.bind (map_of l k) px_pin" for l
    by (induction l) auto
  then show "pin_of (on_connected pid addr m) k = pin_of m k" "pin_of (on_closed pid m) k = pin_of m k"
  "pin_of (on_dial_failed q m) k = pin_of m k" "pin_of (to_idle pid m) k = pin_of m k"
    by (auto simp: on_connected_def on_closed_def on_dial_failed_def to_idle_def Let_def pin_of_upd split: option.split)
       (simp add: pin_of_def ctx_of_def)
qed

lemma pin_of_request: "on_request mx pid req m = Some m' \<Longrightarrow> pin_of m' k = pin_of m k"
  by (auto simp: on_request_def serve_hello_def serve_pull_def split: option.splits inbound_access.splits sync_request.splits)

lemma pin_step:
  assumes "mesh_step mx nt ev m = Some m'"
  shows "pin_of m' k = pin_of m k \<or> (pin_of m k = None \<and>
    ((ev = Tick \<and> pin_of m' k = load_pin mx m k) \<or>
     (\<exists>pid resp pk. ev = Answer pid (HelloIs resp) \<and> parse_pk (mx_ext mx) (hr_host_id resp) = Inr pk \<and>
        mx_pid mx pk = Some pid \<and> pin_of m' k = Some pk)))"
proof (cases "(mx, nt, ev, m)" rule: mesh_step.cases)
  case (1 mx' nt' m1)
  then show ?thesis using assms pin_of_kick_all [of mx nt m k] by auto
next
  case (6 mx' nt' pid resp m1)
  then have h: "on_hello mx nt pid resp m = Some m'" "ev = Answer pid (HelloIs resp)" using assms by auto
  then show ?thesis
    by (auto simp: on_hello_def Let_def dest!: pin_of_identity(2) [of _ _ _ _ _ _ _ k] pin_of_pulls(1) [of _ _ _ _ k]
          dest: pin_of_identity(1) [of _ _ _ _ _ _ _ k] split: option.splits sum.splits)
next
  case (7 mx' nt' pid ns recs m1)
  then show ?thesis using assms pin_of_records [of mx pid ns recs m m' k] by auto
qed (use assms pin_of_events pin_of_request in auto)

lemma pin_run: "mesh_run mx evs m = Some m' \<Longrightarrow> pin_of m k = Some pk \<Longrightarrow> pin_of m' k = Some pk"
proof (induction evs arbitrary: m)
  case (Cons e evs)
  obtain nt ev where e: "e = (nt, ev)" by fastforce
  then obtain m1 where "mesh_step mx nt ev m = Some m1" "mesh_run mx evs m1 = Some m'"
    using Cons.prems(1) by (auto split: option.splits)
  then show ?case using Cons.IH Cons.prems(2) pin_step [of mx nt ev m m1 k] by auto
qed simp

section \<open>First contact\<close>

text \<open>One configured peer, dialled and connected.\<close>

lemma contact:
  assumes "cfg_peers (ms_cfg m) = [p]" "ms_peers m = []" "mx_addr mx (pr_addr p) = Some a" "nt_dial_ok nt"
  shows "mesh_run mx ([(nt, Tick), (nt, Connected pid a)] @ evs) m =
    mesh_run mx evs (m\<lparr>ms_round_applied := 0, ms_dials := (ms_dials m)(a := None),
      ms_out := ms_out m @ [DialAddr a, Request pid Hello],
      ms_peers := [(pr_name p, \<lparr>px_addr = a, px_pid = Some pid, px_pin = load_pin mx m (pr_name p),
        px_phase = AwaitingHello, px_chunks = 0\<rparr>)]\<rparr>)"
  using assms by (simp add: demo_steps Let_def)

lemma record_applied:
  assumes "ext_ok (mx_ext mx)" "db_inv (mx_ext mx) (ms_db m)" "ns_log (mx_ext mx) (ms_db m) ns bs"
    and "pulling pid name ns t k m" "rec_wf r" "version_key r \<notin> version_key ` set (recs_of bs)"
  shows "\<exists>m'. mesh_step mx nt (Answer pid (Records ns [\<lparr>wr_seq = sq, wr_payload = b64_encode (next_bytes (mx_ext mx) bs r)\<rparr>])) m = Some m' \<and>
    ns_log (mx_ext mx) (ms_db m') ns (bs @ [next_bytes (mx_ext mx) bs r])"
proof -
  let ?e = "mx_ext mx"
  let ?b = "next_bytes ?e bs r"
  have d: "decode_rows [\<lparr>wr_seq = sq, wr_payload = b64_encode ?b\<rparr>] = Some [(sq, ?b)]" by (simp add: b64_served)
  have "LogRecord.parse_chain ?b None = Ok (r, chain_head (sha256 ?e) zero32 bs)"
    using parse_chain_to_bytes [OF assms(5), of "chain_head (sha256 ?e) zero32 bs" None]
      chain_head32 [of "sha256 ?e" zero32 bs] assms(1) by (simp add: next_bytes_def ext_ok_def)
  then have v: "verify_batch (sha256 ?e) [(sq, ?b)] = Some (Inr [r])"
    using assms(5) by (auto simp: verify_batch_def rec_wf_def valid_tag_def)
  obtain s' where s': "sync_one ?e ns r (ms_db m) = (Ok (), s')" "db_inv ?e s'" "ns_log ?e s' ns (bs @ [?b])"
    by (rule sync_one_effect [OF assms(1-3,5)])
  have pol: "bt_contains ns (st_policies (db_store (ms_db m)))" using ns_log_get [OF assms(3)] by blast
  have a: "apply_synced_batch ?e ns [r] (ms_db m) = (Ok 1, s')"
    using s'(1) pol assms(6) log_versions_eq [OF assms(1,3)] by (simp add: apply_synced_batch_def)
  obtain c where c: "ctx_of m name = Some c" "px_phase c = Pulling ns t" "px_pid c = Some pid"
    and nm: "name_for_pid m pid = Some name" "may_contribute m name ns" using assms(4) unfolding pulling_def by blast
  let ?s = "if 0 < ms_round_applied m + 1 \<and> (ms_round_applied m + 1) mod CHECKPOINT_EVERY \<le> 1 then snd (checkpoint s') else s'"
  let ?m = "m\<lparr>ms_db := ?s, ms_round_applied := ms_round_applied m + 1, ms_changes := ms_changes m @ [ns]\<rparr>"
  have "mesh_step mx nt (Answer pid (Records ns [\<lparr>wr_seq = sq, wr_payload = b64_encode ?b\<rparr>])) m = after_chunk name ns t 1 ?m"
    using c nm d v a by (simp add: on_records_def apply_chunk_def Let_def del: decode_rows.simps)
  moreover have "ctx_of ?m name = Some c" using c(1) by (simp add: ctx_of_def)
  from after_chunk_some [OF this c(3)] obtain m' where m': "after_chunk name ns t 1 ?m = Some m'" by blast
  moreover have "ns_log ?e (ms_db m') ns (bs @ [?b])"
    using s'(3) ms_db_after_chunk [OF m'] by (simp add: checkpoint_frame)
  ultimately show ?thesis by (intro exI [of _ m']) simp
qed

lemma claimed_hello:
  assumes "ext_ok (mx_ext mx)" "db_inv (mx_ext mx) (ms_db m)" "ns_log (mx_ext mx) (ms_db m) ns bs"
    and "cfg_peers (ms_cfg m) = [p]" "ms_peers m = []" "mx_addr mx (pr_addr p) = Some a" "nt_dial_ok nt"
    and "parse_pk (mx_ext mx) (pr_pin p) = Inr pk" "pr_namespaces p = None \<or> (\<exists>l. pr_namespaces p = Some l \<and> ns \<in> set l)"
  shows "\<exists>m'. mesh_run mx [(nt, Tick), (nt, Connected pid a), (nt, Answer pid (HelloIs
       \<lparr>hr_host_id = pr_pin p, hr_hlc = h, hr_namespaces = [\<lparr>nh_ns = ns, nh_seq = length bs + 1, nh_hash = x\<rparr>]\<rparr>))] m = Some m' \<and>
    pulling pid (pr_name p) ns (length bs + 1) 0 m' \<and> db_inv (mx_ext mx) (ms_db m') \<and> ns_log (mx_ext mx) (ms_db m') ns bs"
proof -
  let ?resp = "\<lparr>hr_host_id = pr_pin p, hr_hlc = h, hr_namespaces = [\<lparr>nh_ns = ns, nh_seq = length bs + 1, nh_hash = x\<rparr>]\<rparr>"
  define m1 where "m1 = m\<lparr>ms_round_applied := 0, ms_dials := (ms_dials m)(a := None),
      ms_out := ms_out m @ [DialAddr a, Request pid Hello],
      ms_peers := [(pr_name p, \<lparr>px_addr = a, px_pid = Some pid, px_pin = load_pin mx m (pr_name p),
        px_phase = AwaitingHello, px_chunks = 0\<rparr>)]\<rparr>"
  have run: "mesh_run mx [(nt, Tick), (nt, Connected pid a), (nt, Answer pid (HelloIs ?resp))] m = on_hello mx nt pid ?resp m1"
    using contact [OF assms(4-7), of pid "[(nt, Answer pid (HelloIs ?resp))]"] by (simp add: m1_def split: option.split)
  define m2 where "m2 = note_clock (pr_name p) h m1"
  have pin: "load_pin mx m (pr_name p) = Some pk" using assms(4,8) by (simp add: load_pin_def find_peer_def)
  have nm: "name_for_pid m1 pid = Some (pr_name p)" by (simp add: m1_def name_for_pid_def)
  have ci: "check_identity mx nt (pr_name p) pid (pr_pin p) m1 = Some (Inr m1)"
    using assms(8) pin by (simp add: check_identity_def m1_def ctx_of_def)
  have l2: "ns_log (mx_ext mx) (ms_db m2) ns bs" "log_len (ms_db m2) ns = length bs"
    using assms(3) log_len_eq [OF assms(3)] by (simp_all add: m2_def note_clock_effect m1_def)
  have hd: "store_head (db_store (ms_db m2)) ns \<noteq> None" "policy (db_store (ms_db m2)) ns \<noteq> None"
    using l2(1) by (auto simp: ns_log_def store_head_def policy_def)
  then obtain g where g: "store_head (db_store (ms_db m2)) ns = Some (length bs, g)" using l2(2) by (auto simp: log_len_def)
  have pulls: "List.map_filter (pull_target (db_store (ms_db m2))) (hr_namespaces ?resp) = [(ns, length bs + 1)]"
    using hd g by (auto simp: map_filter_simps pull_target_def Let_def MAX_RECORDS_def MAX_CHUNKS_PER_TICK_def)
  let ?m = "phase_set (pr_name p) (Pulling ns (length bs + 1)) (emit (Request pid (Pull ns (length bs + 1)))
    (m2\<lparr>ms_pulls := (ms_pulls m2)(pr_name p \<mapsto> [])\<rparr>))"
  have p2: "ms_peers m2 = ms_peers m1" "ms_cfg m2 = ms_cfg m" by (simp_all add: m2_def note_clock_def Let_def m1_def)
  have "start_pulls (pr_name p) [(ns, length bs + 1)] m2 = Some ?m"
    using g p2 by (simp add: start_pulls_def send_pull_def ctx_of_def m1_def)
  then have h: "on_hello mx nt pid ?resp m1 = Some ?m"
    using nm ci pulls by (simp add: on_hello_def m2_def Let_def)
  have "db_inv (mx_ext mx) (ms_db m1)" using assms(2) by (simp add: m1_def)
  from on_hello_grows [OF assms(1) this h] have "db_inv (mx_ext mx) (ms_db ?m)" by (simp add: grows_def)
  moreover have "pulling pid (pr_name p) ns (length bs + 1) 0 ?m"
    using assms(4,9) p2
    by (auto simp: pulling_def name_for_pid_frame name_for_pid_def ctx_of_def ctx_upd_def phase_set_def emit_def m1_def
        may_contribute_def find_peer_def)
  ultimately show ?thesis using run h l2(1) by (intro exI [of _ ?m]) simp
qed

lemma mesh_run_append:
  "mesh_run mx (evs @ evs') m = (case mesh_run mx evs m of None \<Rightarrow> None | Some m' \<Rightarrow> mesh_run mx evs' m')"
  by (induction evs arbitrary: m) (auto split: option.split)

section \<open>Properties\<close>



text \<open>C22.  Pins follow authenticated keys: a pin the engine holds never changes during a run, and a pin
  that appears is either the one the configuration names for the peer when its context is
  created, or the key a hello claims on a connection that \<open>libp2p\<close> authenticated with that
  very key.\<close>

theorem pins_follow_authenticated_keys:
  assumes "mesh_run mx evs m = Some m'" "mesh_step mx nt ev m' = Some m''"
  shows "(pin_of m name = Some pk \<longrightarrow> pin_of m'' name = Some pk) \<and>
    (pin_of m' name = None \<and> pin_of m'' name = Some pk \<longrightarrow>
      (ev = Tick \<and> load_pin mx m' name = Some pk) \<or>
      (\<exists>pid resp. ev = Answer pid (HelloIs resp) \<and> parse_pk (mx_ext mx) (hr_host_id resp) = Inr pk \<and> mx_pid mx pk = Some pid))"
  using pin_run [OF assms(1), of name pk] pin_step [OF assms(2), of name] by auto

theorem pins_follow_authenticated_keys_witness:
  "\<exists>m' m'' resp. mesh_run demo_mx [(demo_net, Tick), (demo_net, Connected zero32 ''x'')] (demo_mesh (empty_db False)) = Some m' \<and>
     mesh_step demo_mx demo_net (Answer zero32 (HelloIs resp)) m' = Some m'' \<and>
     pin_of m' ''p'' = None \<and> pin_of m'' ''p'' = Some zero32 \<and> mx_pid demo_mx zero32 = Some zero32"
proof -
  let ?resp = "\<lparr>hr_host_id = pk_str demo_ext zero32, hr_hlc = 0, hr_namespaces = []\<rparr>"
  have pk: "parse_pk demo_ext (pk_str demo_ext zero32) = Inr zero32" using parse_pk_str [OF demo_hex_ok] by simp
  obtain m' where m': "mesh_run demo_mx [(demo_net, Tick), (demo_net, Connected zero32 ''x'')] (demo_mesh (empty_db False)) = Some m'"
    by simp
  have p': "ms_peers m' = [(''p'', \<lparr>px_addr = ''x'', px_pid = Some zero32, px_pin = None, px_phase = AwaitingHello, px_chunks = 0\<rparr>)]"
    using m' by (auto simp: demo_steps demo_mesh_def demo_peer_def)
  obtain m'' where m'': "mesh_step demo_mx demo_net (Answer zero32 (HelloIs ?resp)) m' = Some m''"
    using p' pk by (auto simp: demo_steps note_clock_def Let_def map_filter_simps)
  have n: "pin_of m' ''p'' = None" using p' by (simp add: pin_of_def ctx_of_def)
  have s: "pin_of m'' ''p'' = Some zero32"
    using m'' p' pk by (auto simp: demo_steps note_clock_def Let_def map_filter_simps pin_of_def)
  from pins_follow_authenticated_keys [OF m' m'', of "''p''" zero32] n s m' m'' show ?thesis by auto
qed

text \<open>C37.  A pin does not authenticate the peer: where one pinned peer is configured and whoever answers at
  its address claims the pinned key in the hello, the engine pulls from that connection, whatever
  key it was authenticated with, and appends any well-formed record it sends.\<close>

theorem pinned_peer_impersonated:
  assumes "ext_ok (mx_ext mx)" "db_inv (mx_ext mx) (ms_db m)" "ns_log (mx_ext mx) (ms_db m) ns bs"
    and "cfg_peers (ms_cfg m) = [p]" "ms_peers m = []" "mx_addr mx (pr_addr p) = Some a" "nt_dial_ok nt"
    and "parse_pk (mx_ext mx) (pr_pin p) = Inr pk" "pr_namespaces p = None \<or> (\<exists>l. pr_namespaces p = Some l \<and> ns \<in> set l)"
    and "rec_wf r" "version_key r \<notin> version_key ` set (recs_of bs)"
  shows "\<exists>m'. mesh_run mx
      [(nt, Tick), (nt, Connected pid a),
       (nt, Answer pid (HelloIs \<lparr>hr_host_id = pr_pin p, hr_hlc = h,
          hr_namespaces = [\<lparr>nh_ns = ns, nh_seq = length bs + 1, nh_hash = x\<rparr>]\<rparr>)),
       (nt, Answer pid (Records ns [\<lparr>wr_seq = sq, wr_payload = b64_encode (next_bytes (mx_ext mx) bs r)\<rparr>]))] m = Some m' \<and>
    ns_log (mx_ext mx) (ms_db m') ns (bs @ [next_bytes (mx_ext mx) bs r])"
proof -
  let ?resp = "\<lparr>hr_host_id = pr_pin p, hr_hlc = h, hr_namespaces = [\<lparr>nh_ns = ns, nh_seq = length bs + 1, nh_hash = x\<rparr>]\<rparr>"
  obtain m1 where m1: "mesh_run mx [(nt, Tick), (nt, Connected pid a), (nt, Answer pid (HelloIs ?resp))] m = Some m1"
      "pulling pid (pr_name p) ns (length bs + 1) 0 m1" "db_inv (mx_ext mx) (ms_db m1)" "ns_log (mx_ext mx) (ms_db m1) ns bs"
    using claimed_hello [OF assms(1-9), of pid h x] by blast
  let ?last = "Answer pid (Records ns [\<lparr>wr_seq = sq, wr_payload = b64_encode (next_bytes (mx_ext mx) bs r)\<rparr>])"
  obtain m' where m': "mesh_step mx nt ?last m1 = Some m'" "ns_log (mx_ext mx) (ms_db m') ns (bs @ [next_bytes (mx_ext mx) bs r])"
    using record_applied [OF assms(1) m1(3,4,2) assms(10,11), of nt sq] by blast
  have "mesh_run mx ([(nt, Tick), (nt, Connected pid a), (nt, Answer pid (HelloIs ?resp))] @ [(nt, ?last)]) m = Some m'"
    unfolding mesh_run_append m1(1) using m'(1) by simp
  then show ?thesis using m'(2) by (intro exI [of _ m']) simp
qed

theorem pinned_peer_impersonated_witness:
  "\<exists>s m'. ns_log demo_ext s ''n'' [] \<and> parse_pk demo_ext (pk_str demo_ext zero32) = Inr zero32 \<and> mx_pid demo_mx zero32 \<noteq> Some [9] \<and>
     mesh_run demo_mx
       [(demo_net, Tick), (demo_net, Connected [9] ''x''),
        (demo_net, Answer [9] (HelloIs \<lparr>hr_host_id = pk_str demo_ext zero32, hr_hlc = 0,
           hr_namespaces = [\<lparr>nh_ns = ''n'', nh_seq = 1, nh_hash = []\<rparr>]\<rparr>)),
        (demo_net, Answer [9] (Records ''n'' [\<lparr>wr_seq = 1, wr_payload = b64_encode (next_bytes demo_ext [] demo_op)\<rparr>]))]
       ((demo_mesh s)\<lparr>ms_cfg := default_config\<lparr>cfg_peers := [demo_peer\<lparr>pr_pin := pk_str demo_ext zero32\<rparr>]\<rparr>\<rparr>) = Some m' \<and>
     ns_log demo_ext (ms_db m') ''n'' [next_bytes demo_ext [] demo_op]"
proof -
  obtain s where s: "db_inv demo_ext s" "ns_log demo_ext s ''n'' []" by (rule demo_db)
  have pk: "parse_pk demo_ext (pk_str demo_ext zero32) = Inr zero32" using parse_pk_str [OF demo_hex_ok] by simp
  let ?p = "demo_peer\<lparr>pr_pin := pk_str demo_ext zero32\<rparr>"
  let ?m = "(demo_mesh s)\<lparr>ms_cfg := default_config\<lparr>cfg_peers := [?p]\<rparr>\<rparr>"
  have f: "ext_ok (mx_ext demo_mx)" "db_inv (mx_ext demo_mx) (ms_db ?m)" "ns_log (mx_ext demo_mx) (ms_db ?m) ''n'' []"
    "cfg_peers (ms_cfg ?m) = [?p]" "ms_peers ?m = []" "mx_addr demo_mx (pr_addr ?p) = Some ''x''" "nt_dial_ok demo_net"
    "parse_pk (mx_ext demo_mx) (pr_pin ?p) = Inr zero32"
    "pr_namespaces ?p = None \<or> (\<exists>l. pr_namespaces ?p = Some l \<and> ''n'' \<in> set l)"
    "version_key demo_op \<notin> version_key ` set (recs_of [])"
    using s demo_ext_ok pk by (simp_all add: demo_mesh_def demo_peer_def recs_of_def)
  have "zero32 \<noteq> [9]" by (rule notI) (drule arg_cong [of _ _ length], simp)
  then show ?thesis
    using pinned_peer_impersonated [OF f(1-9) demo_op_wf f(10), of "[9]" 0 "[]" 1] s pk by auto
qed

text \<open>A pin that does not parse is no pin: where the configured pin of the only peer is not a key,
  the engine accepts on first contact whichever key answers at its address, and writes that key
  over the configured pin, after which the connection is served records.\<close>

theorem malformed_pin_replaced:
  assumes "cfg_peers (ms_cfg m) = [p]" "ms_peers m = []" "mx_addr mx (pr_addr p) = Some a" "nt_dial_ok nt"
    and "parse_pk (mx_ext mx) (pr_pin p) = Inl e" "hex_ok (mx_ext mx)" "length pk = 32" "mx_pid mx pk = Some pid"
  shows "\<exists>m'. mesh_run mx
      [(nt, Tick), (nt, Connected pid a),
       (nt, Answer pid (HelloIs \<lparr>hr_host_id = pk_str (mx_ext mx) pk, hr_hlc = h, hr_namespaces = []\<rparr>))] m = Some m' \<and>
    cfg_peers (ms_cfg m') = [p\<lparr>pr_pin := pk_str (mx_ext mx) pk\<rparr>] \<and> pinned mx (ms_cfg m') pid"
proof -
  let ?resp = "\<lparr>hr_host_id = pk_str (mx_ext mx) pk, hr_hlc = h, hr_namespaces = []\<rparr>"
  have pk: "parse_pk (mx_ext mx) (pk_str (mx_ext mx) pk) = Inr pk" using parse_pk_str [OF assms(6,7)] .
  have ne: "pk_str (mx_ext mx) pk \<noteq> []" using assms(6,7) by (auto simp: pk_str_def hex_ok_def dest: arg_cong [of _ "[]" length])
  let ?run = "mesh_run mx ([(nt, Tick), (nt, Connected pid a)] @ [(nt, Answer pid (HelloIs ?resp))]) m"
  have "\<exists>m'. ?run = Some m' \<and> cfg_peers (ms_cfg m') = [p\<lparr>pr_pin := pk_str (mx_ext mx) pk\<rparr>]"
    unfolding contact [OF assms(1-4)]
    using assms(1,5,8) pk
    by (simp add: on_hello_def name_for_pid_def check_identity_def ctx_of_def load_pin_def find_peer_def ctx_upd_def persist_pin_def
        Let_def set_pin_def note_clock_def start_pulls_def phase_set_def map_filter_simps split: sum.split)
  then show ?thesis using pk ne assms(8) by (auto simp: pinned_def)
qed

theorem malformed_pin_replaced_witness:
  "\<exists>m'. mesh_run demo_mx
      [(demo_net, Tick), (demo_net, Connected zero32 ''x''),
       (demo_net, Answer zero32 (HelloIs \<lparr>hr_host_id = pk_str demo_ext zero32, hr_hlc = 0, hr_namespaces = []\<rparr>))]
      ((demo_mesh (empty_db False))\<lparr>ms_cfg := default_config\<lparr>cfg_peers := [demo_peer\<lparr>pr_pin := ''f''\<rparr>]\<rparr>\<rparr>) = Some m' \<and>
    cfg_peers (ms_cfg m') = [demo_peer\<lparr>pr_pin := pk_str demo_ext zero32\<rparr>] \<and> pinned demo_mx (ms_cfg m') zero32"
proof -
  let ?p = "demo_peer\<lparr>pr_pin := ''f''\<rparr>"
  let ?m = "(demo_mesh (empty_db False))\<lparr>ms_cfg := default_config\<lparr>cfg_peers := [?p]\<rparr>\<rparr>"
  have f: "cfg_peers (ms_cfg ?m) = [?p]" "ms_peers ?m = []" "mx_addr demo_mx (pr_addr ?p) = Some ''x''" "nt_dial_ok demo_net"
    "parse_pk (mx_ext demo_mx) (pr_pin ?p) = Inl ''invalid hex''" "hex_ok (mx_ext demo_mx)" "length zero32 = 32"
    "mx_pid demo_mx zero32 = Some zero32"
    using demo_hex_ok by (simp_all add: demo_mesh_def demo_peer_def parse_pk_def demo_ext_def)
  show ?thesis using malformed_pin_replaced [OF f, of 0] by simp
qed

section \<open>Reconnection\<close>

lemma waiting_tick:
  assumes "cfg_peers (ms_cfg m) = [p]" "ms_peers m = [(pr_name p, c)]" "mx_addr mx (pr_addr p) = Some a" "px_phase c = WaitingDial"
  shows "mesh_step mx nt Tick m =
    Some (m\<lparr>ms_round_applied := 0, ms_peers := [(pr_name p, c\<lparr>px_addr := a, px_chunks := 0\<rparr>)]\<rparr>)"
  using assms by (simp add: demo_steps Let_def)

lemma waiting_ticks:
  assumes "mx_addr mx (pr_addr p) = Some a"
  shows "cfg_peers (ms_cfg m) = [p] \<Longrightarrow> ms_peers m = [(pr_name p, c)] \<Longrightarrow> px_phase c = WaitingDial \<Longrightarrow>
    \<exists>m'. mesh_run mx (map (\<lambda>nt. (nt, Tick)) nts) m = Some m' \<and> ms_out m' = ms_out m"
proof (induction nts arbitrary: m c)
  case (Cons nt nts)
  let ?m = "m\<lparr>ms_round_applied := 0, ms_peers := [(pr_name p, c\<lparr>px_addr := a, px_chunks := 0\<rparr>)]\<rparr>"
  have "\<exists>m'. mesh_run mx (map (\<lambda>nt. (nt, Tick)) nts) ?m = Some m' \<and> ms_out m' = ms_out ?m"
    using Cons.IH [of ?m "c\<lparr>px_addr := a, px_chunks := 0\<rparr>"] Cons.prems by simp
  then show ?case using waiting_tick [OF Cons.prems(1,2) assms Cons.prems(3)] by (simp del: mesh_step.simps)
qed simp

text \<open>A peer that was known and has to be dialled again is never greeted: the connection of that dial
  is matched only against peers without an identity, so that the peer stays in the phase that
  waits for a dial and every later round skips it.\<close>

theorem redialled_peer_stalls:
  assumes "cfg_peers (ms_cfg m) = [p]" "ms_peers m = [(pr_name p, c)]" "mx_addr mx (pr_addr p) = Some a"
    and "px_pid c = Some pid" "\<not> in_flight (px_phase c)" "ms_dials m addr = None" "\<not> nt_connected off pid"
  shows "\<exists>m'. mesh_run mx ([(off, Tick), (nt, Connected pid addr)] @ map (\<lambda>nt. (nt, Tick)) nts) m = Some m' \<and>
    ms_out m' = ms_out m @ [DialPeer pid]"
proof -
  let ?c = "c\<lparr>px_addr := a, px_chunks := 0, px_phase := WaitingDial\<rparr>"
  let ?m = "m\<lparr>ms_round_applied := 0, ms_out := ms_out m @ [DialPeer pid], ms_peers := [(pr_name p, ?c)],
    ms_dials := (ms_dials m)(addr := None)\<rparr>"
  have "mesh_run mx [(off, Tick), (nt, Connected pid addr)] m = Some ?m"
    using assms by (simp add: kick_all_def kick_peer_def kick_def ctx_of_def ctx_upd_def phase_set_def emit_def Let_def
        on_connected_def in_flight_def)
  then show ?thesis using waiting_ticks [OF assms(3), of ?m ?c nts] assms(1) unfolding mesh_run_append by auto
qed

theorem redialled_peer_stalls_witness:
  "\<exists>m'. mesh_run demo_mx
      [(demo_net\<lparr>nt_connected := (\<lambda>_. False)\<rparr>, Tick), (demo_net, Connected zero32 ''x''), (demo_net, Tick), (demo_net, Tick)]
      ((demo_mesh (empty_db False))\<lparr>ms_peers := [(''p'', \<lparr>px_addr = ''x'', px_pid = Some zero32, px_pin = Some zero32,
         px_phase = Done, px_chunks = 1\<rparr>)]\<rparr>) = Some m' \<and>
    ms_out m' = [DialPeer zero32]"
proof -
  let ?c = "\<lparr>px_addr = ''x'', px_pid = Some zero32, px_pin = Some zero32, px_phase = Done, px_chunks = 1\<rparr>"
  let ?m = "(demo_mesh (empty_db False))\<lparr>ms_peers := [(''p'', ?c)]\<rparr>"
  let ?off = "demo_net\<lparr>nt_connected := (\<lambda>_. False)\<rparr>"
  have f: "cfg_peers (ms_cfg ?m) = [demo_peer]" "ms_peers ?m = [(pr_name demo_peer, ?c)]" "mx_addr demo_mx (pr_addr demo_peer) = Some ''x''"
    "px_pid ?c = Some zero32" "\<not> in_flight (px_phase ?c)" "ms_dials ?m ''x'' = None" "\<not> nt_connected ?off zero32" "ms_out ?m = []"
    by (simp_all add: demo_mesh_def demo_peer_def in_flight_def)
  show ?thesis
    using redialled_peer_stalls [OF f(1-7), of demo_net "[demo_net, demo_net]"] f(8) by (simp del: mesh_run.simps)
qed

end
