(* ===== verification/Fs.thy ===== *)
theory Fs
  imports StoreOpen
begin

text \<open>
  The L3 namespace as a file system (\<open>src/fs/mod.rs\<close>): one function per callback of \<open>fuser\<close>, from
  the arguments and the state of the mount to the reply and the new state.  Each clock
  reading of a callback has its own index; hash maps are association lists in
  their order of iteration; what the kernel passes as flags is given by the tests the code makes
  of them, and the capacity of a directory reply by the predicate that an entry still fits.
  File offsets are natural numbers: the kernel keeps them below \<open>2 ^ 63\<close>.
\<close>

section \<open>Definitions\<close>

datatype errno = EIO | ENOENT | ENOSYS | EACCES | ENOSPC

record clock =
  ck_now :: "nat \<Rightarrow> u64"
  ck_hlc :: "nat \<Rightarrow> u64"

definition ROOT_INO :: nat where
  "ROOT_INO = 1"

definition INO_CAP :: nat where
  "INO_CAP = 100000"

definition INO_EVICT_TO :: nat where
  "INO_EVICT_TO = INO_CAP div 2"

record handle =
  h_ino :: nat
  h_data :: bytes
  h_dirty :: bool
  h_append :: bool

record meshfs =
  fs_db :: db
  fs_ns :: namespace
  fs_owner_uid :: nat
  fs_inos :: "(nat \<times> bytes) list"
  fs_next_ino :: nat
  fs_bufs :: "(nat \<times> handle) list"
  fs_next_fh :: nat

record file_attr =
  fa_ino :: nat
  fa_size :: nat
  fa_blocks :: nat
  fa_mtime :: nat
  fa_dir :: bool
  fa_perm :: nat
  fa_nlink :: nat
  fa_uid :: nat
  fa_gid :: nat

definition new_fs :: "extern \<Rightarrow> db \<Rightarrow> bytes \<Rightarrow> nat \<Rightarrow> meshfs" where
  "new_fs ext s root_pk euid =
     \<lparr>fs_db = s, fs_ns = ''u/'' @ hex_enc ext root_pk, fs_owner_uid = euid, fs_inos = [(ROOT_INO, [])], fs_next_ino = 2,
      fs_bufs = [], fs_next_fh = 1\<rparr>"

subsection \<open>Paths and inodes\<close>

definition slash :: byte where
  "slash = 47"

definition fs_root :: bytes where
  "fs_root = [102, 115, 47]"

definition path_of :: "meshfs \<Rightarrow> nat \<Rightarrow> bytes option" where
  "path_of fs ino = (if ino = ROOT_INO then Some [] else map_of (fs_inos fs) ino)"

text \<open>The inodes no open handle refers to are dropped from the end of the list, until as many are
  gone as the shrinking map exceeds the target by.\<close>

fun evict :: "nat \<Rightarrow> nat list \<Rightarrow> (nat \<times> bytes) list \<Rightarrow> (nat \<times> bytes) list" where
  "evict removed [] m = m"
| "evict removed (ino # doomed) m =
     (if removed < length m - INO_EVICT_TO then evict (removed + 1) doomed (filter (\<lambda>(i, _). i \<noteq> ino) m) else m)"

definition ino_for :: "bytes \<Rightarrow> meshfs \<Rightarrow> nat \<times> meshfs" where
  "ino_for path fs =
     (case List.find (\<lambda>(i, p). p = path) (fs_inos fs) of
        Some (i, _) \<Rightarrow> (i, fs)
      | None \<Rightarrow>
          let ino = fs_next_ino fs;
              m = (if INO_CAP \<le> length (fs_inos fs)
                   then evict 0 (rev (filter (\<lambda>i. i \<notin> (h_ino \<circ> snd) ` set (fs_bufs fs)) (map fst (fs_inos fs)))) (fs_inos fs)
                   else fs_inos fs)
          in (ino, fs\<lparr>fs_next_ino := ino + 1, fs_inos := (ino, path) # m\<rparr>))"

definition child_name :: "bytes \<Rightarrow> (bytes \<times> bool) option" where
  "child_name rel =
     (if rel = [] \<or> 0 \<in> set rel then None
      else let seg = takeWhile (\<lambda>b. b \<noteq> slash) rel
           in if seg = [] \<or> seg = [46] \<or> seg = [46, 46] then None else Some (seg, length seg < length rel))"

definition join_child :: "bytes \<Rightarrow> bytes \<Rightarrow> bytes" where
  "join_child parent name = (if parent = [] then name else parent @ [slash] @ name)"

definition key_of :: "bytes \<Rightarrow> key" where
  "key_of path = fs_root @ path"

definition dir_prefix :: "bytes \<Rightarrow> bytes" where
  "dir_prefix path = (let p = fs_root @ path in if last p = slash then p else p @ [slash])"

subsection \<open>Reading the store\<close>

definition alive :: "u64 \<Rightarrow> version \<Rightarrow> bool" where
  "alive now v = (v_expires_at v = 0 \<or> now < v_expires_at v)"

text \<open>\<open>max_by\<close> with the comparison of the source, which reads the replica of one side twice: the last
  version with the greatest clock value.\<close>

definition last_newest :: "version list \<Rightarrow> version option" where
  "last_newest vs =
     foldl (\<lambda>acc v. case acc of None \<Rightarrow> Some v | Some a \<Rightarrow> if v_hlc a \<le> v_hlc v then Some v else Some a) None vs"

definition latest_info :: "u64 \<Rightarrow> meshfs \<Rightarrow> bytes \<Rightarrow> (nat \<times> u64) option" where
  "latest_info now fs path =
     (case store_get (db_store (fs_db fs)) (fs_ns fs) (key_of path) of
        None \<Rightarrow> None
      | Some (Lww v) \<Rightarrow> if alive now v then Some (length (v_value v), v_hlc v) else None
      | Some (Register vs) \<Rightarrow>
          map_option (\<lambda>v. (length (v_value v), v_hlc v)) (last_newest (filter (alive now) vs)))"

definition file_exists :: "u64 \<Rightarrow> meshfs \<Rightarrow> bytes \<Rightarrow> bool" where
  "file_exists now fs path = (latest_info now fs path \<noteq> None)"

definition read_value :: "u64 \<Rightarrow> meshfs \<Rightarrow> bytes \<Rightarrow> bytes option" where
  "read_value now fs path =
     (case store_get (db_store (fs_db fs)) (fs_ns fs) (key_of path) of
        None \<Rightarrow> None
      | Some (Lww v) \<Rightarrow> if alive now v then Some (v_value v) else None
      | Some (Register vs) \<Rightarrow> map_option v_value (last_newest (filter (alive now) vs)))"

definition latest_hlc :: "u64 \<Rightarrow> meshfs \<Rightarrow> bytes \<Rightarrow> u64 option" where
  "latest_hlc now fs path = map_option snd (latest_info now fs path)"

definition live_expires_at :: "u64 \<Rightarrow> meshfs \<Rightarrow> bytes \<Rightarrow> u64" where
  "live_expires_at now fs path =
     (case store_get (db_store (fs_db fs)) (fs_ns fs) (key_of path) of
        None \<Rightarrow> 0
      | Some (Lww v) \<Rightarrow> if v_expires_at v \<noteq> 0 \<and> now < v_expires_at v then v_expires_at v else 0
      | Some (Register vs) \<Rightarrow>
          (case last_newest (filter (\<lambda>v. v_expires_at v \<noteq> 0 \<and> now < v_expires_at v) vs) of
             None \<Rightarrow> 0
           | Some v \<Rightarrow> v_expires_at v))"

definition dir_exists :: "meshfs \<Rightarrow> bytes \<Rightarrow> bool" where
  "dir_exists fs path =
     (let pre = dir_prefix path
      in list_ex (\<lambda>k. length pre \<le> length k) (scan_keys (db_store (fs_db fs)) (fs_ns fs) pre))"

definition attr_of :: "meshfs \<Rightarrow> nat \<Rightarrow> bool \<Rightarrow> nat \<Rightarrow> nat \<Rightarrow> file_attr" where
  "attr_of fs ino is_dir sz mtime_secs =
     \<lparr>fa_ino = ino, fa_size = sz, fa_blocks = (sz + 511) div 512, fa_mtime = mtime_secs, fa_dir = is_dir,
      fa_perm = (if is_dir then 493 else 420), fa_nlink = (if is_dir then 2 else 1),
      fa_uid = fs_owner_uid fs, fa_gid = fs_owner_uid fs\<rparr>"

definition fs_attr :: "u64 \<Rightarrow> bytes \<Rightarrow> bool \<Rightarrow> meshfs \<Rightarrow> file_attr \<times> meshfs" where
  "fs_attr now path is_dir fs =
     (let (sz, mtime_secs) =
            (if is_dir then (0, 0)
             else case latest_info now fs path of Some (l, h) \<Rightarrow> (l, unat h div 1000) | None \<Rightarrow> (0, 0));
          (ino, fs) = ino_for path fs
      in (attr_of fs ino is_dir sz mtime_secs, fs))"

subsection \<open>Changing the store\<close>

definition authorized_self :: "meshfs \<Rightarrow> bool" where
  "authorized_self fs = (policy (db_store (fs_db fs)) (fs_ns fs) \<noteq> None)"

definition rid_of :: "extern \<Rightarrow> meshfs \<Rightarrow> bytes" where
  "rid_of ext fs = (case hex_dec ext (drop 2 (fs_ns fs)) of Some b \<Rightarrow> if length b = 32 then b else zero32 | None \<Rightarrow> zero32)"

definition commit_ttl :: "extern \<Rightarrow> u64 \<Rightarrow> u64 \<Rightarrow> bytes \<Rightarrow> bytes \<Rightarrow> u64 option \<Rightarrow> meshfs \<Rightarrow> (errno, unit) result \<times> meshfs" where
  "commit_ttl ext now hlc path data ttl_hint fs =
     (if \<not> authorized_self fs then (Err EACCES, fs)
      else
        let expires_at = (case ttl_hint of
              None \<Rightarrow> live_expires_at now fs path
            | Some h \<Rightarrow> if h \<noteq> 0 \<and> now < h then h else 0)
        in case store_put ext (fs_ns fs) (key_of path) data hlc (rid_of ext fs) (rid_of ext fs) expires_at (fs_db fs) of
             (Inl _, s) \<Rightarrow> (Err ENOSPC, fs\<lparr>fs_db := s\<rparr>)
           | (Inr _, s) \<Rightarrow> (Ok (), fs\<lparr>fs_db := s\<rparr>))"

definition commit :: "extern \<Rightarrow> u64 \<Rightarrow> u64 \<Rightarrow> bytes \<Rightarrow> bytes \<Rightarrow> meshfs \<Rightarrow> (errno, unit) result \<times> meshfs" where
  "commit ext now hlc path data fs = commit_ttl ext now hlc path data None fs"

definition delete_key :: "extern \<Rightarrow> u64 \<Rightarrow> key \<Rightarrow> meshfs \<Rightarrow> (errno, unit) result \<times> meshfs" where
  "delete_key ext hlc k fs =
     (case store_delete ext (fs_ns fs) k hlc (rid_of ext fs) (rid_of ext fs) (fs_db fs) of
        (Inl _, s) \<Rightarrow> (Err EIO, fs\<lparr>fs_db := s\<rparr>)
      | (Inr _, s) \<Rightarrow> (Ok (), fs\<lparr>fs_db := s\<rparr>))"

definition delete_path :: "extern \<Rightarrow> u64 \<Rightarrow> bytes \<Rightarrow> meshfs \<Rightarrow> (errno, unit) result \<times> meshfs" where
  "delete_path ext hlc path fs =
     (if \<not> authorized_self fs then (Err EACCES, fs)
      else if path = [] then (Err ENOENT, fs)
      else delete_key ext hlc (key_of path) fs)"

fun delete_keys :: "extern \<Rightarrow> u64 \<Rightarrow> key list \<Rightarrow> meshfs \<Rightarrow> (errno, unit) result \<times> meshfs" where
  "delete_keys ext hlc [] fs = (Ok (), fs)"
| "delete_keys ext hlc (k # ks) fs =
     (case delete_key ext hlc k fs of (Inl e, fs) \<Rightarrow> (Err e, fs) | (Inr _, fs) \<Rightarrow> delete_keys ext hlc ks fs)"

definition delete_all_under :: "extern \<Rightarrow> u64 \<Rightarrow> bytes \<Rightarrow> meshfs \<Rightarrow> (errno, unit) result \<times> meshfs" where
  "delete_all_under ext hlc path fs =
     (if \<not> authorized_self fs then (Err EACCES, fs)
      else delete_keys ext hlc (scan_keys (db_store (fs_db fs)) (fs_ns fs) (dir_prefix path)) fs)"

subsection \<open>Lookup and listing\<close>

definition lookup_fs :: "clock \<Rightarrow> nat \<Rightarrow> bytes \<Rightarrow> meshfs \<Rightarrow> (errno, file_attr) result \<times> meshfs" where
  "lookup_fs ck parent name fs =
     (case path_of fs parent of
        None \<Rightarrow> (Err EIO, fs)
      | Some parent_path \<Rightarrow>
          let path = join_child parent_path name; is_dir = dir_exists fs path; is_file = file_exists (ck_now ck 0) fs path
          in if \<not> is_dir \<and> \<not> is_file then (Err ENOENT, fs)
             else let (a, fs) = fs_attr (ck_now ck 1) path is_dir fs in (Ok a, fs))"

definition getattr :: "clock \<Rightarrow> nat \<Rightarrow> meshfs \<Rightarrow> (errno, file_attr) result \<times> meshfs" where
  "getattr ck ino fs =
     (case path_of fs ino of
        None \<Rightarrow> (Err EIO, fs)
      | Some path \<Rightarrow>
          if ino = ROOT_INO then (let (a, fs) = fs_attr (ck_now ck 0) [] True fs in (Ok a, fs))
          else
            let is_dir = dir_exists fs path; is_file = file_exists (ck_now ck 0) fs path
            in if \<not> is_dir \<and> \<not> is_file then (Err ENOENT, fs)
               else let (a, fs) = fs_attr (ck_now ck 1) path is_dir fs in (Ok a, fs))"

definition dir_children :: "meshfs \<Rightarrow> bytes \<Rightarrow> (bytes \<times> bool) list" where
  "dir_children fs path =
     (let pre = dir_prefix path
      in fold (\<lambda>k m. case child_name (drop (length pre) k) of Some (name, is_dir) \<Rightarrow> bt_insert name is_dir m | None \<Rightarrow> m)
           (scan_keys (db_store (fs_db fs)) (fs_ns fs) pre) [])"

type_synonym dirent = "nat \<times> nat \<times> bool \<times> bytes"

fun fill_dir ::
  "(nat \<Rightarrow> u64) \<Rightarrow> (dirent list \<Rightarrow> dirent \<Rightarrow> bool) \<Rightarrow> bytes \<Rightarrow> nat \<Rightarrow> (nat \<times> bytes \<times> bool) list \<Rightarrow> dirent list \<Rightarrow> meshfs \<Rightarrow>
   dirent list \<times> meshfs" where
  "fill_dir now fits path offset [] out fs = (out, fs)"
| "fill_dir now fits path offset ((pos, name, is_dir) # es) out fs =
     (if pos \<le> offset then fill_dir now fits path offset es out fs
      else
        let child = join_child path name
        in if \<not> is_dir \<and> latest_info (now pos) fs child = None then fill_dir now fits path offset es out fs
           else
             let (ino, fs) = ino_for child fs; d = (ino, pos, is_dir, name)
             in if fits out d then fill_dir now fits path offset es (out @ [d]) fs else (out, fs))"

definition readdir ::
  "clock \<Rightarrow> (dirent list \<Rightarrow> dirent \<Rightarrow> bool) \<Rightarrow> nat \<Rightarrow> nat \<Rightarrow> meshfs \<Rightarrow> (errno, dirent list) result \<times> meshfs" where
  "readdir ck fits ino offset fs =
     (case path_of fs ino of
        None \<Rightarrow> (Err EIO, fs)
      | Some path \<Rightarrow>
          let children = dir_children fs path;
              entries = [(1, [46], True), (2, [46, 46], True)] @
                map (\<lambda>(i, name, is_dir). (i + 3, name, is_dir)) (List.enumerate 0 children);
              (out, fs) = fill_dir (ck_now ck) fits path offset entries [] fs
          in (Ok out, fs))"

subsection \<open>Open files\<close>

record open_flags =
  of_rdonly :: bool
  of_trunc :: bool
  of_append :: bool

definition add_handle :: "handle \<Rightarrow> meshfs \<Rightarrow> nat \<times> meshfs" where
  "add_handle h fs = (fs_next_fh fs, fs\<lparr>fs_next_fh := fs_next_fh fs + 1, fs_bufs := (fs_next_fh fs, h) # fs_bufs fs\<rparr>)"

definition drop_handle :: "nat \<Rightarrow> meshfs \<Rightarrow> meshfs" where
  "drop_handle fh fs = fs\<lparr>fs_bufs := filter (\<lambda>(i, _). i \<noteq> fh) (fs_bufs fs)\<rparr>"

definition set_handle :: "nat \<Rightarrow> handle \<Rightarrow> meshfs \<Rightarrow> meshfs" where
  "set_handle fh h fs = fs\<lparr>fs_bufs := map (\<lambda>(i, x). if i = fh then (i, h) else (i, x)) (fs_bufs fs)\<rparr>"

definition open_fs :: "clock \<Rightarrow> nat \<Rightarrow> open_flags \<Rightarrow> meshfs \<Rightarrow> (errno, nat) result \<times> meshfs" where
  "open_fs ck ino flags fs =
     (case path_of fs ino of
        None \<Rightarrow> (Err EIO, fs)
      | Some path \<Rightarrow>
          if \<not> file_exists (ck_now ck 0) fs path then (Err ENOENT, fs)
          else if of_rdonly flags then (Ok 0, fs)
          else
            let data = (if of_trunc flags then []
                        else case read_value (ck_now ck 1) fs path of None \<Rightarrow> [] | Some d \<Rightarrow> d);
                (fh, fs) = add_handle \<lparr>h_ino = ino, h_data = data, h_dirty = of_trunc flags, h_append = of_append flags\<rparr> fs
            in (Ok fh, fs))"

definition read_fs :: "clock \<Rightarrow> nat \<Rightarrow> nat \<Rightarrow> nat \<Rightarrow> meshfs \<Rightarrow> (errno, bytes) result" where
  "read_fs ck ino offset n fs =
     (case path_of fs ino of
        None \<Rightarrow> Err ENOENT
      | Some path \<Rightarrow>
          (case read_value (ck_now ck 0) fs path of
             None \<Rightarrow> Err ENOENT
           | Some b \<Rightarrow> if length b \<le> offset then Ok [] else Ok (slice offset (min (offset + n) (length b)) b)))"

definition splice :: "nat \<Rightarrow> bytes \<Rightarrow> bytes \<Rightarrow> bytes" where
  "splice off new data =
     (let d = (if length data < off + length new then data @ replicate (off + length new - length data) 0 else data)
      in take off d @ new @ drop (off + length new) d)"

definition write_fs :: "nat \<Rightarrow> nat \<Rightarrow> nat \<Rightarrow> bytes \<Rightarrow> meshfs \<Rightarrow> (errno, nat) result \<times> meshfs" where
  "write_fs ino fh offset data fs =
     (case path_of fs ino of
        None \<Rightarrow> (Err EIO, fs)
      | Some _ \<Rightarrow>
          (case map_of (fs_bufs fs) fh of
             None \<Rightarrow> (Err EIO, fs)
           | Some h \<Rightarrow>
               let off = (if h_append h then length (h_data h) else offset)
               in (Ok (length data), set_handle fh (h\<lparr>h_data := splice off data (h_data h), h_dirty := True\<rparr>) fs)))"

definition flush :: "extern \<Rightarrow> clock \<Rightarrow> nat \<Rightarrow> nat \<Rightarrow> meshfs \<Rightarrow> (errno, unit) result \<times> meshfs" where
  "flush ext ck ino fh fs =
     (case path_of fs ino of
        None \<Rightarrow> (Err EIO, fs)
      | Some path \<Rightarrow>
          (case map_of (fs_bufs fs) fh of
             None \<Rightarrow> (Ok (), fs)
           | Some h \<Rightarrow>
               let fs = drop_handle fh fs
               in if h_dirty h then commit ext (ck_now ck 0) (ck_hlc ck 0) path (h_data h) fs else (Ok (), fs)))"

definition release :: "nat \<Rightarrow> meshfs \<Rightarrow> (errno, unit) result \<times> meshfs" where
  "release fh fs = (Ok (), drop_handle fh fs)"

definition create :: "extern \<Rightarrow> clock \<Rightarrow> nat \<Rightarrow> bytes \<Rightarrow> meshfs \<Rightarrow> (errno, file_attr \<times> nat) result \<times> meshfs" where
  "create ext ck parent name fs =
     (case path_of fs parent of
        None \<Rightarrow> (Err EIO, fs)
      | Some parent_path \<Rightarrow>
          let path = join_child parent_path name
          in case commit ext (ck_now ck 0) (ck_hlc ck 0) path [] fs of
               (Inl e, fs) \<Rightarrow> (Err e, fs)
             | (Inr _, fs) \<Rightarrow>
                 let (a, fs) = fs_attr (ck_now ck 1) path False fs; (ino, fs) = ino_for path fs;
                     (fh, fs) = add_handle \<lparr>h_ino = ino, h_data = [], h_dirty = False, h_append = False\<rparr> fs
                 in (Ok (a, fh), fs))"

subsection \<open>Directories and names\<close>

definition mkdir :: "extern \<Rightarrow> clock \<Rightarrow> nat \<Rightarrow> bytes \<Rightarrow> meshfs \<Rightarrow> (errno, file_attr) result \<times> meshfs" where
  "mkdir ext ck parent name fs =
     (case path_of fs parent of
        None \<Rightarrow> (Err EIO, fs)
      | Some parent_path \<Rightarrow>
          let path = join_child parent_path name
          in if \<not> authorized_self fs then (Err EACCES, fs)
             else
               let (_, s) = store_put ext (fs_ns fs) (fs_root @ path @ [slash]) [] (ck_hlc ck 0) (rid_of ext fs) (rid_of ext fs) 0 (fs_db fs);
                   (a, fs) = fs_attr (ck_now ck 0) path True (fs\<lparr>fs_db := s\<rparr>)
               in (Ok a, fs))"

definition unlink :: "extern \<Rightarrow> clock \<Rightarrow> nat \<Rightarrow> bytes \<Rightarrow> meshfs \<Rightarrow> (errno, unit) result \<times> meshfs" where
  "unlink ext ck parent name fs =
     (case path_of fs parent of
        None \<Rightarrow> (Err EIO, fs)
      | Some parent_path \<Rightarrow> delete_path ext (ck_hlc ck 0) (join_child parent_path name) fs)"

definition rmdir :: "extern \<Rightarrow> clock \<Rightarrow> nat \<Rightarrow> bytes \<Rightarrow> meshfs \<Rightarrow> (errno, unit) result \<times> meshfs" where
  "rmdir ext ck parent name fs =
     (case path_of fs parent of
        None \<Rightarrow> (Err EIO, fs)
      | Some parent_path \<Rightarrow>
          let path = join_child parent_path name
          in case delete_all_under ext (ck_hlc ck 0) path fs of
               (Inl e, fs) \<Rightarrow> (Err e, fs)
             | (Inr _, fs) \<Rightarrow> delete_path ext (ck_hlc ck 1) path fs)"

text \<open>The keys of a renamed directory, one put and one delete each.\<close>

fun move_keys :: "extern \<Rightarrow> u64 \<Rightarrow> bytes \<Rightarrow> bytes \<Rightarrow> key list \<Rightarrow> meshfs \<Rightarrow> (errno, unit) result \<times> meshfs" where
  "move_keys ext hlc old_pref new_pref [] fs = (Ok (), fs)"
| "move_keys ext hlc old_pref new_pref (k # ks) fs =
     (case store_get (db_store (fs_db fs)) (fs_ns fs) k of
        None \<Rightarrow> move_keys ext hlc old_pref new_pref ks fs
      | Some (Register _) \<Rightarrow> (Err EIO, fs)
      | Some (Lww v) \<Rightarrow>
          (case store_put ext (fs_ns fs) (new_pref @ drop (length old_pref) k) (v_value v) hlc (rid_of ext fs) (rid_of ext fs)
                  (v_expires_at v) (fs_db fs) of
             (Inl _, s) \<Rightarrow> (Err EIO, fs\<lparr>fs_db := s\<rparr>)
           | (Inr _, s) \<Rightarrow>
               (case delete_key ext hlc k (fs\<lparr>fs_db := s\<rparr>) of
                  (Inl e, fs) \<Rightarrow> (Err e, fs)
                | (Inr _, fs) \<Rightarrow> move_keys ext hlc old_pref new_pref ks fs)))"

definition rename_paths :: "extern \<Rightarrow> clock \<Rightarrow> bytes \<Rightarrow> bytes \<Rightarrow> meshfs \<Rightarrow> (errno, unit) result \<times> meshfs" where
  "rename_paths ext ck from_path to_path fs =
     (if from_path = to_path then (Ok (), fs)
      else if \<not> authorized_self fs then (Err EACCES, fs)
      else if file_exists (ck_now ck 0) fs from_path then
        (case read_value (ck_now ck 1) fs from_path of
           None \<Rightarrow> (Err ENOENT, fs)
         | Some d \<Rightarrow>
             (case commit_ttl ext (ck_now ck 3) (ck_hlc ck 0) to_path d (Some (live_expires_at (ck_now ck 2) fs from_path)) fs of
                (Inl e, fs) \<Rightarrow> (Err e, fs)
              | (Inr _, fs) \<Rightarrow> delete_path ext (ck_hlc ck 1) from_path fs))
      else if dir_exists fs from_path then
        move_keys ext (ck_hlc ck 0) (dir_prefix from_path) (dir_prefix to_path)
          (scan_keys (db_store (fs_db fs)) (fs_ns fs) (dir_prefix from_path)) fs
      else (Ok (), fs))"

definition rename_fs ::
  "extern \<Rightarrow> clock \<Rightarrow> nat \<Rightarrow> bytes \<Rightarrow> nat \<Rightarrow> bytes \<Rightarrow> bool \<Rightarrow> meshfs \<Rightarrow> (errno, unit) result \<times> meshfs" where
  "rename_fs ext ck parent name newparent newname has_flags fs =
     (if has_flags then (Err ENOSYS, fs)
      else
        (case (path_of fs parent, path_of fs newparent) of
           (Some old_parent, Some new_parent) \<Rightarrow>
             rename_paths ext ck (join_child old_parent name) (join_child new_parent newname) fs
         | _ \<Rightarrow> (Err EIO, fs)))"

definition resize :: "nat \<Rightarrow> bytes \<Rightarrow> bytes" where
  "resize n data = (if n < length data then take n data else data @ replicate (n - length data) 0)"

definition setattr :: "extern \<Rightarrow> clock \<Rightarrow> nat \<Rightarrow> nat option \<Rightarrow> nat option \<Rightarrow> meshfs \<Rightarrow> (errno, file_attr) result \<times> meshfs" where
  "setattr ext ck ino new_size fh fs =
     (case path_of fs ino of
        None \<Rightarrow> (Err EIO, fs)
      | Some path \<Rightarrow>
          if ino = ROOT_INO then (let (a, fs) = fs_attr (ck_now ck 0) [] True fs in (Ok a, fs))
          else if dir_exists fs path then (let (a, fs) = fs_attr (ck_now ck 0) path True fs in (Ok a, fs))
          else if \<not> file_exists (ck_now ck 0) fs path then (Err ENOENT, fs)
          else
            (case new_size of
               None \<Rightarrow> (let (a, fs) = fs_attr (ck_now ck 1) path False fs in (Ok a, fs))
             | Some n \<Rightarrow>
                 (case Option.bind fh (map_of (fs_bufs fs)) of
                    Some h \<Rightarrow>
                      let h' = (if n = length (h_data h) then h else h\<lparr>h_data := resize n (h_data h), h_dirty := True\<rparr>);
                          mtime_secs = (case latest_hlc (ck_now ck 1) fs path of None \<Rightarrow> 0 | Some t \<Rightarrow> unat t div 1000);
                          fs = set_handle (the fh) h' fs
                      in (Ok (attr_of fs ino False n mtime_secs), fs)
                  | None \<Rightarrow>
                      let data = (case read_value (ck_now ck 1) fs path of None \<Rightarrow> [] | Some d \<Rightarrow> d)
                      in case commit ext (ck_now ck 2) (ck_hlc ck 0) path (resize n data) fs of
                           (Inl e, fs) \<Rightarrow> (Err e, fs)
                         | (Inr _, fs) \<Rightarrow> (let (a, fs) = fs_attr (ck_now ck 3) path False fs in (Ok a, fs)))))"

end
