(* ===== verification/FsTable.thy ===== *)
theory FsTable
  imports Fs
begin

text \<open>
  The tables of the mount: inode numbers and open handles.  Over any sequence of callbacks, with the
  database changing in between, the tables stay consistent and bounded, and the inode of an open
  handle keeps its path; callbacks that only read leave the database as it is.
\<close>

section \<open>Definitions\<close>

datatype fs_call =
    Lookup nat bytes
  | Getattr nat
  | Readdir nat nat
  | Open nat open_flags
  | Read nat nat nat
  | Write nat nat nat bytes
  | Flush nat nat
  | Release nat
  | Create nat bytes
  | Mkdir nat bytes
  | Unlink nat bytes
  | Rmdir nat bytes
  | Rename nat bytes nat bytes bool
  | Setattr nat "nat option" "nat option"

fun fs_step :: "extern \<Rightarrow> clock \<Rightarrow> (dirent list \<Rightarrow> dirent \<Rightarrow> bool) \<Rightarrow> fs_call \<Rightarrow> meshfs \<Rightarrow> meshfs" where
  "fs_step ext ck fits (Lookup parent name) fs = snd (lookup_fs ck parent name fs)"
| "fs_step ext ck fits (Getattr ino) fs = snd (getattr ck ino fs)"
| "fs_step ext ck fits (Readdir ino offset) fs = snd (readdir ck fits ino offset fs)"
| "fs_step ext ck fits (Open ino flags) fs = snd (open_fs ck ino flags fs)"
| "fs_step ext ck fits (Read ino offset n) fs = fs"
| "fs_step ext ck fits (Write ino fh offset data) fs = snd (write_fs ino fh offset data fs)"
| "fs_step ext ck fits (Flush ino fh) fs = snd (flush ext ck ino fh fs)"
| "fs_step ext ck fits (Release fh) fs = snd (release fh fs)"
| "fs_step ext ck fits (Create parent name) fs = snd (create ext ck parent name fs)"
| "fs_step ext ck fits (Mkdir parent name) fs = snd (mkdir ext ck parent name fs)"
| "fs_step ext ck fits (Unlink parent name) fs = snd (unlink ext ck parent name fs)"
| "fs_step ext ck fits (Rmdir parent name) fs = snd (rmdir ext ck parent name fs)"
| "fs_step ext ck fits (Rename parent name newparent newname has_flags) fs =
     snd (rename_fs ext ck parent name newparent newname has_flags fs)"
| "fs_step ext ck fits (Setattr ino new_size fh) fs = snd (setattr ext ck ino new_size fh fs)"

text \<open>States of a mount: callbacks while fewer files than inodes are open, and changes of the shared
  database by other parts of the node.\<close>

inductive fs_reach :: "extern \<Rightarrow> bytes \<Rightarrow> meshfs \<Rightarrow> bool" for ext root_pk where
  mount: "fs_reach ext root_pk (new_fs ext s root_pk euid)"
| call: "fs_reach ext root_pk fs \<Longrightarrow> length (fs_bufs fs) < INO_CAP \<Longrightarrow> fs_reach ext root_pk (fs_step ext ck fits c fs)"
| other: "fs_reach ext root_pk fs \<Longrightarrow> fs_reach ext root_pk (fs\<lparr>fs_db := s\<rparr>)"

definition handles_ok :: "meshfs \<Rightarrow> bool" where
  "handles_ok fs \<longleftrightarrow> distinct (map fst (fs_bufs fs)) \<and>
     (\<forall>(fh, h) \<in> set (fs_bufs fs). 0 < fh \<and> fh < fs_next_fh fs \<and> path_of fs (h_ino h) \<noteq> None)"

definition inos_ok :: "meshfs \<Rightarrow> bool" where
  "inos_ok fs \<longleftrightarrow> distinct (map fst (fs_inos fs)) \<and> distinct (map snd (fs_inos fs)) \<and>
     (\<forall>(i, p) \<in> set (fs_inos fs). i < fs_next_ino fs \<and> (i = ROOT_INO \<longrightarrow> p = [])) \<and>
     ROOT_INO < fs_next_ino fs \<and> 0 < fs_next_fh fs \<and> length (fs_inos fs) \<le> INO_CAP"

definition table_ok :: "meshfs \<Rightarrow> bool" where
  "table_ok fs \<longleftrightarrow> inos_ok fs \<and> handles_ok fs"

text \<open>The tables stay consistent and the paths of open handles stay; only the database changes.\<close>

definition keeps_paths :: "meshfs \<Rightarrow> meshfs \<Rightarrow> bool" where
  "keeps_paths fs fs' \<longleftrightarrow> table_ok fs' \<and> fs_ns fs' = fs_ns fs \<and>
     (\<forall>(fh, h) \<in> set (fs_bufs fs). path_of fs' (h_ino h) = path_of fs (h_ino h))"

definition db_only :: "meshfs \<Rightarrow> meshfs \<Rightarrow> bool" where
  "db_only fs fs' \<longleftrightarrow> (\<exists>s. fs' = fs\<lparr>fs_db := s\<rparr>)"

text \<open>Callbacks that read, open without truncation and close; handles that were not written.\<close>

fun reads_only :: "fs_call \<Rightarrow> bool" where
  "reads_only (Lookup _ _) = True"
| "reads_only (Getattr _) = True"
| "reads_only (Readdir _ _) = True"
| "reads_only (Open _ flags) = (of_rdonly flags \<or> \<not> of_trunc flags)"
| "reads_only (Read _ _ _) = True"
| "reads_only (Flush _ _) = True"
| "reads_only (Release _) = True"
| "reads_only (Setattr _ None _) = True"
| "reads_only _ = False"

definition all_clean :: "meshfs \<Rightarrow> bool" where
  "all_clean fs \<longleftrightarrow> (\<forall>(fh, h) \<in> set (fs_bufs fs). \<not> h_dirty h)"

fun fs_run :: "extern \<Rightarrow> (clock \<times> (dirent list \<Rightarrow> dirent \<Rightarrow> bool) \<times> fs_call) list \<Rightarrow> meshfs \<Rightarrow> meshfs" where
  "fs_run ext [] fs = fs"
| "fs_run ext ((ck, fits, c) # cs) fs = fs_run ext cs (fs_step ext ck fits c fs)"

section \<open>Inodes\<close>

lemma INO_less: "INO_EVICT_TO < INO_CAP"
  by (simp add: INO_EVICT_TO_def INO_CAP_def)

lemma evict_filter: "\<exists>R \<subseteq> set doomed. evict r doomed m = filter (\<lambda>(i, _). i \<notin> R) m"
proof (induction r doomed m rule: evict.induct)
  case (2 r ino doomed m)
  show ?case
  proof (cases "r < length m - INO_EVICT_TO")
    case True
    then obtain R where R: "R \<subseteq> set doomed" "evict (r + 1) doomed (filter (\<lambda>(i, _). i \<noteq> ino) m) =
        filter (\<lambda>(i, _). i \<notin> R) (filter (\<lambda>(i, _). i \<noteq> ino) m)" using 2 by blast
    have "evict r (ino # doomed) m = filter (\<lambda>(i, _). i \<notin> R) (filter (\<lambda>(i, _). i \<noteq> ino) m)" using True R(2) by simp
    also have "\<dots> = filter (\<lambda>(i, _). i \<notin> Set.insert ino R) m" unfolding filter_filter by (rule filter_cong) auto
    finally show ?thesis using R(1) by (intro exI [of _ "Set.insert ino R"]) auto
  next
    case False
    then show ?thesis by (intro exI [of _ "{}"]) simp
  qed
next
  case (1 r m)
  show ?case by (intro exI [of _ "{}"]) simp
qed

lemma evict_shorter:
  assumes "ino \<in> fst ` set m" "INO_EVICT_TO < length m"
  shows "length (evict 0 (ino # doomed) m) < length m"
proof -
  have "length (filter (\<lambda>(i, _). i \<noteq> ino) m) < length m" using assms(1) by (auto intro: length_filter_less)
  moreover obtain R where "evict 1 doomed (filter (\<lambda>(i, _). i \<noteq> ino) m) = filter (\<lambda>(i, _). i \<notin> R) (filter (\<lambda>(i, _). i \<noteq> ino) m)"
    using evict_filter [of doomed 1 "filter (\<lambda>(i, _). i \<noteq> ino) m"] by blast
  ultimately show ?thesis using assms(2) by (simp del: filter_filter) (meson le_less_trans length_filter_le)
qed

lemma find_SomeD: "List.find P xs = Some x \<Longrightarrow> x \<in> set xs \<and> P x"
  by (induction xs) (auto split: if_splits)

lemma path_of_inos:
  assumes "inos_ok fs"
  shows "(i, p) \<in> set (fs_inos fs) \<Longrightarrow> path_of fs i = Some p"
  using assms by (auto simp: inos_ok_def path_of_def)

lemma ino_for_frame:
  "ino_for p fs = (i, fs') \<Longrightarrow>
     fs_db fs' = fs_db fs \<and> fs_ns fs' = fs_ns fs \<and> fs_bufs fs' = fs_bufs fs \<and> fs_next_fh fs' = fs_next_fh fs"
  by (auto simp: ino_for_def Let_def split: option.splits)

lemma evicted:
  assumes "inos_ok fs" "length (fs_bufs fs) < INO_CAP" "INO_CAP \<le> length (fs_inos fs)"
  shows "\<exists>R. (\<forall>(fh, h) \<in> set (fs_bufs fs). h_ino h \<notin> R) \<and>
      evict 0 (rev (filter (\<lambda>i. i \<notin> (h_ino \<circ> snd) ` set (fs_bufs fs)) (map fst (fs_inos fs)))) (fs_inos fs) =
        filter (\<lambda>(i, _). i \<notin> R) (fs_inos fs) \<and>
      length (filter (\<lambda>(i, _). i \<notin> R) (fs_inos fs)) < length (fs_inos fs)"
proof -
  let ?P = "(h_ino \<circ> snd) ` set (fs_bufs fs)"
  let ?d = "rev (filter (\<lambda>i. i \<notin> ?P) (map fst (fs_inos fs)))"
  obtain R where R: "R \<subseteq> set ?d" "evict 0 ?d (fs_inos fs) = filter (\<lambda>(i, _). i \<notin> R) (fs_inos fs)"
    using evict_filter by blast
  have "card (set (map fst (fs_inos fs))) = length (fs_inos fs)"
    using assms(1) distinct_card [of "map fst (fs_inos fs)"] by (simp add: inos_ok_def)
  moreover have "card ?P < INO_CAP" using card_image_le [of "set (fs_bufs fs)" "h_ino \<circ> snd"] card_length [of "fs_bufs fs"] assms(2) by simp
  ultimately have "\<not> set (map fst (fs_inos fs)) \<subseteq> ?P"
    using assms(3) card_mono [of ?P "set (map fst (fs_inos fs))"] by auto
  then have "?d \<noteq> []" by (auto simp: filter_empty_conv)
  then obtain i rest where d: "?d = i # rest" by (cases ?d) auto
  then have "i \<in> set ?d" by simp
  then have "i \<in> fst ` set (fs_inos fs)" by auto
  then have "length (evict 0 ?d (fs_inos fs)) < length (fs_inos fs)"
    unfolding d using assms(3) INO_less by (intro evict_shorter) auto
  moreover have "\<forall>(fh, h) \<in> set (fs_bufs fs). h_ino h \<notin> R" using R(1) by force
  ultimately show ?thesis using R(2) by (intro exI [of _ R]) auto
qed

lemma ino_for_ok:
  assumes "table_ok fs" "length (fs_bufs fs) < INO_CAP" "ino_for p fs = (i, fs')"
  shows "keeps_paths fs fs' \<and> path_of fs' i = Some p"
proof (cases "List.find (\<lambda>(i, p'). p' = p) (fs_inos fs)")
  case (Some x)
  then have "x \<in> set (fs_inos fs)" "snd x = p" using find_SomeD [OF Some] by auto
  moreover have "fs' = fs" "i = fst x" using assms(3) Some by (auto simp: ino_for_def split: prod.splits)
  ultimately have "fs' = fs" "(i, p) \<in> set (fs_inos fs)" by auto
  then show ?thesis using assms(1) path_of_inos [of fs i p] by (simp add: keeps_paths_def table_ok_def)
next
  case None
  have ok: "inos_ok fs" using assms(1) by (simp add: table_ok_def)
  obtain R where R: "\<forall>(fh, h) \<in> set (fs_bufs fs). h_ino h \<notin> R"
      "(if INO_CAP \<le> length (fs_inos fs)
        then evict 0 (rev (filter (\<lambda>i. i \<notin> (h_ino \<circ> snd) ` set (fs_bufs fs)) (map fst (fs_inos fs)))) (fs_inos fs)
        else fs_inos fs) = filter (\<lambda>(i, _). i \<notin> R) (fs_inos fs)"
      "length (filter (\<lambda>(i, _). i \<notin> R) (fs_inos fs)) < INO_CAP"
  proof (cases "INO_CAP \<le> length (fs_inos fs)")
    case True
    then show thesis using that evicted [OF ok assms(2) True] ok by (auto simp: inos_ok_def)
  next
    case False
    then show thesis using that [of "{}"] by simp
  qed
  let ?m = "filter (\<lambda>(i, _). i \<notin> R) (fs_inos fs)"
  have fs': "fs' = fs\<lparr>fs_next_ino := fs_next_ino fs + 1, fs_inos := (fs_next_ino fs, p) # ?m\<rparr>" "i = fs_next_ino fs"
    using assms(3) None R(2) by (auto simp: ino_for_def Let_def)
  have new: "fs_next_ino fs \<notin> fst ` set ?m" "p \<notin> snd ` set ?m"
    using ok None by (auto simp: inos_ok_def find_None_iff)
  have "distinct (map fst ?m)" "distinct (map snd ?m)"
    using ok by (auto simp: inos_ok_def distinct_map intro: inj_on_subset)
  then have inos: "inos_ok fs'"
    using ok new R(3) unfolding fs' by (auto simp: inos_ok_def)
  have keep: "path_of fs' j = path_of fs j" if nr: "j \<notin> R" and np: "path_of fs j \<noteq> None" for j
  proof (cases "j = ROOT_INO")
    case False
    then obtain q where q: "(j, q) \<in> set (fs_inos fs)" using np by (auto simp: path_of_def dest: map_of_SomeD)
    then have "(j, q) \<in> set (fs_inos fs')" using nr unfolding fs' by auto
    then show ?thesis using q path_of_inos [OF ok] path_of_inos [OF inos] by metis
  qed (simp add: path_of_def)
  have h: "path_of fs' (h_ino x) = path_of fs (h_ino x)" if x: "(fh, x) \<in> set (fs_bufs fs)" for fh x
    using bspec [OF R(1) x] keep assms(1) x by (auto simp: table_ok_def handles_ok_def)
  have "fs_bufs fs' = fs_bufs fs" "fs_next_fh fs' = fs_next_fh fs" using fs'(1) by simp_all
  then have "handles_ok fs'" using assms(1) h by (auto simp: table_ok_def handles_ok_def)
  moreover have "path_of fs' i = Some p" using path_of_inos [OF inos, of i p] fs' by simp
  ultimately show ?thesis using inos h fs'(1) by (auto simp: keeps_paths_def table_ok_def)
qed

lemma stable_refl: "table_ok fs \<Longrightarrow> keeps_paths fs fs"
  by (simp add: keeps_paths_def)

lemma stable_trans:
  "keeps_paths a b \<Longrightarrow> keeps_paths b c \<Longrightarrow> set (fs_bufs a) \<subseteq> set (fs_bufs b) \<Longrightarrow> keeps_paths a c"
  unfolding keeps_paths_def by fastforce

text \<open>Changes of the database, and the handle operations.\<close>

lemma path_of_frame [simp]:
  "path_of (fs\<lparr>fs_db := s\<rparr>) i = path_of fs i" "path_of (fs\<lparr>fs_bufs := b\<rparr>) i = path_of fs i"
  "path_of (fs\<lparr>fs_next_fh := n\<rparr>) i = path_of fs i"
  by (simp_all add: path_of_def)

lemma inos_ok_frame [simp]:
  "inos_ok (fs\<lparr>fs_db := s\<rparr>) = inos_ok fs" "inos_ok (fs\<lparr>fs_bufs := b\<rparr>) = inos_ok fs"
  by (simp_all add: inos_ok_def)

lemma stable_db: "keeps_paths fs fs' \<Longrightarrow> keeps_paths fs (fs'\<lparr>fs_db := s\<rparr>)"
  by (simp add: keeps_paths_def table_ok_def handles_ok_def)

lemma stable_handles:
  "table_ok fs \<Longrightarrow> keeps_paths fs (drop_handle fh fs)"
  "table_ok fs \<Longrightarrow> map_of (fs_bufs fs) fh = Some h \<Longrightarrow> h_ino h' = h_ino h \<Longrightarrow> keeps_paths fs (set_handle fh h' fs)"
proof -
  assume t: "table_ok fs"
  show "keeps_paths fs (drop_handle fh fs)"
    using t by (auto simp: keeps_paths_def table_ok_def handles_ok_def drop_handle_def distinct_map_filter)
  assume h: "map_of (fs_bufs fs) fh = Some h" "h_ino h' = h_ino h"
  let ?fs = "set_handle fh h' fs"
  have keys: "map fst (fs_bufs ?fs) = map fst (fs_bufs fs)" by (auto simp: set_handle_def)
  have old: "\<exists>y. (i, y) \<in> set (fs_bufs fs) \<and> h_ino y = h_ino x" if x: "(i, x) \<in> set (fs_bufs ?fs)" for i x
    using x map_of_SomeD [OF h(1)] h(2) by (auto simp: set_handle_def split: if_splits)
  have "handles_ok ?fs"
    unfolding handles_ok_def keys
  proof (intro conjI ballI, goal_cases)
    case 1
    show ?case using t by (simp add: table_ok_def handles_ok_def)
  next
    case (2 e)
    obtain i x where e: "e = (i, x)" by fastforce
    then obtain y where "(i, y) \<in> set (fs_bufs fs)" "h_ino y = h_ino x" using old 2 by blast
    moreover have "path_of ?fs j = path_of fs j" for j by (simp add: set_handle_def)
    moreover have "fs_next_fh ?fs = fs_next_fh fs" by (simp add: set_handle_def)
    ultimately show ?case using t unfolding table_ok_def handles_ok_def e by force
  qed
  then show "keeps_paths fs ?fs" using t by (simp add: keeps_paths_def table_ok_def set_handle_def)
qed

lemma stable_add:
  assumes "table_ok fs" "path_of fs (h_ino h) \<noteq> None" "add_handle h fs = (fh, fs')"
  shows "keeps_paths fs fs'"
proof -
  have fs': "fs' = fs\<lparr>fs_next_fh := fs_next_fh fs + 1, fs_bufs := (fs_next_fh fs, h) # fs_bufs fs\<rparr>"
    using assms(3) by (auto simp: add_handle_def)
  have "fs_next_fh fs \<notin> fst ` set (fs_bufs fs)" using assms(1) by (force simp: table_ok_def handles_ok_def)
  moreover have "inos_ok fs'" "0 < fs_next_fh fs" using assms(1) unfolding fs' by (auto simp: table_ok_def inos_ok_def)
  ultimately show ?thesis using assms(1,2) unfolding fs' keeps_paths_def table_ok_def handles_ok_def by force
qed

lemma fs_attr_ok:
  assumes "table_ok fs" "length (fs_bufs fs) < INO_CAP" "fs_attr now p d fs = (a, fs')"
  shows "keeps_paths fs fs' \<and> path_of fs' (fa_ino a) = Some p \<and> fs_db fs' = fs_db fs \<and> fs_ns fs' = fs_ns fs \<and> fs_bufs fs' = fs_bufs fs"
proof -
  obtain i fs1 where i: "ino_for p fs = (i, fs1)" by fastforce
  have "fs' = fs1" "fa_ino a = i" using assms(3) by (auto simp: fs_attr_def attr_of_def Let_def i split: prod.splits)
  then show ?thesis using ino_for_ok [OF assms(1,2) i] ino_for_frame [OF i] by simp
qed

lemma fill_dir_ok:
  "table_ok fs \<Longrightarrow> length (fs_bufs fs) < INO_CAP \<Longrightarrow>
   keeps_paths fs (snd (fill_dir now fits path offset es out fs)) \<and> fs_db (snd (fill_dir now fits path offset es out fs)) = fs_db fs \<and>
   fs_bufs (snd (fill_dir now fits path offset es out fs)) = fs_bufs fs"
proof (induction now fits path offset es out fs rule: fill_dir.induct)
  case (2 now fits path offset pos name is_dir es out fs)
  let ?c = "join_child path name"
  obtain i fs' where i: "ino_for ?c fs = (i, fs')" by fastforce
  note k = ino_for_ok [OF 2(4,5) i] ino_for_frame [OF i]
  then have k': "keeps_paths fs fs'" "table_ok fs'" "length (fs_bufs fs') < INO_CAP" "fs_bufs fs' = fs_bufs fs" "fs_db fs' = fs_db fs"
    using 2(5) by (auto simp: keeps_paths_def)
  consider "pos \<le> offset" | "\<not> pos \<le> offset" "\<not> is_dir \<and> latest_info (now pos) fs ?c = None"
    | "\<not> pos \<le> offset" "\<not> (\<not> is_dir \<and> latest_info (now pos) fs ?c = None)" by blast
  then show ?case
  proof cases
    case 3
    then show ?thesis
      using 2(3) [OF 3(1) refl 3(2) i [symmetric] refl refl _ k'(2,3)] k' stable_trans [OF k'(1)] by (auto simp: i Let_def)
  qed (use 2 in simp_all)
qed (simp add: stable_refl)

text \<open>Operations on the store change nothing but the database.\<close>

lemma db_only_refl [simp]: "db_only fs fs"
  by (auto simp: db_only_def intro: exI [of _ "fs_db fs"])

lemma db_only_trans: "db_only a b \<Longrightarrow> db_only b c \<Longrightarrow> db_only a c"
  by (auto simp: db_only_def)

lemma db_only_ops:
  "db_only fs (snd (commit_ttl ext now hlc p d hint fs))" "db_only fs (snd (delete_key ext hlc k fs))"
  "db_only fs (snd (delete_path ext hlc p fs))"
  by (auto simp: db_only_def commit_ttl_def delete_key_def delete_path_def Let_def
      intro: exI [of _ "fs_db fs"] split: prod.split sum.split)

lemma db_only_keys: "db_only fs (snd (delete_keys ext hlc ks fs))"
proof (induction ks arbitrary: fs)
  case (Cons k ks)
  have "db_only fs (snd (delete_key ext hlc k fs))" by (rule db_only_ops)
  then show ?case using db_only_trans Cons.IH by (auto split: prod.split sum.split)
qed simp

lemma db_only_move: "db_only fs (snd (move_keys ext hlc old new ks fs))"
proof (induction ks arbitrary: fs)
  case (Cons k ks)
  have p: "db_only fs (fs\<lparr>fs_db := s\<rparr>)" for s by (auto simp: db_only_def)
  have d: "db_only fs fs'" if "delete_key ext hlc k (fs\<lparr>fs_db := s\<rparr>) = (r, fs')" for s r fs'
    using db_only_ops(2) [of "fs\<lparr>fs_db := s\<rparr>" ext hlc k] that db_only_trans [OF p] by simp
  show ?case using p d db_only_trans [OF d] Cons.IH by (auto split: option.split entry.split prod.split sum.split)
qed simp

lemma db_only_rename: "db_only fs (snd (rename_paths ext ck p q fs))"
proof -
  have "db_only fs (snd (delete_path ext hlc p fs1))" if "commit_ttl ext now hlc' q d hint fs = (r, fs1)" for hlc now hlc' d hint r fs1
    using that db_only_ops(1) [of fs ext now hlc' q d hint] db_only_ops(3) [of fs1 ext hlc p] db_only_trans by simp
  moreover have "db_only fs fs1" if "commit_ttl ext now hlc' q d hint fs = (r, fs1)" for now hlc' d hint r fs1
    using that db_only_ops(1) [of fs ext now hlc' q d hint] by simp
  ultimately show ?thesis by (auto simp: rename_paths_def db_only_move split: option.split prod.split sum.split)
qed

lemma db_only_stable: "table_ok fs \<Longrightarrow> db_only fs fs' \<Longrightarrow> keeps_paths fs fs' \<and> fs_bufs fs' = fs_bufs fs"
  using stable_db [OF stable_refl, of fs] by (auto simp: db_only_def)

section \<open>Any callback\<close>

lemma attr_step:
  assumes "table_ok fs" "length (fs_bufs fs) < INO_CAP" "db_only fs fs1"
  shows "keeps_paths fs (snd (fs_attr now p d fs1))"
proof -
  obtain a fs2 where a: "fs_attr now p d fs1 = (a, fs2)" by fastforce
  have 1: "keeps_paths fs fs1" "fs_bufs fs1 = fs_bufs fs" using db_only_stable [OF assms(1,3)] by auto
  then have "keeps_paths fs1 fs2" using fs_attr_ok [OF _ _ a] assms(2) by (auto simp: keeps_paths_def)
  then show ?thesis using stable_trans [OF 1(1)] 1(2) a by simp
qed

lemma create_step:
  assumes "table_ok fs" "length (fs_bufs fs) < INO_CAP"
  shows "keeps_paths fs (snd (create ext ck parent name fs))"
proof (cases "path_of fs parent")
  case (Some pp)
  let ?p = "join_child pp name"
  obtain r fs1 where c: "commit ext (ck_now ck 0) (ck_hlc ck 0) ?p [] fs = (r, fs1)" by (rule prod.exhaust)
  obtain a fs2 where a: "fs_attr (ck_now ck 1) ?p False fs1 = (a, fs2)" by (rule prod.exhaust)
  obtain i fs3 where i: "ino_for ?p fs2 = (i, fs3)" by (rule prod.exhaust)
  let ?h = "\<lparr>h_ino = i, h_data = [], h_dirty = False, h_append = False\<rparr>"
  obtain fh fs4 where h: "add_handle ?h fs3 = (fh, fs4)" by (rule prod.exhaust)
  have "db_only fs fs1" using db_only_ops(1) [of fs ext "ck_now ck 0" "ck_hlc ck 0" ?p "[]" None] c by (simp add: commit_def)
  from db_only_stable [OF assms(1) this] have 1: "keeps_paths fs fs1" "fs_bufs fs1 = fs_bufs fs" by auto
  have t1: "table_ok fs1" "length (fs_bufs fs1) < INO_CAP" using 1 assms(2) by (simp_all add: keeps_paths_def)
  have 2: "keeps_paths fs1 fs2" "fs_bufs fs2 = fs_bufs fs" using fs_attr_ok [OF t1 a] 1(2) by auto
  have t2: "table_ok fs2" "length (fs_bufs fs2) < INO_CAP" using 2 assms(2) by (simp_all add: keeps_paths_def)
  have 3: "keeps_paths fs2 fs3" "path_of fs3 i = Some ?p" "fs_bufs fs3 = fs_bufs fs"
    using ino_for_ok [OF t2 i] ino_for_frame [OF i] 2(2) by auto
  have t3: "table_ok fs3" using 3(1) by (simp add: keeps_paths_def)
  have 4: "keeps_paths fs3 fs4" by (rule stable_add [OF t3 _ h]) (simp add: 3(2))
  have "keeps_paths fs fs4" using stable_trans [OF stable_trans [OF stable_trans [OF 1(1) 2(1)] 3(1)] 4] 1(2) 2(2) 3(3) by simp
  moreover have "snd (create ext ck parent name fs) = (case r of Inl e \<Rightarrow> fs1 | Inr _ \<Rightarrow> fs4)"
    using Some c a i h by (cases r) (simp_all add: create_def Let_def)
  ultimately show ?thesis using 1(1) by (simp split: sum.split)
qed (simp add: create_def stable_refl assms(1))

lemma attr_case:
  assumes "table_ok fs" "length (fs_bufs fs) < INO_CAP"
  shows "keeps_paths fs (snd (case fs_attr now p d fs of (a, fs) \<Rightarrow> (Ok a, fs)))"
    and "fs_db (snd (case fs_attr now p d fs of (a, fs) \<Rightarrow> (Ok a, fs))) = fs_db fs"
    and "fs_bufs (snd (case fs_attr now p d fs of (a, fs) \<Rightarrow> (Ok a, fs))) = fs_bufs fs"
proof -
  obtain a fs' where a: "fs_attr now p d fs = (a, fs')" by (rule prod.exhaust)
  show "keeps_paths fs (snd (case fs_attr now p d fs of (a, fs) \<Rightarrow> (Ok a, fs)))"
    "fs_db (snd (case fs_attr now p d fs of (a, fs) \<Rightarrow> (Ok a, fs))) = fs_db fs"
    "fs_bufs (snd (case fs_attr now p d fs of (a, fs) \<Rightarrow> (Ok a, fs))) = fs_bufs fs"
    using fs_attr_ok [OF assms a] by (simp_all add: a)
qed

lemmas attr_calls = lookup_fs_def getattr_def Let_def

lemma read_calls:
  assumes "table_ok fs" "length (fs_bufs fs) < INO_CAP"
  shows "keeps_paths fs (snd (lookup_fs ck parent name fs)) \<and> fs_db (snd (lookup_fs ck parent name fs)) = fs_db fs \<and>
      fs_bufs (snd (lookup_fs ck parent name fs)) = fs_bufs fs"
    and "keeps_paths fs (snd (getattr ck ino fs)) \<and> fs_db (snd (getattr ck ino fs)) = fs_db fs \<and> fs_bufs (snd (getattr ck ino fs)) = fs_bufs fs"
  by (simp_all add: attr_calls attr_case [OF assms] stable_refl [OF assms(1)] split: option.split)

lemma readdir_call:
  assumes "table_ok fs" "length (fs_bufs fs) < INO_CAP"
  shows "keeps_paths fs (snd (readdir ck fits ino offset fs)) \<and> fs_db (snd (readdir ck fits ino offset fs)) = fs_db fs \<and>
      fs_bufs (snd (readdir ck fits ino offset fs)) = fs_bufs fs"
  using fill_dir_ok [OF assms] stable_refl [OF assms(1)] by (simp add: readdir_def Let_def case_prod_beta del: fill_dir.simps append.simps split: option.split)

lemma open_call:
  assumes "table_ok fs"
  shows "keeps_paths fs (snd (open_fs ck ino flags fs)) \<and> fs_db (snd (open_fs ck ino flags fs)) = fs_db fs"
proof (cases "path_of fs ino")
  case (Some p)
  let ?h = "\<lambda>d. \<lparr>h_ino = ino, h_data = d, h_dirty = of_trunc flags, h_append = of_append flags\<rparr>"
  have "keeps_paths fs (snd (add_handle (?h d) fs)) \<and> fs_db (snd (add_handle (?h d) fs)) = fs_db fs" for d
    using stable_add [OF assms, of "?h d" "fst (add_handle (?h d) fs)" "snd (add_handle (?h d) fs)"] Some by (simp add: add_handle_def)
  then show ?thesis using Some stable_refl [OF assms] by (simp add: open_fs_def Let_def case_prod_beta)
qed (simp add: open_fs_def stable_refl [OF assms])

lemma handle_calls:
  assumes "table_ok fs"
  shows "keeps_paths fs (snd (write_fs ino fh offset data fs))" "keeps_paths fs (snd (flush ext ck ino fh fs))"
    "keeps_paths fs (snd (release fh fs))"
proof -
  show "keeps_paths fs (snd (write_fs ino fh offset data fs))"
    using stable_refl [OF assms] stable_handles(2) [OF assms, of fh] by (simp add: write_fs_def Let_def split: option.split)
  have d: "keeps_paths fs (drop_handle fh fs)" by (rule stable_handles(1) [OF assms])
  then have "keeps_paths fs (snd (commit ext now hlc p x (drop_handle fh fs)))" for now hlc p x
    using db_only_ops(1) [of "drop_handle fh fs" ext now hlc p x None] stable_db [OF d] by (auto simp: commit_def db_only_def)
  then show "keeps_paths fs (snd (flush ext ck ino fh fs))"
    using d stable_refl [OF assms] by (simp add: flush_def Let_def split: option.split)
  show "keeps_paths fs (snd (release fh fs))" using d by (simp add: release_def)
qed

lemma store_calls:
  assumes "table_ok fs" "length (fs_bufs fs) < INO_CAP"
  shows "keeps_paths fs (snd (mkdir ext ck parent name fs))" "keeps_paths fs (snd (unlink ext ck parent name fs))"
    "keeps_paths fs (snd (rmdir ext ck parent name fs))"
    "keeps_paths fs (snd (rename_fs ext ck parent name newparent newname has_flags fs))"
proof -
  note t = db_only_stable [OF assms(1), THEN conjunct1]
  have "keeps_paths fs (snd (case fs_attr now p True (fs\<lparr>fs_db := s\<rparr>) of (a, fs) \<Rightarrow> (Ok a, fs)))" for now p s
    using attr_step [OF assms, of "fs\<lparr>fs_db := s\<rparr>" now p True] by (auto simp: db_only_def case_prod_beta)
  then show "keeps_paths fs (snd (mkdir ext ck parent name fs))"
    using stable_refl [OF assms(1)] by (simp add: mkdir_def Let_def case_prod_beta split: option.split)
  show "keeps_paths fs (snd (unlink ext ck parent name fs))"
    using stable_refl [OF assms(1)] t [OF db_only_ops(3)] by (simp add: unlink_def split: option.split)
  have "db_only fs (snd (delete_all_under ext hlc p fs))" for hlc p by (simp add: delete_all_under_def db_only_keys)
  then have "db_only fs (snd (case delete_all_under ext hlc p fs of (Inl e, fs) \<Rightarrow> (Err e, fs) | (Inr _, fs) \<Rightarrow> delete_path ext hlc' p fs))" for hlc hlc' p
    using db_only_trans [OF _ db_only_ops(3)] by (auto simp: case_prod_beta split: sum.split)
  then show "keeps_paths fs (snd (rmdir ext ck parent name fs))"
    using stable_refl [OF assms(1)] t by (simp add: rmdir_def Let_def split: option.split)
  show "keeps_paths fs (snd (rename_fs ext ck parent name newparent newname has_flags fs))"
    using stable_refl [OF assms(1)] t [OF db_only_rename] by (simp add: rename_fs_def split: option.split)
qed

lemma setattr_call:
  assumes "table_ok fs" "length (fs_bufs fs) < INO_CAP"
  shows "keeps_paths fs (snd (setattr ext ck ino new_size fh fs))"
proof -
  have c: "keeps_paths fs (snd (case commit ext now hlc p d fs of (Inl e, fs) \<Rightarrow> (Err e, fs) | (Inr _, fs) \<Rightarrow>
      (let (a, fs) = fs_attr now' p False fs in (Ok a, fs))))" for now hlc p d now'
  proof -
    obtain r fs1 where c: "commit ext now hlc p d fs = (r, fs1)" by (rule prod.exhaust)
    have "db_only fs fs1" using db_only_ops(1) [of fs ext now hlc p d None] c by (simp add: commit_def)
    then show ?thesis using attr_step [OF assms] db_only_stable [OF assms(1)] c by (simp add: Let_def case_prod_beta split: sum.split)
  qed
  have s: "keeps_paths fs (set_handle i (if n = length (h_data h) then h else h\<lparr>h_data := resize n (h_data h), h_dirty := True\<rparr>) fs)"
    if "map_of (fs_bufs fs) i = Some h" for i h n
    by (rule stable_handles(2) [OF assms(1) that]) simp
  show ?thesis
    by (cases fh) (simp_all add: setattr_def Let_def attr_case [OF assms] stable_refl [OF assms(1)] c s split: option.split)
qed

lemma fs_step_ok:
  assumes "table_ok fs" "length (fs_bufs fs) < INO_CAP"
  shows "keeps_paths fs (fs_step ext ck fits c fs)"
  by (cases c) (simp_all add: read_calls [OF assms] readdir_call [OF assms] open_call [OF assms(1)] handle_calls [OF assms(1)]
      create_step [OF assms] store_calls [OF assms] setattr_call [OF assms] stable_refl [OF assms(1)])

lemma new_fs_ok: "table_ok (new_fs ext s root_pk euid)"
  by (simp add: new_fs_def table_ok_def inos_ok_def handles_ok_def ROOT_INO_def INO_CAP_def)

lemma fs_reach_ok: "fs_reach ext root_pk fs \<Longrightarrow> table_ok fs"
proof (induction rule: fs_reach.induct)
  case (mount s euid)
  show ?case by (rule new_fs_ok)
next
  case (call fs ck fits c)
  then show ?case using fs_step_ok [of fs ext ck fits c] by (simp add: keeps_paths_def)
next
  case (other fs s)
  then show ?case using stable_db [OF stable_refl, of fs s] by (simp add: keeps_paths_def)
qed

section \<open>Callbacks that only read\<close>

lemma reads_step:
  assumes "table_ok fs" "length (fs_bufs fs) < INO_CAP" "all_clean fs" "reads_only c"
  shows "fs_db (fs_step ext ck fits c fs) = fs_db fs \<and> all_clean (fs_step ext ck fits c fs) \<and>
    length (fs_bufs (fs_step ext ck fits c fs)) \<le> Suc (length (fs_bufs fs))"
proof (cases c)
  case (Open ino flags)
  then show ?thesis using assms(3,4)
    by (auto simp: open_fs_def all_clean_def add_handle_def Let_def case_prod_beta split: option.split)
next
  case (Flush ino fh)
  have "\<not> h_dirty h" if "map_of (fs_bufs fs) fh = Some h" for h using map_of_SomeD [OF that] assms(3) by (auto simp: all_clean_def)
  then show ?thesis using assms(3) Flush by (auto simp: flush_def all_clean_def drop_handle_def Let_def le_SucI split: option.split)
next
  case (Release fh)
  then show ?thesis using assms(3) by (auto simp: release_def all_clean_def drop_handle_def le_SucI)
next
  case (Setattr ino new_size fh)
  then have "new_size = None" using assms(4) by (cases new_size) auto
  then show ?thesis using assms(3) Setattr by (simp add: setattr_def attr_case [OF assms(1,2)] all_clean_def split: option.split)
qed (use assms read_calls [OF assms(1,2)] readdir_call [OF assms(1,2)] in \<open>simp_all add: all_clean_def\<close>)

lemma reads_run:
  "table_ok fs \<Longrightarrow> all_clean fs \<Longrightarrow> length (fs_bufs fs) + length cs < INO_CAP \<Longrightarrow> \<forall>(ck, fits, c) \<in> set cs. reads_only c \<Longrightarrow>
     fs_db (fs_run ext cs fs) = fs_db fs"
proof (induction cs arbitrary: fs)
  case (Cons x cs)
  obtain ck fits c where x: "x = (ck, fits, c)" by (metis prod_cases3)
  have l: "length (fs_bufs fs) < INO_CAP" and r: "reads_only c" using Cons.prems(3,4) x by auto
  note s = reads_step [OF Cons.prems(1) l Cons.prems(2) r, of ext ck fits]
  have "table_ok (fs_step ext ck fits c fs)" using fs_step_ok [OF Cons.prems(1) l] by (simp add: keeps_paths_def)
  then have "fs_db (fs_run ext cs (fs_step ext ck fits c fs)) = fs_db (fs_step ext ck fits c fs)"
    using s Cons.prems(3,4) by (intro Cons.IH) auto
  then show ?case using s x by simp
qed simp

section \<open>Properties\<close>



text \<open>A mount that is only read writes nothing: looking up, listing, opening without truncation, reading
  and closing, in any order and interleaving, leaves the database as it is, logs included.\<close>

theorem reading_writes_nothing:
  assumes "fs_reach ext root_pk fs" "all_clean fs" "length (fs_bufs fs) + length cs < INO_CAP" "\<forall>(ck, fits, c) \<in> set cs. reads_only c"
  shows "fs_db (fs_run ext cs fs) = fs_db fs"
  using reads_run [OF fs_reach_ok [OF assms(1)] assms(2-4)] .

theorem reading_writes_nothing_witness:
  "fs_db (fs_run demo_ext
      [(\<lparr>ck_now = (\<lambda>_. 0), ck_hlc = (\<lambda>_. 0)\<rparr>, (\<lambda>_ _. True), Readdir 1 0), (\<lparr>ck_now = (\<lambda>_. 0), ck_hlc = (\<lambda>_. 0)\<rparr>, (\<lambda>_ _. True), Flush 1 1)]
      (new_fs demo_ext (empty_db False) zero32 0)) = empty_db False"
  using reading_writes_nothing [OF fs_reach.mount, of demo_ext "empty_db False" zero32 0
      "[(\<lparr>ck_now = (\<lambda>_. 0), ck_hlc = (\<lambda>_. 0)\<rparr>, (\<lambda>_ _. True), Readdir 1 0), (\<lparr>ck_now = (\<lambda>_. 0), ck_hlc = (\<lambda>_. 0)\<rparr>, (\<lambda>_ _. True), Flush 1 1)]"]
  by (simp add: new_fs_def all_clean_def INO_CAP_def del: fs_run.simps)

end
