(* ===== verification/FsData.thy ===== *)
theory FsData
  imports FsTable
begin

text \<open>
  What the mounted file system does to the files: an abstract view of the namespace as a map from
  keys to contents and expiry, the effect of every changing callback on that view, and the
  callbacks that leave the database alone.  The locale \<open>key_files\<close> states what the operations on
  directories need of single puts and deletes; it is interpreted on the store.
\<close>

section \<open>Definitions\<close>

text \<open>Contents and expiry of a key, in a namespace of the policy that the daemon provisions.\<close>

definition file_entry :: "meshfs \<Rightarrow> key \<Rightarrow> (bytes \<times> u64) option" where
  "file_entry fs k =
     (case store_get (db_store (fs_db fs)) (fs_ns fs) k of
        Some (Lww v) \<Rightarrow> Some (v_value v, v_expires_at v)
      | _ \<Rightarrow> None)"

definition fs_inv :: "extern \<Rightarrow> meshfs \<Rightarrow> bool" where
  "fs_inv ext fs \<longleftrightarrow>
     ext_ok ext \<and> db_inv ext (fs_db fs) \<and> bt_get (st_policies (db_store (fs_db fs))) (fs_ns fs) = Some PolicyLww"

text \<open>A key and contents whose record has a length that fits its field.\<close>

definition fits :: "key \<Rightarrow> bytes \<Rightarrow> bool" where
  "fits k d \<longleftrightarrow> length k + length d + 92 < 2 ^ 32"

definition put_key :: "extern \<Rightarrow> u64 \<Rightarrow> key \<Rightarrow> bytes \<times> u64 \<Rightarrow> meshfs \<Rightarrow> meshfs" where
  "put_key ext hlc k x fs =
     fs\<lparr>fs_db := snd (store_put ext (fs_ns fs) k (fst x) hlc (rid_of ext fs) (rid_of ext fs) (snd x) (fs_db fs))\<rparr>"

definition del_key :: "extern \<Rightarrow> u64 \<Rightarrow> key \<Rightarrow> meshfs \<Rightarrow> meshfs" where
  "del_key ext hlc k fs = snd (delete_key ext hlc k fs)"

text \<open>A sequence of writes through a handle, and the contents they leave in an empty file.\<close>

definition write_all :: "nat \<Rightarrow> nat \<Rightarrow> (nat \<times> bytes) list \<Rightarrow> meshfs \<Rightarrow> meshfs" where
  "write_all ino fh ws fs = fold (\<lambda>(off, d) fs. snd (write_fs ino fh off d fs)) ws fs"

definition content :: "(nat \<times> bytes) list \<Rightarrow> bytes \<Rightarrow> bytes" where
  "content ws d = fold (\<lambda>(off, new) d. splice off new d) ws d"

text \<open>The time does not reach an expiry.\<close>

definition before :: "u64 \<Rightarrow> u64 \<Rightarrow> bool" where
  "before now e \<longleftrightarrow> e = 0 \<or> now < e"

section \<open>The interface of the store\<close>

locale key_files =
  fixes inv :: "'s \<Rightarrow> bool"
    and view :: "'s \<Rightarrow> 'k \<Rightarrow> 'v option"
    and put :: "'k \<Rightarrow> 'v \<Rightarrow> 's \<Rightarrow> 's"
    and del :: "'k \<Rightarrow> 's \<Rightarrow> 's"
    and put_ok :: "'k \<Rightarrow> 'v \<Rightarrow> bool"
    and del_ok :: "'k \<Rightarrow> bool"
  assumes inv_put: "inv s \<Longrightarrow> put_ok k v \<Longrightarrow> inv (put k v s)"
    and inv_del: "inv s \<Longrightarrow> del_ok k \<Longrightarrow> inv (del k s)"
    and view_put: "inv s \<Longrightarrow> put_ok k v \<Longrightarrow> view (put k v s) = (view s)(k \<mapsto> v)"
    and view_del: "inv s \<Longrightarrow> del_ok k \<Longrightarrow> view (del k s) = (view s)(k := None)"
begin

lemma del_many:
  assumes "inv s" "\<forall>k \<in> set ks. del_ok k"
  shows "inv (fold del ks s) \<and> view (fold del ks s) = (\<lambda>k. if k \<in> set ks then None else view s k)"
  using assms
proof (induction ks arbitrary: s)
  case (Cons k ks)
  then show ?case using inv_del [of s k] view_del [of s k] by auto
qed simp

text \<open>Keys are moved one after the other, those without contents are skipped.\<close>

definition move :: "('k \<Rightarrow> 'k) \<Rightarrow> 'k \<Rightarrow> 's \<Rightarrow> 's" where
  "move f k s = (case view s k of None \<Rightarrow> s | Some v \<Rightarrow> del k (put (f k) v s))"

lemma move_step:
  assumes "inv s" "\<And>v. view s k = Some v \<Longrightarrow> del_ok k \<and> put_ok (f k) v" "f k \<noteq> k"
  shows "inv (move f k s)"
    and "view (move f k s) = (if view s k = None then view s else (view s)(f k := view s k, k := None))"
  using assms inv_put inv_del view_put view_del by (auto simp: move_def split: option.split)

lemma move_many:
  assumes "inv s" "distinct ks" "inj_on f (set ks)" "f ` set ks \<inter> set ks = {}"
    and "\<forall>k \<in> set ks. \<forall>v. view s k = Some v \<longrightarrow> del_ok k \<and> put_ok (f k) v"
  shows "inv (fold (move f) ks s) \<and> (\<forall>k \<in> set ks. view (fold (move f) ks s) k = None) \<and>
    (\<forall>k \<in> set ks. view s k \<noteq> None \<longrightarrow> view (fold (move f) ks s) (f k) = view s k) \<and>
    (\<forall>x. x \<notin> set ks \<longrightarrow> (\<forall>k \<in> set ks. x = f k \<longrightarrow> view s k = None) \<longrightarrow> view (fold (move f) ks s) x = view s x)"
  using assms
proof (induction ks arbitrary: s)
  case (Cons k ks)
  let ?s = "move f k s"
  have fk: "f k \<noteq> k" "f k \<notin> set ks" "k \<notin> f ` set ks" "k \<notin> set ks" "f k \<notin> f ` set ks"
    using Cons.prems(2-4) by (auto simp: inj_on_def)
  have m: "inv ?s" "view ?s = (if view s k = None then view s else (view s)(f k := view s k, k := None))"
    using move_step [of s k f] Cons.prems(1,5) fk(1) by auto
  have same: "view ?s y = view s y" if "y \<in> set ks" for y using that m(2) fk by auto
  have ih: "inv (fold (move f) ks ?s)" "\<forall>k \<in> set ks. view (fold (move f) ks ?s) k = None"
      "\<forall>k \<in> set ks. view ?s k \<noteq> None \<longrightarrow> view (fold (move f) ks ?s) (f k) = view ?s k"
      "\<forall>x. x \<notin> set ks \<longrightarrow> (\<forall>k \<in> set ks. x = f k \<longrightarrow> view ?s k = None) \<longrightarrow> view (fold (move f) ks ?s) x = view ?s x"
    using Cons.IH [of ?s] Cons.prems m(1) same by (auto simp: inj_on_def)
  have "view (fold (move f) ks ?s) k = view ?s k" by (rule ih(4) [rule_format]) (use fk in auto)
  moreover have "view (fold (move f) ks ?s) (f k) = view ?s (f k)" by (rule ih(4) [rule_format]) (use fk in auto)
  moreover have "view (fold (move f) ks ?s) x = view s x"
    if "x \<notin> set (k # ks)" "\<forall>k \<in> set (k # ks). x = f k \<longrightarrow> view s k = None" for x
  proof -
    have "view (fold (move f) ks ?s) x = view ?s x" by (rule ih(4) [rule_format]) (use that same in auto)
    then show ?thesis using that m(2) by (cases "x = f k") auto
  qed
  ultimately show ?case using ih(1-3) same m(2) fk by (cases "view s k") auto
qed simp

end

section \<open>Single puts and deletes\<close>

lemma rid32 [simp]: "is32 (rid_of ext fs)"
  by (simp add: rid_of_def is32_def split: option.split)

lemma fits_put: "fits k d \<Longrightarrow> is32 r \<Longrightarrow> op_wf (put_record k d hlc r r e)"
  using payload_bytes_length [of "put_record k d hlc r r e"] by (simp add: op_wf_def put_record_def fits_def)

lemma fits_del: "fits k [] \<Longrightarrow> is32 r \<Longrightarrow> op_wf (Record TAG_DEL k hlc r r [] 0 [])"
  using payload_bytes_length [of "Record TAG_DEL k hlc r r [] 0 []"] by (simp add: op_wf_def fits_def)

lemma fs_inv_log:
  assumes "fs_inv ext fs"
  obtains bs where "ns_log ext (fs_db fs) (fs_ns fs) bs"
  using assms by (auto simp: fs_inv_def db_inv_def bt_contains_def)

lemma entry_upd:
  assumes "store_get (db_store s') (fs_ns fs) k = e" "\<forall>n k'. (n, k') \<noteq> (fs_ns fs, k) \<longrightarrow> store_get (db_store s') n k' = store_get (db_store (fs_db fs)) n k'"
  shows "file_entry (fs\<lparr>fs_db := s'\<rparr>) = (file_entry fs)(k := (case e of Some (Lww v) \<Rightarrow> Some (v_value v, v_expires_at v) | _ \<Rightarrow> None))"
  using assms by (auto simp: file_entry_def fun_eq_iff)

lemma put_effect_fs:
  assumes "fs_inv ext fs" "fits k d"
  obtains n s' where "store_put ext (fs_ns fs) k d hlc (rid_of ext fs) (rid_of ext fs) e (fs_db fs) = (Ok n, s')"
    "fs_inv ext (fs\<lparr>fs_db := s'\<rparr>)" "file_entry (fs\<lparr>fs_db := s'\<rparr>) = (file_entry fs)(k \<mapsto> (d, e))"
    "\<And>bs. ns_log ext (fs_db fs) (fs_ns fs) bs \<Longrightarrow>
       ns_log ext s' (fs_ns fs) (bs @ [next_bytes ext bs (put_record k d hlc (rid_of ext fs) (rid_of ext fs) e)])"
    "put_key ext hlc k (d, e) fs = fs\<lparr>fs_db := s'\<rparr>"
proof -
  obtain bs0 where b: "ns_log ext (fs_db fs) (fs_ns fs) bs0" using fs_inv_log [OF assms(1)] .
  have i: "ext_ok ext" "db_inv ext (fs_db fs)" "bt_get (st_policies (db_store (fs_db fs))) (fs_ns fs) = Some PolicyLww"
    using assms(1) by (auto simp: fs_inv_def)
  have eff: "\<exists>s'. store_put ext (fs_ns fs) k d hlc (rid_of ext fs) (rid_of ext fs) e (fs_db fs) = (Ok (length bs + 1), s') \<and> db_inv ext s' \<and>
      ns_log ext s' (fs_ns fs) (bs @ [next_bytes ext bs (put_record k d hlc (rid_of ext fs) (rid_of ext fs) e)]) \<and>
      file_entry (fs\<lparr>fs_db := s'\<rparr>) = (file_entry fs)(k \<mapsto> (d, e)) \<and> st_policies (db_store s') = st_policies (db_store (fs_db fs))"
    if bs: "ns_log ext (fs_db fs) (fs_ns fs) bs" for bs
  proof -
    obtain s' where s': "store_put ext (fs_ns fs) k d hlc (rid_of ext fs) (rid_of ext fs) e (fs_db fs) = (Ok (length bs + 1), s')" "db_inv ext s'"
        "ns_log ext s' (fs_ns fs) (bs @ [next_bytes ext bs (put_record k d hlc (rid_of ext fs) (rid_of ext fs) e)])"
        "store_get (db_store s') (fs_ns fs) k = Some (Lww (mk_version hlc (rid_of ext fs) (rid_of ext fs) d (length bs + 1) e))"
        "st_policies (db_store s') = st_policies (db_store (fs_db fs))"
        "\<forall>n k'. (n, k') \<noteq> (fs_ns fs, k) \<longrightarrow> store_get (db_store s') n k' = store_get (db_store (fs_db fs)) n k'"
      using store_put_effect [OF i(1,2) bs i(3) fits_put [OF assms(2) rid32, of hlc ext fs e]] unfolding local_version_def conflict_policy.case by blast
    then show ?thesis using entry_upd [OF s'(4,6)] by (simp add: mk_version_def)
  qed
  obtain s' where s': "store_put ext (fs_ns fs) k d hlc (rid_of ext fs) (rid_of ext fs) e (fs_db fs) = (Ok (length bs0 + 1), s')" "db_inv ext s'"
      "file_entry (fs\<lparr>fs_db := s'\<rparr>) = (file_entry fs)(k \<mapsto> (d, e))" "st_policies (db_store s') = st_policies (db_store (fs_db fs))"
    using eff [OF b] by blast
  show thesis
  proof (rule that)
    show "store_put ext (fs_ns fs) k d hlc (rid_of ext fs) (rid_of ext fs) e (fs_db fs) = (Ok (length bs0 + 1), s')" by (rule s'(1))
    show "fs_inv ext (fs\<lparr>fs_db := s'\<rparr>)" using i s' by (simp add: fs_inv_def)
    show "file_entry (fs\<lparr>fs_db := s'\<rparr>) = (file_entry fs)(k \<mapsto> (d, e))" by (rule s'(3))
    show "ns_log ext s' (fs_ns fs) (bs @ [next_bytes ext bs (put_record k d hlc (rid_of ext fs) (rid_of ext fs) e)])"
      if "ns_log ext (fs_db fs) (fs_ns fs) bs" for bs using eff [OF that] s'(1) by auto
    show "put_key ext hlc k (d, e) fs = fs\<lparr>fs_db := s'\<rparr>" using s'(1) by (simp add: put_key_def)
  qed
qed

lemma del_effect_fs:
  assumes "fs_inv ext fs" "fits k []"
  obtains s' where "delete_key ext hlc k fs = (Ok (), fs\<lparr>fs_db := s'\<rparr>)"
    "fs_inv ext (fs\<lparr>fs_db := s'\<rparr>)" "file_entry (fs\<lparr>fs_db := s'\<rparr>) = (file_entry fs)(k := None)"
    "\<And>bs. ns_log ext (fs_db fs) (fs_ns fs) bs \<Longrightarrow>
       ns_log ext s' (fs_ns fs) (bs @ [next_bytes ext bs (Record TAG_DEL k hlc (rid_of ext fs) (rid_of ext fs) [] 0 [])])"
proof -
  obtain bs0 where b: "ns_log ext (fs_db fs) (fs_ns fs) bs0" using fs_inv_log [OF assms(1)] .
  have i: "ext_ok ext" "db_inv ext (fs_db fs)" "bt_get (st_policies (db_store (fs_db fs))) (fs_ns fs) = Some PolicyLww"
    using assms(1) by (auto simp: fs_inv_def)
  note eff = store_delete_effect [OF i(1,2) _ fits_del [OF assms(2) rid32, of hlc ext fs]]
  obtain s' where s': "store_delete ext (fs_ns fs) k hlc (rid_of ext fs) (rid_of ext fs) (fs_db fs) = (Ok (length bs0 + 1), s')" "db_inv ext s'"
      "store_get (db_store s') (fs_ns fs) k = None" "st_policies (db_store s') = st_policies (db_store (fs_db fs))"
      "\<forall>n k'. (n, k') \<noteq> (fs_ns fs, k) \<longrightarrow> store_get (db_store s') n k' = store_get (db_store (fs_db fs)) n k'"
    using eff [OF b] by blast
  show thesis
  proof (rule that)
    show "delete_key ext hlc k fs = (Ok (), fs\<lparr>fs_db := s'\<rparr>)" using s'(1) by (simp add: delete_key_def)
    show "fs_inv ext (fs\<lparr>fs_db := s'\<rparr>)" using i s' by (simp add: fs_inv_def)
    show "file_entry (fs\<lparr>fs_db := s'\<rparr>) = (file_entry fs)(k := None)" using entry_upd [OF s'(3,5)] by simp
    show "ns_log ext s' (fs_ns fs) (bs @ [next_bytes ext bs (Record TAG_DEL k hlc (rid_of ext fs) (rid_of ext fs) [] 0 [])])"
      if "ns_log ext (fs_db fs) (fs_ns fs) bs" for bs using eff [OF that] s'(1) by auto
  qed
qed

interpretation fk: key_files "fs_inv ext" file_entry "put_key ext hlc" "del_key ext hlc" "\<lambda>k x. fits k (fst x)" "\<lambda>k. fits k []"
  for ext hlc
proof
  fix fs k and v :: "bytes \<times> u64"
  assume i: "fs_inv ext fs" and f: "fits k (fst v)"
  obtain d e where v: "v = (d, e)" by fastforce
  show "fs_inv ext (put_key ext hlc k v fs)" "file_entry (put_key ext hlc k v fs) = (file_entry fs)(k \<mapsto> v)"
    using put_effect_fs [OF i f, of hlc e] unfolding v fst_conv by metis+
next
  fix fs k
  assume i: "fs_inv ext fs" and f: "fits k []"
  show "fs_inv ext (del_key ext hlc k fs)" "file_entry (del_key ext hlc k fs) = (file_entry fs)(k := None)"
    using del_effect_fs [OF i f, of hlc] unfolding del_key_def by (metis snd_conv)+
qed

section \<open>Reading through the view\<close>

lemma fs_lww:
  assumes "fs_inv ext fs" "store_get (db_store (fs_db fs)) (fs_ns fs) k = Some e"
  obtains v where "e = Lww v" "file_entry fs k = Some (v_value v, v_expires_at v)"
proof -
  have "bt_get (st_index (db_store (fs_db fs))) (fs_ns fs, k) = Some e"
    using assms(2) by (simp add: store_get_def split: if_splits)
  then have "entry_ok PolicyLww e"
    using state_inv_entry [OF db_invD(1), of ext "fs_db fs" "fs_ns fs" k e PolicyLww] assms(1) by (auto simp: fs_inv_def)
  then obtain v where "e = Lww v" by (auto simp: entry_ok_def split: entry.splits)
  then show thesis using that assms(2) by (simp add: file_entry_def)
qed

lemma fs_absent: "fs_inv ext fs \<Longrightarrow> file_entry fs k = None \<longleftrightarrow> store_get (db_store (fs_db fs)) (fs_ns fs) k = None"
  by (cases "store_get (db_store (fs_db fs)) (fs_ns fs) k") (auto simp: file_entry_def elim: fs_lww)

lemma fs_reads:
  assumes "fs_inv ext fs"
  shows "read_value now fs p = (case file_entry fs (key_of p) of None \<Rightarrow> None | Some (d, e) \<Rightarrow> if before now e then Some d else None)"
    and "map_option fst (latest_info now fs p) = map_option length (read_value now fs p)"
    and "live_expires_at now fs p = (case file_entry fs (key_of p) of None \<Rightarrow> 0 | Some (d, e) \<Rightarrow> if before now e then e else 0)"
proof -
  have "(\<exists>v. store_get (db_store (fs_db fs)) (fs_ns fs) (key_of p) = Some (Lww v)) \<or>
      store_get (db_store (fs_db fs)) (fs_ns fs) (key_of p) = None"
    by (metis fs_lww [OF assms] not_Some_eq)
  then show "read_value now fs p = (case file_entry fs (key_of p) of None \<Rightarrow> None | Some (d, e) \<Rightarrow> if before now e then Some d else None)"
    "map_option fst (latest_info now fs p) = map_option length (read_value now fs p)"
    "live_expires_at now fs p = (case file_entry fs (key_of p) of None \<Rightarrow> 0 | Some (d, e) \<Rightarrow> if before now e then e else 0)"
    by (auto simp: read_value_def latest_info_def live_expires_at_def file_entry_def alive_def before_def)
qed

lemma fs_exists: "fs_inv ext fs \<Longrightarrow> file_exists now fs p \<longleftrightarrow> read_value now fs p \<noteq> None"
  using fs_reads(2) [of ext fs now p] by (cases "latest_info now fs p"; cases "read_value now fs p") (auto simp: file_exists_def)

lemma fs_authorized: "fs_inv ext fs \<Longrightarrow> authorized_self fs"
  by (simp add: fs_inv_def authorized_self_def policy_def)

text \<open>Keys listed under a prefix: all that have contents, and possibly deleted ones.\<close>

lemma scan_keys_fs:
  assumes "fs_inv ext fs"
  shows "distinct (scan_keys (db_store (fs_db fs)) (fs_ns fs) pre)"
    and "k \<in> set (scan_keys (db_store (fs_db fs)) (fs_ns fs) pre) \<Longrightarrow> prefix pre k"
    and "file_entry fs k \<noteq> None \<Longrightarrow> prefix pre k \<Longrightarrow> k \<in> set (scan_keys (db_store (fs_db fs)) (fs_ns fs) pre)"
proof -
  have i: "bt_inv (st_index (db_store (fs_db fs)))"
    using db_invD(1) [of ext "fs_db fs"] assms by (auto simp: fs_inv_def state_inv_def)
  show "distinct (scan_keys (db_store (fs_db fs)) (fs_ns fs) pre)"
    unfolding scan_keys_eq using scan_sorted [OF i] strict_sorted_iff by blast
  show "k \<in> set (scan_keys (db_store (fs_db fs)) (fs_ns fs) pre) \<Longrightarrow> prefix pre k"
    unfolding scan_keys_eq using scan_iff [OF i] by force
  show "file_entry fs k \<noteq> None \<Longrightarrow> prefix pre k \<Longrightarrow> k \<in> set (scan_keys (db_store (fs_db fs)) (fs_ns fs) pre)"
  proof -
    assume e: "file_entry fs k \<noteq> None" and p: "prefix pre k"
    then obtain x where "store_get (db_store (fs_db fs)) (fs_ns fs) k = Some x" using fs_absent [OF assms] by auto
    then have "bt_get (st_index (db_store (fs_db fs))) (fs_ns fs, k) = Some x" by (simp add: store_get_def split: if_splits)
    then show ?thesis unfolding scan_keys_eq using scan_iff [OF i] p by force
  qed
qed

section \<open>The effect of the callbacks\<close>

lemma commit_ttl_effect:
  assumes "fs_inv ext fs" "fits (key_of p) d"
  obtains s' where "commit_ttl ext now hlc p d hint fs = (Ok (), fs\<lparr>fs_db := s'\<rparr>)" "fs_inv ext (fs\<lparr>fs_db := s'\<rparr>)"
    "file_entry (fs\<lparr>fs_db := s'\<rparr>) = (file_entry fs)(key_of p \<mapsto>
       (d, case hint of None \<Rightarrow> live_expires_at now fs p | Some h \<Rightarrow> if h \<noteq> 0 \<and> now < h then h else 0))"
    "\<And>bs. ns_log ext (fs_db fs) (fs_ns fs) bs \<Longrightarrow> ns_log ext s' (fs_ns fs) (bs @ [next_bytes ext bs
       (put_record (key_of p) d hlc (rid_of ext fs) (rid_of ext fs)
          (case hint of None \<Rightarrow> live_expires_at now fs p | Some h \<Rightarrow> if h \<noteq> 0 \<and> now < h then h else 0))])"
proof -
  let ?e = "case hint of None \<Rightarrow> live_expires_at now fs p | Some h \<Rightarrow> if h \<noteq> 0 \<and> now < h then h else 0"
  obtain n s' where s': "store_put ext (fs_ns fs) (key_of p) d hlc (rid_of ext fs) (rid_of ext fs) ?e (fs_db fs) = (Ok n, s')"
    "fs_inv ext (fs\<lparr>fs_db := s'\<rparr>)" "file_entry (fs\<lparr>fs_db := s'\<rparr>) = (file_entry fs)(key_of p \<mapsto> (d, ?e))"
    "\<And>bs. ns_log ext (fs_db fs) (fs_ns fs) bs \<Longrightarrow>
       ns_log ext s' (fs_ns fs) (bs @ [next_bytes ext bs (put_record (key_of p) d hlc (rid_of ext fs) (rid_of ext fs) ?e)])"
    by (rule put_effect_fs [OF assms, of hlc ?e]) blast
  show thesis by (rule that [OF _ s'(2-4)]) (use s'(1) fs_authorized [OF assms(1)] in \<open>simp add: commit_ttl_def Let_def\<close>)
qed

lemma delete_path_effect:
  assumes "fs_inv ext fs" "fits (key_of p) []" "p \<noteq> []"
  obtains s' where "delete_path ext hlc p fs = (Ok (), fs\<lparr>fs_db := s'\<rparr>)" "fs_inv ext (fs\<lparr>fs_db := s'\<rparr>)"
    "file_entry (fs\<lparr>fs_db := s'\<rparr>) = (file_entry fs)(key_of p := None)"
    "\<And>bs. ns_log ext (fs_db fs) (fs_ns fs) bs \<Longrightarrow> ns_log ext s' (fs_ns fs)
       (bs @ [next_bytes ext bs (Record TAG_DEL (key_of p) hlc (rid_of ext fs) (rid_of ext fs) [] 0 [])])"
  by (rule del_effect_fs [OF assms(1,2), of hlc], rule that)
     (use assms(3) fs_authorized [OF assms(1)] in \<open>auto simp: delete_path_def\<close>)

lemma delete_keys_fold:
  assumes "fs_inv ext fs" "\<forall>k \<in> set ks. fits k []"
  shows "delete_keys ext hlc ks fs = (Ok (), fold (del_key ext hlc) ks fs)"
  using assms
proof (induction ks arbitrary: fs)
  case (Cons k ks)
  obtain s' where "delete_key ext hlc k fs = (Ok (), fs\<lparr>fs_db := s'\<rparr>)" "fs_inv ext (fs\<lparr>fs_db := s'\<rparr>)"
    using del_effect_fs [OF Cons.prems(1), of k hlc] Cons.prems(2) by (metis list.set_intros(1))
  then show ?case using Cons by (simp add: del_key_def)
qed simp

lemma move_keys_fold:
  assumes "fs_inv ext fs" "\<forall>k \<in> set ks. \<forall>d e. file_entry fs k = Some (d, e) \<longrightarrow> fits k [] \<and> fits (new @ drop (length old) k) d"
    and "distinct ks" "(\<lambda>k. new @ drop (length old) k) ` set ks \<inter> set ks = {}"
  shows "move_keys ext hlc old new ks fs =
    (Ok (), fold (key_files.move file_entry (put_key ext hlc) (del_key ext hlc) (\<lambda>k. new @ drop (length old) k)) ks fs)"
  using assms
proof (induction ks arbitrary: fs)
  case (Cons k ks)
  let ?f = "\<lambda>k. new @ drop (length old) k"
  let ?move = "key_files.move file_entry (put_key ext hlc) (del_key ext hlc) ?f"
  have fk: "?f k \<noteq> k" "?f k \<notin> set ks" "k \<notin> set ks" using Cons.prems(3,4) by auto
  have m: "?move k fs = (case file_entry fs k of None \<Rightarrow> fs | Some v \<Rightarrow> del_key ext hlc k (put_key ext hlc (?f k) v fs))"
    by (rule fk.move_def)
  have st: "fs_inv ext (?move k fs)" "file_entry (?move k fs) = (if file_entry fs k = None then file_entry fs else
      (file_entry fs)(?f k := file_entry fs k, k := None))"
    using fk.move_step [of ext fs k ?f hlc] Cons.prems(1,2) fk(1) by auto
  have "move_keys ext hlc old new ks (?move k fs) = (Ok (), fold ?move ks (?move k fs))"
    using Cons.prems fk st by (intro Cons.IH) auto
  moreover have "move_keys ext hlc old new (k # ks) fs = move_keys ext hlc old new ks (?move k fs)"
  proof (cases "store_get (db_store (fs_db fs)) (fs_ns fs) k")
    case None
    then show ?thesis using m fs_absent [OF Cons.prems(1), of k] by simp
  next
    case (Some x)
    then obtain v where v: "x = Lww v" "file_entry fs k = Some (v_value v, v_expires_at v)" using fs_lww [OF Cons.prems(1)] by blast
    have f: "fits (?f k) (v_value v)" "fits k []" using Cons.prems(2) v(2) by auto
    obtain n s1 where s1: "store_put ext (fs_ns fs) (?f k) (v_value v) hlc (rid_of ext fs) (rid_of ext fs) (v_expires_at v) (fs_db fs) = (Ok n, s1)"
        "fs_inv ext (fs\<lparr>fs_db := s1\<rparr>)" "put_key ext hlc (?f k) (v_value v, v_expires_at v) fs = fs\<lparr>fs_db := s1\<rparr>"
      using put_effect_fs [OF Cons.prems(1) f(1), of hlc "v_expires_at v"] by metis
    obtain s2 where s2: "delete_key ext hlc k (fs\<lparr>fs_db := s1\<rparr>) = (Ok (), fs\<lparr>fs_db := s1, fs_db := s2\<rparr>)"
      using del_effect_fs [OF s1(2) f(2), of hlc] by blast
    show ?thesis unfolding m v(2) option.case s1(3) using Some v(1) s1(1) s2 by (simp add: del_key_def)
  qed
  ultimately show ?case by simp
qed simp

section \<open>Renaming and removing\<close>

lemma key_of_inj [simp]: "key_of p = key_of q \<longleftrightarrow> p = q"
  by (simp add: key_of_def)

text \<open>Writes leave the snapshot alone.\<close>

lemma snap_kept:
  "commit_ttl ext now hlc p d hint fs = (r, fs') \<Longrightarrow> dk_snap (db_disk (fs_db fs')) = dk_snap (db_disk (fs_db fs))"
  "delete_path ext hlc p fs = (r', fs') \<Longrightarrow> dk_snap (db_disk (fs_db fs')) = dk_snap (db_disk (fs_db fs))"
  by (auto simp: commit_ttl_def delete_path_def delete_key_def store_put_def store_delete_def log_write_def set_ns_files_def Let_def
      split: if_splits option.splits prod.splits sum.splits)

lemma rename_file_effect:
  assumes "fs_inv ext fs" "file_entry fs (key_of p) = Some (d, e)" "\<forall>i. before (ck_now ck i) e"
    and "p \<noteq> q" "p \<noteq> []" "fits (key_of p) d" "fits (key_of q) d"
  obtains s' where "rename_paths ext ck p q fs = (Ok (), fs\<lparr>fs_db := s'\<rparr>)" "fs_inv ext (fs\<lparr>fs_db := s'\<rparr>)"
    "file_entry (fs\<lparr>fs_db := s'\<rparr>) = (file_entry fs)(key_of q \<mapsto> (d, e), key_of p := None)"
    "\<And>bs. ns_log ext (fs_db fs) (fs_ns fs) bs \<Longrightarrow> \<exists>x. ns_log ext s' (fs_ns fs) (bs @ [x,
       next_bytes ext (bs @ [x]) (Record TAG_DEL (key_of p) (ck_hlc ck 1) (rid_of ext fs) (rid_of ext fs) [] 0 [])])"
    "dk_snap (db_disk s') = dk_snap (db_disk (fs_db fs))"
proof -
  have r: "file_exists (ck_now ck 0) fs p" "read_value (ck_now ck 1) fs p = Some d" "live_expires_at (ck_now ck 2) fs p = e"
    using assms(2,3) fs_exists [OF assms(1), of "ck_now ck 0" p] fs_reads(1,3) [OF assms(1), of _ p] by (auto simp: before_def)
  have h: "(case Some e of None \<Rightarrow> live_expires_at (ck_now ck 3) fs q | Some h \<Rightarrow> if h \<noteq> 0 \<and> ck_now ck 3 < h then h else 0) = e"
    using assms(3) by (auto simp: before_def)
  obtain s1 where s1: "commit_ttl ext (ck_now ck 3) (ck_hlc ck 0) q d (Some e) fs = (Ok (), fs\<lparr>fs_db := s1\<rparr>)" "fs_inv ext (fs\<lparr>fs_db := s1\<rparr>)"
      "file_entry (fs\<lparr>fs_db := s1\<rparr>) = (file_entry fs)(key_of q \<mapsto> (d, e))"
      "\<And>bs. ns_log ext (fs_db fs) (fs_ns fs) bs \<Longrightarrow> \<exists>x. ns_log ext s1 (fs_ns fs) (bs @ [x])"
    by (rule commit_ttl_effect [OF assms(1,7), of "ck_now ck 3" "ck_hlc ck 0" "Some e"]) (use h in auto)
  have f: "fits (key_of p) []" using assms(6) by (simp add: fits_def)
  obtain s2 where s2: "delete_path ext (ck_hlc ck 1) p (fs\<lparr>fs_db := s1\<rparr>) = (Ok (), fs\<lparr>fs_db := s1, fs_db := s2\<rparr>)"
      "fs_inv ext (fs\<lparr>fs_db := s1, fs_db := s2\<rparr>)"
      "file_entry (fs\<lparr>fs_db := s1, fs_db := s2\<rparr>) = (file_entry (fs\<lparr>fs_db := s1\<rparr>))(key_of p := None)"
      "\<And>bs. ns_log ext s1 (fs_ns fs) bs \<Longrightarrow> ns_log ext s2 (fs_ns fs)
         (bs @ [next_bytes ext bs (Record TAG_DEL (key_of p) (ck_hlc ck 1) (rid_of ext fs) (rid_of ext fs) [] 0 [])])"
    by (rule delete_path_effect [OF s1(2) f assms(5), of "ck_hlc ck 1"]) (simp add: rid_of_def)
  have ren: "rename_paths ext ck p q fs = (Ok (), fs\<lparr>fs_db := s2\<rparr>)"
    using assms(4) r s1(1) s2(1) fs_authorized [OF assms(1)] by (simp add: rename_paths_def)
  have snap: "dk_snap (db_disk s2) = dk_snap (db_disk (fs_db fs))"
    using snap_kept(1) [OF s1(1)] snap_kept(2) [OF s2(1)] by simp
  show thesis
  proof (rule that [OF ren _ _ _ snap])
    show "fs_inv ext (fs\<lparr>fs_db := s2\<rparr>)" "file_entry (fs\<lparr>fs_db := s2\<rparr>) = (file_entry fs)(key_of q \<mapsto> (d, e), key_of p := None)"
      using s2(2,3) s1(3) by simp_all
    show "\<exists>x. ns_log ext s2 (fs_ns fs) (bs @ [x, next_bytes ext (bs @ [x]) (Record TAG_DEL (key_of p) (ck_hlc ck 1) (rid_of ext fs) (rid_of ext fs) [] 0 [])])"
      if b: "ns_log ext (fs_db fs) (fs_ns fs) bs" for bs
    proof -
      obtain x where "ns_log ext s1 (fs_ns fs) (bs @ [x])" using s1(4) [OF b] by blast
      from s2(4) [OF this] show ?thesis by (intro exI [of _ x]) simp
    qed
  qed
qed

lemma rename_dir_effect:
  assumes "fs_inv ext fs" "\<not> file_exists (ck_now ck 0) fs p" "p \<noteq> q"
    and "\<not> prefix (dir_prefix p) (dir_prefix q)" "\<not> prefix (dir_prefix q) (dir_prefix p)"
    and "\<forall>rel d e. file_entry fs (dir_prefix p @ rel) = Some (d, e) \<longrightarrow> fits (dir_prefix p @ rel) d \<and> fits (dir_prefix q @ rel) d"
  shows "\<exists>fs'. rename_paths ext ck p q fs = (Ok (), fs') \<and> fs_inv ext fs' \<and>
    (\<forall>rel. file_entry fs' (dir_prefix p @ rel) = None) \<and>
    (\<forall>rel. file_entry fs' (dir_prefix q @ rel) =
      (case file_entry fs (dir_prefix p @ rel) of Some x \<Rightarrow> Some x | None \<Rightarrow> file_entry fs (dir_prefix q @ rel))) \<and>
    (\<forall>k. \<not> prefix (dir_prefix p) k \<longrightarrow> \<not> prefix (dir_prefix q) k \<longrightarrow> file_entry fs' k = file_entry fs k)"
proof -
  let ?old = "dir_prefix p" and ?new = "dir_prefix q"
  let ?ks = "scan_keys (db_store (fs_db fs)) (fs_ns fs) ?old"
  let ?f = "\<lambda>k. ?new @ drop (length ?old) k"
  let ?move = "key_files.move file_entry (put_key ext (ck_hlc ck 0)) (del_key ext (ck_hlc ck 0)) ?f"
  note sk = scan_keys_fs [OF assms(1), where pre = ?old]
  have apart: "\<not> (prefix ?old k \<and> prefix ?new k)" for k using assms(4,5) prefix_same_cases by blast
  have dis: "?f ` set ?ks \<inter> set ?ks = {}" using sk(2) apart by force
  have inj: "inj_on ?f (set ?ks)" 
  proof (rule inj_onI)
    fix x y assume "x \<in> set ?ks" "y \<in> set ?ks" "?f x = ?f y"
    then show "x = y" using sk(2) [of x] sk(2) [of y] by (auto simp: prefix_def)
  qed
  have fit: "\<forall>k \<in> set ?ks. \<forall>d e. file_entry fs k = Some (d, e) \<longrightarrow> fits k [] \<and> fits (?f k) d"
  proof (intro ballI allI impI)
    fix k d e assume "k \<in> set ?ks" and e: "file_entry fs k = Some (d, e)"
    then obtain rel where "k = ?old @ rel" using sk(2) [of k] by (auto simp: prefix_def)
    then have "fits k d" "fits (?f k) d" using assms(6) e by auto
    then show "fits k [] \<and> fits (?f k) d" by (simp add: fits_def)
  qed
  then have ok: "\<forall>k \<in> set ?ks. \<forall>v. file_entry fs k = Some v \<longrightarrow> fits k [] \<and> fits (?f k) (fst v)" by auto
  note mm = fk.move_many [OF assms(1) sk(1) inj dis ok, of "ck_hlc ck 0"]
  have fold: "move_keys ext (ck_hlc ck 0) ?old ?new ?ks fs = (Ok (), fold ?move ?ks fs)"
    by (rule move_keys_fold [OF assms(1) fit sk(1) dis])
  have "rename_paths ext ck p q fs = (Ok (), fold ?move ?ks fs)"
  proof (cases "?ks = []")
    case True
    then show ?thesis using assms(2,3) fs_authorized [OF assms(1)] by (simp add: rename_paths_def dir_exists_def Let_def)
  next
    case False
    then have "dir_exists fs p" using sk(2) by (auto simp: dir_exists_def Let_def list_ex_iff prefix_length_le dest: last_in_set)
    then show ?thesis using assms(2,3) fs_authorized [OF assms(1)] fold by (simp add: rename_paths_def)
  qed
  moreover have "file_entry (fold ?move ?ks fs) (?old @ rel) = None" for rel
  proof (cases "?old @ rel \<in> set ?ks")
    case False
    moreover from False have "file_entry fs (?old @ rel) = None" using sk(3) [of "?old @ rel", OF _ prefixI [OF refl]] by metis
    moreover have "?old @ rel \<noteq> ?f k" for k using apart [of "?old @ rel"] by (metis prefixI)
    ultimately show ?thesis using mm by simp
  qed (use mm in blast)
  moreover have "file_entry (fold ?move ?ks fs) (?new @ rel) =
      (case file_entry fs (?old @ rel) of Some x \<Rightarrow> Some x | None \<Rightarrow> file_entry fs (?new @ rel))" for rel
  proof (cases "file_entry fs (?old @ rel)")
    case None
    have "?new @ rel \<notin> set ?ks" using sk(2) [of "?new @ rel"] apart [of "?new @ rel"] by auto
    moreover have "\<forall>k \<in> set ?ks. ?new @ rel = ?f k \<longrightarrow> file_entry fs k = None"
    proof (intro ballI impI)
      fix k assume "k \<in> set ?ks" "?new @ rel = ?f k"
      then show "file_entry fs k = None" using sk(2) [of k] None by (auto simp: prefix_def)
    qed
    ultimately show ?thesis using mm None by simp
  next
    case (Some x)
    then have "?old @ rel \<in> set ?ks" using sk(3) by simp
    then show ?thesis using mm Some by force
  qed
  moreover have "file_entry (fold ?move ?ks fs) k = file_entry fs k" if n: "\<not> prefix ?old k" "\<not> prefix ?new k" for k
  proof -
    have "k \<notin> set ?ks" "k \<noteq> ?f k'" for k' using n sk(2) [of k] by auto
    then show ?thesis using mm by blast
  qed
  ultimately show ?thesis using mm by (intro exI [of _ "fold ?move ?ks fs"]) blast
qed

section \<open>Writing through a handle\<close>

lemma ino_for_again: "ino_for p fs = (i, fs') \<Longrightarrow> ino_for p fs' = (i, fs')"
  by (auto simp: ino_for_def Let_def split: option.splits)

lemma write_all_effect:
  assumes "path_of fs ino = Some p" "fs_bufs fs = (fh, h) # hs" "\<not> h_append h" "fh \<notin> fst ` set hs"
  shows "\<exists>h'. write_all ino fh ws fs = fs\<lparr>fs_bufs := (fh, h') # hs\<rparr> \<and> h_data h' = content ws (h_data h) \<and>
     h_dirty h' = (h_dirty h \<or> ws \<noteq> [])"
  using assms
proof (induction ws arbitrary: fs h)
  case Nil
  then show ?case by (intro exI [of _ h]) (simp add: write_all_def content_def)
next
  case (Cons w ws)
  obtain off d where w: "w = (off, d)" by fastforce
  let ?h = "h\<lparr>h_data := splice off d (h_data h), h_dirty := True\<rparr>"
  let ?fs = "fs\<lparr>fs_bufs := (fh, ?h) # hs\<rparr>"
  have "map (\<lambda>(i, x). if i = fh then (i, ?h) else (i, x)) hs = hs"
    using Cons.prems(4) by (intro map_idI) force
  then have "snd (write_fs ino fh off d fs) = ?fs"
    using Cons.prems(1-3) by (simp add: write_fs_def set_handle_def Let_def)
  then have "write_all ino fh (w # ws) fs = write_all ino fh ws ?fs" by (simp add: write_all_def w)
  moreover obtain h' where "write_all ino fh ws ?fs = ?fs\<lparr>fs_bufs := (fh, h') # hs\<rparr>" "h_data h' = content ws (h_data ?h)"
      "h_dirty h' = (h_dirty ?h \<or> ws \<noteq> [])"
    using Cons.IH [of ?fs ?h] Cons.prems by auto
  ultimately show ?case by (intro exI [of _ h']) (simp add: content_def w)
qed

lemma create_effect:
  assumes "table_ok fs" "fs_inv ext fs" "length (fs_bufs fs) < INO_CAP" "path_of fs parent = Some pp"
    and "file_entry fs (key_of (join_child pp name)) = None" "fits (key_of (join_child pp name)) []"
  obtains a fh fs' h where "create ext ck parent name fs = (Ok (a, fh), fs')" "fs_inv ext fs'" "path_of fs' (fa_ino a) = Some (join_child pp name)"
    "file_entry fs' = (file_entry fs)(key_of (join_child pp name) \<mapsto> ([], 0))" "fs_bufs fs' = (fh, h) # fs_bufs fs"
    "h_data h = []" "\<not> h_dirty h" "\<not> h_append h" "fh \<notin> fst ` set (fs_bufs fs)"
proof -
  let ?p = "join_child pp name"
  have live: "live_expires_at (ck_now ck 0) fs ?p = 0" using fs_reads(3) [OF assms(2), of "ck_now ck 0" ?p] assms(5) by simp
  obtain s1 where s1: "commit_ttl ext (ck_now ck 0) (ck_hlc ck 0) ?p [] None fs = (Ok (), fs\<lparr>fs_db := s1\<rparr>)" "fs_inv ext (fs\<lparr>fs_db := s1\<rparr>)"
      "file_entry (fs\<lparr>fs_db := s1\<rparr>) = (file_entry fs)(key_of ?p \<mapsto> ([], 0))"
    by (rule commit_ttl_effect [OF assms(2,6), of "ck_now ck 0" "ck_hlc ck 0" None]) (use live in auto)
  let ?fs1 = "fs\<lparr>fs_db := s1\<rparr>"
  have t1: "table_ok ?fs1" using stable_db [OF stable_refl [OF assms(1)]] by (simp add: keeps_paths_def)
  obtain i fs2 where i: "ino_for ?p ?fs1 = (i, fs2)" by (rule prod.exhaust)
  obtain a fs2' where a': "fs_attr (ck_now ck 1) ?p False ?fs1 = (a, fs2')" by (rule prod.exhaust)
  then have a: "fs_attr (ck_now ck 1) ?p False ?fs1 = (a, fs2)" "fa_ino a = i"
    by (auto simp: fs_attr_def attr_of_def Let_def i split: prod.splits)
  have 2: "path_of fs2 i = Some ?p" "fs_db fs2 = s1" "fs_ns fs2 = fs_ns fs" "fs_bufs fs2 = fs_bufs fs" "fs_next_fh fs2 = fs_next_fh fs"
    using ino_for_ok [OF t1 _ i] ino_for_frame [OF i] assms(3) by auto
  let ?h = "\<lparr>h_ino = i, h_data = [], h_dirty = False, h_append = False\<rparr>"
  let ?fs = "fs2\<lparr>fs_next_fh := fs_next_fh fs2 + 1, fs_bufs := (fs_next_fh fs2, ?h) # fs_bufs fs2\<rparr>"
  show thesis
  proof (rule that)
    show "create ext ck parent name fs = (Ok (a, fs_next_fh fs2), ?fs)"
      using assms(4) s1(1) a(1) ino_for_again [OF i] by (simp add: create_def commit_def add_handle_def Let_def)
    show "fs_inv ext ?fs" using s1(2) 2 by (simp add: fs_inv_def)
    show "path_of ?fs (fa_ino a) = Some ?p" using 2(1) a(2) by simp
    show "file_entry ?fs = (file_entry fs)(key_of ?p \<mapsto> ([], 0))" using s1(3) 2 by (simp add: file_entry_def fun_eq_iff)
    show "fs_bufs ?fs = (fs_next_fh fs2, ?h) # fs_bufs fs" using 2(4) by simp
    show "fs_next_fh fs2 \<notin> fst ` set (fs_bufs fs)" using assms(1) 2(5) by (force simp: table_ok_def handles_ok_def)
  qed simp_all
qed

lemma flush_effect:
  assumes "fs_inv ext fs" "path_of fs ino = Some p" "fs_bufs fs = (fh, h) # hs" "fh \<notin> fst ` set hs"
    and "file_entry fs (key_of p) = Some (d0, 0)" "h_dirty h \<or> h_data h = d0" "fits (key_of p) (h_data h)"
  obtains s' where "flush ext ck ino fh fs = (Ok (), fs\<lparr>fs_bufs := hs, fs_db := s'\<rparr>)" "fs_inv ext (fs\<lparr>fs_bufs := hs, fs_db := s'\<rparr>)"
    "file_entry (fs\<lparr>fs_bufs := hs, fs_db := s'\<rparr>) = (file_entry fs)(key_of p \<mapsto> (h_data h, 0))"
proof -
  have "filter (\<lambda>(i, _). i \<noteq> fh) hs = hs" using assms(4) by (intro filter_True) force
  then have drop: "drop_handle fh fs = fs\<lparr>fs_bufs := hs\<rparr>" using assms(3) by (simp add: drop_handle_def)
  have same: "file_entry (fs\<lparr>fs_bufs := hs\<rparr>) = file_entry fs" by (simp add: file_entry_def fun_eq_iff)
  have inv: "fs_inv ext (fs\<lparr>fs_bufs := hs\<rparr>)" using assms(1) by (simp add: fs_inv_def)
  show thesis
  proof (cases "h_dirty h")
    case True
    have live: "live_expires_at (ck_now ck 0) (fs\<lparr>fs_bufs := hs\<rparr>) p = 0"
      using fs_reads(3) [OF inv, of "ck_now ck 0" p] assms(5) same by simp
    obtain s' where s': "commit_ttl ext (ck_now ck 0) (ck_hlc ck 0) p (h_data h) None (fs\<lparr>fs_bufs := hs\<rparr>) = (Ok (), fs\<lparr>fs_bufs := hs, fs_db := s'\<rparr>)"
        "fs_inv ext (fs\<lparr>fs_bufs := hs, fs_db := s'\<rparr>)"
        "file_entry (fs\<lparr>fs_bufs := hs, fs_db := s'\<rparr>) = (file_entry fs)(key_of p \<mapsto> (h_data h, 0))"
      by (rule commit_ttl_effect [OF inv assms(7), of "ck_now ck 0" "ck_hlc ck 0" None]) (use live same in simp)
    show thesis by (rule that [OF _ s'(2,3)]) (use assms(2,3) True drop s'(1) in \<open>simp add: flush_def commit_def\<close>)
  next
    case False
    then show thesis
      using that [of "fs_db fs"] assms(2,3,5,6) drop inv same by (auto simp: flush_def Let_def fun_eq_iff)
  qed
qed

lemma deleted_logged:
  assumes "ext_ok ext" "rec_wf (Record TAG_DEL k hlc r a [] 0 [])" "b = next_bytes ext ys (Record TAG_DEL k hlc r a [] 0 [])"
  shows "key_deleted k (ops_of n (xs @ b # zs))"
  using recs_of_next [OF assms(1,2), of ys]
  by (auto simp: ops_of_append key_deleted_def rec_ops_def is_del_def valid_sub_tag_def assms(3) TAG_DEL_def TAG_BATCH_def)

lemma fs_invI:
  "ext_ok ext \<Longrightarrow> db_inv ext s \<Longrightarrow> bt_get (st_policies (db_store s)) (fs_ns fs) = Some PolicyLww \<Longrightarrow> fs_inv ext (fs\<lparr>fs_db := s\<rparr>)"
  by (simp add: fs_inv_def)

lemma invisible_read:
  assumes "fs_inv ext fs" "visible (db_store (fs_db fs)) (fs_ns fs) (key_of p) = None"
  shows "read_value now fs p = None"
proof -
  have "file_entry fs (key_of p) = None"
  proof (rule ccontr)
    assume "file_entry fs (key_of p) \<noteq> None"
    then obtain e where e: "store_get (db_store (fs_db fs)) (fs_ns fs) (key_of p) = Some e"
      using fs_absent [OF assms(1), of "key_of p"] by auto
    then obtain v where "e = Lww v" using fs_lww [OF assms(1)] by blast
    then show False using assms(2) e by (simp add: visible_def latest_entry_value_def)
  qed
  then show ?thesis using fs_reads(1) [OF assms(1), of now p] by simp
qed

section \<open>A mount\<close>

lemma demo_fs:
  obtains fs where "fs_reach demo_ext zero32 fs" "fs_inv demo_ext fs" "file_entry fs = (\<lambda>_. None)" "fs_bufs fs = []"
    "path_of fs ROOT_INO = Some []" "dk_snap (db_disk (fs_db fs)) = None"
proof -
  let ?ns = "''u/'' @ hex_enc demo_ext zero32"
  have v: "valid_ns ?ns" using demo_ext_ok by (simp add: valid_ns_def ext_ok_def hex_ok_def zero32_def)
  have n: "\<not> bt_contains ?ns (st_policies (db_store (empty_db False)))"
    by (simp add: empty_db_def empty_store_def bt_contains_def)
  obtain s where s: "create_namespace demo_ext ?ns PolicyLww (empty_db False) = (Ok (), s)" "db_inv demo_ext s"
      "bt_get (st_policies (db_store s)) ?ns = Some PolicyLww" "st_index (db_store s) = []"
    by (rule create_namespace_effect [OF demo_ext_ok empty_db_inv v n, of PolicyLww]) (simp add: empty_db_def empty_store_def)
  have "dk_snap (db_disk s) = None"
    using s(1) by (auto simp: create_namespace_def empty_db_def empty_store_def Let_def set_ns_files_def split: if_splits sum.splits)
  then show thesis
    using s demo_ext_ok
    by (intro that [of "new_fs demo_ext s zero32 0"] fs_reach.mount)
       (simp_all add: fs_inv_def new_fs_def file_entry_def store_get_def path_of_def fun_eq_iff)
qed

section \<open>Properties\<close>





text \<open>A file renamed away and back is lost at a restart: both renames succeed and the mount shows the file
  under its old name, but the tombstone that the first rename left outranks the later put when the
  log is replayed, so that after opening the same directory, without a checkpoint in between, the
  file is gone.\<close>

theorem renamed_back_is_lost:
  assumes "fs_inv ext fs" "path_of fs parent = Some pp" "path_of fs newparent = Some pq"
    and "p = join_child pp name" "q = join_child pq newname" "p \<noteq> q" "p \<noteq> []" "q \<noteq> []"
    and "file_entry fs (key_of p) = Some (d, 0)" "dk_snap (db_disk (fs_db fs)) = None" "fits (key_of p) d" "fits (key_of q) d"
  shows "\<exists>fs1 fs2 s. rename_fs ext ck parent name newparent newname False fs = (Ok (), fs1) \<and>
    rename_fs ext ck' newparent newname parent name False fs1 = (Ok (), fs2) \<and> read_value now fs2 p = Some d \<and>
    open_durable ext now_ms (db_disk (fs_db fs2)) durable = Ok s \<and> read_value now (fs2\<lparr>fs_db := s\<rparr>) p = None"
proof -
  obtain bs where bs: "ns_log ext (fs_db fs) (fs_ns fs) bs" using fs_inv_log [OF assms(1)] .
  have b0: "\<forall>i. before (ck_now ck i) 0" "\<forall>i. before (ck_now ck' i) 0" by (simp_all add: before_def)
  obtain s1 where s1: "rename_paths ext ck p q fs = (Ok (), fs\<lparr>fs_db := s1\<rparr>)" "fs_inv ext (fs\<lparr>fs_db := s1\<rparr>)"
      "file_entry (fs\<lparr>fs_db := s1\<rparr>) = (file_entry fs)(key_of q \<mapsto> (d, 0), key_of p := None)"
      "\<And>bs. ns_log ext (fs_db fs) (fs_ns fs) bs \<Longrightarrow> \<exists>x. ns_log ext s1 (fs_ns fs) (bs @ [x,
         next_bytes ext (bs @ [x]) (Record TAG_DEL (key_of p) (ck_hlc ck 1) (rid_of ext fs) (rid_of ext fs) [] 0 [])])"
      "dk_snap (db_disk s1) = dk_snap (db_disk (fs_db fs))"
    by (rule rename_file_effect [OF assms(1,9) b0(1) assms(6,7,11,12)]) blast
  let ?fs1 = "fs\<lparr>fs_db := s1\<rparr>"
  have q: "file_entry ?fs1 (key_of q) = Some (d, 0)" using s1(3) assms(6) by simp
  obtain s2 where s2: "rename_paths ext ck' q p ?fs1 = (Ok (), ?fs1\<lparr>fs_db := s2\<rparr>)" "fs_inv ext (?fs1\<lparr>fs_db := s2\<rparr>)"
      "file_entry (?fs1\<lparr>fs_db := s2\<rparr>) = (file_entry ?fs1)(key_of p \<mapsto> (d, 0), key_of q := None)"
      "\<And>bs. ns_log ext (fs_db ?fs1) (fs_ns ?fs1) bs \<Longrightarrow> \<exists>x. ns_log ext s2 (fs_ns ?fs1) (bs @ [x,
         next_bytes ext (bs @ [x]) (Record TAG_DEL (key_of q) (ck_hlc ck' 1) (rid_of ext ?fs1) (rid_of ext ?fs1) [] 0 [])])"
      "dk_snap (db_disk s2) = dk_snap (db_disk (fs_db ?fs1))"
    by (rule rename_file_effect [OF s1(2) q b0(2) assms(6) [symmetric] assms(8,12,11)]) blast
  let ?fs2 = "fs\<lparr>fs_db := s2\<rparr>"
  have i2: "fs_inv ext ?fs2" "file_entry ?fs2 (key_of p) = Some (d, 0)" using s2(2,3) assms(6) by simp_all
  obtain x y z where log: "ns_log ext s2 (fs_ns fs) (bs @ x #
      next_bytes ext (bs @ [x]) (Record TAG_DEL (key_of p) (ck_hlc ck 1) (rid_of ext fs) (rid_of ext fs) [] 0 []) # [y, z])"
    using s1(4) [OF bs] s2(4) by fastforce
  have wf: "rec_wf (Record TAG_DEL (key_of p) (ck_hlc ck 1) (rid_of ext fs) (rid_of ext fs) [] 0 [])"
    using fits_del [of "key_of p" "rid_of ext fs" "ck_hlc ck 1"] assms(11) by (auto simp: fits_def op_wf_def rec_wf_def)
  have i: "ext_ok ext" "db_inv ext s2" "dk_snap (db_disk s2) = None"
    using i2(1) s1(5) s2(5) assms(10) by (simp_all add: fs_inv_def)
  obtain s where s: "open_durable ext now_ms (db_disk s2) durable = Ok s" "db_inv ext s" "st_policies (db_store s) = st_policies (db_store s2)"
      "\<And>ns bs k. ns_log ext s2 ns bs \<Longrightarrow> visible (db_store s) ns k = Replication.view_of (ops_of 0 bs) k"
    using open_view [OF i, of now_ms durable] by blast
  have "visible (db_store s) (fs_ns fs) (key_of p) = None"
    using s(4) [OF log, of "key_of p"] deleted_logged [OF i(1) wf refl, of 0 "bs @ [x]" "bs @ [x]" "[y, z]"]
    by (simp add: Replication.view_of_def)
  then have "read_value now (fs\<lparr>fs_db := s\<rparr>) p = None"
    using i2(1) s(2,3) by (intro invisible_read [where ext = ext]) (simp_all add: fs_inv_def)
  moreover have "read_value now ?fs2 p = Some d" using fs_reads(1) [OF i2(1), of now p] i2(2) by (simp add: before_def)
  ultimately show ?thesis
    using s1(1) s2(1) s(1) assms(2-5) by (intro exI [of _ ?fs1] exI [of _ ?fs2] exI [of _ s]) (simp add: rename_fs_def)
qed

theorem renamed_back_is_lost_witness:
  "\<exists>fs fs1 fs2 s. rename_fs demo_ext \<lparr>ck_now = (\<lambda>_. 5), ck_hlc = (\<lambda>_. 9)\<rparr> ROOT_INO [97] ROOT_INO [98] False fs = (Ok (), fs1) \<and>
     rename_fs demo_ext \<lparr>ck_now = (\<lambda>_. 6), ck_hlc = (\<lambda>_. 12)\<rparr> ROOT_INO [98] ROOT_INO [97] False fs1 = (Ok (), fs2) \<and>
     read_value 7 fs2 [97] = Some [1] \<and>
     open_durable demo_ext 8 (db_disk (fs_db fs2)) False = Ok s \<and> read_value 7 (fs2\<lparr>fs_db := s\<rparr>) [97] = None"
proof -
  obtain fs0 where fs0: "fs_inv demo_ext fs0" "file_entry fs0 = (\<lambda>_. None)" "path_of fs0 ROOT_INO = Some []"
      "dk_snap (db_disk (fs_db fs0)) = None"
    by (rule demo_fs)
  have f: "fits (key_of [97]) [1]" "fits (key_of [98]) [1]" by (simp_all add: fits_def key_of_def fs_root_def)
  have live: "live_expires_at 3 fs0 [97] = 0" using fs_reads(3) [OF fs0(1), of 3 "[97]"] fs0(2) by simp
  obtain s where s: "commit_ttl demo_ext 3 4 [97] [1] None fs0 = (Ok (), fs0\<lparr>fs_db := s\<rparr>)" "fs_inv demo_ext (fs0\<lparr>fs_db := s\<rparr>)"
      "file_entry (fs0\<lparr>fs_db := s\<rparr>) = (file_entry fs0)(key_of [97] \<mapsto> ([1], 0))"
    by (rule commit_ttl_effect [OF fs0(1) f(1), of 3 4 None]) (use live in auto)
  let ?fs = "fs0\<lparr>fs_db := s\<rparr>"
  have "dk_snap (db_disk (fs_db ?fs)) = None" using snap_kept(1) [OF s(1)] fs0(4) by simp
  moreover have "path_of ?fs ROOT_INO = Some []" using fs0(3) by simp
  moreover have "file_entry ?fs (key_of [97]) = Some ([1], 0)" unfolding s(3) by simp
  moreover have "[97] = join_child [] [97]" "[98] = join_child [] [98]" by (simp_all add: join_child_def)
  moreover have "[97 :: byte] \<noteq> [98]" "[97 :: byte] \<noteq> []" "[98 :: byte] \<noteq> []" by simp_all
  ultimately show ?thesis
    using renamed_back_is_lost [OF s(2), of ROOT_INO "[]" ROOT_INO "[]" "[97]" "[97]" "[98]" "[98]" "[1]"
        "\<lparr>ck_now = (\<lambda>_. 5), ck_hlc = (\<lambda>_. 9)\<rparr>" "\<lparr>ck_now = (\<lambda>_. 6), ck_hlc = (\<lambda>_. 12)\<rparr>" 7 8 False] f by blast
qed

end
