(* ===== verification/Lifetime.thy ===== *)
theory Lifetime
  imports Compaction
begin

text \<open>
  The life of a data directory: writes, received records, checkpoints and live compactions, with the
  node killed and opened again at any moment in between.  Opening always succeeds and finds every
  logged record; and as long as local writes are regular, that is, neither behind the clock of what
  is stored nor on a deleted key, the opened node holds exactly the entries and tombstones
  of the one that was killed.
\<close>

section \<open>Definitions\<close>

text \<open>The sizes that live compaction needs: records that can be encoded.\<close>

definition gc_fits :: "u64 \<Rightarrow> store \<Rightarrow> bool" where
  "gc_fits now st \<longleftrightarrow> st_peer_clocks st = [] \<and>
     (\<forall>ns \<in> set (bt_keys (st_policies st)). \<forall>r \<in> set (compact_records st ns now). rec_wf r)"

inductive life :: "extern \<Rightarrow> db \<Rightarrow> bool" for ext where
  fresh: "life ext (empty_db durable)"
| step: "life ext s \<Longrightarrow> db_step ext s s' \<Longrightarrow> life ext s'"
| ckpt: "life ext s \<Longrightarrow> snap_ok (db_store s) \<Longrightarrow> life ext (snd (checkpoint s))"
| gc: "life ext s \<Longrightarrow> gc_fits now (db_store s) \<Longrightarrow> gc_live ext now s = (Ok n, s') \<Longrightarrow> snap_ok (db_store s') \<Longrightarrow> life ext s'"
| restart: "life ext s \<Longrightarrow> open_durable ext now (db_disk s) durable = Ok s' \<Longrightarrow> life ext s'"

text \<open>A regular local operation: its key is not deleted and what is stored is not newer.\<close>

definition local_ok :: "store \<Rightarrow> namespace \<Rightarrow> log_record \<Rightarrow> bool" where
  "local_ok st ns r \<longleftrightarrow>
     (is_put r \<longrightarrow> \<not> bt_contains (ns, r_key r) (st_tombs st) \<and>
        (case bt_get (st_index st) (ns, r_key r) of Some (Lww w) \<Rightarrow> vkey w \<le> (r_hlc r, r_replica r) | _ \<Rightarrow> True))"

fun ops_ok :: "extern \<Rightarrow> namespace \<Rightarrow> log_record list \<Rightarrow> nat \<Rightarrow> store \<Rightarrow> bool" where
  "ops_ok ext ns [] sq st = True"
| "ops_ok ext ns (op # ops) sq st = (local_ok st ns op \<and> ops_ok ext ns ops sq (snd (apply_local_op ext ns op sq st)))"

text \<open>The number of records of a namespace that a snapshot has accounted for, and namespaces that
  nothing is left of.\<close>

definition covered :: "store \<Rightarrow> namespace \<Rightarrow> nat" where
  "covered base ns = (if bt_contains ns (st_policies base) then fst (head_or_zero base ns) else 0)"

definition tidy :: "store \<Rightarrow> bool" where
  "tidy st \<longleftrightarrow> (\<forall>ns k. \<not> bt_contains ns (st_policies st) \<longrightarrow> key_state st ns k = (None, None))"

definition recoverable :: "extern \<Rightarrow> db \<Rightarrow> bool" where
  "recoverable ext s \<longleftrightarrow> db_inv ext s \<and> (\<exists>base. snap_agrees ext s base (covered base))"

definition replays :: "extern \<Rightarrow> store \<Rightarrow> db \<Rightarrow> bool" where
  "replays ext base s \<longleftrightarrow>
     (\<forall>ns bs p k. ns_log ext s ns bs \<longrightarrow> bt_get (st_policies (db_store s)) ns = Some p \<longrightarrow>
        key_state (db_store s) ns k = fold (key_step p k) (ops_of (covered base ns) (drop (covered base ns) bs)) (key_state base ns k))"

definition replayable :: "extern \<Rightarrow> db \<Rightarrow> bool" where
  "replayable ext s \<longleftrightarrow> db_inv ext s \<and> tidy (db_store s) \<and>
     (\<exists>base. snap_agrees ext s base (covered base) \<and> tidy base \<and> replays ext base s)"

text \<open>A life in which the local writes are regular.\<close>

inductive calm_life :: "extern \<Rightarrow> db \<Rightarrow> bool" for ext where
  fresh: "calm_life ext (empty_db durable)"
| create: "calm_life ext s \<Longrightarrow> calm_life ext (snd (create_namespace ext ns p s))"
| put: "calm_life ext s \<Longrightarrow> op_wf (put_record k val hlc replica author expires_at) \<Longrightarrow>
    local_ok (db_store s) ns (put_record k val hlc replica author expires_at) \<Longrightarrow>
    calm_life ext (snd (store_put ext ns k val hlc replica author expires_at s))"
| delete: "calm_life ext s \<Longrightarrow> op_wf (Record TAG_DEL k hlc replica author [] 0 []) \<Longrightarrow>
    calm_life ext (snd (store_delete ext ns k hlc replica author s))"
| batch: "calm_life ext s \<Longrightarrow> rec_wf (batch_record ops) \<Longrightarrow>
    (\<forall>sq. ops_ok ext ns ops sq (db_store s)) \<Longrightarrow> calm_life ext (snd (put_batch ext ns ops s))"
| index: "calm_life ext s \<Longrightarrow> op_wf (meta_record TAG_INDEX value hlc replica author) \<Longrightarrow>
    calm_life ext (snd (set_index ext ns value hlc replica author s))"
| schema: "calm_life ext s \<Longrightarrow> op_wf (meta_record TAG_SCHEMA value hlc replica author) \<Longrightarrow>
    calm_life ext (snd (set_schema ext ns value hlc replica author s))"
| synced: "calm_life ext s \<Longrightarrow> \<forall>r \<in> set rs. rec_wf r \<Longrightarrow> calm_life ext (snd (apply_synced_batch ext ns rs s))"
| meta: "calm_life ext s \<Longrightarrow> calm_life ext (s\<lparr>db_store := meta_set k v (db_store s)\<rparr>)"
| clock: "calm_life ext s \<Longrightarrow> calm_life ext (s\<lparr>db_store := set_peer_clock name diff (db_store s)\<rparr>)"
| ckpt: "calm_life ext s \<Longrightarrow> snap_ok (db_store s) \<Longrightarrow> calm_life ext (snd (checkpoint s))"
| gc: "calm_life ext s \<Longrightarrow> gc_fits now (db_store s) \<Longrightarrow> gc_live ext now s = (Ok n, s') \<Longrightarrow> snap_ok (db_store s') \<Longrightarrow>
    calm_life ext s'"
| restart: "calm_life ext s \<Longrightarrow> open_durable ext now (db_disk s) durable = Ok s' \<Longrightarrow> calm_life ext s'"

section \<open>The snapshot along the way\<close>

lemma agrees_upto:
  assumes "db_inv ext s" "snap_agrees ext s base d"
  shows "snap_agrees ext s base (covered base)"
    and "ns_log ext s ns bs \<Longrightarrow> covered base ns = d ns"
proof -
  have e: "covered base n = d n" if "ns_log ext s n b" for n b
    using assms(2) that unfolding snap_agrees_def covered_def by (metis fst_conv)
  then show "snap_agrees ext s base (covered base)" "ns_log ext s ns bs \<Longrightarrow> covered base ns = d ns"
    using assms(2) unfolding snap_agrees_def by auto
qed

lemma agrees_grow:
  assumes "ext_ok ext" "db_inv ext s" "snap_agrees ext s base (covered base)" "grows ext s s'"
    and "dk_snap (db_disk s') = dk_snap (db_disk s)"
    and "\<And>ns p. bt_get (st_policies (db_store s)) ns = Some p \<Longrightarrow> bt_get (st_policies (db_store s')) ns = Some p"
  shows "snap_agrees ext s' base (covered base)"
proof -
  have "covered base ns \<le> length bs \<and> (if bt_contains ns (st_policies base)
          then head_or_zero base ns = (covered base ns, chain_head (sha256 ext) zero32 (take (covered base ns) bs))
          else covered base ns = 0)" if bs: "ns_log ext s' ns bs" for ns bs
  proof (cases "bt_contains ns (st_policies base)")
    case True
    then have "bt_contains ns (st_policies (db_store s))" using assms(3) by (auto simp: snap_agrees_def bt_contains_def)
    then obtain b where b: "ns_log ext s ns b" using db_invD(5) [OF assms(2)] by blast
    then obtain new where "bs = b @ new" using assms(4) ns_log_inj [OF assms(1) bs] unfolding grows_def by blast
    then show ?thesis using assms(3) b True unfolding snap_agrees_def by fastforce
  qed (simp add: covered_def)
  then show ?thesis using assms(3,5,6) unfolding snap_agrees_def by (cases "dk_snap (db_disk s)") simp_all
qed

lemma log_write_frame [simp]:
  "st_policies (db_store (snd (log_write ext ns l r s))) = st_policies (db_store s)"
  "st_index (db_store (snd (log_write ext ns l r s))) = st_index (db_store s)"
  "st_tombs (db_store (snd (log_write ext ns l r s))) = st_tombs (db_store s)"
  "dk_snap (db_disk (snd (log_write ext ns l r s))) = dk_snap (db_disk s)"
  by (simp_all add: log_write_def set_ns_files_def Let_def split: prod.splits)

lemma log_write_D:
  assumes "log_write ext ns l r s = (sq, s1)"
  shows "st_policies (db_store s1) = st_policies (db_store s) \<and> st_index (db_store s1) = st_index (db_store s) \<and>
    st_tombs (db_store s1) = st_tombs (db_store s) \<and> dk_snap (db_disk s1) = dk_snap (db_disk s)"
  using log_write_frame [of ext ns l r s] assms by simp_all

lemma local_D: "apply_local_op ext ns r sq st = (res, st') \<Longrightarrow> st_policies st' = st_policies st"
  using apply_local_op_frame(2) [of ext ns r sq st] by simp

lemma ops_D: "apply_ops (apply_local_op ext ns) ops sq st = (res, st') \<Longrightarrow> st_policies st' = st_policies st"
  by (induction ops arbitrary: st) (auto dest: local_D split: prod.splits sum.splits)

lemma record_ops_D: "apply_ops (apply_record_op ext ns) ops sq st = (res, st') \<Longrightarrow> st_policies st' = st_policies st"
proof (induction ops arbitrary: st)
  case (Cons op ops)
  obtain r st1 where o: "apply_record_op ext ns op sq st = (r, st1)" by (rule prod.exhaust)
  then have "st_policies st1 = st_policies st" using apply_record_op_frame(2) [of ext ns op sq st] by simp
  then show ?case using Cons o by (auto split: sum.splits)
qed simp

lemma record_op_D: "apply_record_op ext ns r sq st = (res, st') \<Longrightarrow> st_policies st' = st_policies st"
  using apply_record_op_frame(2) [of ext ns r sq st] by simp

lemma record_D: "apply_record ext ns r sq st = (res, st') \<Longrightarrow> st_policies st' = st_policies st"
  by (auto simp: apply_record_def Let_def dest: record_ops_D record_op_D split: if_splits)

lemma sync_one_D:
  "sync_one ext ns r s = (res, s') \<Longrightarrow> st_policies (db_store s') = st_policies (db_store s) \<and> dk_snap (db_disk s') = dk_snap (db_disk s)"
  by (auto simp: sync_one_def dest!: log_write_D record_D split: option.splits prod.splits sum.splits)

lemma sync_loop_D:
  "st_policies (db_store (snd (sync_loop ext ns rs seen n s))) = st_policies (db_store s) \<and>
   dk_snap (db_disk (snd (sync_loop ext ns rs seen n s))) = dk_snap (db_disk s)"
proof (induction rs arbitrary: seen n s)
  case (Cons r rs)
  obtain res s1 where "sync_one ext ns r s = (res, s1)" by (rule prod.exhaust)
  then show ?case using Cons sync_one_D [of ext ns r s res s1] by (auto split: sum.splits)
qed simp

lemma db_step_frame:
  assumes "db_step ext s s'"
  shows "dk_snap (db_disk s') = dk_snap (db_disk s)"
    and "bt_inv (st_policies (db_store s)) \<Longrightarrow> bt_get (st_policies (db_store s)) ns = Some p \<Longrightarrow> bt_get (st_policies (db_store s')) ns = Some p"
  using assms
proof (induction rule: db_step.induct)
  case (Create s ns' p')
  { case 1
    show ?case by (auto simp: create_namespace_def Let_def set_ns_files_def split: sum.splits) }
  { case 2
    then show ?case by (auto simp: create_namespace_def Let_def set_ns_files_def bt_get_insert bt_contains_def split: sum.splits) }
qed (auto simp: store_put_def store_delete_def put_batch_def set_index_def set_schema_def apply_synced_def apply_synced_batch_def
    meta_set_def set_peer_clock_def Let_def sync_loop_D dest!: log_write_D local_D ops_D sync_one_D split: option.splits prod.splits sum.splits)

lemma checkpointed:
  assumes "ext_ok ext" "db_inv ext s" "snap_ok (db_store s)"
  shows "db_inv ext (snd (checkpoint s))" "db_store (snd (checkpoint s)) = db_store s"
    "snap_agrees ext (snd (checkpoint s)) (db_store s) (covered (db_store s))"
    "ns_log ext (snd (checkpoint s)) ns bs \<Longrightarrow> covered (db_store s) ns = length bs"
proof -
  let ?c = "snd (checkpoint s)"
  have c: "db_store ?c = db_store s" "dk_snap (db_disk ?c) = Some (snap_bytes (db_store ?c))"
    "dk_dirs (db_disk ?c) = dk_dirs (db_disk s)" by (simp_all add: checkpoint_def)
  have nl: "ns_log ext ?c = ns_log ext s" by (simp add: ns_log_def c fun_eq_iff)
  show inv: "db_inv ext ?c" and "db_store ?c = db_store s" using assms(2) by (simp_all add: db_inv_def nl c)
  obtain d where d: "snap_agrees ext ?c (db_store ?c) d" "\<forall>ns bs. ns_log ext ?c ns bs \<longrightarrow> d ns = length bs"
    using snap_agrees_self [OF assms(1) inv _ c(2)] assms(3) unfolding c(1) by blast
  show "snap_agrees ext ?c (db_store s) (covered (db_store s))"
    "ns_log ext ?c ns bs \<Longrightarrow> covered (db_store s) ns = length bs"
    using agrees_upto [OF inv d(1)] d(2) unfolding c(1) by auto
qed

lemma gc_is_checkpoint:
  assumes "ext_ok ext" "db_inv ext s" "gc_fits now (db_store s)" "gc_live ext now s = (Ok n, s')"
  obtains s1 where "s' = snd (checkpoint s1)" "db_store s' = db_store s1" "db_inv ext s1" "st_policies (db_store s1) = st_policies (db_store s)"
    "\<And>ns k. \<not> bt_contains ns (st_policies (db_store s)) \<Longrightarrow> key_state (db_store s1) ns k = key_state (db_store s) ns k"
proof -
  let ?nss = "bt_keys (st_policies (db_store s))"
  have d: "distinct ?nss"
    using state_invD(1) [OF db_invD(1) [OF assms(2)]] by (auto simp: bt_inv_def bt_keys_def strict_sorted_iff)
  obtain m s1 where s1: "gc_loop ext now ?nss 0 s = (Ok m, s1)" "db_inv ext s1" "st_policies (db_store s1) = st_policies (db_store s)"
      "\<forall>m k. m \<notin> set ?nss \<longrightarrow> key_state (db_store s1) m k = key_state (db_store s) m k"
    using gc_loop_effect [OF assms(1,2) d, of now 0] assms(3) by (auto simp: bt_contains_iff gc_fits_def)
  have "s' = snd (checkpoint s1)" using assms(3,4) s1(1) by (simp add: gc_live_def gc_fits_def)
  then show thesis using that [of s1] s1 by (simp add: bt_contains_iff checkpoint_def)
qed

lemma restarted:
  assumes "ext_ok ext" "db_inv ext s" "snap_agrees ext s base (covered base)"
  obtains s' where "open_durable ext now (db_disk s) durable = Ok s'" "db_inv ext s'"
    "st_policies (db_store s') = st_policies (db_store s)" "\<And>ns bs. ns_log ext s' ns bs = ns_log ext s ns bs"
    "snap_agrees ext s' base (covered base)"
    "\<And>ns bs p k. ns_log ext s ns bs \<Longrightarrow> bt_get (st_policies (db_store s)) ns = Some p \<Longrightarrow>
       key_state (db_store s') ns k = fold (key_step p k) (ops_of (covered base ns) (drop (covered base ns) bs)) (key_state base ns k)"
    "tidy base \<Longrightarrow> tidy (db_store s')"
proof -
  obtain s' where s': "open_durable ext now (db_disk s) durable = Ok s'" "db_inv ext s'"
      "st_policies (db_store s') = st_policies (db_store s)" "\<And>ns bs. ns_log ext s ns bs \<Longrightarrow> ns_log ext s' ns bs"
      "dk_snap (db_disk s') = dk_snap (db_disk s)"
      "\<And>ns bs p k. ns_log ext s ns bs \<Longrightarrow> bt_get (st_policies (db_store s)) ns = Some p \<Longrightarrow>
         key_state (db_store s') ns k = fold (key_step p k) (ops_of (covered base ns) (drop (covered base ns) bs)) (key_state base ns k)"
      "\<And>ns k. \<not> bt_contains ns (st_policies (db_store s)) \<Longrightarrow> key_state (db_store s') ns k = key_state base ns k"
    by (rule open_effect [OF assms, of now durable]) blast
  have log: "ns_log ext s' ns bs = ns_log ext s ns bs" for ns bs
    using s'(4) ns_log_inj [OF assms(1)] ns_log_unique [of ext s' ns bs] db_invD(5) [OF assms(2)] unfolding s'(3) by metis
  have "grows ext s s'" unfolding grows_def log using s'(2) by (auto intro: exI [of _ "[]"])
  then have "snap_agrees ext s' base (covered base)"
    using s'(3,5) by (intro agrees_grow [OF assms(1-3)]) simp_all
  moreover have "tidy (db_store s')" if "tidy base"
    using that s'(7) assms(3) unfolding tidy_def s'(3) snap_agrees_def bt_contains_def by (metis not_None_eq)
  ultimately show thesis using that [OF s'(1-3) log] s'(6) by blast
qed

section \<open>Every life\<close>

lemma fresh_agrees: "snap_agrees ext (empty_db durable) (empty_store durable) (covered (empty_store durable))"
  by (auto simp: snap_agrees_def empty_db_def empty_store_def covered_def ns_log_def)

lemma life_recoverable:
  assumes "ext_ok ext" "life ext s"
  shows "recoverable ext s"
  using assms(2)
proof induction
  case (fresh durable)
  show ?case using empty_db_inv fresh_agrees [of ext durable] by (auto simp: recoverable_def)
next
  case (step s s')
  then obtain base where b: "db_inv ext s" "snap_agrees ext s base (covered base)" by (auto simp: recoverable_def)
  have g: "grows ext s s'" by (rule db_step_grows [OF assms(1) b(1) step(2)])
  have "snap_agrees ext s' base (covered base)"
    using db_step_frame [OF step(2)] state_invD(1) [OF db_invD(1) [OF b(1)]] by (intro agrees_grow [OF assms(1) b g]) blast+
  then show ?case using g by (auto simp: recoverable_def grows_def)
next
  case (ckpt s)
  then show ?case using checkpointed(1,3) [OF assms(1) _ ckpt(2)] by (auto simp: recoverable_def)
next
  case (gc s now n s')
  then obtain s1 where "s' = snd (checkpoint s1)" "db_store s' = db_store s1" "db_inv ext s1"
    using gc_is_checkpoint [OF assms(1) _ gc(2,3)] by (auto simp: recoverable_def)
  then show ?case using checkpointed [OF assms(1), of s1] gc(4) by (auto simp: recoverable_def)
next
  case (restart s now durable s')
  then obtain base where b: "db_inv ext s" "snap_agrees ext s base (covered base)" by (auto simp: recoverable_def)
  then show ?case by (rule restarted [OF assms(1), of s base now durable]) (use restart(2) in \<open>auto simp: recoverable_def\<close>)
qed

section \<open>Regular lives\<close>

lemma local_key:
  assumes "state_inv st" "bt_get (st_policies st) ns = Some p" "local_ok st ns r"
  shows "key_state (snd (apply_local_op ext ns r sq st)) n k =
    (if n = ns then key_step p k (r, sq) (key_state st ns k) else key_state st n k)"
proof -
  consider "is_put r" | "is_del r" "\<not> is_put r" | "\<not> is_put r" "\<not> is_del r" by blast
  then show ?thesis
  proof cases
    case 1
    let ?e = "bt_get (st_index st) (ns, r_key r)"
    have t: "bt_get (st_tombs st) (ns, r_key r) = None" using assms(3) 1 by (simp add: local_ok_def bt_contains_def)
    have "local_version p (rec_version r sq) ?e = add_version p (rec_version r sq) ?e"
      using assms(3) 1 by (auto simp: local_version_def add_version_def local_ok_def vkey_def rec_version_def mk_version_def
          split: conflict_policy.split option.split entry.split)
    then show ?thesis
      using apply_local_op_put [OF assms(1,2) 1, of ext sq] t 1 by (auto simp: key_state_def key_step_def)
  next
    case 2
    then show ?thesis
      using apply_local_op_del [OF assms(1,2) 2(1), of ext sq] by (auto simp: key_state_def key_step_def)
  next
    case 3
    then show ?thesis by (auto simp: apply_local_op_other key_step_def Let_def split: prod.splits)
  qed
qed

lemma local_ops_key:
  assumes "state_inv st" "bt_get (st_policies st) ns = Some p" "ops_ok ext ns ops sq st" "\<forall>op \<in> set ops. valid_sub_tag (r_tag op)"
  shows "key_state (snd (apply_ops (apply_local_op ext ns) ops sq st)) n k =
    (if n = ns then fold (key_step p k) (map (\<lambda>op. (op, sq)) ops) (key_state st ns k) else key_state st n k)"
  using assms
proof (induction ops arbitrary: st)
  case (Cons op ops)
  let ?st = "snd (apply_local_op ext ns op sq st)"
  have "fst (apply_local_op ext ns op sq st) = Ok ()"
    using apply_local_op_ok [OF Cons(2), of ns op ext sq] Cons(3,5) by (simp add: bt_contains_def)
  then have o: "apply_local_op ext ns op sq st = (Ok (), ?st)" by (metis prod.collapse)
  have "state_inv ?st" "bt_get (st_policies ?st) ns = Some p" using apply_local_op_inv [OF Cons(2,3)] Cons(3) by simp_all
  then have "key_state (snd (apply_ops (apply_local_op ext ns) ops sq ?st)) n k =
      (if n = ns then fold (key_step p k) (map (\<lambda>op. (op, sq)) ops) (key_state ?st ns k) else key_state ?st n k)"
    using Cons(1) [of ?st] Cons(4,5) by simp
  moreover have "local_ok st ns op" using Cons(4) by simp
  ultimately show ?case using local_key [OF Cons(2,3), of op ext sq] by (subst apply_ops.simps, subst o) simp
qed simp

lemma local_ok_cong:
  "bt_get (st_index st') = bt_get (st_index st) \<Longrightarrow> bt_get (st_tombs st') = bt_get (st_tombs st) \<Longrightarrow> local_ok st' ns r = local_ok st ns r"
  by (simp add: local_ok_def bt_contains_def)

text \<open>One record is logged and applied.\<close>

lemma replays_write:
  assumes "ext_ok ext" "replayable ext s" "ns_log ext s ns bs" "bt_get (st_policies (db_store s)) ns = Some p" "rec_wf r"
    and "db_inv ext s'" "ns_log ext s' ns (bs @ [next_bytes ext bs r])"
    and "\<And>n bs'. n \<noteq> ns \<Longrightarrow> bt_contains n (st_policies (db_store s)) \<Longrightarrow> ns_log ext s' n bs' = ns_log ext s n bs'"
    and "st_policies (db_store s') = st_policies (db_store s)" "dk_snap (db_disk s') = dk_snap (db_disk s)"
    and "\<And>n k. key_state (db_store s') n k =
      (if n = ns then fold (key_step p k) (rec_ops r (length bs + 1)) (key_state (db_store s) ns k) else key_state (db_store s) n k)"
  shows "replayable ext s'"
proof -
  obtain base where b: "db_inv ext s" "tidy (db_store s)" "snap_agrees ext s base (covered base)" "tidy base" "replays ext base s"
    using assms(2) by (auto simp: replayable_def)
  have g: "grows ext s s'" by (rule growsI [of _ _ _ ns]) (use assms(6-8) ns_log_inj [OF assms(1,3)] ns_log_unique in auto)
  have a: "snap_agrees ext s' base (covered base)" by (rule agrees_grow [OF assms(1) b(1,3) g]) (use assms(9,10) in auto)
  have "replays ext base s'"
    unfolding replays_def
  proof (intro allI impI)
    fix n b' p' k assume n: "ns_log ext s' n b'" "bt_get (st_policies (db_store s')) n = Some p'"
    show "key_state (db_store s') n k = fold (key_step p' k) (ops_of (covered base n) (drop (covered base n) b')) (key_state base n k)"
    proof (cases "n = ns")
      case True
      have "covered base ns \<le> length bs" using b(3) assms(3) by (simp add: snap_agrees_def)
      moreover have "ops_of (length bs) [next_bytes ext bs r] = rec_ops r (length bs + 1)" using recs_of_next [OF assms(1,5)] by simp
      ultimately have "ops_of (covered base ns) (drop (covered base ns) (bs @ [next_bytes ext bs r])) =
          ops_of (covered base ns) (drop (covered base ns) bs) @ rec_ops r (length bs + 1)"
        by (simp add: ops_of_append)
      moreover have "b' = bs @ [next_bytes ext bs r]" "p' = p"
        using ns_log_inj [OF assms(1) n(1)] assms(7) n(2) assms(4,9) True by auto
      ultimately show ?thesis using b(5) assms(3,4,11) True by (simp add: replays_def)
    next
      case False
      then show ?thesis using n b(5) assms(8,9,11) ns_log_unique [OF n(1)] by (simp add: replays_def)
    qed
  qed
  moreover have "tidy (db_store s')" using b(2) assms(4,9,11) by (auto simp: tidy_def bt_contains_def)
  ultimately show ?thesis using assms(6) a b(4) by (auto simp: replayable_def)
qed

lemma logged:
  assumes "ext_ok ext" "replayable ext s" "bt_get (st_logs (db_store s)) ns = Some l" "rec_wf r"
    and "log_write ext ns l r s = (sq, s1)" "kept (db_store s1) st" "bt_get (st_policies (db_store s)) ns = Some p"
    and "\<And>n k. key_state st n k =
      (if n = ns then fold (key_step p k) (rec_ops r sq) (key_state (db_store s) ns k) else key_state (db_store s) n k)"
  shows "replayable ext (s1\<lparr>db_store := st\<rparr>)"
proof -
  have inv: "db_inv ext s" using assms(2) by (simp add: replayable_def)
  obtain bs where bs: "ns_log ext s ns bs" using db_invD(5) [OF inv, of ns] assms(7) by (auto simp: bt_contains_def)
  have s1: "s1 = snd (log_write ext ns l r s)" "sq = length bs + 1"
    using log_write_effect(1) [OF assms(1) inv bs assms(3,4)] assms(5) by simp_all
  note w = write_step [OF assms(1) inv bs assms(3,4) assms(6) [unfolded s1(1)], folded s1(1)]
  show ?thesis
    by (rule replays_write [OF assms(1,2) bs assms(7,4) w(1,2)])
       (use w(3) log_write_D [OF assms(5)] assms(6,8) s1(2) in \<open>auto simp: kept_def\<close>)
qed

lemma log_write_key:
  assumes "log_write ext ns l r s = (sq, s1)"
  shows "key_state (db_store s1) n k = key_state (db_store s) n k"
  using log_write_D [OF assms] by (simp add: key_state_def)

lemma log_write_state:
  assumes "ext_ok ext" "db_inv ext s" "bt_get (st_logs (db_store s)) ns = Some l" "rec_wf r" "log_write ext ns l r s = (sq, s1)"
  shows "state_inv (db_store s1)" "\<exists>p. bt_get (st_policies (db_store s)) ns = Some p"
proof -
  have "bt_contains ns (st_policies (db_store s))" using db_invD(4) [OF assms(2)] assms(3) by (simp add: bt_contains_def)
  then obtain bs where bs: "ns_log ext s ns bs" using db_invD(5) [OF assms(2)] by blast
  show "state_inv (db_store s1)" using log_write_store(1) [OF assms(1,2) bs assms(3,4)] assms(5) by simp
  show "\<exists>p. bt_get (st_policies (db_store s)) ns = Some p" using bs by (auto simp: ns_log_def)
qed

lemma replayable_local:
  assumes "ext_ok ext" "replayable ext s" "bt_get (st_logs (db_store s)) ns = Some l" "rec_wf r" "valid_sub_tag (r_tag r)"
    and "log_write ext ns l r s = (sq, s1)" "apply_local_op ext ns r sq (db_store s1) = (res, st)" "local_ok (db_store s) ns r"
  shows "replayable ext (s1\<lparr>db_store := st\<rparr>)"
proof -
  have inv: "db_inv ext s" using assms(2) by (simp add: replayable_def)
  note ws = log_write_state [OF assms(1) inv assms(3,4,6)] and D = log_write_D [OF assms(6)]
  obtain p where p: "bt_get (st_policies (db_store s)) ns = Some p" using ws(2) by blast
  then have p1: "bt_get (st_policies (db_store s1)) ns = Some p" using D by simp
  have ok: "local_ok (db_store s1) ns r" using assms(8) D by (simp add: local_ok_def)
  have st: "st = snd (apply_local_op ext ns r sq (db_store s1))" using assms(7) by simp
  show ?thesis
  proof (rule logged [OF assms(1-4,6) _ p])
    show "kept (db_store s1) st" unfolding st using kept_local [OF ws(1)] p1 by (simp add: bt_contains_def)
    show "key_state st n k = (if n = ns then fold (key_step p k) (rec_ops r sq) (key_state (db_store s) ns k) else key_state (db_store s) n k)" for n k
      unfolding st using local_key [OF ws(1) p1 ok, of ext sq n k] assms(5) log_write_key [OF assms(6)]
      by (auto simp: rec_ops_def valid_sub_tag_def TAG_BATCH_def TAG_PUT_def TAG_DEL_def TAG_PUT_TTL_def)
  qed
qed

lemma replayable_ops:
  assumes "ext_ok ext" "replayable ext s" "bt_get (st_logs (db_store s)) ns = Some l" "rec_wf (batch_record ops)" "ops \<noteq> []"
    and "log_write ext ns l (batch_record ops) s = (sq, s1)" "apply_ops (apply_local_op ext ns) ops sq (db_store s1) = (res, st)"
    and "ops_ok ext ns ops sq (db_store s1)"
  shows "replayable ext (s1\<lparr>db_store := st\<rparr>)"
proof -
  have inv: "db_inv ext s" using assms(2) by (simp add: replayable_def)
  note ws = log_write_state [OF assms(1) inv assms(3,4,6)] and D = log_write_D [OF assms(6)]
  obtain p where p: "bt_get (st_policies (db_store s)) ns = Some p" using ws(2) by blast
  then have p1: "bt_get (st_policies (db_store s1)) ns = Some p" using D by simp
  have b: "r_tag (batch_record ops) = TAG_BATCH" "r_ops (batch_record ops) = ops" by (auto simp: batch_record_def split: list.split)
  then have tags: "\<forall>op \<in> set ops. valid_sub_tag (r_tag op)" using assms(4) by (simp add: rec_wf_def)
  have st: "st = snd (apply_ops (apply_local_op ext ns) ops sq (db_store s1))" using assms(7) by simp
  show ?thesis
  proof (rule logged [OF assms(1-4,6) _ p])
    show "kept (db_store s1) st" unfolding st using kept_apply_ops [OF kept_local ws(1)] p1 by (simp add: bt_contains_def)
    show "key_state st n k = (if n = ns then fold (key_step p k) (rec_ops (batch_record ops) sq) (key_state (db_store s) ns k) else key_state (db_store s) n k)" for n k
      unfolding st using local_ops_key [OF ws(1) p1 assms(8) tags, of n k] log_write_key [OF assms(6)] by (simp add: rec_ops_def b)
  qed
qed

lemma replayable_sync:
  assumes "ext_ok ext" "replayable ext s" "rec_wf r" "sync_one ext ns r s = (res, s')"
  shows "replayable ext s'"
proof (cases "bt_get (st_logs (db_store s)) ns")
  case None
  then show ?thesis using assms(2,4) by (simp add: sync_one_def)
next
  case (Some l)
  have inv: "db_inv ext s" using assms(2) by (simp add: replayable_def)
  obtain sq s1 where w: "log_write ext ns l r s = (sq, s1)" by (rule prod.exhaust)
  obtain x st where a: "apply_record ext ns r sq (db_store s1) = (x, st)" by (rule prod.exhaust)
  note ws = log_write_state [OF assms(1) inv Some assms(3) w] and D = log_write_D [OF w]
  obtain p where p: "bt_get (st_policies (db_store s)) ns = Some p" using ws(2) by blast
  then have p1: "bt_get (st_policies (db_store s1)) ns = Some p" "bt_contains ns (st_policies (db_store s1))"
    using D by (simp_all add: bt_contains_def)
  have "x = Ok ()" using apply_record_ok [OF ws(1) p1(2) assms(3), of ext sq] a by simp
  then have s': "s' = s1\<lparr>db_store := st\<lparr>st_revision := st_revision st + 1\<rparr>\<rparr>" using assms(4) Some w a by (simp add: sync_one_def)
  have st: "st = snd (apply_record ext ns r sq (db_store s1))" using a by simp
  show ?thesis
    unfolding s'
  proof (rule logged [OF assms(1,2) Some assms(3) w _ p])
    show "kept (db_store s1) (st\<lparr>st_revision := st_revision st + 1\<rparr>)"
      unfolding st by (intro kept_revision kept_apply_record ws(1) p1(2))
    show "key_state (st\<lparr>st_revision := st_revision st + 1\<rparr>) n k =
        (if n = ns then fold (key_step p k) (rec_ops r sq) (key_state (db_store s) ns k) else key_state (db_store s) n k)" for n k
      using apply_record_key [OF ws(1) p1(1) assms(3), of ext sq n k] log_write_key [OF w] unfolding st by (simp add: key_state_def)
  qed
qed

lemma replayable_sync_loop:
  "ext_ok ext \<Longrightarrow> replayable ext s \<Longrightarrow> \<forall>r \<in> set rs. rec_wf r \<Longrightarrow> replayable ext (snd (sync_loop ext ns rs seen n s))"
proof (induction rs arbitrary: seen n s)
  case (Cons r rs)
  obtain res s1 where "sync_one ext ns r s = (res, s1)" by (rule prod.exhaust)
  then show ?case using Cons replayable_sync [of ext s r ns res s1] by (auto split: sum.splits)
qed simp

lemma replayable_same:
  assumes "replayable ext s" "kept (db_store s) st" "\<And>n k. key_state st n k = key_state (db_store s) n k"
  shows "replayable ext (s\<lparr>db_store := st\<rparr>)"
proof -
  have nl: "ns_log ext (s\<lparr>db_store := st\<rparr>) = ns_log ext s" using ns_log_kept [OF assms(2)] by (simp add: fun_eq_iff)
  have "db_inv ext (s\<lparr>db_store := st\<rparr>)" using db_inv_kept [OF _ assms(2)] assms(1) by (simp add: replayable_def)
  then show ?thesis
    using assms unfolding replayable_def snap_agrees_def replays_def nl by (simp add: kept_def tidy_def)
qed

lemma replayable_checkpoint:
  assumes "ext_ok ext" "db_inv ext s" "tidy (db_store s)" "snap_ok (db_store s)"
  shows "replayable ext (snd (checkpoint s))"
proof -
  note c = checkpointed [OF assms(1,2,4)]
  have "replays ext (db_store s) (snd (checkpoint s))" unfolding replays_def using c(2,4) by simp
  then show ?thesis using c(1-3) assms(3) by (auto simp: replayable_def)
qed

lemma replayable_create:
  assumes "ext_ok ext" "replayable ext s"
  shows "replayable ext (snd (create_namespace ext ns p s))"
proof (cases "valid_ns ns \<and> \<not> bt_contains ns (st_policies (db_store s))")
  case True
  obtain base where b: "db_inv ext s" "tidy (db_store s)" "snap_agrees ext s base (covered base)" "tidy base" "replays ext base s"
    using assms(2) by (auto simp: replayable_def)
  obtain s' where s': "create_namespace ext ns p s = (Ok (), s')" "db_inv ext s'" "ns_log ext s' ns []"
      "bt_get (st_policies (db_store s')) ns = Some p"
      "\<And>n bs. n \<noteq> ns \<Longrightarrow> bt_contains n (st_policies (db_store s)) \<Longrightarrow> ns_log ext s' n bs = ns_log ext s n bs"
      "st_index (db_store s') = st_index (db_store s)" "st_tombs (db_store s') = st_tombs (db_store s)"
    using create_namespace_effect [OF assms(1) b(1), of ns p] True by (metis (no_types, lifting))
  have pol: "st_policies (db_store s') = bt_insert ns p (st_policies (db_store s))"
    using s'(1) by (auto simp: create_namespace_def Let_def split: if_splits sum.splits)
  have bi: "bt_inv (st_policies (db_store s))" using state_invD(1) [OF db_invD(1) [OF b(1)]] .
  have step: "db_step ext s s'" using db_step.Create [of ext s ns p] s'(1) by simp
  have a: "snap_agrees ext s' base (covered base)"
    using db_step_frame [OF step] bi by (intro agrees_grow [OF assms(1) b(1,3) db_step_grows [OF assms(1) b(1) step]]) blast+
  have ks: "key_state (db_store s') n k = key_state (db_store s) n k" for n k using s'(6,7) by (simp add: key_state_def)
  have nb: "\<not> bt_contains ns (st_policies base)" using b(3) True unfolding snap_agrees_def bt_contains_def by (metis not_None_eq)
  have "replays ext base s'"
    unfolding replays_def
  proof (intro allI impI)
    fix n bs p' k assume n: "ns_log ext s' n bs" "bt_get (st_policies (db_store s')) n = Some p'"
    show "key_state (db_store s') n k = fold (key_step p' k) (ops_of (covered base n) (drop (covered base n) bs)) (key_state base n k)"
    proof (cases "n = ns")
      case True
      then show ?thesis
        using ns_log_inj [OF assms(1) n(1)] s'(3) nb b(2,4) \<open>valid_ns ns \<and> _\<close> ks by (simp add: covered_def tidy_def)
    next
      case False
      then have "bt_get (st_policies (db_store s)) n = Some p'" using n(2) bi by (simp add: pol bt_get_insert)
      then show ?thesis using n(1) b(5) s'(5) False ks by (simp add: replays_def bt_contains_def)
    qed
  qed
  moreover have "tidy (db_store s')" using b(2) bi ks by (auto simp: tidy_def pol bt_contains_def bt_get_insert split: if_splits)
  ultimately show ?thesis using a b(4) s'(1,2) by (auto simp: replayable_def)
next
  case False
  then show ?thesis using assms(2) by (auto simp: create_namespace_def Let_def)
qed

lemma replayable_meta:
  assumes "ext_ok ext" "replayable ext s" "bt_get (st_logs (db_store s)) ns = Some l" "op_wf (meta_record tag value hlc replica author)"
    and "tag = TAG_INDEX \<or> tag = TAG_SCHEMA" "log_write ext ns l (meta_record tag value hlc replica author) s = (sq, s1)"
    and "\<And>st. state_inv st \<Longrightarrow> kept st (f st)" "\<And>st n k. key_state (f st) n k = key_state st n k"
  shows "replayable ext (s1\<lparr>db_store := f (db_store s1)\<rparr>)"
proof -
  have inv: "db_inv ext s" using assms(2) by (simp add: replayable_def)
  have wf: "rec_wf (meta_record tag value hlc replica author)"
    by (rule rec_wf_op [OF assms(4)]) (use assms(5) in \<open>auto simp: meta_record_def\<close>)
  note ws = log_write_state [OF assms(1) inv assms(3) wf assms(6)]
  obtain p where p: "bt_get (st_policies (db_store s)) ns = Some p" using ws(2) by blast
  have "rec_ops (meta_record tag value hlc replica author) sq = []"
    using assms(5) by (auto simp: rec_ops_def meta_record_def valid_sub_tag_def)
  then show ?thesis
    using assms(8) log_write_key [OF assms(6)] by (intro logged [OF assms(1-3) wf assms(6) assms(7) [OF ws(1)] p]) simp_all
qed

lemma replayable_meta_ops:
  assumes "ext_ok ext" "replayable ext s"
  shows "op_wf (meta_record TAG_INDEX value hlc replica author) \<Longrightarrow> replayable ext (snd (set_index ext ns value hlc replica author s))"
    and "op_wf (meta_record TAG_SCHEMA value hlc replica author) \<Longrightarrow> replayable ext (snd (set_schema ext ns value hlc replica author s))"
proof -
  let ?m = "\<lambda>pre st. case value of Some v \<Rightarrow> bt_insert (pre @ ns) v (st_meta st) | None \<Rightarrow> bt_remove (pre @ ns) (st_meta st)"
  let ?fi = "\<lambda>st. let st = rebuild_sec_index_ns ext ns (st\<lparr>st_meta := ?m ''index/'' st\<rparr>) in st\<lparr>st_revision := st_revision st + 1\<rparr>"
  let ?fs = "\<lambda>st. st\<lparr>st_meta := ?m ''schema/'' st, st_revision := st_revision st + 1\<rparr>"
  have m: "bt_inv (?m pre st)" if "state_inv st" for pre st
    using state_invD(4) [OF that] by (simp split: option.splits)
  have k: "kept st (?fi st)" "kept st (?fs st)" if "state_inv st" for st
    unfolding Let_def by (intro kept_meta_op m that)+
  have ks: "key_state (?fi st) n k = key_state st n k" "key_state (?fs st) n k = key_state st n k" for st n k
    by (simp_all add: key_state_def Let_def)
  show "replayable ext (snd (set_index ext ns value hlc replica author s))" if wf: "op_wf (meta_record TAG_INDEX value hlc replica author)"
  proof (cases "bt_get (st_logs (db_store s)) ns")
    case (Some l)
    obtain sq s1 where w: "log_write ext ns l (meta_record TAG_INDEX value hlc replica author) s = (sq, s1)" by (rule prod.exhaust)
    have "replayable ext (s1\<lparr>db_store := ?fi (db_store s1)\<rparr>)" by (rule replayable_meta [OF assms Some wf _ w k(1) ks(1)]) simp_all
    then show ?thesis using Some w assms(2) by (cases "value") (simp_all add: set_index_def meta_record_def Let_def)
  qed (use assms(2) in \<open>simp add: set_index_def\<close>)
  show "replayable ext (snd (set_schema ext ns value hlc replica author s))" if wf: "op_wf (meta_record TAG_SCHEMA value hlc replica author)"
  proof (cases "bt_get (st_logs (db_store s)) ns")
    case (Some l)
    obtain sq s1 where w: "log_write ext ns l (meta_record TAG_SCHEMA value hlc replica author) s = (sq, s1)" by (rule prod.exhaust)
    have "replayable ext (s1\<lparr>db_store := ?fs (db_store s1)\<rparr>)" by (rule replayable_meta [OF assms Some wf _ w k(2) ks(2)]) simp_all
    then show ?thesis using Some w assms(2) by (cases "value") (simp_all add: set_schema_def meta_record_def Let_def)
  qed (use assms(2) in \<open>simp add: set_schema_def\<close>)
qed

lemma ops_ok_cong:
  assumes "state_inv st" "state_inv st'" "st_policies st' = st_policies st" "\<And>n k. key_state st' n k = key_state st n k"
    and "ops_ok ext ns ops sq st" "bt_contains ns (st_policies st)"
  shows "ops_ok ext ns ops sq st'"
  using assms
proof (induction ops arbitrary: st st')
  case (Cons op ops)
  obtain p where p: "bt_get (st_policies st) ns = Some p" using Cons(7) by (auto simp: bt_contains_def)
  have k: "bt_get (st_index st') x = bt_get (st_index st) x" "bt_get (st_tombs st') x = bt_get (st_tombs st) x" for x
    using Cons(5) [of "fst x" "snd x"] by (simp_all add: key_state_def)
  then have ok: "local_ok st ns op" "local_ok st' ns op" using Cons(6) by (simp_all add: local_ok_def bt_contains_def)
  have p': "bt_get (st_policies st') ns = Some p" using p Cons(4) by simp
  have "ops_ok ext ns ops sq (snd (apply_local_op ext ns op sq st'))"
  proof (rule Cons(1))
    show "state_inv (snd (apply_local_op ext ns op sq st))" "state_inv (snd (apply_local_op ext ns op sq st'))"
      by (rule apply_local_op_inv [OF Cons(2) p], rule apply_local_op_inv [OF Cons(3) p'])
    show "key_state (snd (apply_local_op ext ns op sq st')) n k = key_state (snd (apply_local_op ext ns op sq st)) n k" for n k
      using local_key [OF Cons(2) p ok(1)] local_key [OF Cons(3) p' ok(2)] Cons(5) by simp
  qed (use Cons(4,6,7) in simp_all)
  then show ?case using ok by simp
qed simp

lemma replayable_writes:
  assumes "ext_ok ext" "replayable ext s"
  shows "op_wf (put_record k val hlc replica author ex) \<Longrightarrow> local_ok (db_store s) ns (put_record k val hlc replica author ex) \<Longrightarrow>
      replayable ext (snd (store_put ext ns k val hlc replica author ex s))"
    and "op_wf (Record TAG_DEL k hlc replica author [] 0 []) \<Longrightarrow> replayable ext (snd (store_delete ext ns k hlc replica author s))"
    and "rec_wf (batch_record ops) \<Longrightarrow> \<forall>sq. ops_ok ext ns ops sq (db_store s) \<Longrightarrow> replayable ext (snd (put_batch ext ns ops s))"
proof -
  have inv: "db_inv ext s" using assms(2) by (simp add: replayable_def)
  note splits = option.splits prod.splits sum.splits
  show "replayable ext (snd (store_put ext ns k val hlc replica author ex s))"
    if wf: "op_wf (put_record k val hlc replica author ex)" and ok: "local_ok (db_store s) ns (put_record k val hlc replica author ex)"
  proof -
    have "rec_wf (put_record k val hlc replica author ex)" "valid_sub_tag (r_tag (put_record k val hlc replica author ex))"
      by (rule rec_wf_op [OF wf], auto simp: put_record_def valid_sub_tag_def)
    from replayable_local [OF assms _ this _ _ ok] show ?thesis
      unfolding store_put_def put_record_def [symmetric] Let_def using assms(2) by (auto split: splits)
  qed
  show "replayable ext (snd (store_delete ext ns k hlc replica author s))" if wf: "op_wf (Record TAG_DEL k hlc replica author [] 0 [])"
  proof -
    have "rec_wf (Record TAG_DEL k hlc replica author [] 0 [])" "valid_sub_tag (r_tag (Record TAG_DEL k hlc replica author [] 0 []))"
        "local_ok (db_store s) ns (Record TAG_DEL k hlc replica author [] 0 [])"
      by (rule rec_wf_op [OF wf], simp, simp)
         (simp_all add: valid_sub_tag_def local_ok_def is_put_def TAG_DEL_def TAG_PUT_def TAG_PUT_TTL_def)
    from replayable_local [OF assms _ this(1,2) _ _ this(3)] show ?thesis
      unfolding store_delete_def Let_def using assms(2) by (auto split: splits)
  qed
  show "replayable ext (snd (put_batch ext ns ops s))" if wf: "rec_wf (batch_record ops)" and ok: "\<forall>sq. ops_ok ext ns ops sq (db_store s)"
  proof (cases "ops = [] \<or> bt_get (st_logs (db_store s)) ns = None")
    case False
    then obtain l where l: "bt_get (st_logs (db_store s)) ns = Some l" and ne: "ops \<noteq> []" by auto
    have r: "Record TAG_BATCH [] (r_hlc (ops ! 0)) (r_replica (ops ! 0)) (r_author (ops ! 0)) [] 0 ops = batch_record ops"
      using ne by (cases ops) (simp_all add: batch_record_def)
    obtain sq s1 where w: "log_write ext ns l (batch_record ops) s = (sq, s1)" by (rule prod.exhaust)
    obtain res st where a: "apply_ops (apply_local_op ext ns) ops sq (db_store s1) = (res, st)" by (rule prod.exhaust)
    note ws = log_write_state [OF assms(1) inv l wf w] and D = log_write_D [OF w]
    have "ops_ok ext ns ops sq (db_store s1)"
      by (rule ops_ok_cong [OF db_invD(1) [OF inv] ws(1) _ log_write_key [OF w] ok [rule_format]]) (use D ws(2) in \<open>auto simp: bt_contains_def\<close>)
    from replayable_ops [OF assms l wf ne w a this] show ?thesis
      unfolding put_batch_def r Let_def using l w a ne assms(2) by (auto split: sum.splits)
  qed (use assms(2) in \<open>auto simp: put_batch_def\<close>)
qed

lemma calm_replayable:
  assumes "ext_ok ext" "calm_life ext s"
  shows "replayable ext s"
  using assms(2)
proof induction
  case (fresh durable)
  have "tidy (db_store (empty_db durable))" "tidy (empty_store durable)" "replays ext (empty_store durable) (empty_db durable)"
    by (auto simp: tidy_def replays_def key_state_def empty_db_def empty_store_def ns_log_def)
  then show ?case using empty_db_inv fresh_agrees [of ext durable] by (auto simp: replayable_def)
next
  case (create s ns p)
  show ?case by (rule replayable_create [OF assms(1) create(2)])
next
  case (put s k val hlc replica author expires_at ns)
  then show ?case using replayable_writes(1) [OF assms(1)] by blast
next
  case (delete s k hlc replica author ns)
  then show ?case using replayable_writes(2) [OF assms(1)] by blast
next
  case (batch s ops ns)
  then show ?case using replayable_writes(3) [OF assms(1)] by blast
next
  case (index s "value" hlc replica author ns)
  then show ?case using replayable_meta_ops(1) [OF assms(1)] by blast
next
  case (schema s "value" hlc replica author ns)
  then show ?case using replayable_meta_ops(2) [OF assms(1)] by blast
next
  case (synced s rs ns)
  then show ?case using replayable_sync_loop [OF assms(1)] by (auto simp: apply_synced_batch_def split: sum.splits)
next
  case (meta s k v)
  have "db_inv ext s" using meta(2) by (simp add: replayable_def)
  note si = db_invD(1) [OF this]
  show ?case
    by (rule replayable_same [OF meta(2)]) (use si in \<open>simp_all add: meta_set_def kept_meta_op(2) key_state_def state_invD(4)\<close>)
next
  case (clock s name diff)
  have "db_inv ext s" using clock(2) by (simp add: replayable_def)
  note si = db_invD(1) [OF this]
  show ?case
    by (rule replayable_same [OF clock(2)]) (use si in \<open>simp_all add: set_peer_clock_def kept_def key_state_def state_inv_def\<close>)
next
  case (ckpt s)
  then show ?case using replayable_checkpoint [OF assms(1) _ _ ckpt(2)] by (simp add: replayable_def)
next
  case (gc s now n s')
  have s: "db_inv ext s" "tidy (db_store s)" using gc(5) by (auto simp: replayable_def)
  obtain s1 where s1: "s' = snd (checkpoint s1)" "db_store s' = db_store s1" "db_inv ext s1" "st_policies (db_store s1) = st_policies (db_store s)"
      "\<And>ns k. \<not> bt_contains ns (st_policies (db_store s)) \<Longrightarrow> key_state (db_store s1) ns k = key_state (db_store s) ns k"
    by (rule gc_is_checkpoint [OF assms(1) s(1) gc(2,3)]) blast
  have "tidy (db_store s1)" using s(2) s1(4,5) by (simp add: tidy_def)
  then show ?case using replayable_checkpoint [OF assms(1) s1(3)] s1(1,2) gc(4) by simp
next
  case (restart s now durable s')
  then obtain base where b: "db_inv ext s" "snap_agrees ext s base (covered base)" "tidy base" by (auto simp: replayable_def)
  show ?case
    by (rule restarted [OF assms(1) b(1,2), of now durable])
       (use restart(2) b(3) in \<open>auto simp: replayable_def replays_def\<close>)
qed

section \<open>Compaction interrupted\<close>

lemma open_behind:
  assumes "ext_ok ext" "db_inv ext s" "ns_log ext s ns bs" "dk_snap (db_disk s) = Some bytes"
    and "\<And>durable. \<exists>st info. load_snap bytes (empty_store durable) = Ok (st, info) \<and> bt_get info ns = Some (n, h)" "length bs < n"
  shows "\<exists>e. open_durable ext later (db_disk s) durable = Err e"
proof -
  obtain st info where ld: "load_snap bytes (empty_store durable) = Ok (st, info)" "bt_get info ns = Some (n, h)" using assms(5) by blast
  have hex: "hex_ok ext" using assms(1) by (simp add: ext_ok_def)
  note v = ns_log_valid [OF assms(2,3)]
  obtain d l where d: "bt_get (dk_dirs (db_disk s)) (ns_dir ext ns) = Some d" "log_holds (sha256 ext) (l, nd_segs d) bs"
    using assms(3) by (auto simp: ns_log_def)
  obtain l' files where r: "recover_durable (sha256 ext) (ns_dir ext ns) (nd_segs d) durable = Ok (l', None, files)" "log_seq l' = length bs"
    by (rule recover_holds [OF d(2), of "ns_dir ext ns" durable]) blast
  have behind: "\<exists>e. open_ns ext durable info ns (st', dk') = Err e" if "bt_get (dk_dirs dk') (ns_dir ext ns) = Some d" for st' dk'
    using that r ld(2) assms(6) by (auto simp: open_ns_def Let_def split: sum.splits)
  have "ns \<in> set (ns_names ext (db_disk s))" "\<forall>n \<in> set (ns_names ext (db_disk s)). valid_ns n"
    using ns_log_unique [OF assms(3)] db_invD(2) [OF assms(2)] unfolding ns_names_eq [OF assms(1,2)]
    by (auto simp: bt_contains_iff names_ok_def)
  then have "\<exists>e. open_all ext durable info (ns_names ext (db_disk s)) (st, db_disk s) = Err e"
    using open_all_fails [OF hex v behind _ _ db_invD(3) [OF assms(2)] d(1)] by blast
  then show ?thesis by (auto simp: open_durable_def assms(4) ld(1) split: option.splits)
qed

section \<open>Properties\<close>

text \<open>C5.  A node can be killed at any moment: through any sequence of writes, received records, metadata
  changes, checkpoints, live compactions and restarts, opening the data directory as it is on disk
  succeeds, and the opened node has the same namespaces and policies and, record for record, the
  same logs; so does every later one.\<close>

theorem node_survives_kill:
  assumes "ext_ok ext" "life ext s"
  shows "\<exists>s'. open_durable ext now (db_disk s) durable = Ok s' \<and> life ext s' \<and> db_inv ext s' \<and>
    st_policies (db_store s') = st_policies (db_store s) \<and> (\<forall>ns bs. ns_log ext s' ns bs \<longleftrightarrow> ns_log ext s ns bs)"
proof -
  obtain base where b: "db_inv ext s" "snap_agrees ext s base (covered base)"
    using life_recoverable [OF assms] by (auto simp: recoverable_def)
  show ?thesis
    by (rule restarted [OF assms(1) b, of now durable]) (use life.restart [OF assms(2)] in blast)
qed

lemma demo_life:
  obtains s where "calm_life demo_ext s" "life demo_ext s" "store_get (db_store s) ''n'' [107] = Some (Lww (mk_version 7 zero32 zero32 [118] 1 0))"
    "ns_log demo_ext s ''n'' [next_bytes demo_ext [] (put_record [107] [118] 7 zero32 zero32 0)]" "db_inv demo_ext s"
    "st_policies (db_store s) = [(''n'', PolicyLww)]" "st_peer_clocks (db_store s) = []"
proof -
  obtain s0 where s0: "create_namespace demo_ext ''n'' PolicyLww (empty_db False) = (Ok (), s0)" "db_inv demo_ext s0"
      "ns_log demo_ext s0 ''n'' []" "bt_get (st_policies (db_store s0)) ''n'' = Some PolicyLww"
      "st_index (db_store s0) = []" "st_tombs (db_store s0) = []" by (rule demo_db)
  have wf: "op_wf (put_record [107] [118] 7 zero32 zero32 0)" by (simp add: op_wf_def put_record_def payload_bytes_def)
  have c0: "calm_life demo_ext s0" using calm_life.create [OF calm_life.fresh, of demo_ext "''n''" PolicyLww False] s0(1) by simp
  have l0: "life demo_ext s0" using life.step [OF life.fresh db_step.Create, of demo_ext "''n''" PolicyLww False] s0(1) by simp
  obtain s where s: "store_put demo_ext ''n'' [107] [118] 7 zero32 zero32 0 s0 = (Ok 1, s)" "db_inv demo_ext s"
      "ns_log demo_ext s ''n'' [next_bytes demo_ext [] (put_record [107] [118] 7 zero32 zero32 0)]"
      "store_get (db_store s) ''n'' [107] = Some (Lww (mk_version 7 zero32 zero32 [118] 1 0))"
      "st_policies (db_store s) = st_policies (db_store s0)"
    using store_put_effect [OF demo_ext_ok s0(2,3,4) wf] by (auto simp: local_version_def)
  have "local_ok (db_store s0) ''n'' (put_record [107] [118] 7 zero32 zero32 0)"
    using s0(5,6) by (simp add: local_ok_def bt_contains_def)
  then have "calm_life demo_ext s" using calm_life.put [OF c0 wf, of "''n''"] s(1) by simp
  moreover have "life demo_ext s" using life.step [OF l0 db_step.Put [OF wf, of demo_ext s0 "''n''"]] s(1) by simp
  moreover have "st_peer_clocks (db_store s) = []"
    using s(1) demo_only_ns(2) [OF s0(1)]
    by (auto simp: store_put_def log_write_def Let_def split: option.splits prod.splits sum.splits dest!: arg_cong [of _ _ "\<lambda>x. st_peer_clocks (snd x)"])
  ultimately show thesis using that s demo_only_ns(1) [OF s0(1)] by simp
qed

theorem node_survives_kill_witness:
  "\<exists>s s'. ns_log demo_ext s ''n'' [next_bytes demo_ext [] (put_record [107] [118] 7 zero32 zero32 0)] \<and>
     open_durable demo_ext 9 (db_disk s) True = Ok s' \<and>
     ns_log demo_ext s' ''n'' [next_bytes demo_ext [] (put_record [107] [118] 7 zero32 zero32 0)]"
proof -
  obtain s where s: "life demo_ext s" "ns_log demo_ext s ''n'' [next_bytes demo_ext [] (put_record [107] [118] 7 zero32 zero32 0)]"
    by (rule demo_life)
  from node_survives_kill [OF demo_ext_ok s(1), of 9 True] s(2) show ?thesis by blast
qed



text \<open>C38.  A node killed during live compaction cannot be opened: between the turn of the loop that rewrites the
  log of a namespace and the checkpoint at the end of \<open>gc_live\<close>, the snapshot on disk counts more records
  than the rewritten log holds, and opening the directory reports corruption, at any later time.\<close>

theorem kill_in_gc_blocks_open:
  assumes "ext_ok ext" "db_inv ext s" "snap_ok (db_store s)" "ns_log ext s ns bs"
    and "\<forall>r \<in> set (compact_records (db_store s) ns now). rec_wf r" "compact_records (db_store s) ns now \<noteq> []"
    and "length (compact_records (db_store s) ns now) < length bs"
  shows "\<exists>n s'. gc_ns ext now ns (snd (checkpoint s)) = (Ok n, s') \<and> db_inv ext s' \<and>
    (\<forall>later durable. \<exists>e. open_durable ext later (db_disk s') durable = Err e)"
proof -
  let ?c = "snd (checkpoint s)"
  note c = checkpointed [OF assms(1-3)]
  have log: "ns_log ext ?c ns bs" using assms(4) by (simp add: ns_log_def checkpoint_def)
  obtain n s' bs' where s': "gc_ns ext now ns ?c = (Ok n, s')" "db_inv ext s'" "ns_log ext s' ns bs'"
      "length bs' = length (compact_records (db_store ?c) ns now)" "dk_snap (db_disk s') = dk_snap (db_disk ?c)"
    by (rule gc_ns_effect [OF assms(1) c(1) log, of now]) (use assms(5,6) c(2) in auto)
  have snap: "dk_snap (db_disk s') = Some (snap_bytes (db_store s))" using s'(5) by (simp add: checkpoint_def)
  have h: "head_or_zero (db_store s) ns = (length bs, chain_head (sha256 ext) zero32 bs)"
    using c(3) c(4) [OF log] log ns_log_unique [OF assms(4)] by (auto simp: snap_agrees_def)
  have "\<exists>st info. load_snap (snap_bytes (db_store s)) (empty_store durable) = Ok (st, info) \<and>
      bt_get info ns = Some (length bs, chain_head (sha256 ext) zero32 bs)" for durable
    by (rule snap_agrees_load [OF c(3) db_invD(1) [OF c(1)], of durable])
       (use h ns_log_unique [OF assms(4)] in \<open>auto simp: checkpoint_def\<close>)
  then have "\<exists>e. open_durable ext later (db_disk s') durable = Err e" for later durable
    by (rule open_behind [OF assms(1) s'(2,3) snap]) (use s'(4) c(2) assms(7) in simp)
  then show ?thesis using s'(1,2) by blast
qed

lemma one_ns_snap_ok:
  assumes "db_inv demo_ext s" "ns_log demo_ext s ''n'' bs" "length bs < 2 ^ 64" "st_policies (db_store s) = [(''n'', p)]"
    and "st_meta (db_store s) = []" "st_peer_clocks (db_store s) = []" "st_revision (db_store s) < 2 ^ 64"
    and "length (st_index (db_store s)) < 2 ^ 32" "\<forall>((n, k), e) \<in> set (st_index (db_store s)). length k < 2 ^ 32 \<and> entry_sizes e"
    and "length (st_tombs (db_store s)) < 2 ^ 32" "\<forall>((n, k), h) \<in> set (st_tombs (db_store s)). length k < 2 ^ 32 \<and> n = ''n''"
  shows "snap_ok (db_store s)"
proof -
  note si = db_invD(1) [OF assms(1)]
  have "log_seq x < 2 ^ 64 \<and> is32 (log_head x)" if x: "(n, x) \<in> set (st_logs (db_store s))" for n x
  proof -
    have g: "bt_get (st_logs (db_store s)) n = Some x" using x bt_get_iff [OF state_invD(5) [OF si], of n x] by simp
    then have "n = ''n''" using db_invD(4) [OF assms(1), of n] assms(4) by (auto simp: bt_contains_def bt_get_Cons split: if_splits)
    then obtain f where f: "log_holds (sha256 demo_ext) (x, f) bs" using g assms(2) by (auto simp: ns_log_def)
    then obtain segs where "log_repr (sha256 demo_ext) (x, f) segs" "bs = concat segs" by (auto simp: log_holds_def)
    then have "log_seq x = length bs" using log_reprD(6) by metis
    moreover have "is32 (log_head x)"
      using log_holds_head [OF f] chain_head32 [of "sha256 demo_ext" zero32 bs] demo_ext_ok by (simp add: ext_ok_def)
    ultimately show ?thesis using assms(3) by simp
  qed
  moreover have "utf8_ok (str_bytes ''n'')" by (rule valid_ns_utf8) (simp add: valid_ns_def is_lower_def)
  ultimately show ?thesis
    using si assms(4-11) by (fastforce simp: snap_ok_def name_ok_def bt_keys_def bt_contains_def bt_get_Cons)
qed

theorem kill_in_gc_blocks_open_witness:
  "\<exists>s n s'. db_inv demo_ext s \<and> gc_ns demo_ext 0 ''n'' (snd (checkpoint s)) = (Ok n, s') \<and>
     (\<forall>later durable. \<exists>e. open_durable demo_ext later (db_disk s') durable = Err e)"
proof -
  obtain s where s: "create_namespace demo_ext ''n'' PolicyLww (empty_db False) = (Ok (), s)" "db_inv demo_ext s"
    "ns_log demo_ext s ''n'' []" by (rule demo_db)
  have st: "st_policies (db_store s) = [(''n'', PolicyLww)]" "st_peer_clocks (db_store s) = []"
    "st_meta (db_store s) = []" "st_revision (db_store s) = 1"
    using s(1) by (auto simp: create_namespace_def empty_db_def empty_store_def Let_def split: if_splits sum.splits)
  obtain l where l: "bt_get (st_logs (db_store s)) ''n'' = Some l" by (rule ns_log_get [OF s(3)])
  define s1 where "s1 = snd (log_write demo_ext ''n'' l demo_op s)"
  note w1 = log_write_effect [OF demo_ext_ok s(2,3) l demo_op_wf, folded s1_def]
  obtain l1 where l1: "bt_get (st_logs (db_store s1)) ''n'' = Some l1" by (rule ns_log_get [OF w1(2)])
  define s2 where "s2 = snd (log_write demo_ext ''n'' l1 demo_op s1)"
  note w2 = log_write_effect [OF demo_ext_ok w1(6,2) l1 demo_op_wf, folded s2_def]
  obtain x y where x: "db_store s1 = (db_store s)\<lparr>st_logs := x\<rparr>" and y: "db_store s2 = (db_store s1)\<lparr>st_logs := y\<rparr>"
    using w1(4) w2(4) by blast
  have st2: "st_policies (db_store s2) = [(''n'', PolicyLww)]" "st_peer_clocks (db_store s2) = []"
    "st_meta (db_store s2) = []" "st_revision (db_store s2) = 1" using st by (simp_all add: x y)
  have p2: "bt_get (st_policies (db_store s2)) ''n'' = Some PolicyLww" by (simp add: st2 bt_get_Cons)
  note g = gc_demo_ok [OF w2(6) p2]
  let ?bs = "([] @ [next_bytes demo_ext [] demo_op]) @ [next_bytes demo_ext ([] @ [next_bytes demo_ext [] demo_op]) demo_op]"
  have nl: "ns_log demo_ext (gc_demo s2) ''n'' ?bs" using w2(2) by (simp add: gc_demo_def ns_log_def)
  have ok: "snap_ok (db_store (gc_demo s2))"
    by (rule one_ns_snap_ok [OF g(1) nl]) (simp_all add: st2 gc_demo_def entry_sizes_def version_ok_def mk_version_def is32_def)
  have "\<forall>r \<in> set (compact_records (db_store (gc_demo s2)) ''n'' 0). rec_wf r" "compact_records (db_store (gc_demo s2)) ''n'' 0 \<noteq> []"
      "length (compact_records (db_store (gc_demo s2)) ''n'' 0) < length ?bs"
    using g(2,3) by simp_all
  from kill_in_gc_blocks_open [OF demo_ext_ok g(1) ok nl this] g(1) show ?thesis by blast
qed

end
