(* ===== verification/Keys.thy ===== *)
theory Keys
  imports Lifetime Server
begin

text \<open>
  The root key of a node: the file \<open>meta.bin\<close> (\<open>core/meta.rs\<close>) and its rotation (\<open>core/rotate.rs\<close>), with
  the data directory as it is on disk, so that a rotation can be interrupted between any two of
  its writes.  The keyring is the one the daemon builds from the directory.
\<close>

section \<open>Definitions\<close>

subsection \<open>The file of the key\<close>

text \<open>A data directory: the key file, its temporary copy, and the directory of the store.\<close>

record node_dir =
  kd_meta :: "bytes option"
  kd_tmp :: "bytes option"
  kd_disk :: disk

datatype key_error =
    AlreadyInitialized | MetaMissing | NotAMetaFile | FileExists
  | OpenStore storage_error | BadAdminCap parse_error

definition META_MAGIC :: bytes where
  "META_MAGIC = [66, 77, 68, 77, 69, 84, 65, 49]"

definition meta_bytes :: "cap_ext \<Rightarrow> keypair \<Rightarrow> bytes" where
  "meta_bytes cx kp = META_MAGIC @ ed_public cx kp @ kp"

text \<open>The file is created anew; one that exists is an error.\<close>

definition write_mode600 :: "bytes option \<Rightarrow> bytes \<Rightarrow> (key_error, bytes option) result" where
  "write_mode600 file bytes = (case file of None \<Rightarrow> Ok (Some bytes) | Some _ \<Rightarrow> Err FileExists)"

text \<open>The seed is the one the random generator yields; it is the keypair.\<close>

definition meta_init :: "cap_ext \<Rightarrow> keypair \<Rightarrow> node_dir \<Rightarrow> (key_error, keypair) result \<times> node_dir" where
  "meta_init cx seed kd =
     (if kd_meta kd \<noteq> None then (Err AlreadyInitialized, kd)
      else case write_mode600 (kd_meta kd) (meta_bytes cx seed) of
             Inl e \<Rightarrow> (Err e, kd)
           | Inr f \<Rightarrow> (Ok seed, kd\<lparr>kd_meta := f\<rparr>))"

definition meta_load :: "node_dir \<Rightarrow> (key_error, keypair) result" where
  "meta_load kd =
     (case kd_meta kd of
        None \<Rightarrow> Err MetaMissing
      | Some bytes \<Rightarrow>
          if length bytes \<noteq> 8 + 32 + 32 \<or> take 8 bytes \<noteq> META_MAGIC then Err NotAMetaFile
          else Ok (drop (8 + 32) bytes))"

definition meta_write :: "cap_ext \<Rightarrow> keypair \<Rightarrow> node_dir \<Rightarrow> (key_error, unit) result \<times> node_dir" where
  "meta_write cx kp kd =
     (case write_mode600 (kd_tmp kd) (meta_bytes cx kp) of
        Inl e \<Rightarrow> (Err e, kd)
      | Inr f \<Rightarrow> (Ok (), kd\<lparr>kd_tmp := None, kd_meta := f\<rparr>))"

subsection \<open>Rotation\<close>

record rotate_outcome =
  ro_old :: public_key
  ro_new :: public_key
  ro_dropped :: bool
  ro_admin_cap :: "string option"
  ro_admin_warning :: "string option"

definition retired_keys :: "extern \<Rightarrow> store \<Rightarrow> public_key list" where
  "retired_keys ext st = (case meta_get st ''sys/root_chain'' of Some v \<Rightarrow> Caps.parse_chain ext v | None \<Rightarrow> [])"

text \<open>The chain of retired keys is persisted first.\<close>

definition rotate_chain ::
  "extern \<Rightarrow> cap_ext \<Rightarrow> u64 \<Rightarrow> keypair \<Rightarrow> bool \<Rightarrow> node_dir \<Rightarrow> (key_error, public_key) result \<times> node_dir" where
  "rotate_chain ext cx now new_kp drop_predecessor kd =
     (case meta_load kd of
        Inl e \<Rightarrow> (Err e, kd)
      | Inr kp \<Rightarrow>
          (case open_durable ext now (kd_disk kd) False of
             Inl e \<Rightarrow> (Err (OpenStore e), kd)
           | Inr s \<Rightarrow>
               let old_root = ed_public cx kp;
                   retired = retired_keys ext (db_store s);
                   already = (old_root \<in> set retired);
                   retired = (if \<not> drop_predecessor \<and> \<not> already then retired @ [old_root] else retired);
                   chain = to_chain_bytes ext \<lparr>kr_active = ed_public cx new_kp, kr_retired = retired\<rparr>;
                   s = snd (checkpoint (s\<lparr>db_store := meta_set ''sys/root_chain'' chain (db_store s)\<rparr>))
               in (Ok old_root, kd\<lparr>kd_disk := db_disk s\<rparr>)))"

text \<open>Re-keying the persisted admin capability: the fresh header or a warning.\<close>

definition rekey_admin ::
  "extern \<Rightarrow> cap_ext \<Rightarrow> u64 \<Rightarrow> keypair \<Rightarrow> node_dir \<Rightarrow> (key_error, string option \<times> string option) result \<times> node_dir" where
  "rekey_admin ext cx now new_kp kd =
     (case open_durable ext now (kd_disk kd) False of
        Inl e \<Rightarrow> (Err (OpenStore e), kd)
      | Inr s \<Rightarrow>
          let kd = kd\<lparr>kd_disk := db_disk s\<rparr>
          in case meta_get (db_store s) ''sys/admin_cap'' of
               None \<Rightarrow> (Ok (None, Some ''no sys/admin_cap found to re-key''), kd)
             | Some v \<Rightarrow>
                 (case strip_prefix ''bmdb-cap:'' (lossy_str v) of
                    None \<Rightarrow> (Ok (None, Some ''persisted admin cap is not a bmdb-cap token''), kd)
                  | Some b64 \<Rightarrow>
                      (case b64url_decode b64 of
                         Inl e \<Rightarrow> (Err (BadAdminCap (BadBase64 e)), kd)
                       | Inr bs \<Rightarrow>
                           if \<not> utf8_ok bs then (Err (BadAdminCap NotUtf8), kd)
                           else case from_json ext cx (bytes_str bs) of
                                  Inl e \<Rightarrow> (Err (BadAdminCap e), kd)
                                | Inr old \<Rightarrow>
                                    let c = sign_for ext cx (c_scope old) (c_perms old) (c_expiry_ms old) (c_nonce old)
                                              (ed_public cx new_kp) new_kp;
                                        h = to_header ext cx c;
                                        s = snd (checkpoint (s\<lparr>db_store := meta_set ''sys/admin_cap'' (str_bytes h) (db_store s)\<rparr>))
                                    in (Ok (Some h, None), kd\<lparr>kd_disk := db_disk s\<rparr>))))"

definition rotate_root ::
  "extern \<Rightarrow> cap_ext \<Rightarrow> (nat \<Rightarrow> u64) \<Rightarrow> keypair \<Rightarrow> bool \<Rightarrow> bool \<Rightarrow> node_dir \<Rightarrow> (key_error, rotate_outcome) result \<times> node_dir" where
  "rotate_root ext cx now new_kp drop_predecessor reissue_admin kd =
     (case rotate_chain ext cx (now 0) new_kp drop_predecessor kd of
        (Inl e, kd) \<Rightarrow> (Err e, kd)
      | (Inr old_root, kd) \<Rightarrow>
          (case meta_write cx new_kp kd of
             (Inl e, kd) \<Rightarrow> (Err e, kd)
           | (Inr _, kd) \<Rightarrow>
               let out = \<lparr>ro_old = old_root, ro_new = ed_public cx new_kp, ro_dropped = drop_predecessor,
                          ro_admin_cap = None, ro_admin_warning = None\<rparr>
               in if \<not> reissue_admin then (Ok out, kd)
                  else case rekey_admin ext cx (now 1) new_kp kd of
                         (Inl e, kd) \<Rightarrow> (Err e, kd)
                       | (Inr (h, warning), kd) \<Rightarrow> (Ok (out\<lparr>ro_admin_cap := h, ro_admin_warning := warning\<rparr>), kd)))"

text \<open>The keyring of a directory: the active key and the retired ones, as the daemon reads them.\<close>

definition node_keyring :: "extern \<Rightarrow> cap_ext \<Rightarrow> u64 \<Rightarrow> node_dir \<Rightarrow> root_keyring option" where
  "node_keyring ext cx now kd =
     (case (meta_load kd, open_durable ext now (kd_disk kd) False) of
        (Inr kp, Inr s) \<Rightarrow> Some \<lparr>kr_active = ed_public cx kp, kr_retired = retired_keys ext (db_store s)\<rparr>
      | _ \<Rightarrow> None)"

text \<open>The directories that a rotation without re-keying leaves when it is interrupted: before the chain is
  written, after it, with the temporary file written up to some byte, and after the rename.\<close>

inductive rotate_crash :: "extern \<Rightarrow> cap_ext \<Rightarrow> u64 \<Rightarrow> keypair \<Rightarrow> bool \<Rightarrow> node_dir \<Rightarrow> node_dir \<Rightarrow> bool"
  for ext cx now new_kp drop_predecessor kd where
  before: "rotate_crash ext cx now new_kp drop_predecessor kd kd"
| chain: "rotate_chain ext cx now new_kp drop_predecessor kd = (r, kd') \<Longrightarrow> rotate_crash ext cx now new_kp drop_predecessor kd kd'"
| tmp: "rotate_chain ext cx now new_kp drop_predecessor kd = (Ok old, kd') \<Longrightarrow> kd_tmp kd' = None \<Longrightarrow>
    rotate_crash ext cx now new_kp drop_predecessor kd (kd'\<lparr>kd_tmp := Some (take n (meta_bytes cx new_kp))\<rparr>)"
| renamed: "rotate_chain ext cx now new_kp drop_predecessor kd = (Ok old, kd') \<Longrightarrow> meta_write cx new_kp kd' = (Ok (), kd'') \<Longrightarrow>
    rotate_crash ext cx now new_kp drop_predecessor kd kd''"

text \<open>A node whose directory the store can open, whose metadata fits a snapshot, and whose keys have their
  length.\<close>

definition node_ok :: "extern \<Rightarrow> cap_ext \<Rightarrow> db \<Rightarrow> keypair \<Rightarrow> node_dir \<Rightarrow> bool" where
  "node_ok ext cx s kp kd \<longleftrightarrow>
     recoverable ext s \<and> kd_disk kd = db_disk s \<and> kd_meta kd = Some (meta_bytes cx kp)"

definition keys_ok :: "cap_ext \<Rightarrow> bool" where
  "keys_ok cx \<longleftrightarrow> (\<forall>kp. length kp = 32 \<longrightarrow> length (ed_public cx kp) = 32)"

text \<open>The retired keys after a rotation, and the room a rotation needs in the snapshot.\<close>

definition next_retired :: "bool \<Rightarrow> public_key \<Rightarrow> public_key list \<Rightarrow> public_key list" where
  "next_retired drop_predecessor old ks = (if drop_predecessor \<or> old \<in> set ks then ks else ks @ [old])"

definition room :: "extern \<Rightarrow> store \<Rightarrow> bool" where
  "room ext st \<longleftrightarrow> snap_ok st \<and> st_revision st + 1 < 2 ^ 64 \<and> length (st_meta st) + 1 < 2 ^ 32 \<and>
     65 * (length (retired_keys ext st) + 1) < 2 ^ 32"

text \<open>A node with a fresh data directory, whose keys are their own public keys.\<close>

definition demo_keys :: cap_ext where
  "demo_keys = demo_cx\<lparr>ed_public := (\<lambda>k. k)\<rparr>"

definition demo_node :: node_dir where
  "demo_node = \<lparr>kd_meta = Some (meta_bytes demo_keys zero32), kd_tmp = None, kd_disk = db_disk (empty_db False)\<rparr>"

section \<open>Text\<close>

text \<open>A printable character, which no white space begins or ends with, and texts that are not trimmed.\<close>

lemma strip_front_id:
  assumes "s \<noteq> []" "\<forall>w \<in> set ws. w \<noteq> [] \<longrightarrow> hd w \<noteq> hd (str_bytes s)"
  shows "strip_front ws s = s"
proof -
  have "\<not> prefix w (str_bytes s)" if "w \<in> set ws" "w \<noteq> []" for w
    using assms that by (cases w; cases "str_bytes s") auto
  then have "filter (\<lambda>w. w \<noteq> [] \<and> prefix w (str_bytes s)) ws = []" by (auto simp: filter_empty_conv)
  then have "ws_front ws s = None" by (simp add: ws_front_def)
  then show ?thesis by (simp add: strip_front.simps [of ws s])
qed

lemma trim_id:
  assumes "s \<noteq> []" "32 < (of_char (hd s) :: nat)" "(of_char (hd s) :: nat) < 128" "32 < (of_char (last s) :: nat)" "(of_char (last s) :: nat) < 128"
  shows "trim s = s"
proof -
  have b: "(of_nat (of_char c) :: byte) = v \<longleftrightarrow> (of_char c :: nat) = unat v" if "(of_char c :: nat) < 128" for c v
    using that by (auto simp: word_unat_eq_iff unat_of_nat)
  have hd: "hd (str_bytes s) = of_nat (of_char (hd s))" and la: "hd (str_bytes (rev s)) = of_nat (of_char (last s))"
    using assms(1) by (cases s; simp add: str_bytes_def hd_map hd_rev)+
  have "strip_front white_space s = s"
    by (rule strip_front_id [OF assms(1)]) (use assms(2,3) b [OF assms(3)] in \<open>auto simp: hd white_space_def\<close>)
  moreover have "strip_front (map rev white_space) (rev s) = rev s"
    by (rule strip_front_id) (use assms(1,4,5) b [OF assms(5)] in \<open>auto simp: la white_space_def\<close>)
  ultimately show ?thesis by (simp add: trim_def)
qed

lemma lines_join:
  assumes "\<forall>x \<in> set xs. newline \<notin> set x \<and> strip_cr x = x"
  shows "lines (concat (map (\<lambda>x. x @ [newline]) xs)) = xs"
proof -
  have "split_on newline (concat (map (\<lambda>x. x @ [newline]) xs)) = xs @ [[]]"
    using assms by (induction xs) (auto simp: split_on_cons)
  then show ?thesis using assms by (simp add: lines_def map_idI)
qed

lemma hex_text:
  assumes "hex_ok ext" "length b = 32"
  shows "hex_enc ext b \<noteq> []" "trim (hex_enc ext b) = hex_enc ext b" "newline \<notin> set (hex_enc ext b)" "strip_cr (hex_enc ext b) = hex_enc ext b"
    "\<forall>c \<in> set (hex_enc ext b). (of_char c :: nat) < 128"
proof -
  have h: "length (hex_enc ext b) = 64" "\<forall>c \<in> set (hex_enc ext b). is_hexdigit c" using assms by (auto simp: hex_ok_def list_all_iff)
  then show ne: "hex_enc ext b \<noteq> []" by auto
  have d: "32 < (of_char c :: nat) \<and> (of_char c :: nat) < 128" if "is_hexdigit c" for c using that by (auto simp: is_hexdigit_def Let_def)
  show "trim (hex_enc ext b) = hex_enc ext b" using ne h(2) d by (intro trim_id) auto
  show "\<forall>c \<in> set (hex_enc ext b). (of_char c :: nat) < 128" using h(2) d by auto
  have "\<not> is_hexdigit newline" "\<not> is_hexdigit (CHR 0x0D)" by (simp_all add: newline_def is_hexdigit_def)
  then show "newline \<notin> set (hex_enc ext b)" "strip_cr (hex_enc ext b) = hex_enc ext b"
    using h(2) ne by (auto simp: strip_cr_def dest: last_in_set)
qed

lemma parse_chain_bytes:
  assumes "hex_ok ext" "\<forall>k \<in> set (kr_retired kr). length k = 32"
  shows "Caps.parse_chain ext (to_chain_bytes ext kr) = kr_retired kr"
proof -
  let ?ks = "kr_retired kr"
  let ?t = "concat (map (\<lambda>x. x @ [newline]) (map (hex_enc ext) ?ks))"
  have t: "to_chain_bytes ext kr = str_bytes ?t"
    unfolding to_chain_bytes_def by (induction ?ks rule: list.induct) (simp_all add: to_chain_bytes_def pk_str_def str_bytes_def map_concat comp_def)
  have asc: "\<forall>c \<in> set ?t. (of_char c :: nat) < 128" using hex_text(5) [OF assms(1)] assms(2) by (auto simp: newline_def)
  have "utf8_ok (str_bytes ?t)"
    by (rule utf8_ok_ascii) (use asc in \<open>auto simp: str_bytes_def word_less_unat unat_of_nat\<close>)
  then have "bytes_str (from_utf8_lossy (str_bytes ?t)) = ?t" by (simp add: lossy_id)
  moreover have "lines ?t = map (hex_enc ext) ?ks" by (rule lines_join) (use hex_text [OF assms(1)] assms(2) in auto)
  moreover have "concat (map (\<lambda>l. let line = trim l in if line = [] then [] else case parse_pk ext line of Inl _ \<Rightarrow> [] | Inr k \<Rightarrow> [k])
      (map (hex_enc ext) ks)) = ks" if "\<forall>k \<in> set ks. length k = 32" for ks
    using that hex_text(1,2) [OF assms(1)] parse_pk_str [OF assms(1)] by (induction ks) (auto simp: pk_str_def)
  ultimately show ?thesis using assms(2) by (simp add: Caps.parse_chain_def t)
qed

lemma parse_chain32: "k \<in> set (Caps.parse_chain ext bs) \<Longrightarrow> length k = 32"
  by (auto simp: Caps.parse_chain_def parse_pk_def Let_def split: if_splits sum.splits option.splits)

section \<open>The directory\<close>

lemma load_meta_bytes: "length kp = 32 \<Longrightarrow> keys_ok cx \<Longrightarrow> kd_meta kd = Some (meta_bytes cx kp) \<Longrightarrow> meta_load kd = Ok kp"
  by (simp add: meta_load_def meta_bytes_def META_MAGIC_def keys_ok_def)

lemma bt_insert_bounds: "length (bt_insert k v t) \<le> length t + 1" "x \<in> set (bt_insert k v t) \<Longrightarrow> x = (k, v) \<or> x \<in> set t"
  by (induction t) (auto split: if_splits)

lemma meta_set_snap_ok:
  assumes "snap_ok st" "st_revision st + 1 < 2 ^ 64" "length (st_meta st) + 1 < 2 ^ 32" "name_ok k" "length v < 2 ^ 32"
  shows "snap_ok (meta_set k v st)"
proof -
  have "state_inv st" using assms(1) by (simp add: snap_ok_def)
  then have "state_inv (meta_set k v st)"
    using kept_meta_op(2) [of st "bt_insert k v (st_meta st)" "st_revision st + 1"] state_invD(4) by (auto simp: kept_def meta_set_def)
  moreover have "\<forall>(k', v') \<in> set (bt_insert k v (st_meta st)). name_ok k' \<and> length v' < 2 ^ 32"
  proof
    fix x assume "x \<in> set (bt_insert k v (st_meta st))"
    then consider "x = (k, v)" | "x \<in> set (st_meta st)" using bt_insert_bounds(2) by metis
    then show "case x of (k', v') \<Rightarrow> name_ok k' \<and> length v' < 2 ^ 32" using assms(1,4,5) by cases (auto simp: snap_ok_def)
  qed
  moreover have "length (bt_insert k v (st_meta st)) < 2 ^ 32" using bt_insert_bounds(1) [of k v "st_meta st"] assms(3) by linarith
  ultimately show ?thesis using assms(1,2) unfolding snap_ok_def meta_set_def by simp
qed

lemma chain_length:
  assumes "hex_ok ext" "\<forall>k \<in> set (kr_retired kr). length k = 32"
  shows "length (to_chain_bytes ext kr) = 65 * length (kr_retired kr)"
proof -
  have "length (concat (map (\<lambda>k. str_bytes (pk_str ext k @ [newline])) ks)) = 65 * length ks" if "\<forall>k \<in> set ks. length k = 32" for ks
    using that assms(1) by (induction ks) (auto simp: pk_str_def hex_ok_def)
  then show ?thesis using assms(2) by (simp add: to_chain_bytes_def)
qed

text \<open>Setting metadata and checkpointing, as a rotation does it.\<close>

lemma set_and_checkpoint:
  assumes "ext_ok ext" "db_inv ext s" "snap_ok (meta_set k v (db_store s))" "k \<noteq> ''created_ms''"
  defines "s' \<equiv> snd (checkpoint (s\<lparr>db_store := meta_set k v (db_store s)\<rparr>))"
  shows "recoverable ext s'"
    and "\<exists>s3. open_durable ext later (db_disk s') False = Ok s3 \<and> db_inv ext s3 \<and> meta_get (db_store s3) k = Some v \<and>
      (\<forall>x. x \<noteq> k \<longrightarrow> x \<noteq> ''created_ms'' \<longrightarrow> meta_get (db_store s3) x = meta_get (db_store s) x)"
proof -
  note si = db_invD(1) [OF assms(2)]
  let ?s = "s\<lparr>db_store := meta_set k v (db_store s)\<rparr>"
  have "kept (db_store s) (meta_set k v (db_store s))"
    unfolding meta_set_def by (intro kept_meta_op(2) si) (simp add: state_invD(4) [OF si])
  then have inv: "db_inv ext ?s" using db_inv_kept [OF assms(2)] by simp
  have ok: "snap_ok (db_store ?s)" using assms(3) by simp
  show "recoverable ext s'" 
    unfolding s'_def recoverable_def by (intro conjI exI, rule checkpointed(1) [OF assms(1) inv ok], rule checkpointed(3) [OF assms(1) inv ok])
  obtain s3 where s3: "open_durable ext later (db_disk s') False = Ok s3" "db_inv ext s3"
      "\<forall>x. x \<noteq> ''created_ms'' \<or> bt_contains x (st_meta (db_store ?s)) \<longrightarrow> bt_get (st_meta (db_store s3)) x = bt_get (st_meta (db_store ?s)) x"
    using reopen_effect [OF assms(1) inv ok, of later False] unfolding s'_def by (elim exE conjE) fast
  have g: "meta_get (db_store s3) x = (if x = k then Some v else meta_get (db_store s) x)" if "x \<noteq> ''created_ms''" for x
    using s3(3) that state_invD(4) [OF si] by (simp add: meta_get_def meta_set_def bt_get_insert)
  show "\<exists>s3. open_durable ext later (db_disk s') False = Ok s3 \<and> db_inv ext s3 \<and> meta_get (db_store s3) k = Some v \<and>
      (\<forall>x. x \<noteq> k \<longrightarrow> x \<noteq> ''created_ms'' \<longrightarrow> meta_get (db_store s3) x = meta_get (db_store s) x)"
    using g assms(4) by (intro exI [of _ s3] conjI s3(1,2)) simp_all
qed

lemma recoverable_opens:
  assumes "ext_ok ext" "recoverable ext s" "open_durable ext now (db_disk s) False = Ok s1"
  shows "db_inv ext s1"
proof -
  obtain base where b: "db_inv ext s" "snap_agrees ext s base (covered base)" using assms(2) by (auto simp: recoverable_def)
  show ?thesis by (rule restarted [OF assms(1) b, of now False]) (use assms(3) in auto)
qed

lemma utf8_root_chain: "name_ok ''sys/root_chain''"
  by (simp add: name_ok_def utf8_ok_ascii str_bytes_def)

lemma chain_effect:
  assumes "ext_ok ext" "keys_ok cx" "node_ok ext cx s kp kd" "length kp = 32" "open_durable ext now (kd_disk kd) False = Ok s1"
    and "room ext (db_store s1)"
  obtains kd' s2 where "rotate_chain ext cx now new_kp d kd = (Ok (ed_public cx kp), kd')" "node_ok ext cx s2 kp kd'" "kd_tmp kd' = kd_tmp kd"
    "\<And>later. \<exists>s3. open_durable ext later (kd_disk kd') False = Ok s3 \<and>
       retired_keys ext (db_store s3) = next_retired d (ed_public cx kp) (retired_keys ext (db_store s1))"
proof -
  let ?old = "ed_public cx kp" and ?R = "retired_keys ext (db_store s1)"
  let ?N = "next_retired d ?old ?R"
  let ?v = "to_chain_bytes ext \<lparr>kr_active = ed_public cx new_kp, kr_retired = ?N\<rparr>"
  let ?s2 = "snd (checkpoint (s1\<lparr>db_store := meta_set ''sys/root_chain'' ?v (db_store s1)\<rparr>))"
  have n: "recoverable ext s" "kd_disk kd = db_disk s" "kd_meta kd = Some (meta_bytes cx kp)" using assms(3) by (auto simp: node_ok_def)
  have hex: "hex_ok ext" using assms(1) by (simp add: ext_ok_def)
  have l32: "\<forall>k \<in> set ?N. length k = 32"
    using assms(2,4) by (auto simp: next_retired_def retired_keys_def keys_ok_def dest: parse_chain32 split: option.splits)
  have len: "length ?v < 2 ^ 32"
    using chain_length [OF hex, of "\<lparr>kr_active = ed_public cx new_kp, kr_retired = ?N\<rparr>"] l32 assms(6) by (simp add: room_def next_retired_def)
  have inv: "db_inv ext s1" using recoverable_opens [OF assms(1) n(1)] assms(5) n(2) by simp
  have ok: "snap_ok (meta_set ''sys/root_chain'' ?v (db_store s1))"
    by (rule meta_set_snap_ok [OF _ _ _ utf8_root_chain len]) (use assms(6) in \<open>simp_all add: room_def\<close>)
  note sc = set_and_checkpoint [OF assms(1) inv ok]
  show thesis
  proof (rule that)
    show "rotate_chain ext cx now new_kp d kd = (Ok ?old, kd\<lparr>kd_disk := db_disk ?s2\<rparr>)"
      using load_meta_bytes [OF assms(4,2) n(3)] assms(5) by (simp add: rotate_chain_def next_retired_def Let_def)
    show "node_ok ext cx ?s2 kp (kd\<lparr>kd_disk := db_disk ?s2\<rparr>)" using n(3) sc(1) by (simp add: node_ok_def)
    show "\<exists>s3. open_durable ext later (kd_disk (kd\<lparr>kd_disk := db_disk ?s2\<rparr>)) False = Ok s3 \<and> retired_keys ext (db_store s3) = ?N" for later
      using sc(2) [of later] parse_chain_bytes [OF hex, of "\<lparr>kr_active = ed_public cx new_kp, kr_retired = ?N\<rparr>"] l32
      by (auto simp: retired_keys_def)
  qed simp
qed

lemma bt_get_insert_other: "j \<noteq> k \<Longrightarrow> bt_get (bt_insert k v t) j = bt_get t j"
  by (induction k v t rule: bt_insert.induct) (auto simp: bt_get_Cons)

lemma rebuild_meta [simp]: "st_meta (rebuild_secondary_indexes ext st) = st_meta st"
  using sec_onlyD(5) [OF sec_only_rebuild] .

lemma open_time:
  assumes "open_durable ext now dk d = Ok s"
  shows "\<exists>s'. open_durable ext later dk d = Ok s' \<and> retired_keys ext (db_store s') = retired_keys ext (db_store s)"
proof -
  let ?load = "case dk_snap dk of None \<Rightarrow> Ok (empty_store d, []) | Some bytes \<Rightarrow> load_snap bytes (empty_store d)"
  let ?mk = "\<lambda>t st. if bt_get (st_meta st) ''created_ms'' = None
    then st\<lparr>st_meta := bt_insert ''created_ms'' (u64_to_le t) (st_meta st)\<rparr> else st"
  obtain st info where a: "?load = Inr (st, info)" using assms unfolding open_durable_def by (cases ?load) auto
  have b: "find (\<lambda>ns. ns \<notin> set (ns_names ext dk)) (bt_keys info) = None"
    using assms unfolding open_durable_def a by (auto split: option.splits)
  obtain st' dk' where c: "open_all ext d info (ns_names ext dk) (st, dk) = Inr (st', dk')"
    using assms unfolding open_durable_def a sum.case prod.case b option.case
    by (cases "open_all ext d info (ns_names ext dk) (st, dk)") auto
  have o: "open_durable ext t dk d = Ok \<lparr>db_store = rebuild_secondary_indexes ext (?mk t st'), db_disk = dk'\<rparr>" for t
    unfolding open_durable_def a sum.case prod.case b option.case c Let_def ..
  have "meta_get (rebuild_secondary_indexes ext (?mk t st')) ''sys/root_chain'' = bt_get (st_meta st') ''sys/root_chain''" for t
    by (simp add: meta_get_def bt_get_insert_other)
  then show ?thesis using assms unfolding o retired_keys_def by auto
qed

lemma node_keyring_eq:
  assumes "keys_ok cx" "length kp = 32" "kd_meta kd = Some (meta_bytes cx kp)" "open_durable ext now (kd_disk kd) False = Ok s"
  shows "node_keyring ext cx now kd = Some \<lparr>kr_active = ed_public cx kp, kr_retired = retired_keys ext (db_store s)\<rparr>"
  using load_meta_bytes [OF assms(2,1,3)] assms(4) by (simp add: node_keyring_def)

lemma accepts_iff: "accepts_issuer kr k \<longleftrightarrow> k = kr_active kr \<or> k \<in> set (kr_retired kr)"
  by (simp add: accepts_issuer_def key_for_issuer_eq)

lemma verify_more_keys:
  assumes "\<forall>k. accepts_issuer kr k \<longrightarrow> accepts_issuer kr' k" "verify ext cx kr who rv t c = Ok ()"
  shows "verify ext cx kr' who rv t c = Ok ()"
  using assms accepts_iff [of kr "c_issuer c"] accepts_iff [of kr' "c_issuer c"]
  by (auto simp: verify_def key_for_issuer_eq split: if_splits)

lemma meta_write_effect:
  "kd_tmp kd = None \<Longrightarrow> meta_write cx kp kd = (Ok (), kd\<lparr>kd_tmp := None, kd_meta := Some (meta_bytes cx kp)\<rparr>)"
  by (simp add: meta_write_def write_mode600_def)

lemma rotate_effect:
  assumes "ext_ok ext" "keys_ok cx" "node_ok ext cx s kp kd" "length kp = 32" "length new_kp = 32" "kd_tmp kd = None"
    and "open_durable ext (now 0) (kd_disk kd) False = Ok s1" "room ext (db_store s1)"
  shows "\<exists>kd'. rotate_root ext cx now new_kp d False kd =
      (Ok \<lparr>ro_old = ed_public cx kp, ro_new = ed_public cx new_kp, ro_dropped = d, ro_admin_cap = None, ro_admin_warning = None\<rparr>, kd') \<and>
    kd_tmp kd' = None \<and>
    (\<forall>later. node_keyring ext cx later kd' =
      Some \<lparr>kr_active = ed_public cx new_kp, kr_retired = next_retired d (ed_public cx kp) (retired_keys ext (db_store s1))\<rparr>)"
proof -
  obtain kd' s2 where kd': "rotate_chain ext cx (now 0) new_kp d kd = (Ok (ed_public cx kp), kd')" "kd_tmp kd' = kd_tmp kd"
      "\<And>later. \<exists>s3. open_durable ext later (kd_disk kd') False = Ok s3 \<and>
       retired_keys ext (db_store s3) = next_retired d (ed_public cx kp) (retired_keys ext (db_store s1))"
    by (rule chain_effect [OF assms(1-4,7,8), of new_kp d]) blast
  let ?kd = "kd'\<lparr>kd_tmp := None, kd_meta := Some (meta_bytes cx new_kp)\<rparr>"
  have "node_keyring ext cx later ?kd =
      Some \<lparr>kr_active = ed_public cx new_kp, kr_retired = next_retired d (ed_public cx kp) (retired_keys ext (db_store s1))\<rparr>" for later
  proof -
    obtain s3 where "open_durable ext later (kd_disk ?kd) False = Ok s3"
        "retired_keys ext (db_store s3) = next_retired d (ed_public cx kp) (retired_keys ext (db_store s1))"
      using kd'(3) [of later] by auto
    then show ?thesis using node_keyring_eq [OF assms(2,5), of ?kd ext later s3] by simp
  qed
  then show ?thesis
    using kd'(1,2) assms(6) meta_write_effect [of kd' cx new_kp] by (intro exI [of _ ?kd]) (simp add: rotate_root_def)
qed

lemma crash_keyring:
  assumes "ext_ok ext" "keys_ok cx" "node_ok ext cx s kp kd" "length kp = 32" "length new_kp = 32"
    and "open_durable ext now (kd_disk kd) False = Ok s1" "room ext (db_store s1)" "rotate_crash ext cx now new_kp d kd kd'"
  shows "\<exists>kr. node_keyring ext cx later kd' = Some kr \<and>
    ((kr_active kr = ed_public cx kp \<and> kr_retired kr = retired_keys ext (db_store s1)) \<or>
     (kr_active kr \<in> {ed_public cx kp, ed_public cx new_kp} \<and> kr_retired kr = next_retired d (ed_public cx kp) (retired_keys ext (db_store s1))))"
proof -
  let ?N = "next_retired d (ed_public cx kp) (retired_keys ext (db_store s1))"
  have m: "kd_meta kd = Some (meta_bytes cx kp)" using assms(3) by (simp add: node_ok_def)
  obtain kd1 s2 where kd1: "rotate_chain ext cx now new_kp d kd = (Ok (ed_public cx kp), kd1)" "node_ok ext cx s2 kp kd1"
      "\<And>later. \<exists>s3. open_durable ext later (kd_disk kd1) False = Ok s3 \<and> retired_keys ext (db_store s3) = ?N"
    by (rule chain_effect [OF assms(1-4,6,7), of new_kp d]) blast
  obtain s3 where s3: "open_durable ext later (kd_disk kd1) False = Ok s3" "retired_keys ext (db_store s3) = ?N" using kd1(3) by blast
  have m1: "kd_meta kd1 = Some (meta_bytes cx kp)" using kd1(2) by (simp add: node_ok_def)
  have old: "node_keyring ext cx later (kd1\<lparr>kd_tmp := x\<rparr>) = Some \<lparr>kr_active = ed_public cx kp, kr_retired = ?N\<rparr>" for x
    using node_keyring_eq [OF assms(2,4), of "kd1\<lparr>kd_tmp := x\<rparr>" ext later s3] m1 s3 by simp
  from assms(8) show ?thesis
  proof cases
    case before
    obtain s' where "open_durable ext later (kd_disk kd) False = Ok s'" "retired_keys ext (db_store s') = retired_keys ext (db_store s1)"
      using open_time [OF assms(6)] by blast
    then show ?thesis using node_keyring_eq [OF assms(2,4) m, of ext later s'] before by simp
  next
    case (chain r)
    then show ?thesis using kd1(1) old [of "kd_tmp kd1"] by simp
  next
    case (tmp old kd2 n)
    then show ?thesis using kd1(1) old by simp
  next
    case (renamed old kd2)
    then have "kd' = kd1\<lparr>kd_tmp := None, kd_meta := Some (meta_bytes cx new_kp)\<rparr>"
      using kd1(1) by (auto simp: meta_write_def write_mode600_def split: option.splits)
    then show ?thesis using node_keyring_eq [OF assms(2,5), of kd' ext later s3] s3 by simp
  qed
qed

section \<open>A concrete node\<close>

lemma bare_snap_ok:
  assumes "st_logs st = []" "st_policies st = []" "st_index st = []" "st_tombs st = []" "st_peer_clocks st = []"
    and "bt_inv (st_meta st)" "length (st_meta st) < 2 ^ 32" "\<forall>(k, v) \<in> set (st_meta st). name_ok k \<and> length v < 2 ^ 32"
    and "st_revision st < 2 ^ 64"
  shows "snap_ok st"
  using assms by (simp add: snap_ok_def state_inv_def bt_inv_def bt_get_def bt_keys_def)

lemma created_name: "name_ok ''created_ms''"
  by (simp add: name_ok_def utf8_ok_ascii str_bytes_def)

lemma demo_keys_ok: "keys_ok demo_keys" "node_ok demo_ext demo_keys (empty_db False) zero32 demo_node"
  using life_recoverable [OF demo_ext_ok life.fresh, of False] by (simp_all add: keys_ok_def demo_keys_def node_ok_def demo_node_def)

lemma demo_open:
  obtains s1 where "open_durable demo_ext 0 (kd_disk demo_node) False = Ok s1" "room demo_ext (db_store s1)"
    "retired_keys demo_ext (db_store s1) = []" "st_policies (db_store s1) = []" "st_index (db_store s1) = []"
    "st_logs (db_store s1) = []" "st_tombs (db_store s1) = []" "st_peer_clocks (db_store s1) = []" "st_revision (db_store s1) = 0"
    "st_meta (db_store s1) = [(''created_ms'', u64_to_le 0)]" "dk_dirs (db_disk s1) = []"
proof -
  let ?st = "rebuild_secondary_indexes demo_ext ((empty_store False)\<lparr>st_meta := [(''created_ms'', u64_to_le 0)]\<rparr>)"
  note f = sec_onlyD [OF sec_only_rebuild [of "(empty_store False)\<lparr>st_meta := [(''created_ms'', u64_to_le 0)]\<rparr>" demo_ext]]
  have o: "open_durable demo_ext 0 (kd_disk demo_node) False = Ok \<lparr>db_store = ?st, db_disk = \<lparr>dk_snap = None, dk_dirs = []\<rparr>\<rparr>"
    by (simp add: open_durable_def demo_node_def empty_db_def ns_names_def bt_keys_def List.map_filter_def empty_store_def bt_get_def)
  have e: "st_logs ?st = []" "st_policies ?st = []" "st_index ?st = []" "st_tombs ?st = []" "st_peer_clocks ?st = []" "st_revision ?st = 0"
      "st_meta ?st = [(''created_ms'', u64_to_le 0)]"
    unfolding f by (simp_all add: empty_store_def)
  have r: "retired_keys demo_ext ?st = []" by (simp add: retired_keys_def meta_get_def e(7) bt_get_def)
  have "snap_ok ?st"
    by (rule bare_snap_ok) (simp_all only: e list.set list.size, simp_all add: bt_inv_def created_name u64_to_le_def)
  then have "room demo_ext ?st" unfolding room_def by (simp only: e r list.size) simp
  then show ?thesis using that [OF o] r e by simp
qed

lemma demo_open_again:
  assumes "rotate_chain demo_ext demo_keys 0 kp' False demo_node = (Ok old, kd1)"
  obtains s2 where "open_durable demo_ext 0 (kd_disk kd1) False = Ok s2" "room demo_ext (db_store s2)"
proof -
  obtain s1 where s1: "open_durable demo_ext 0 (kd_disk demo_node) False = Ok s1" "room demo_ext (db_store s1)"
    "retired_keys demo_ext (db_store s1) = []" "st_policies (db_store s1) = []" "st_index (db_store s1) = []"
    "st_logs (db_store s1) = []" "st_tombs (db_store s1) = []" "st_peer_clocks (db_store s1) = []" "st_revision (db_store s1) = 0"
    "st_meta (db_store s1) = [(''created_ms'', u64_to_le 0)]" "dk_dirs (db_disk s1) = []"
    by (rule demo_open)
  let ?v = "to_chain_bytes demo_ext \<lparr>kr_active = kp', kr_retired = [zero32]\<rparr>"
  let ?t = "meta_set ''sys/root_chain'' ?v (db_store s1)"
  have z: "length zero32 = 32" by (simp add: zero32_def)
  have k: "kd_disk kd1 = (db_disk s1)\<lparr>dk_snap := Some (snap_bytes ?t)\<rparr>"
    using assms load_meta_bytes [OF z demo_keys_ok(1), of demo_node] s1(1,3)
    by (auto simp: rotate_chain_def Let_def checkpoint_def demo_node_def demo_keys_def)
  have v: "length ?v < 2 ^ 32" using chain_length [OF demo_hex_ok, of "\<lparr>kr_active = kp', kr_retired = [zero32]\<rparr>"] z by simp
  have m: "st_meta ?t = [(''created_ms'', u64_to_le 0), (''sys/root_chain'', ?v)]"
    using s1(10) by (simp add: meta_set_def)
  have ok: "snap_ok ?t"
    by (rule meta_set_snap_ok) (use s1(2) v utf8_root_chain in \<open>auto simp: room_def\<close>)
  let ?l = "(empty_store False)\<lparr>st_revision := st_revision ?t, st_meta := st_meta ?t\<rparr>"
  have e: "st_policies ?t = []" "st_index ?t = []" "st_tombs ?t = []" "st_peer_clocks ?t = []" using s1 by (simp_all add: meta_set_def)
  have ld: "load_snap (snap_bytes ?t) (empty_store False) = Ok (?l, [])"
    using load_snap_snap_bytes [OF ok, of False] unfolding e by (simp add: empty_store_def)
  let ?st = "rebuild_secondary_indexes demo_ext ?l"
  have o: "open_durable demo_ext 0 (kd_disk kd1) False = Ok \<lparr>db_store = ?st, db_disk = kd_disk kd1\<rparr>"
    using s1(11) m by (simp add: open_durable_def k ld ns_names_def bt_keys_def List.map_filter_def bt_get_Cons)
  note f = sec_onlyD [OF sec_only_rebuild [of ?l demo_ext]]
  have ef: "st_logs ?st = []" "st_policies ?st = []" "st_index ?st = []" "st_tombs ?st = []" "st_peer_clocks ?st = []" "st_revision ?st = 1"
      "st_meta ?st = [(''created_ms'', u64_to_le 0), (''sys/root_chain'', ?v)]"
    unfolding f using s1(9) m by (simp_all add: empty_store_def meta_set_def)
  have "retired_keys demo_ext ?st = [zero32]"
    using parse_chain_bytes [OF demo_hex_ok, of "\<lparr>kr_active = kp', kr_retired = [zero32]\<rparr>"] z by (simp add: retired_keys_def meta_get_def m bt_get_Cons)
  moreover have "snap_ok ?st"
    by (rule bare_snap_ok) (simp_all only: ef list.set list.size, use v created_name utf8_root_chain in \<open>auto simp: bt_inv_def u64_to_le_def\<close>)
  ultimately have "room demo_ext ?st" unfolding room_def by (simp only: ef list.size) simp
  then show ?thesis using that [OF o] by simp
qed

section \<open>Properties\<close>



text \<open>C11.  An interrupted rotation keeps every capability: wherever a graceful rotation is cut off, before or
  after the chain is written, within the temporary file, or after the rename, the daemon that is
  started next accepts every capability that was accepted before.\<close>

theorem interrupted_rotation_keeps_capabilities:
  assumes "ext_ok ext" "keys_ok cx" "node_ok ext cx s kp kd" "length kp = 32" "length new_kp = 32"
    and "open_durable ext now (kd_disk kd) False = Ok s1" "room ext (db_store s1)"
    and "rotate_crash ext cx now new_kp False kd kd'"
    and "node_keyring ext cx now kd = Some kr" "verify ext cx kr who rv t c = Ok ()"
  shows "\<exists>kr'. node_keyring ext cx later kd' = Some kr' \<and> verify ext cx kr' who rv t c = Ok ()"
proof -
  have m: "kd_meta kd = Some (meta_bytes cx kp)" using assms(3) by (simp add: node_ok_def)
  have kr: "kr = \<lparr>kr_active = ed_public cx kp, kr_retired = retired_keys ext (db_store s1)\<rparr>"
    using node_keyring_eq [OF assms(2,4) m assms(6)] assms(9) by simp
  obtain kr' where kr': "node_keyring ext cx later kd' = Some kr'"
      "(kr_active kr' = ed_public cx kp \<and> kr_retired kr' = retired_keys ext (db_store s1)) \<or>
       (kr_active kr' \<in> {ed_public cx kp, ed_public cx new_kp} \<and> kr_retired kr' = next_retired False (ed_public cx kp) (retired_keys ext (db_store s1)))"
    using crash_keyring [OF assms(1-8), of later] by blast
  have "\<forall>k. accepts_issuer kr k \<longrightarrow> accepts_issuer kr' k" using kr'(2) by (auto simp: accepts_iff kr next_retired_def split: if_splits)
  then show ?thesis using verify_more_keys [OF _ assms(10)] kr'(1) by blast
qed

theorem interrupted_rotation_keeps_capabilities_witness:
  "\<exists>kd' kr'. rotate_crash demo_ext demo_keys 0 (replicate 32 1) False demo_node kd' \<and> kd_tmp kd' = Some (take 9 (meta_bytes demo_keys (replicate 32 1))) \<and>
     node_keyring demo_ext demo_keys 5 kd' = Some kr' \<and> verify demo_ext demo_keys kr' zero32 new_revocations 5 demo_cap = Ok ()"
proof -
  let ?n = "replicate 32 1 :: keypair"
  obtain s1 where s1: "open_durable demo_ext 0 (kd_disk demo_node) False = Ok s1" "room demo_ext (db_store s1)"
    "retired_keys demo_ext (db_store s1) = []"
    by (rule demo_open)
  have l: "length zero32 = 32" "length ?n = 32" by (simp_all add: zero32_def)
  obtain kd1 where k: "rotate_chain demo_ext demo_keys 0 ?n False demo_node = (Ok (ed_public demo_keys zero32), kd1)" "kd_tmp kd1 = kd_tmp demo_node"
    by (rule chain_effect [OF demo_ext_ok demo_keys_ok l(1) s1(1,2), of ?n False]) blast
  let ?kd = "kd1\<lparr>kd_tmp := Some (take 9 (meta_bytes demo_keys ?n))\<rparr>"
  have c: "rotate_crash demo_ext demo_keys 0 ?n False demo_node ?kd"
    using rotate_crash.tmp [OF k(1), of 9] k(2) by (simp add: demo_node_def)
  let ?kr = "\<lparr>kr_active = zero32, kr_retired = []\<rparr>"
  have r: "node_keyring demo_ext demo_keys 0 demo_node = Some ?kr"
    using node_keyring_eq [OF demo_keys_ok(1) l(1) _ s1(1)] s1(3) by (simp add: demo_node_def demo_keys_def)
  have v: "verify demo_ext demo_keys ?kr zero32 new_revocations 5 demo_cap = Ok ()"
    by (simp add: verify_def key_for_issuer_def demo_keys_def demo_cx_def demo_cap_def expired_def is_revoked_def new_revocations_def)
  from interrupted_rotation_keeps_capabilities [OF demo_ext_ok demo_keys_ok l s1(1,2) c r v, of 5] c show ?thesis by auto
qed

text \<open>C39.  A key cannot be dropped after an interrupted rotation: if a graceful rotation is cut off after the
  chain is written, the key that is still active is already in the chain, and a rotation that
  drops the predecessor reports that it did, but leaves it there: the dropped key is accepted.\<close>

theorem drop_after_interruption_keeps_key:
  assumes "ext_ok ext" "keys_ok cx" "node_ok ext cx s kp kd" "length kp = 32" "length new_kp = 32" "kd_tmp kd = None"
    and "open_durable ext now0 (kd_disk kd) False = Ok s1" "room ext (db_store s1)"
    and "rotate_chain ext cx now0 kp' False kd = (Ok old, kd1)"
    and "open_durable ext (now 0) (kd_disk kd1) False = Ok s2" "room ext (db_store s2)"
  shows "rotate_crash ext cx now0 kp' False kd kd1 \<and>
    (\<exists>out kd2 kr. rotate_root ext cx now new_kp True False kd1 = (Ok out, kd2) \<and> ro_dropped out \<and> ro_old out = ed_public cx kp \<and>
       node_keyring ext cx later kd2 = Some kr \<and> accepts_issuer kr (ed_public cx kp))"
proof -
  obtain kd' s' where k: "rotate_chain ext cx now0 kp' False kd = (Ok (ed_public cx kp), kd')" "node_ok ext cx s' kp kd'" "kd_tmp kd' = kd_tmp kd"
      "\<And>later. \<exists>s3. open_durable ext later (kd_disk kd') False = Ok s3 \<and>
       retired_keys ext (db_store s3) = next_retired False (ed_public cx kp) (retired_keys ext (db_store s1))"
    by (rule chain_effect [OF assms(1-4,7,8), of kp' False]) blast
  have kd': "kd' = kd1" using k(1) assms(9) by simp
  have r: "ed_public cx kp \<in> set (retired_keys ext (db_store s2))"
    using k(4) [of "now 0"] assms(10) unfolding kd' by (auto simp: next_retired_def)
  have t: "kd_tmp kd1 = None" using k(3) assms(6) kd' by simp
  from rotate_effect [where now = now and d = True, OF assms(1,2) k(2) [unfolded kd'] assms(4,5) t assms(10,11)] r rotate_crash.chain [OF assms(9)]
  show ?thesis by (auto simp: accepts_iff next_retired_def)
qed

theorem drop_after_interruption_keeps_key_witness:
  "\<exists>kd1 out kd2 kr. rotate_crash demo_ext demo_keys 0 (replicate 32 1) False demo_node kd1 \<and>
     rotate_root demo_ext demo_keys (\<lambda>_. 0) (replicate 32 2) True False kd1 = (Ok out, kd2) \<and> ro_dropped out \<and>
     node_keyring demo_ext demo_keys 5 kd2 = Some kr \<and> accepts_issuer kr zero32"
proof -
  obtain s1 where s1: "open_durable demo_ext 0 (kd_disk demo_node) False = Ok s1" "room demo_ext (db_store s1)"
    by (rule demo_open)
  have l: "length zero32 = 32" "length (replicate 32 (2 :: 8 word)) = 32" "kd_tmp demo_node = None" by (simp_all add: zero32_def demo_node_def)
  obtain kd1 where k: "rotate_chain demo_ext demo_keys 0 (replicate 32 1) False demo_node = (Ok (ed_public demo_keys zero32), kd1)"
    by (rule chain_effect [OF demo_ext_ok demo_keys_ok l(1) s1, of "replicate 32 1" False]) blast
  obtain s2 where s2: "open_durable demo_ext 0 (kd_disk kd1) False = Ok s2" "room demo_ext (db_store s2)"
    by (rule demo_open_again [OF k])
  have "ed_public demo_keys zero32 = zero32" by (simp add: demo_keys_def)
  then show ?thesis
    using drop_after_interruption_keeps_key [where now = "\<lambda>_. 0" and later = 5, OF demo_ext_ok demo_keys_ok l s1 k s2] by auto
qed

text \<open>C40.  A rotation that is cut off while it writes the temporary file blocks every later one: the file is
  created anew only if it does not exist and nothing removes it, so that each further rotation,
  in either mode, fails and the active key stays.\<close>

theorem interrupted_rotation_blocks_rotation:
  assumes "rotate_chain ext cx now0 kp' d kd = (Ok old, kd1)" "kd_tmp kd = None"
  shows "\<exists>kd2. rotate_crash ext cx now0 kp' d kd kd2 \<and> kd_meta kd2 = kd_meta kd \<and>
    (\<forall>attempts now new_kp drop_predecessor reissue.
       let kd3 = fold (\<lambda>(now, new_kp, drop_predecessor, reissue) kd. snd (rotate_root ext cx now new_kp drop_predecessor reissue kd)) attempts kd2
       in kd_meta kd3 = kd_meta kd \<and> (\<exists>e kd4. rotate_root ext cx now new_kp drop_predecessor reissue kd3 = (Err e, kd4)))"
proof -
  have step: "\<exists>e kd'. rotate_root ext cx now new_kp dp re x = (Err e, kd') \<and> kd_meta kd' = kd_meta x \<and> kd_tmp kd' = kd_tmp x"
    if "kd_tmp x \<noteq> None" for now new_kp dp re and x :: node_dir
    using that by (auto simp: rotate_root_def rotate_chain_def meta_write_def write_mode600_def Let_def
        split: sum.splits prod.splits option.splits if_splits)
  have keep: "kd_meta (fold (\<lambda>(now, new_kp, dp, re) kd. snd (rotate_root ext cx now new_kp dp re kd)) attempts x) = kd_meta x \<and>
      kd_tmp (fold (\<lambda>(now, new_kp, dp, re) kd. snd (rotate_root ext cx now new_kp dp re kd)) attempts x) \<noteq> None"
    if "kd_tmp x \<noteq> None" for attempts :: "((nat \<Rightarrow> u64) \<times> keypair \<times> bool \<times> bool) list" and x
    using that
  proof (induction attempts arbitrary: x)
    case (Cons a attempts)
    obtain now new_kp dp re where a: "a = (now, new_kp, dp, re)" by (metis prod_cases4)
    then show ?case using Cons step [OF Cons(2), of now new_kp dp re] by auto
  qed simp
  let ?kd = "kd1\<lparr>kd_tmp := Some (take 1 (meta_bytes cx kp'))\<rparr>"
  have k1: "kd_meta kd1 = kd_meta kd" "kd_tmp kd1 = kd_tmp kd"
    using assms(1) by (auto simp: rotate_chain_def Let_def split: sum.splits)
  have "rotate_crash ext cx now0 kp' d kd ?kd" using rotate_crash.tmp [OF assms(1)] k1(2) assms(2) by simp
  moreover have "kd_tmp ?kd \<noteq> None" "kd_meta ?kd = kd_meta kd" using k1(1) by simp_all
  ultimately show ?thesis using keep [of ?kd] step unfolding Let_def by (intro exI [of _ ?kd]) metis
qed

theorem interrupted_rotation_blocks_rotation_witness:
  "\<exists>kd2 e kd4. rotate_crash demo_ext demo_keys 0 (replicate 32 1) False demo_node kd2 \<and> kd_meta kd2 = kd_meta demo_node \<and>
     rotate_root demo_ext demo_keys (\<lambda>_. 0) (replicate 32 2) False True kd2 = (Err e, kd4)"
proof -
  obtain s1 where s1: "open_durable demo_ext 0 (kd_disk demo_node) False = Ok s1" "room demo_ext (db_store s1)"
    by (rule demo_open)
  have l: "length zero32 = 32" "kd_tmp demo_node = None" by (simp_all add: zero32_def demo_node_def)
  obtain kd1 where k: "rotate_chain demo_ext demo_keys 0 (replicate 32 1) False demo_node = (Ok (ed_public demo_keys zero32), kd1)"
    by (rule chain_effect [OF demo_ext_ok demo_keys_ok l(1) s1, of "replicate 32 1" False]) blast
  obtain kd2 where c: "rotate_crash demo_ext demo_keys 0 (replicate 32 1) False demo_node kd2" "kd_meta kd2 = kd_meta demo_node"
      and f: "\<And>attempts now new_kp d r. \<exists>e kd4. rotate_root demo_ext demo_keys now new_kp d r
        (fold (\<lambda>(now, new_kp, d, r) kd. snd (rotate_root demo_ext demo_keys now new_kp d r kd)) attempts kd2) = (Err e, kd4)"
    using interrupted_rotation_blocks_rotation [OF k l(2)] unfolding Let_def by blast
  from f [of "\<lambda>_. 0" "replicate 32 2" False True "[]"] c show ?thesis by auto
qed

end
